(* ===== verification/Prelude.thy ===== *)
theory Prelude
  imports Main "HOL-Library.Word"
begin

text \<open>
  Shared vocabulary of the development: the widths of the C integers, the
  failures a C program can run into (as values of a sum type), checked array
  access, and the arithmetic of ring buffers.
\<close>

unbundle bit_operations_syntax

section \<open>Types of the C program\<close>

type_synonym u8 = "8 word"
type_synonym u16 = "16 word"
type_synonym u32 = "32 word"
type_synonym u64 = "64 word"

text \<open>A heap address; \<^verbatim>\<open>NULL\<close> is \<open>None\<close> where the code tests for it.\<close>

type_synonym addr = nat

text \<open>The equations by which results that may be failures are computed, collected under one name.\<close>

named_theorems res_simps \<open>rewriting of results that may be failures\<close>

text \<open>A C string is the list of its bytes, without the final zero.\<close>

type_synonym cstring = "u8 list"

section \<open>Failures as values\<close>

text \<open>
  What C leaves undefined, and what aborts the process, is an explicit
  alternative of every operation that can reach it.
\<close>

datatype c_error =
    Assert_failed     \<comment> \<open>\<^verbatim>\<open>assert(e)\<close> with a false \<open>e\<close>\<close>
  | Bad_pointer       \<comment> \<open>a null or dangling pointer is followed\<close>
  | Out_of_bounds     \<comment> \<open>an array is accessed outside its length\<close>
  | Uninitialised     \<comment> \<open>memory is read before it is written\<close>
  | Int_overflow      \<comment> \<open>a signed integer leaves its range\<close>
  | Diverges          \<comment> \<open>a loop does not end\<close>
  | Exits             \<comment> \<open>\<^verbatim>\<open>exit(1)\<close> after a diagnostic\<close>
  | Throws            \<comment> \<open>an exception of C++ leaves the function\<close>
  | Div_by_zero       \<comment> \<open>a remainder or quotient by 0\<close>

type_synonym 'a res = "c_error + 'a"

definition bindR :: "'e + 'a \<Rightarrow> ('a \<Rightarrow> 'e + 'b) \<Rightarrow> 'e + 'b" where
  "bindR m f = (case m of Inl e \<Rightarrow> Inl e | Inr x \<Rightarrow> f x)"

lemma bindR_Inl [simp, res_simps]: "bindR (Inl e) f = Inl e"
  by (simp add: bindR_def)

lemma bindR_Inr [simp, res_simps]: "bindR (Inr x) f = f x"
  by (simp add: bindR_def)

lemma bindR_eq_Inr [res_simps]:
  "bindR m f = Inr y \<longleftrightarrow> (\<exists>x. m = Inr x \<and> f x = Inr y)"
  by (cases m) simp_all

lemma bindR_assoc [res_simps]: "bindR (bindR m f) g = bindR m (\<lambda>x. bindR (f x) g)"
  by (cases m) simp_all

lemma bindR_cong [fundef_cong]:
  "m = m' \<Longrightarrow> (\<And>x. m' = Inr x \<Longrightarrow> f x = f' x) \<Longrightarrow> bindR m f = bindR m' f'"
  by (cases m') simp_all

definition c_assert :: "bool \<Rightarrow> unit res" where
  "c_assert b = (if b then Inr () else Inl Assert_failed)"

lemma c_assert_True [simp, res_simps]: "b \<Longrightarrow> c_assert b = Inr ()"
  by (simp add: c_assert_def)

lemma c_assert_eq_Inr [res_simps]: "c_assert b = Inr u \<longleftrightarrow> b"
  by (simp add: c_assert_def)

text \<open>\<^verbatim>\<open>int\<close> has 32 bits; a sum or product that leaves its range is undefined.\<close>

definition INT_MAX :: nat where
  "INT_MAX = 2147483647"

definition c_int :: "nat \<Rightarrow> nat res" where
  "c_int n = (if n \<le> INT_MAX then Inr n else Inl Int_overflow)"

lemma c_int_ok [simp, res_simps]: "n \<le> INT_MAX \<Longrightarrow> c_int n = Inr n"
  by (simp add: c_int_def)

text \<open>Evaluation compares with the bound as an integer, in binary.\<close>

lemma le_INT_MAX_code [code_unfold]: "n \<le> INT_MAX \<longleftrightarrow> int n \<le> 2147483647"
  by (simp add: INT_MAX_def)

lemma int_INT_MAX_code [code_unfold]: "int INT_MAX = 2147483647"
  by (simp add: INT_MAX_def)

text \<open>The same for operands that may be negative, and the remainder of C, which has the sign of the dividend.\<close>

definition c_sint :: "int \<Rightarrow> int res" where
  "c_sint n = (if - int INT_MAX - 1 \<le> n \<and> n \<le> int INT_MAX then Inr n else Inl Int_overflow)"

lemma c_sint_ok [simp, res_simps]: "- int INT_MAX - 1 \<le> n \<Longrightarrow> n \<le> int INT_MAX \<Longrightarrow> c_sint n = Inr n"
  by (simp add: c_sint_def)

definition c_rem :: "int \<Rightarrow> int \<Rightarrow> int" where
  "c_rem a b = (if a < 0 then - ((- a) mod \<bar>b\<bar>) else a mod \<bar>b\<bar>)"

definition c_quot :: "int \<Rightarrow> int \<Rightarrow> int" where
  "c_quot a b = (if (a < 0) = (b < 0) then \<bar>a\<bar> div \<bar>b\<bar> else - (\<bar>a\<bar> div \<bar>b\<bar>))"

lemma c_quot_nonneg: "0 \<le> a \<Longrightarrow> 0 \<le> b \<Longrightarrow> c_quot a b = a div b"
  by (simp add: c_quot_def)

lemma c_rem_nonneg: "0 \<le> a \<Longrightarrow> 0 \<le> b \<Longrightarrow> c_rem a b = a mod b"
  by (simp add: c_rem_def)

section \<open>Checked arrays\<close>

definition aget :: "'a list \<Rightarrow> nat \<Rightarrow> 'a res" where
  "aget xs i = (if i < length xs then Inr (xs ! i) else Inl Out_of_bounds)"

definition aset :: "'a list \<Rightarrow> nat \<Rightarrow> 'a \<Rightarrow> 'a list res" where
  "aset xs i x = (if i < length xs then Inr (xs[i := x]) else Inl Out_of_bounds)"

lemma aget_ok [simp, res_simps]: "i < length xs \<Longrightarrow> aget xs i = Inr (xs ! i)"
  by (simp add: aget_def)

lemma aset_ok [simp, res_simps]: "i < length xs \<Longrightarrow> aset xs i x = Inr (xs[i := x])"
  by (simp add: aset_def)

text \<open>\<^verbatim>\<open>memcpy\<close> into an array, from an index on.\<close>

definition memcpy_at :: "'a list \<Rightarrow> nat \<Rightarrow> 'a list \<Rightarrow> 'a list res" where
  "memcpy_at dst off src =
     (if off + length src \<le> length dst then Inr (take off dst @ src @ drop (off + length src) dst)
      else Inl Out_of_bounds)"

lemma memcpy_at_length: "memcpy_at dst off src = Inr d \<Longrightarrow> length d = length dst"
  by (auto simp: memcpy_at_def split: if_splits)

text \<open>Memory that may not have been written yet: an option, read with a check.\<close>

definition init :: "'a option \<Rightarrow> 'a res" where
  "init v = (case v of None \<Rightarrow> Inl Uninitialised | Some x \<Rightarrow> Inr x)"

lemma init_Some [simp, res_simps]: "init (Some x) = Inr x"
  by (simp add: init_def)

text \<open>Following a pointer into a heap of one kind of object.\<close>

definition deref :: "(addr \<rightharpoonup> 'a) \<Rightarrow> addr \<Rightarrow> 'a res" where
  "deref h a = (case h a of None \<Rightarrow> Inl Bad_pointer | Some x \<Rightarrow> Inr x)"

lemma deref_ok [simp, res_simps]: "h a = Some x \<Longrightarrow> deref h a = Inr x"
  by (simp add: deref_def)

lemma deref_eq_Inr [res_simps]: "deref h a = Inr x \<longleftrightarrow> h a = Some x"
  by (simp add: deref_def split: option.splits)

text \<open>The result of a loop that may not end.\<close>

definition run_loop :: "'a res option \<Rightarrow> 'a res" where
  "run_loop r = (case r of None \<Rightarrow> Inl Diverges | Some v \<Rightarrow> v)"

lemma run_loop_Some [simp]: "run_loop (Some r) = r"
  by (simp add: run_loop_def)

lemma option_eqI: "(\<And>x. a = Some x \<longleftrightarrow> b = Some x) \<Longrightarrow> a = b"
  by (metis option.exhaust)

section \<open>Masks and shifts of machine words\<close>

lemma unat_u32_less: "unat (w :: u32) < 2 ^ 32"
  using unsigned_less [of w] by simp

lemma unat_and_mask: "unat (w AND Bit_Operations.mask k) = unat w mod 2 ^ k"
  by (simp only: take_bit_eq_mask [symmetric] unsigned_take_bit_eq take_bit_eq_mod [of k "unat w"])

lemma unat_drop_bit_div: "unat (drop_bit k w) = unat w div 2 ^ k"
  by (simp only: unat_drop_bit_eq drop_bit_eq_div [of k "unat w"])

lemma and_mask_zero_iff: "w AND Bit_Operations.mask k = 0 \<longleftrightarrow> 2 ^ k dvd unat w"
  by (simp only: unat_eq_zero [symmetric] unat_and_mask dvd_eq_mod_eq_0)

text \<open>Setting the low bits of two words makes them equal when they share the high bits.\<close>

lemma or_mask_eq_iff:
  fixes t c :: "'a::len word"
  shows "t OR Bit_Operations.mask k = c OR Bit_Operations.mask k \<longleftrightarrow> unat t div 2 ^ k = unat c div 2 ^ k"
proof -
  have "t OR Bit_Operations.mask k = c OR Bit_Operations.mask k \<longleftrightarrow> drop_bit k t = drop_bit k c"
  proof
    assume eq: "t OR Bit_Operations.mask k = c OR Bit_Operations.mask k"
    show "drop_bit k t = drop_bit k c"
    proof (rule bit_word_eqI)
      fix n
      from arg_cong [OF eq, of "\<lambda>w. bit w (k + n)"]
      show "bit (drop_bit k t) n = bit (drop_bit k c) n" by (simp add: bit_simps)
    qed
  next
    assume eq: "drop_bit k t = drop_bit k c"
    show "t OR Bit_Operations.mask k = c OR Bit_Operations.mask k"
    proof (rule bit_word_eqI)
      fix n assume "n < LENGTH('a)"
      then show "bit (t OR Bit_Operations.mask k) n = bit (c OR Bit_Operations.mask k) n"
        using arg_cong [OF eq, of "\<lambda>w. bit w (n - k)"]
        by (cases "n < k") (simp_all add: bit_simps)
    qed
  qed
  also have "\<dots> \<longleftrightarrow> unat t div 2 ^ k = unat c div 2 ^ k"
    by (simp only: word_unat_eq_iff unat_drop_bit_div)
  finally show ?thesis .
qed

section \<open>Ring buffers\<close>

text \<open>
  A ring of \<open>length buf\<close> slots holds \<open>n\<close> entries from slot \<open>h\<close> on.
\<close>

definition ring_seg :: "'a list \<Rightarrow> nat \<Rightarrow> nat \<Rightarrow> 'a list" where
  "ring_seg buf h n = map (\<lambda>i. buf ! ((h + i) mod length buf)) [0..<n]"

definition ring_len :: "nat \<Rightarrow> nat \<Rightarrow> nat \<Rightarrow> nat" where
  "ring_len cap h t = (if h \<le> t then t - h else t + cap - h)"

definition ring_next :: "nat \<Rightarrow> nat \<Rightarrow> nat" where
  "ring_next cap i = (if Suc i \<ge> cap then 0 else Suc i)"

lemma length_ring_seg [simp]: "length (ring_seg buf h n) = n"
  by (simp add: ring_seg_def)

lemma ring_seg_0 [simp]: "ring_seg buf h 0 = []"
  by (simp add: ring_seg_def)

lemma ring_len_less: "h < cap \<Longrightarrow> t < cap \<Longrightarrow> ring_len cap h t < cap"
  by (auto simp: ring_len_def)

lemma ring_len_0_iff: "h < cap \<Longrightarrow> t < cap \<Longrightarrow> ring_len cap h t = 0 \<longleftrightarrow> h = t"
  by (auto simp: ring_len_def)

lemma ring_len_same [simp]: "ring_len cap h h = 0"
  by (simp add: ring_len_def)

lemma ring_next_less: "0 < cap \<Longrightarrow> ring_next cap i < cap"
  by (auto simp: ring_next_def)

lemma ring_next_mod: "i < cap \<Longrightarrow> ring_next cap i = Suc i mod cap"
  by (auto simp: ring_next_def le_Suc_eq)

lemma ring_tail_mod:
  assumes "h < cap" "t < cap"
  shows "(h + ring_len cap h t) mod cap = t"
  using assms by (auto simp: ring_len_def)

lemma ring_len_push:
  assumes "h < cap" "t < cap" "ring_next cap t \<noteq> h"
  shows "ring_len cap h (ring_next cap t) = Suc (ring_len cap h t)"
  using assms by (auto simp: ring_len_def ring_next_def split: if_splits)

lemma ring_len_full:
  assumes "h < cap" "t < cap" "ring_next cap t = h"
  shows "Suc (ring_len cap h t) = cap"
  using assms by (auto simp: ring_len_def ring_next_def split: if_splits)

lemma ring_len_pop:
  assumes "h < cap" "t < cap" "h \<noteq> t"
  shows "ring_len cap h t = Suc (ring_len cap (ring_next cap h) t)"
  using assms by (auto simp: ring_len_def ring_next_def split: if_splits)

lemma ring_seg_Suc:
  "h < length buf \<Longrightarrow> ring_seg buf h (Suc n) = buf ! h # ring_seg buf (ring_next (length buf) h) n"
proof -
  assume h: "h < length buf"
  have "(h + Suc i) mod length buf = (ring_next (length buf) h + i) mod length buf" for i
    using h by (simp add: ring_next_mod mod_simps)
  moreover have "[0..<Suc n] = 0 # map Suc [0..<n]"
    by (simp add: upt_conv_Cons map_Suc_upt del: upt_Suc)
  ultimately show ?thesis
    using h by (simp add: ring_seg_def del: upt_Suc)
qed

lemma ring_seg_snoc:
  "ring_seg buf h (Suc n) = ring_seg buf h n @ [buf ! ((h + n) mod length buf)]"
  by (simp add: ring_seg_def)

lemma ring_slot_inj:
  assumes "i < n" "n < (cap :: nat)"
  shows "(h + i) mod cap \<noteq> (h + n) mod cap"
proof
  assume eq: "(h + i) mod cap = (h + n) mod cap"
  then have "cap dvd (h + n) - (h + i)"
    using mod_eq_dvd_iff_nat [of "h + i" "h + n" cap] assms by simp
  then have "cap dvd n - i" by simp
  then show False using assms by (auto dest: dvd_imp_le)
qed

lemma ring_seg_write:
  assumes "n < length buf"
  shows "ring_seg (buf[(h + n) mod length buf := x]) h n = ring_seg buf h n"
  unfolding ring_seg_def
proof (rule map_cong)
  fix i assume "i \<in> set [0..<n]"
  then have "(h + i) mod length buf \<noteq> (h + n) mod length buf"
    using ring_slot_inj [OF _ assms] by simp
  then show "buf[(h + n) mod length buf := x] ! ((h + i) mod length (buf[(h + n) mod length buf := x]))
      = buf ! ((h + i) mod length buf)" by simp
qed simp

text \<open>Writing at the tail slot appends to the content.\<close>

lemma ring_seg_push:
  assumes "h < length buf" "t < length buf"
  shows "ring_seg (buf[t := x]) h (Suc (ring_len (length buf) h t))
         = ring_seg buf h (ring_len (length buf) h t) @ [x]"
proof -
  let ?n = "ring_len (length buf) h t"
  have t: "(h + ?n) mod length buf = t" using assms by (rule ring_tail_mod)
  have n: "?n < length buf" using assms by (rule ring_len_less)
  have "ring_seg (buf[t := x]) h ?n = ring_seg buf h ?n"
    using ring_seg_write [OF n, of h x] by (simp add: t)
  then show ?thesis using assms(2) by (simp add: ring_seg_snoc t)
qed

text \<open>Copying a full ring to the front of a larger array keeps its content.\<close>

lemma ring_seg_linear:
  "n \<le> length buf \<Longrightarrow> ring_seg buf 0 n = take n buf"
  by (rule nth_equalityI) (auto simp: ring_seg_def)

end
