(* ===== verification/Fifo.thy ===== *)
theory Fifo
  imports Prelude
begin

text \<open>
  The contract of a first-in first-out queue with a bounded length, as the
  clients of the kernel's message queue and of the queues of the harbor service
  rely on it.  A queue is observed through its content, a list; every
  law says that an operation succeeds and what the content is afterwards.
\<close>

datatype 'm qop = Enq 'm | Deq

text \<open>Running a sequence of operations; the outputs are the results of the dequeues.\<close>

fun qrun :: "('m \<Rightarrow> 'q \<Rightarrow> 'q res) \<Rightarrow> ('q \<Rightarrow> ('m option \<times> 'q) res) \<Rightarrow>
    'm qop list \<Rightarrow> 'q \<Rightarrow> ('m option list \<times> 'q) res" where
  "qrun enq deq [] q = Inr ([], q)"
| "qrun enq deq (Enq m # ops) q = bindR (enq m q) (qrun enq deq ops)"
| "qrun enq deq (Deq # ops) q =
     bindR (deq q) (\<lambda>(r, q'). bindR (qrun enq deq ops q') (\<lambda>(rs, q''). Inr (r # rs, q'')))"

text \<open>The same operations on a list.\<close>

fun list_run :: "'m qop list \<Rightarrow> 'm list \<Rightarrow> 'm option list \<times> 'm list" where
  "list_run [] xs = ([], xs)"
| "list_run (Enq m # ops) xs = list_run ops (xs @ [m])"
| "list_run (Deq # ops) [] = (let (rs, ys) = list_run ops [] in (None # rs, ys))"
| "list_run (Deq # ops) (x # xs) = (let (rs, ys) = list_run ops xs in (Some x # rs, ys))"

fun enqs :: "'m qop list \<Rightarrow> nat" where
  "enqs [] = 0"
| "enqs (Enq m # ops) = Suc (enqs ops)"
| "enqs (Deq # ops) = enqs ops"

text \<open>A loop \<^verbatim>\<open>while ((m = pop(q)) != NULL) { body }\<close>; the body does not touch the queue.\<close>

partial_function (option) pop_loop ::
  "('q \<Rightarrow> ('m option \<times> 'q) res) \<Rightarrow> ('m \<Rightarrow> 'a \<Rightarrow> 'a res) \<Rightarrow> 'q \<Rightarrow> 'a \<Rightarrow> ('a \<times> 'q) res option" where
  "pop_loop deq body q a =
     (case deq q of
        Inl e \<Rightarrow> Some (Inl e)
      | Inr r \<Rightarrow>
          (case fst r of
             None \<Rightarrow> Some (Inr (a, snd r))
           | Some m \<Rightarrow>
               (case body m a of
                  Inl e \<Rightarrow> Some (Inl e)
                | Inr a' \<Rightarrow> pop_loop deq body (snd r) a')))"

declare pop_loop.simps [code]

text \<open>The body on each element of a list.\<close>

fun foldR :: "('m \<Rightarrow> 'a \<Rightarrow> 'a res) \<Rightarrow> 'm list \<Rightarrow> 'a \<Rightarrow> 'a res" where
  "foldR body [] a = Inr a"
| "foldR body (m # ms) a = bindR (body m a) (foldR body ms)"

lemma foldR_append: "foldR body (xs @ ys) a = bindR (foldR body xs a) (foldR body ys)"
  by (induction xs arbitrary: a) (simp_all add: bindR_assoc cong: bindR_cong)

lemma foldR_pure: "foldR (\<lambda>m a. Inr (f m a)) ms a = Inr (fold f ms a)"
  by (induction ms arbitrary: a) simp_all

locale bounded_fifo =
  fixes valid :: "'q \<Rightarrow> bool"
    and content :: "'q \<Rightarrow> 'm list"
    and limit :: nat
    and enq :: "'m \<Rightarrow> 'q \<Rightarrow> 'q res"
    and deq :: "'q \<Rightarrow> ('m option \<times> 'q) res"
  assumes enq_ok: "valid q \<Longrightarrow> length (content q) < limit \<Longrightarrow>
      \<exists>q'. enq m q = Inr q' \<and> valid q' \<and> content q' = content q @ [m]"
    and deq_empty: "valid q \<Longrightarrow> content q = [] \<Longrightarrow>
      \<exists>q'. deq q = Inr (None, q') \<and> valid q' \<and> content q' = []"
    and deq_cons: "valid q \<Longrightarrow> content q = m # ms \<Longrightarrow>
      \<exists>q'. deq q = Inr (Some m, q') \<and> valid q' \<and> content q' = ms"
begin

text \<open>Every run within the limit succeeds and is a run of the list.\<close>

lemma run_refines_list:
  assumes "valid q" "length (content q) + enqs ops \<le> limit"
  shows "\<exists>q'. qrun enq deq ops q = Inr (fst (list_run ops (content q)), q') \<and> valid q'
            \<and> content q' = snd (list_run ops (content q))"
  using assms
proof (induction ops arbitrary: q)
  case Nil
  then show ?case by simp
next
  case (Cons op ops)
  show ?case
  proof (cases op)
    case (Enq m)
    with Cons.prems obtain q' where q': "enq m q = Inr q'" "valid q'" "content q' = content q @ [m]"
      using enq_ok [of q m] by auto
    with Cons.prems Enq show ?thesis using Cons.IH [of q'] by simp
  next
    case Deq
    show ?thesis
    proof (cases "content q")
      case Nil
      then obtain q' where q': "deq q = Inr (None, q')" "valid q'" "content q' = []"
        using deq_empty Cons.prems by blast
      with Cons.prems Deq Nil show ?thesis
        using Cons.IH [of q'] by (auto split: prod.splits)
    next
      case (Cons m ms)
      then obtain q' where q': "deq q = Inr (Some m, q')" "valid q'" "content q' = ms"
        using deq_cons Cons.prems by blast
      with Cons.prems Deq Cons show ?thesis
        using Cons.IH [of q'] by (auto split: prod.splits)
    qed
  qed
qed

text \<open>A loop that pops until the queue is empty ends and runs its body on the content, in order.\<close>

lemma pop_loop_ok:
  assumes "valid q"
  shows "\<exists>q'. pop_loop deq body q a = Some (bindR (foldR body (content q) a) (\<lambda>a'. Inr (a', q'))) \<and>
    valid q' \<and> content q' = []"
  using assms
proof (induction "content q" arbitrary: q a)
  case Nil
  then obtain q' where "deq q = Inr (None, q')" "valid q'" "content q' = []"
    using deq_empty by metis
  with Nil show ?case by (subst pop_loop.simps) auto
next
  case (Cons m ms)
  then obtain q1 where q1: "deq q = Inr (Some m, q1)" "valid q1" "content q1 = ms"
    using deq_cons by metis
  show ?case
  proof (cases "body m a")
    case (Inl e)
    obtain q' where "valid q'" "content q' = []"
      using Cons.hyps(1) [OF q1(3) [symmetric] q1(2)] by blast
    with Cons.hyps(2) [symmetric] q1(1) Inl show ?thesis by (subst pop_loop.simps) auto
  next
    case (Inr a')
    with Cons.hyps(1) [OF q1(3) [symmetric] q1(2), of a'] Cons.hyps(2) [symmetric] q1
    show ?thesis by (subst pop_loop.simps) auto
  qed
qed

text \<open>What is enqueued into an empty queue is dequeued in the same order.\<close>

lemma enq_then_deq:
  assumes "valid q" "content q = []" "length ms \<le> limit"
  shows "\<exists>q'. qrun enq deq (map Enq ms @ replicate (length ms) Deq) q
              = Inr (map Some ms, q') \<and> valid q' \<and> content q' = []"
proof -
  have 1: "enqs (map Enq ms @ replicate k Deq) = length ms" for k
    by (induction ms) (simp_all, induction k, simp_all)
  have 2: "list_run (replicate (length ys) Deq) ys = (map Some ys, [])" for ys :: "'m list"
    by (induction ys) simp_all
  have 3: "list_run (map Enq ms @ replicate k Deq) xs = list_run (replicate k Deq) (xs @ ms)" for k xs
    by (induction ms arbitrary: xs) simp_all
  show ?thesis
    using run_refines_list [of q "map Enq ms @ replicate (length ms) Deq"] assms
    by (simp add: 1 2 3)
qed

end

end
