(* ===== verification/Message_Queue.thy ===== *)
theory Message_Queue
  imports Fifo
begin

text \<open>
  The message queues of the kernel (\<^verbatim>\<open>skynet-src/skynet_mq.c\<close>): one growing
  ring buffer per service, and the global queue, a linked list of the service
  queues that have work.  A queue lives at an address of the heap
  \<open>mqs\<close>; the list of the global queue is threaded through the field
  \<open>q_next\<close> of the queues themselves.  Every operation runs between
  \<^verbatim>\<open>SPIN_LOCK\<close> and \<^verbatim>\<open>SPIN_UNLOCK\<close> and is one atomic step here
  (theory \<open>Locks\<close> justifies that).  A slot of the ring is \<open>None\<close> until it is
  written: \<^verbatim>\<open>skynet_malloc\<close> does not initialise memory.
\<close>

section \<open>Data\<close>

record skynet_message =
  msg_source :: u32
  msg_session :: int
  msg_data :: addr
  msg_sz :: u64

definition DEFAULT_QUEUE_SIZE :: nat where "DEFAULT_QUEUE_SIZE = 64"
definition MQ_IN_GLOBAL :: nat where "MQ_IN_GLOBAL = 1"
definition MQ_OVERLOAD :: nat where "MQ_OVERLOAD = 1024"

record message_queue =
  q_handle :: u32
  q_cap :: nat
  q_head :: nat
  q_tail :: nat
  q_release :: nat
  q_in_global :: nat
  q_overload :: nat
  q_overload_threshold :: nat
  q_queue :: "skynet_message option list"
  q_next :: "addr option"

record global_queue =
  gq_head :: "addr option"
  gq_tail :: "addr option"

text \<open>The heap of queues, the global queue \<^verbatim>\<open>Q\<close> and the next unused address.\<close>

record mq_world =
  mqs :: "addr \<rightharpoonup> message_queue"
  gq :: global_queue
  mq_brk :: addr

section \<open>Operations on one queue\<close>

definition skynet_mq_new :: "u32 \<Rightarrow> message_queue" where
  "skynet_mq_new handle =
     \<lparr> q_handle = handle, q_cap = DEFAULT_QUEUE_SIZE, q_head = 0, q_tail = 0,
       q_release = 0, q_in_global = MQ_IN_GLOBAL, q_overload = 0,
       q_overload_threshold = MQ_OVERLOAD,
       q_queue = replicate DEFAULT_QUEUE_SIZE None, q_next = None \<rparr>"

definition skynet_mq_handle :: "message_queue \<Rightarrow> u32" where
  "skynet_mq_handle q = q_handle q"

definition skynet_mq_length :: "message_queue \<Rightarrow> nat" where
  "skynet_mq_length q =
     (if q_head q \<le> q_tail q then q_tail q - q_head q
      else q_tail q + q_cap q - q_head q)"

definition skynet_mq_overload :: "message_queue \<Rightarrow> nat \<times> message_queue" where
  "skynet_mq_overload q =
     (if q_overload q \<noteq> 0 then (q_overload q, q\<lparr>q_overload := 0\<rparr>) else (0, q))"

text \<open>
  The loop \<^verbatim>\<open>while (length > q->overload_threshold)\<close>: it would not end on a
  threshold of 0, and doubling may leave the range of \<^verbatim>\<open>int\<close>.
\<close>

partial_function (option) overload_loop :: "nat \<Rightarrow> nat \<Rightarrow> nat \<Rightarrow> (nat \<times> nat) res option" where
  "overload_loop len overload threshold =
     (if len > threshold then
        (if threshold * 2 \<le> INT_MAX then overload_loop len len (threshold * 2)
         else Some (Inl Int_overflow))
      else Some (Inr (overload, threshold)))"

text \<open>The C function returns 1 on an empty queue and 0 with the message otherwise.\<close>

definition skynet_mq_pop :: "message_queue \<Rightarrow> (skynet_message option \<times> message_queue) res" where
  "skynet_mq_pop q =
     (if q_head q \<noteq> q_tail q then
        bindR (aget (q_queue q) (q_head q)) (\<lambda>slot.
        bindR (init slot) (\<lambda>message.
        let head = (if q_head q + 1 \<ge> q_cap q then 0 else q_head q + 1);
            len = int (q_tail q) - int head;
            len = (if len < 0 then len + int (q_cap q) else len)
        in bindR (run_loop (overload_loop (nat len) (q_overload q) (q_overload_threshold q)))
             (\<lambda>(overload, threshold).
               Inr (Some message,
                    q\<lparr>q_head := head, q_overload := overload,
                      q_overload_threshold := threshold\<rparr>))))
      else
        Inr (None, q\<lparr>q_overload_threshold := MQ_OVERLOAD, q_in_global := 0\<rparr>))"

definition expand_queue :: "message_queue \<Rightarrow> message_queue res" where
  "expand_queue q =
     bindR (c_int (q_cap q * 2)) (\<lambda>cap.
     let copied = map (\<lambda>i. q_queue q ! ((q_head q + i) mod q_cap q)) [0..<q_cap q]
     in Inr (q\<lparr>q_head := 0, q_tail := q_cap q, q_cap := cap,
               q_queue := copied @ replicate (q_cap q) None\<rparr>))"

text \<open>The part of \<^verbatim>\<open>skynet_mq_push\<close> that works on the ring alone.\<close>

definition mq_enqueue :: "skynet_message \<Rightarrow> message_queue \<Rightarrow> message_queue res" where
  "mq_enqueue message q =
     bindR (aset (q_queue q) (q_tail q) (Some message)) (\<lambda>queue.
     let tail = (if q_tail q + 1 \<ge> q_cap q then 0 else q_tail q + 1);
         q = q\<lparr>q_queue := queue, q_tail := tail\<rparr>
     in if q_head q = q_tail q then expand_queue q else Inr q)"

section \<open>Operations on the heap of queues and the global queue\<close>

definition skynet_mq_init :: "mq_world" where
  "skynet_mq_init =
     \<lparr> mqs = Map.empty, gq = \<lparr>gq_head = None, gq_tail = None\<rparr>, mq_brk = 0 \<rparr>"

definition skynet_mq_create :: "u32 \<Rightarrow> 'z mq_world_scheme \<Rightarrow> addr \<times> 'z mq_world_scheme" where
  "skynet_mq_create handle w =
     (mq_brk w, w\<lparr>mqs := (mqs w)(mq_brk w \<mapsto> skynet_mq_new handle), mq_brk := mq_brk w + 1\<rparr>)"

definition skynet_globalmq_push :: "addr \<Rightarrow> 'z mq_world_scheme \<Rightarrow> 'z mq_world_scheme res" where
  "skynet_globalmq_push a w =
     bindR (deref (mqs w) a) (\<lambda>queue.
     bindR (c_assert (q_next queue = None)) (\<lambda>_.
     case gq_tail (gq w) of
       Some t \<Rightarrow>
         bindR (deref (mqs w) t) (\<lambda>tq.
         Inr (w\<lparr>mqs := (mqs w)(t \<mapsto> tq\<lparr>q_next := Some a\<rparr>),
                gq := (gq w)\<lparr>gq_tail := Some a\<rparr>\<rparr>))
     | None \<Rightarrow> Inr (w\<lparr>gq := \<lparr>gq_head = Some a, gq_tail = Some a\<rparr>\<rparr>)))"

definition skynet_globalmq_pop :: "'z mq_world_scheme \<Rightarrow> (addr option \<times> 'z mq_world_scheme) res" where
  "skynet_globalmq_pop w =
     (case gq_head (gq w) of
        None \<Rightarrow> Inr (None, w)
      | Some a \<Rightarrow>
          bindR (deref (mqs w) a) (\<lambda>mq.
          bindR (case q_next mq of
                   None \<Rightarrow> bindR (c_assert (gq_tail (gq w) = Some a)) (\<lambda>_.
                             Inr \<lparr>gq_head = None, gq_tail = None\<rparr>)
                 | Some n \<Rightarrow> Inr ((gq w)\<lparr>gq_head := Some n\<rparr>)) (\<lambda>g.
          Inr (Some a, w\<lparr>mqs := (mqs w)(a \<mapsto> mq\<lparr>q_next := None\<rparr>), gq := g\<rparr>))))"

definition skynet_mq_push :: "addr \<Rightarrow> skynet_message \<Rightarrow> 'z mq_world_scheme \<Rightarrow> 'z mq_world_scheme res" where
  "skynet_mq_push a message w =
     bindR (deref (mqs w) a) (\<lambda>q.
     bindR (mq_enqueue message q) (\<lambda>q.
     if q_in_global q = 0
     then skynet_globalmq_push a
            (w\<lparr>mqs := (mqs w)(a \<mapsto> q\<lparr>q_in_global := MQ_IN_GLOBAL\<rparr>)\<rparr>)
     else Inr (w\<lparr>mqs := (mqs w)(a \<mapsto> q)\<rparr>)))"

definition skynet_mq_mark_release :: "addr \<Rightarrow> 'z mq_world_scheme \<Rightarrow> 'z mq_world_scheme res" where
  "skynet_mq_mark_release a w =
     bindR (deref (mqs w) a) (\<lambda>q.
     bindR (c_assert (q_release q = 0)) (\<lambda>_.
     let w' = w\<lparr>mqs := (mqs w)(a \<mapsto> q\<lparr>q_release := 1\<rparr>)\<rparr>
     in if q_in_global q \<noteq> MQ_IN_GLOBAL then skynet_globalmq_push a w' else Inr w'))"

definition mq_release_memory :: "addr \<Rightarrow> 'z mq_world_scheme \<Rightarrow> 'z mq_world_scheme res" where
  "mq_release_memory a w =
     bindR (deref (mqs w) a) (\<lambda>q.
     bindR (c_assert (q_next q = None)) (\<lambda>_.
     Inr (w\<lparr>mqs := (mqs w)(a := None)\<rparr>)))"

text \<open>
  \<^verbatim>\<open>_drop_queue\<close>: hand every remaining message to \<open>drop_func\<close>, then free the
  queue.  The callback may change the whole world (in the kernel it sends an
  error reply to the source of the message), so the queue is read again each time.
\<close>

partial_function (option) drop_queue ::
  "(skynet_message \<Rightarrow> 'z mq_world_scheme \<Rightarrow> 'z mq_world_scheme res) \<Rightarrow> addr \<Rightarrow>
   'z mq_world_scheme \<Rightarrow> 'z mq_world_scheme res option" where
  "drop_queue drop_func a w =
     (case bindR (deref (mqs w) a) skynet_mq_pop of
        Inl e \<Rightarrow> Some (Inl e)
      | Inr r \<Rightarrow>
          (case fst r of
             None \<Rightarrow> Some (mq_release_memory a (w\<lparr>mqs := (mqs w)(a \<mapsto> snd r)\<rparr>))
           | Some msg \<Rightarrow>
               (case drop_func msg (w\<lparr>mqs := (mqs w)(a \<mapsto> snd r)\<rparr>) of
                  Inl e \<Rightarrow> Some (Inl e)
                | Inr w' \<Rightarrow> drop_queue drop_func a w')))"

definition skynet_mq_release ::
  "(skynet_message \<Rightarrow> 'z mq_world_scheme \<Rightarrow> 'z mq_world_scheme res) \<Rightarrow> addr \<Rightarrow>
   'z mq_world_scheme \<Rightarrow> 'z mq_world_scheme res" where
  "skynet_mq_release drop_func a w =
     bindR (deref (mqs w) a) (\<lambda>q.
     if q_release q \<noteq> 0 then run_loop (drop_queue drop_func a w)
     else skynet_globalmq_push a w)"

section \<open>The ring buffer is a first-in first-out queue\<close>

text \<open>
  Capacities are 64 doubled; the largest one that fits an \<^verbatim>\<open>int\<close> is \<open>2\<^sup>3\<^sup>0\<close>.
  The slots between head and tail have been written.
\<close>

definition mq_caps :: "nat list" where
  "mq_caps = map (\<lambda>k. 64 * 2 ^ k) [0..<25]"

definition mq_valid :: "message_queue \<Rightarrow> bool" where
  "mq_valid q \<longleftrightarrow>
     q_cap q \<in> set mq_caps \<and> length (q_queue q) = q_cap q \<and>
     q_head q < q_cap q \<and> q_tail q < q_cap q \<and> 0 < q_overload_threshold q \<and>
     None \<notin> set (ring_seg (q_queue q) (q_head q) (skynet_mq_length q))"

definition mq_list :: "message_queue \<Rightarrow> skynet_message list" where
  "mq_list q = map the (ring_seg (q_queue q) (q_head q) (skynet_mq_length q))"

definition mq_limit :: nat where
  "mq_limit = 2 ^ 30 - 1"

text \<open>The flags of a queue do not touch its content.\<close>

lemma mq_length_flags [simp]:
  "skynet_mq_length (q\<lparr>q_release := r\<rparr>) = skynet_mq_length q"
  "skynet_mq_length (q\<lparr>q_in_global := g\<rparr>) = skynet_mq_length q"
  "skynet_mq_length (q\<lparr>q_overload := v\<rparr>) = skynet_mq_length q"
  "skynet_mq_length (q\<lparr>q_overload_threshold := th\<rparr>) = skynet_mq_length q"
  "skynet_mq_length (q\<lparr>q_next := n\<rparr>) = skynet_mq_length q"
  by (simp_all add: skynet_mq_length_def)

lemma mq_list_flags [simp]:
  "mq_list (q\<lparr>q_release := r\<rparr>) = mq_list q"
  "mq_list (q\<lparr>q_in_global := g\<rparr>) = mq_list q"
  "mq_list (q\<lparr>q_overload := v\<rparr>) = mq_list q"
  "mq_list (q\<lparr>q_overload_threshold := th\<rparr>) = mq_list q"
  "mq_list (q\<lparr>q_next := n\<rparr>) = mq_list q"
  by (simp_all add: mq_list_def)

lemma mq_valid_flags [simp]:
  "mq_valid (q\<lparr>q_release := r\<rparr>) = mq_valid q"
  "mq_valid (q\<lparr>q_in_global := g\<rparr>) = mq_valid q"
  "mq_valid (q\<lparr>q_overload := v\<rparr>) = mq_valid q"
  "mq_valid (q\<lparr>q_next := n\<rparr>) = mq_valid q"
  by (simp_all add: mq_valid_def)

lemma mq_valid_threshold [simp]:
  "mq_valid q \<Longrightarrow> 0 < th \<Longrightarrow> mq_valid (q\<lparr>q_overload_threshold := th\<rparr>)"
  by (simp add: mq_valid_def)

lemma mq_length_ring: "skynet_mq_length q = ring_len (q_cap q) (q_head q) (q_tail q)"
  by (simp add: skynet_mq_length_def ring_len_def)

lemma length_mq_list [simp]: "length (mq_list q) = skynet_mq_length q"
  by (simp add: mq_list_def)

lemma mq_caps_bounds: "c \<in> set mq_caps \<Longrightarrow> 0 < c \<and> c \<le> 2 ^ 30"
  by (auto simp: mq_caps_def upt_rec)

lemma mq_caps_double:
  assumes "c \<in> set mq_caps" "c < 2 ^ 30"
  shows "c * 2 \<in> set mq_caps"
proof -
  from assms obtain k where k: "c = 64 * 2 ^ k" "k < 25" by (auto simp: mq_caps_def)
  have "k \<noteq> 24" using assms(2) k by auto
  with k have "c * 2 = 64 * 2 ^ Suc k" "Suc k < 25" by simp_all
  then show ?thesis unfolding mq_caps_def set_map by (intro image_eqI [of _ _ "Suc k"]) auto
qed

text \<open>
  The overload loop ends on every positive threshold, at a threshold that is no
  smaller than the length, and records the length when it ran at all.
\<close>

lemma overload_loop_ends:
  assumes "0 < th" "len \<le> 2 ^ 30"
  shows "\<exists>th'. overload_loop len ov th = Some (Inr (if th < len then len else ov, th'))
               \<and> th \<le> th' \<and> len \<le> th'"
  using assms
proof (induction "len - th" arbitrary: th ov rule: less_induct)
  case less
  show ?case
  proof (cases "th < len")
    case True
    then have "len - th * 2 < len - th" "th * 2 \<le> INT_MAX"
      using less.prems by (auto simp: INT_MAX_def)
    moreover obtain th' where "overload_loop len len (th * 2) = Some (Inr (len, th'))"
        "th * 2 \<le> th'" "len \<le> th'"
      using less.hyps [of "th * 2" len] calculation less.prems by (auto split: if_splits)
    ultimately show ?thesis
      using True by (subst overload_loop.simps) auto
  next
    case False
    then show ?thesis by (subst overload_loop.simps) auto
  qed
qed

lemma mq_pop_empty:
  assumes "mq_valid q" "mq_list q = []"
  shows "skynet_mq_pop q = Inr (None, q\<lparr>q_overload_threshold := MQ_OVERLOAD, q_in_global := 0\<rparr>)"
proof -
  from assms have "skynet_mq_length q = 0"
    by (metis length_mq_list list.size(3))
  with assms(1) have "q_head q = q_tail q"
    by (simp add: mq_length_ring mq_valid_def ring_len_0_iff)
  then show ?thesis by (simp add: skynet_mq_pop_def)
qed

lemma mq_pop_nonempty:
  assumes v: "mq_valid q" and ne: "mq_list q = m # ms"
  shows "\<exists>q'. skynet_mq_pop q = Inr (Some m, q') \<and> mq_valid q' \<and> mq_list q' = ms \<and>
      (\<exists>h th. length ms \<le> th \<and> q' = q\<lparr>q_head := h,
         q_overload := (if q_overload_threshold q < length ms then length ms else q_overload q),
         q_overload_threshold := th\<rparr>)"
proof -
  let ?c = "q_cap q" and ?h = "q_head q" and ?t = "q_tail q"
  let ?h' = "ring_next ?c ?h"
  let ?n = "ring_len ?c ?h' ?t"
  note V = v [unfolded mq_valid_def]
  have "?h \<noteq> ?t" using ne by (auto simp: mq_list_def mq_length_ring)
  then have len: "ring_len ?c ?h ?t = Suc ?n"
    using V by (intro ring_len_pop) auto
  have seg: "ring_seg (q_queue q) ?h (skynet_mq_length q) = q_queue q ! ?h # ring_seg (q_queue q) ?h' ?n"
    using V by (simp add: mq_length_ring len ring_seg_Suc)
  from V seg ne have m: "q_queue q ! ?h = Some m" "ms = map the (ring_seg (q_queue q) ?h' ?n)"
    by (auto simp: mq_list_def)
  have n: "?n \<le> 2 ^ 30" "?n = length ms"
    using m(2) V mq_caps_bounds [of ?c] ring_len_less [of ?h' ?c ?t] by (auto simp: ring_next_def)
  obtain th where th: "overload_loop ?n (q_overload q) (q_overload_threshold q)
        = Some (Inr (if q_overload_threshold q < ?n then ?n else q_overload q, th))"
      "q_overload_threshold q \<le> th" "?n \<le> th"
    using overload_loop_ends [of "q_overload_threshold q" ?n "q_overload q"] V n(1) by auto
  have len': "nat (if int ?t - int ?h' < 0 then int ?t - int ?h' + int ?c else int ?t - int ?h') = ?n"
    using V mq_caps_bounds [of ?c] by (auto simp: ring_len_def ring_next_def)
  define q' where "q' = q\<lparr>q_head := ?h', q_overload := (if q_overload_threshold q < ?n then ?n else q_overload q),
      q_overload_threshold := th\<rparr>"
  have h': "(if ?h + 1 \<ge> ?c then 0 else ?h + 1) = ?h'"
    by (simp add: ring_next_def)
  have "skynet_mq_pop q = Inr (Some m, q')"
    using \<open>?h \<noteq> ?t\<close> V m(1) th(1)
    unfolding skynet_mq_pop_def Let_def h' len' by (simp add: run_loop_def q'_def)
  moreover have "mq_valid q'"
    using V th seg mq_caps_bounds [of ?c]
    by (auto simp: mq_valid_def q'_def mq_length_ring ring_next_less)
  moreover have "mq_list q' = ms"
    by (simp add: mq_list_def q'_def mq_length_ring m(2))
  ultimately show ?thesis using th(3) q'_def unfolding n(2) by blast
qed

lemma expand_queue_ok:
  assumes "q_cap q < 2 ^ 30" "length (q_queue q) = q_cap q"
  shows "\<exists>buf. expand_queue q
        = Inr (q\<lparr>q_head := 0, q_tail := q_cap q, q_cap := q_cap q * 2, q_queue := buf\<rparr>)
      \<and> length buf = q_cap q * 2
      \<and> ring_seg buf 0 (q_cap q) = ring_seg (q_queue q) (q_head q) (q_cap q)"
proof -
  let ?buf = "ring_seg (q_queue q) (q_head q) (q_cap q) @ replicate (q_cap q) None"
  have "q_cap q * 2 \<le> INT_MAX" using assms(1) by (simp add: INT_MAX_def)
  then show ?thesis
    using assms(2) by (intro exI [of _ ?buf]) (simp add: expand_queue_def ring_seg_linear, simp add: ring_seg_def)
qed

lemma mq_enqueue_ok:
  assumes v: "mq_valid q" and room: "length (mq_list q) < mq_limit"
  shows "\<exists>q'. mq_enqueue m q = Inr q' \<and> mq_valid q' \<and> mq_list q' = mq_list q @ [m] \<and>
      (\<exists>c h t b. q' = q\<lparr>q_cap := c, q_head := h, q_tail := t, q_queue := b\<rparr>)"
proof -
  note V = v [unfolded mq_valid_def]
  let ?c = "q_cap q" and ?n = "skynet_mq_length q"
  define p where "p = q\<lparr>q_queue := (q_queue q)[q_tail q := Some m], q_tail := ring_next ?c (q_tail q)\<rparr>"
  have seg: "ring_seg (q_queue p) (q_head p) (Suc ?n) = ring_seg (q_queue q) (q_head q) ?n @ [Some m]"
    using V ring_seg_push [of "q_head q" "q_queue q" "q_tail q" "Some m"]
    by (simp add: p_def mq_length_ring)
  have enq: "mq_enqueue m q = (if q_head p = q_tail p then expand_queue p else Inr p)"
    using V by (simp add: mq_enqueue_def p_def ring_next_def Let_def)
  have p: "q_cap p = ?c" "q_head p = q_head q" "length (q_queue p) = ?c"
    "q_overload_threshold p = q_overload_threshold q" "q_tail p < ?c"
    using V mq_caps_bounds [of ?c] by (simp_all add: p_def ring_next_less)
  show ?thesis
  proof (cases "q_head p = q_tail p")
    case True
    then have nx: "ring_next ?c (q_tail q) = q_head q" by (simp add: p_def)
    have full: "Suc ?n = ?c"
      using V ring_len_full [OF _ _ nx] by (simp only: mq_length_ring)
    with room have "?c < 2 ^ 30" by (simp add: mq_limit_def)
    then obtain buf where buf: "length buf = ?c * 2"
        "ring_seg buf 0 ?c = ring_seg (q_queue p) (q_head p) ?c"
        "expand_queue p = Inr (p\<lparr>q_head := 0, q_tail := ?c, q_cap := ?c * 2, q_queue := buf\<rparr>)"
        (is "_ = Inr ?q'")
      using expand_queue_ok [of p] p by auto
    have "mq_valid ?q'" "mq_list ?q' = mq_list q @ [m]"
      using V buf(1,2) seg p mq_caps_double [OF _ \<open>?c < 2 ^ 30\<close>] mq_caps_bounds [of ?c]
      by (auto simp: mq_valid_def mq_list_def skynet_mq_length_def [of ?q'] full)
    moreover have "?q' = q\<lparr>q_cap := ?c * 2, q_head := 0, q_tail := ?c, q_queue := buf\<rparr>"
      by (simp add: p_def)
    ultimately show ?thesis using True enq buf(3) by metis
  next
    case False
    then have "skynet_mq_length p = Suc ?n"
      using V ring_len_push [of "q_head q" ?c "q_tail q"] by (simp add: p_def mq_length_ring)
    then have "mq_valid p" "mq_list p = mq_list q @ [m]"
      using V p seg by (auto simp: mq_valid_def mq_list_def)
    moreover have "p = q\<lparr>q_cap := ?c, q_head := q_head q, q_tail := q_tail p, q_queue := q_queue p\<rparr>"
      by (simp add: p_def)
    ultimately show ?thesis using False enq by metis
  qed
qed

interpretation mq: bounded_fifo mq_valid mq_list mq_limit mq_enqueue skynet_mq_pop
proof
  fix q m
  assume "mq_valid q" "length (mq_list q) < mq_limit"
  then show "\<exists>q'. mq_enqueue m q = Inr q' \<and> mq_valid q' \<and> mq_list q' = mq_list q @ [m]"
    using mq_enqueue_ok by blast
next
  fix q
  assume q: "mq_valid q" "mq_list q = []"
  let ?q' = "q\<lparr>q_overload_threshold := MQ_OVERLOAD, q_in_global := 0\<rparr>"
  have "mq_valid ?q'" "mq_list ?q' = []"
    using q by (simp_all add: MQ_OVERLOAD_def)
  then show "\<exists>q'. skynet_mq_pop q = Inr (None, q') \<and> mq_valid q' \<and> mq_list q' = []"
    using mq_pop_empty [OF q] by blast
next
  fix q m ms
  assume "mq_valid q" "mq_list q = m # ms"
  then show "\<exists>q'. skynet_mq_pop q = Inr (Some m, q') \<and> mq_valid q' \<and> mq_list q' = ms"
    using mq_pop_nonempty by blast
qed

lemma mq_new_valid [simp]: "mq_valid (skynet_mq_new h)" and mq_new_empty [simp]: "mq_list (skynet_mq_new h) = []"
  by (simp_all add: mq_valid_def mq_list_def skynet_mq_new_def skynet_mq_length_def
      mq_caps_def DEFAULT_QUEUE_SIZE_def MQ_OVERLOAD_def)

lemma mq_new_flags [simp]:
  "q_in_global (skynet_mq_new h) = MQ_IN_GLOBAL" "q_release (skynet_mq_new h) = 0"
  "q_next (skynet_mq_new h) = None" "skynet_mq_length (skynet_mq_new h) = 0"
  by (simp_all add: skynet_mq_new_def skynet_mq_length_def)

text \<open>
  C1: every sequence of pushes and pops on a well-formed queue, as long as no
  more than \<open>2\<^sup>3\<^sup>0 - 1\<close> messages are waiting, succeeds (no access outside the ring,
  no read of an unwritten slot, no overflow, the overload loop ends), returns
  the messages in the order they were pushed, and leaves a well-formed queue.
\<close>

theorem mq_fifo:
  assumes "mq_valid q" and "length (mq_list q) + enqs ops \<le> mq_limit"
  shows "\<exists>q'. qrun mq_enqueue skynet_mq_pop ops q = Inr (fst (list_run ops (mq_list q)), q')
           \<and> mq_valid q' \<and> mq_list q' = snd (list_run ops (mq_list q))"
  using assms by (rule mq.run_refines_list)

definition some_message :: skynet_message where
  "some_message = \<lparr>msg_source = 1, msg_session = 2, msg_data = 0, msg_sz = 0\<rparr>"

theorem mq_fifo_witness:
  "\<exists>q'. qrun mq_enqueue skynet_mq_pop [Enq some_message, Deq, Deq] (skynet_mq_new 7)
      = Inr ([Some some_message, None], q') \<and> mq_valid q' \<and> mq_list q' = []"
  using mq_fifo [of "skynet_mq_new 7" "[Enq some_message, Deq, Deq]"] by (simp add: mq_limit_def)

text \<open>
  popping a message keeps the overload warning accurate: afterwards the
  threshold is at least the number of messages left, and the warning value is
  that number exactly when the old threshold was exceeded.
\<close>

theorem mq_pop_overload:
  assumes "mq_valid q" and "mq_list q = m # ms"
  shows "\<exists>q'. skynet_mq_pop q = Inr (Some m, q') \<and> length ms \<le> q_overload_threshold q' \<and>
           q_overload q' = (if q_overload_threshold q < length ms then length ms else q_overload q)"
proof -
  obtain q' h th where "skynet_mq_pop q = Inr (Some m, q')" "length ms \<le> th"
      "q' = q\<lparr>q_head := h, q_overload := (if q_overload_threshold q < length ms then length ms
            else q_overload q), q_overload_threshold := th\<rparr>"
    using mq_pop_nonempty [OF assms] by blast
  then show ?thesis by (intro exI [of _ q']) simp
qed

definition full_queue :: message_queue where
  "full_queue = (skynet_mq_new 1)\<lparr>q_tail := 3, q_overload_threshold := 1,
     q_queue := replicate 3 (Some some_message) @ replicate 61 None\<rparr>"

theorem mq_pop_overload_witness:
  "\<exists>m ms q'. mq_list full_queue = m # ms \<and> length ms = 2 \<and>
     skynet_mq_pop full_queue = Inr (Some m, q') \<and> q_overload q' = 2 \<and> 2 \<le> q_overload_threshold q'"
proof -
  have v: "mq_valid full_queue"
    by (simp add: mq_valid_def full_queue_def skynet_mq_new_def skynet_mq_length_def mq_caps_def
        DEFAULT_QUEUE_SIZE_def ring_seg_def upt_rec nth_append)
  have "length (mq_list full_queue) = 3"
    by (simp add: full_queue_def skynet_mq_new_def skynet_mq_length_def)
  then obtain m ms where l: "mq_list full_queue = m # ms" "length ms = 2"
    by (metis Suc_length_conv numeral_3_eq_3 numeral_2_eq_2)
  then show ?thesis
    using mq_pop_overload [OF v l(1)] by (auto simp: full_queue_def)
qed

section \<open>The global queue is a linked list without repetition\<close>

fun gq_chain :: "(addr \<rightharpoonup> message_queue) \<Rightarrow> addr option \<Rightarrow> addr list \<Rightarrow> bool" where
  "gq_chain h p [] \<longleftrightarrow> p = None"
| "gq_chain h p (a # as) \<longleftrightarrow>
     p = Some a \<and> (case h a of None \<Rightarrow> False | Some q \<Rightarrow> gq_chain h (q_next q) as)"

definition gq_list :: "'z mq_world_scheme \<Rightarrow> addr list \<Rightarrow> bool" where
  "gq_list w xs \<longleftrightarrow>
     gq_chain (mqs w) (gq_head (gq w)) xs \<and> distinct xs \<and>
     gq_tail (gq w) = (if xs = [] then None else Some (last xs)) \<and>
     (\<forall>a q. mqs w a = Some q \<longrightarrow> a < mq_brk w \<and> (a \<notin> set xs \<longrightarrow> q_next q = None))"

text \<open>Two heaps hold the same queues but for the links of the global list.\<close>

definition same_queues :: "(addr \<rightharpoonup> message_queue) \<Rightarrow> (addr \<rightharpoonup> message_queue) \<Rightarrow> bool" where
  "same_queues h h' \<longleftrightarrow>
     (\<forall>a. map_option (q_next_update (\<lambda>_. None)) (h a) = map_option (q_next_update (\<lambda>_. None)) (h' a))"

lemma gq_chain_dom: "gq_chain h p xs \<Longrightarrow> a \<in> set xs \<Longrightarrow> \<exists>q. h a = Some q"
  by (induction h p xs rule: gq_chain.induct) (auto split: option.splits)

lemma gq_chain_upd: "a \<notin> set xs \<Longrightarrow> gq_chain (h(a := v)) p xs = gq_chain h p xs"
  by (induction h p xs rule: gq_chain.induct) (auto split: option.splits)

lemma gq_chain_keep:
  "h a = Some q \<Longrightarrow> q_next q' = q_next q \<Longrightarrow> gq_chain (h(a \<mapsto> q')) p xs = gq_chain h p xs"
  by (induction h p xs rule: gq_chain.induct) (auto split: option.splits)

lemma gq_chain_snoc:
  assumes "gq_chain h p (xs @ [t])" "distinct (xs @ [t])" "a \<notin> set (xs @ [t])"
    "h a = Some q" "q_next q = None" "h t = Some tq"
  shows "gq_chain (h(t \<mapsto> tq\<lparr>q_next := Some a\<rparr>)) p (xs @ [t, a])"
  using assms
proof (induction xs arbitrary: p)
  case (Cons x xs)
  then show ?case by (cases "h x") auto
qed auto

lemma gq_list_dom: "gq_list w xs \<Longrightarrow> a \<in> set xs \<Longrightarrow> \<exists>q. mqs w a = Some q"
  by (auto simp: gq_list_def dest: gq_chain_dom)

text \<open>Appending a queue that is not yet in the list passes the assertion.\<close>

lemma globalmq_push_ok:
  assumes w: "gq_list w xs" and a: "mqs w a = Some q" "a \<notin> set xs"
  shows "\<exists>h g. skynet_globalmq_push a w = Inr (w\<lparr>mqs := h, gq := g\<rparr>) \<and>
      gq_list (w\<lparr>mqs := h, gq := g\<rparr>) (xs @ [a]) \<and> same_queues (mqs w) h"
proof (cases "xs = []")
  case True
  with w a show ?thesis
    by (auto simp: skynet_globalmq_push_def gq_list_def same_queues_def
        intro!: exI [of _ "mqs w"] exI [of _ "\<lparr>gq_head = Some a, gq_tail = Some a\<rparr>"])
next
  case False
  then obtain ys t where xs: "xs = ys @ [t]" by (metis rev_exhaust)
  with w gq_list_dom obtain tq where t: "mqs w t = Some tq" by fastforce
  have next_a: "q_next q = None" using w a by (auto simp: gq_list_def)
  let ?h = "(mqs w)(t \<mapsto> tq\<lparr>q_next := Some a\<rparr>)" and ?g = "(gq w)\<lparr>gq_tail := Some a\<rparr>"
  have "gq_list (w\<lparr>mqs := ?h, gq := ?g\<rparr>) (xs @ [a])"
    using w a t next_a gq_chain_snoc [of "mqs w" _ ys t a q tq]
    by (auto simp: gq_list_def xs)
  moreover have "skynet_globalmq_push a w = Inr (w\<lparr>mqs := ?h, gq := ?g\<rparr>)"
    using w a t next_a by (simp add: skynet_globalmq_push_def gq_list_def xs)
  moreover have "same_queues (mqs w) ?h" using t by (simp add: same_queues_def)
  ultimately show ?thesis by blast
qed

lemma globalmq_pop_empty: "gq_list w [] \<Longrightarrow> skynet_globalmq_pop w = Inr (None, w)"
  by (simp add: skynet_globalmq_pop_def gq_list_def)

lemma globalmq_pop_cons:
  assumes w: "gq_list w (a # xs)"
  shows "\<exists>h g. skynet_globalmq_pop w = Inr (Some a, w\<lparr>mqs := h, gq := g\<rparr>) \<and>
      gq_list (w\<lparr>mqs := h, gq := g\<rparr>) xs \<and> same_queues (mqs w) h"
proof -
  from w obtain q where q: "mqs w a = Some q" "gq_chain (mqs w) (q_next q) xs"
    by (auto simp: gq_list_def split: option.splits)
  let ?h = "(mqs w)(a \<mapsto> q\<lparr>q_next := None\<rparr>)"
  let ?g = "(case q_next q of None \<Rightarrow> \<lparr>gq_head = None, gq_tail = None\<rparr> | Some n \<Rightarrow> (gq w)\<lparr>gq_head := Some n\<rparr>)"
  have nx: "q_next q = None \<longleftrightarrow> xs = []" using q(2) by (cases xs) auto
  have "skynet_globalmq_pop w = Inr (Some a, w\<lparr>mqs := ?h, gq := ?g\<rparr>)"
    using w q nx by (auto simp: skynet_globalmq_pop_def gq_list_def split: option.splits)
  moreover have "gq_list (w\<lparr>mqs := ?h, gq := ?g\<rparr>) xs"
    using w q nx by (auto simp: gq_list_def gq_chain_upd split: option.splits)
  moreover have "same_queues (mqs w) ?h" using q by (simp add: same_queues_def)
  ultimately show ?thesis by blast
qed

end
