(* ===== verification/Timer_Wheel.thy ===== *)
theory Timer_Wheel
  imports Timer
begin

text \<open>
  The timing wheel of \<open>Timer\<close> implements the plain specification of timers: a bag of
  nodes, each of which fires when the clock reaches its expiry.
\<close>

section \<open>Where a node belongs\<close>

text \<open>
  \<open>block i\<close> is the span of one slot of level \<open>i\<close>; \<open>lev e t\<close> is the first \<open>i\<close> for
  which \<open>e\<close> and \<open>t\<close> lie in the same block, and 4 if there is none.
\<close>

definition block :: "nat \<Rightarrow> nat" where
  "block i = 2 ^ (8 + 6 * i)"

definition lev :: "nat \<Rightarrow> nat \<Rightarrow> nat" where
  "lev e t =
     (if e div block 0 = t div block 0 then 0
      else if e div block 1 = t div block 1 then 1
      else if e div block 2 = t div block 2 then 2
      else if e div block 3 = t div block 3 then 3
      else 4)"

datatype slot = Near nat | Level nat nat

definition slot_of :: "nat \<Rightarrow> nat \<Rightarrow> slot" where
  "slot_of e t =
     (case lev e t of 0 \<Rightarrow> Near (e mod 256) | Suc i \<Rightarrow> Level i ((e div block i) mod 64))"

definition contents :: "timer \<Rightarrow> slot \<Rightarrow> timer_node list" where
  "contents T s = (case s of Near k \<Rightarrow> near T k | Level i k \<Rightarrow> levels T i k)"

lemma block_pos [simp]: "0 < block i"
  by (simp add: block_def)

lemma block_Suc: "block (Suc i) = block i * 64"
  by (simp add: block_def power_add)

lemma block_nums: "block 0 = 256" "block 1 = 16384" "block 2 = 1048576" "block 3 = 67108864"
  by (simp_all add: block_def)

lemma block_mono:
  assumes "i \<le> j" "e div block i = t div block i"
  shows "e div block j = t div block j"
  using assms by (induction rule: dec_induct) (simp_all add: block_Suc div_mult2_eq)

lemma lev_le: "k \<le> 3 \<Longrightarrow> lev e t \<le> k \<longleftrightarrow> e div block k = t div block k"
proof -
  assume "k \<le> 3"
  then consider "k = 0" | "k = 1" | "k = 2" | "k = 3" by linarith
  then show ?thesis
    using block_mono [of 0 1 e t] block_mono [of 1 2 e t] block_mono [of 2 3 e t]
    by cases (auto simp: lev_def)
qed

lemma lev_le_4: "lev e t \<le> 4"
  by (simp add: lev_def)

lemma lev_eqI:
  assumes "\<And>k. k \<le> 3 \<Longrightarrow> lev e u \<le> k \<longleftrightarrow> lev e t \<le> k"
  shows "lev e u = lev e t"
  using assms [of 0] assms [of 1] assms [of 2] assms [of 3] lev_le_4 [of e u] lev_le_4 [of e t]
  by linarith

lemma slot_of_inj: "slot_of e t = slot_of e' u \<Longrightarrow> lev e t = lev e' u"
  by (simp add: slot_of_def split: nat.splits)

lemma slot_of_lev: "lev e u = lev e t \<Longrightarrow> slot_of e u = slot_of e t"
  by (simp add: slot_of_def)

section \<open>One tick, on the slots\<close>

text \<open>
  \<open>carry u\<close> is the highest level whose slot ends just before \<open>u\<close>;
  \<open>moved u\<close> is the slot that \<^verbatim>\<open>timer_shift\<close> empties when the time becomes \<open>u\<close>.
\<close>

definition carry :: "nat \<Rightarrow> nat" where
  "carry u = (if \<not> block 1 dvd u then 0 else if \<not> block 2 dvd u then 1
              else if \<not> block 3 dvd u then 2 else 3)"

definition moved :: "nat \<Rightarrow> slot option" where
  "moved u =
     (if u = 0 then Some (Level 3 0)
      else if block 0 dvd u then Some (Level (carry u) ((u div block (carry u)) mod 64))
      else None)"

text \<open>\<open>e\<close> is still to come at time \<open>t\<close>.\<close>

definition future :: "nat \<Rightarrow> nat \<Rightarrow> bool" where
  "future e t \<longleftrightarrow> e < 2 ^ 32 \<and> e \<noteq> t \<and> (e div block 3 = t div block 3 \<longrightarrow> t < e)"

lemma block_dvd_mono: "i \<le> j \<Longrightarrow> block j dvd u \<Longrightarrow> block i dvd u"
  by (rule dvd_trans [of _ "block j"]) (auto simp: block_def intro: le_imp_power_dvd)

lemma carry_dvd: "block 0 dvd u \<Longrightarrow> block (carry u) dvd u"
  by (simp add: carry_def)

lemma carry_le: "carry u \<le> 3"
  by (simp add: carry_def)

lemma carry_max:
  assumes "carry u < k" "k \<le> 3"
  shows "\<not> block k dvd u"
proof -
  consider "k = 1" | "k = 2" | "k = 3" using assms by linarith
  then show ?thesis
    using assms(1) block_dvd_mono [of 1 2 u] block_dvd_mono [of 2 3 u]
    by cases (auto simp: carry_def split: if_splits)
qed

lemma Suc_div_block: "Suc t div block k = (if block k dvd Suc t then Suc (t div block k) else t div block k)"
  by (simp add: div_Suc dvd_eq_mod_eq_0)

lemma future_not_passed:
  assumes "future e t" "k \<le> 3" "block k dvd Suc t"
  shows "e div block k \<noteq> t div block k"
proof
  assume eq: "e div block k = t div block k"
  then have "t < e" using assms(1,2) block_mono [OF assms(2) eq] by (simp add: future_def)
  then have "Suc t div block k \<le> e div block k" by (intro div_le_mono) simp
  with eq assms(3) show False by (simp add: Suc_div_block)
qed

lemma lev_tick_quiet:
  assumes "\<not> block 0 dvd Suc t"
  shows "lev e (Suc t) = lev e t"
  using assms block_dvd_mono [of 0 _ "Suc t"]
  by (intro lev_eqI) (auto simp: lev_le Suc_div_block)

lemma lev_tick_carry:
  assumes f: "future e t" and d: "block 0 dvd Suc t" and u: "Suc t < 2 ^ 32"
  defines "K \<equiv> carry (Suc t)"
  shows "lev e t = Suc K \<and> e div block K = Suc t div block K \<Longrightarrow> lev e (Suc t) \<le> K"
    and "\<not> (lev e t = Suc K \<and> e div block K = Suc t div block K) \<Longrightarrow>
         lev e (Suc t) = lev e t \<and> K < lev e t"
proof -
  have K: "K \<le> 3" "block K dvd Suc t" using carry_le carry_dvd [OF d] by (simp_all add: K_def)
  show "lev e (Suc t) \<le> K" if "lev e t = Suc K \<and> e div block K = Suc t div block K"
    using that K(1) by (simp add: lev_le)
  assume no: "\<not> (lev e t = Suc K \<and> e div block K = Suc t div block K)"
  have gt: "K < lev e t"
    using future_not_passed [OF f K] K(1) lev_le [of K e t] by linarith
  have ne: "e div block K \<noteq> Suc t div block K"
  proof
    assume eq: "e div block K = Suc t div block K"
    have "lev e t \<le> Suc K"
    proof (cases "K = 3")
      case True
      then show ?thesis using lev_le_4 by simp
    next
      case False
      then have "Suc K \<le> 3" using K(1) by simp
      moreover have "\<not> block (Suc K) dvd Suc t"
        using carry_max [of "Suc t" "Suc K"] calculation by (simp add: K_def)
      ultimately show ?thesis
        using block_mono [OF _ eq, of "Suc K"] by (simp add: lev_le Suc_div_block)
    qed
    with gt no eq show False by simp
  qed
  have "lev e (Suc t) \<le> k \<longleftrightarrow> lev e t \<le> k" if "k \<le> 3" for k
  proof (cases "k \<le> K")
    case True
    then have "e div block k \<noteq> Suc t div block k" using ne block_mono [OF True] by blast
    then have "\<not> lev e (Suc t) \<le> k" using that by (simp add: lev_le)
    then show ?thesis using gt True by simp
  next
    case False
    then show ?thesis using that carry_max [of "Suc t" k] by (simp add: lev_le Suc_div_block K_def)
  qed
  then show "lev e (Suc t) = lev e t \<and> K < lev e t" using gt lev_eqI by blast
qed

lemma moved_iff:
  assumes f: "future e t" and d: "block 0 dvd Suc t" and u: "Suc t < 2 ^ 32"
  shows "Some (slot_of e t) = moved (Suc t) \<longleftrightarrow>
    lev e t = Suc (carry (Suc t)) \<and> e div block (carry (Suc t)) = Suc t div block (carry (Suc t))"
proof -
  let ?K = "carry (Suc t)"
  have "(e div block ?K) mod 64 = (Suc t div block ?K) mod 64 \<longleftrightarrow> e div block ?K = Suc t div block ?K"
    if l: "lev e t = Suc ?K"
  proof (cases "?K = 3")
    case True
    then have "e div block ?K < 64" "Suc t div block ?K < 64"
      using f u by (auto simp: future_def block_nums intro!: div_less_dividend)
    then show ?thesis by simp
  next
    case False
    then have k: "Suc ?K \<le> 3" using carry_le [of "Suc t"] by simp
    then have "e div block (Suc ?K) = Suc t div block (Suc ?K)"
      using l lev_le [OF k, of e t] carry_max [of "Suc t" "Suc ?K"] by (simp add: Suc_div_block)
    then have "(e div block ?K) div 64 = (Suc t div block ?K) div 64"
      by (simp add: block_Suc div_mult2_eq)
    then show ?thesis by (metis div_mult_mod_eq)
  qed
  then show ?thesis
    using d by (auto simp: moved_def slot_of_def split: nat.splits)
qed

text \<open>At the wrap-around of the 32 bit clock every node is on the last level.\<close>

lemma wrap_lev:
  assumes f: "future e t" and t: "Suc t = 2 ^ 32"
  shows "lev e t = 4" and "Some (slot_of e t) = moved 0 \<longleftrightarrow> lev e 0 \<le> 3"
proof -
  have e: "e div block 3 < 64" and "\<not> t < e"
    using f t by (simp_all add: future_def block_nums div_less_iff_less_mult)
  then have "e div block 3 \<noteq> t div block 3" using f by (auto simp: future_def)
  then show l: "lev e t = 4"
    using lev_le [of 3 e t] lev_le_4 [of e t] by linarith
  have "(4::nat) = Suc 3" by simp
  then have "slot_of e t = Level 3 (e div block 3)"
    using l e by (simp only: slot_of_def nat.case mod_less)
  then show "Some (slot_of e t) = moved 0 \<longleftrightarrow> lev e 0 \<le> 3"
    by (simp add: moved_def lev_le)
qed

lemma tick_stay:
  assumes "future e t" "t < 2 ^ 32" "Some (slot_of e t) \<noteq> moved (Suc t mod 2 ^ 32)"
  shows "slot_of e (Suc t mod 2 ^ 32) = slot_of e t"
proof (cases "Suc t < 2 ^ 32")
  case True
  then have "Suc t mod 2 ^ 32 = Suc t" by simp
  then show ?thesis
    using assms(1,3) True lev_tick_quiet [of t e] lev_tick_carry(2) [OF assms(1) _ True] moved_iff [OF assms(1) _ True]
    by (intro slot_of_lev) (cases "block 0 dvd Suc t"; simp)
next
  case False
  then have t: "Suc t = 2 ^ 32" using assms(2) by linarith
  then have u: "Suc t mod 2 ^ 32 = 0" by simp
  have "\<not> lev e 0 \<le> 3" "lev e t = 4"
    using assms(3) wrap_lev [OF assms(1) t] unfolding u by simp_all
  then show ?thesis unfolding u using lev_le_4 [of e 0] by (intro slot_of_lev) linarith
qed

lemma tick_down:
  assumes "future e t" "t < 2 ^ 32" "Some (slot_of e t) = moved (Suc t mod 2 ^ 32)"
  shows "lev e (Suc t mod 2 ^ 32) < lev e t"
    and "future e' t \<Longrightarrow> Some (slot_of e' t) \<noteq> moved (Suc t mod 2 ^ 32) \<Longrightarrow>
         lev e (Suc t mod 2 ^ 32) < lev e' (Suc t mod 2 ^ 32)"
proof -
  let ?u = "Suc t mod 2 ^ 32"
  have "lev e ?u < lev e t \<and>
      (future e' t \<longrightarrow> Some (slot_of e' t) \<noteq> moved ?u \<longrightarrow> lev e ?u < lev e' ?u)"
  proof (cases "Suc t < 2 ^ 32")
    case True
    then have u: "?u = Suc t" by simp
    then have d: "block 0 dvd Suc t" using assms(3) True by (auto simp: moved_def split: if_splits)
    then show ?thesis
      using assms(3) u moved_iff [OF assms(1) d True] moved_iff [OF _ d True, of e']
        lev_tick_carry(1) [OF assms(1) d True] lev_tick_carry(2) [OF _ d True, of e'] by auto
  next
    case False
    then have t: "Suc t = 2 ^ 32" using assms(2) by linarith
    then have u: "?u = 0" by simp
    have "lev e 0 \<le> 3" "lev e t = 4"
      using assms(3) wrap_lev [OF assms(1) t] unfolding u by simp_all
    then show ?thesis unfolding u using wrap_lev(2) [OF _ t, of e'] by auto
  qed
  then show "lev e ?u < lev e t"
    and "future e' t \<Longrightarrow> Some (slot_of e' t) \<noteq> moved ?u \<Longrightarrow> lev e ?u < lev e' ?u" by blast+
qed

lemma tick_move:
  assumes "future e t" "t < 2 ^ 32" "Some (slot_of e t) = moved (Suc t mod 2 ^ 32)"
  shows "slot_of e (Suc t mod 2 ^ 32) \<noteq> slot_of e t"
    and "future e' t \<Longrightarrow> Some (slot_of e' t) \<noteq> moved (Suc t mod 2 ^ 32) \<Longrightarrow>
         slot_of e (Suc t mod 2 ^ 32) \<noteq> slot_of e' (Suc t mod 2 ^ 32)"
  using tick_down [OF assms] slot_of_inj less_irrefl by metis+

section \<open>The wheel holds the pending nodes\<close>

lemma mask_nums:
  "(255 :: u32) = Bit_Operations.mask 8" "(63 :: u32) = Bit_Operations.mask 6"
  "(16383 :: u32) = Bit_Operations.mask 14" "(1048575 :: u32) = Bit_Operations.mask 20"
  "(67108863 :: u32) = Bit_Operations.mask 26"
  by (simp_all add: mask_eq_exp_minus_1)

lemma level_loop_eq:
  assumes "unat t div block 0 \<noteq> unat c div block 0"
  shows "Suc (level_loop 0 (push_bit TIME_LEVEL_SHIFT TIME_NEAR) t c) = lev (unat t) (unat c)"
  using assms
  by (simp add: level_loop.simps [of 0] level_loop.simps [of "Suc 0"]
      level_loop.simps [of "Suc (Suc 0)"] level_loop.simps [of "Suc (Suc (Suc 0))"]
      ti_consts push_bit_eq_mult lev_def)
    (simp add: mask_nums or_mask_eq_iff block_def)

lemma add_node_contents:
  "contents (add_node T n) s =
     (if s = slot_of (unat (expire n)) (unat (time T)) then contents T s @ [n] else contents T s)"
proof (cases "unat (expire n) div block 0 = unat (time T) div block 0")
  case True
  then have "(expire n OR TIME_NEAR_MASK) = (time T OR TIME_NEAR_MASK)"
    by (simp add: ti_consts mask_nums or_mask_eq_iff block_def)
  moreover have "slot_of (unat (expire n)) (unat (time T)) = Near (unat (expire n AND TIME_NEAR_MASK))"
    using True by (simp add: slot_of_def lev_def ti_consts mask_nums unat_and_mask)
  ultimately show ?thesis
    by (auto simp: add_node_def Let_def contents_def link_def split: slot.splits)
next
  case False
  define i where "i = level_loop 0 (push_bit TIME_LEVEL_SHIFT TIME_NEAR) (expire n) (time T)"
  have "(expire n OR TIME_NEAR_MASK) \<noteq> (time T OR TIME_NEAR_MASK)"
    using False by (simp add: ti_consts mask_nums or_mask_eq_iff block_def)
  moreover have "slot_of (unat (expire n)) (unat (time T)) =
      Level i (unat (drop_bit (TIME_NEAR_SHIFT + i * TIME_LEVEL_SHIFT) (expire n) AND TIME_LEVEL_MASK))"
    using level_loop_eq [OF False, symmetric] unfolding i_def [symmetric]
    by (simp add: slot_of_def TIME_NEAR_SHIFT_def TIME_LEVEL_SHIFT_def TIME_LEVEL_MASK_def TIME_LEVEL_def
        mask_nums unat_and_mask unat_drop_bit_div block_def mult.commute)
  ultimately show ?thesis
    by (auto simp: add_node_def Let_def contents_def link_def i_def [symmetric] split: slot.splits)
qed

lemma add_node_time [simp]: "time (add_node T n) = time T"
  by (simp add: add_node_def Let_def)

lemma add_nodes_contents:
  "contents (foldl add_node T ns) s =
     contents T s @ filter (\<lambda>n. slot_of (unat (expire n)) (unat (time T)) = s) ns
   \<and> time (foldl add_node T ns) = time T"
  by (induction ns arbitrary: T) (auto simp: add_node_contents)

lemma move_list_contents:
  "contents (move_list T i k) s =
     (if s = Level i k then [] else contents T s) @
     filter (\<lambda>n. slot_of (unat (expire n)) (unat (time T)) = s) (contents T (Level i k))"
  "time (move_list T i k) = time T"
  by (auto simp: move_list_def link_clear_def Let_def add_nodes_contents)
    (auto simp: contents_def split: slot.splits)

lemma shift_loop_eq:
  assumes "ct \<noteq> 0"
  shows "shift_loop ct (drop_bit TIME_NEAR_SHIFT ct) TIME_NEAR 0 =
    Some (if block 0 dvd unat ct
          then Some (carry (unat ct), (unat ct div block (carry (unat ct))) mod 64) else None)"
proof -
  let ?u = "unat ct"
  have low: "(ct AND 255 = 0) = (block 0 dvd ?u)" "(ct AND 16383 = 0) = (block 1 dvd ?u)"
    "(ct AND 1048575 = 0) = (block 2 dvd ?u)" "(ct AND 67108863 = 0) = (block 3 dvd ?u)"
    by (simp_all add: mask_nums and_mask_zero_iff block_def)
  have mid: "unat (drop_bit (8 + 6 * k) ct AND 63) = (?u div block k) mod 64" for k
    by (simp add: mask_nums unat_and_mask unat_drop_bit_div block_def)
  have zero: "drop_bit (8 + 6 * k) ct AND 63 = 0 \<longleftrightarrow> block (k + 1) dvd ?u" if "block k dvd ?u" for k
    using that mid [of k]
    by (simp add: unat_eq_zero [symmetric] block_Suc mod_eq_0_iff_dvd dvd_div_iff_mult mult.commute
        del: unat_eq_zero)
  have z1: "drop_bit 14 ct AND 63 = 0 \<longleftrightarrow> block 2 dvd ?u" if "block 1 dvd ?u"
    using zero [OF that] by (simp add: numeral_2_eq_2)
  have last: "\<not> block 4 dvd ?u"
    using assms unat_u32_less [of ct] by (auto simp: block_def unat_eq_zero dest: dvd_imp_le)
  have mono: "block 3 dvd ?u \<Longrightarrow> block 2 dvd ?u" "block 2 dvd ?u \<Longrightarrow> block 1 dvd ?u" "block 1 dvd ?u \<Longrightarrow> block 0 dvd ?u"
    by (auto intro: block_dvd_mono [rotated])
  consider (q) "\<not> block 0 dvd ?u" | (c0) "block 0 dvd ?u" "\<not> block 1 dvd ?u"
    | (c1) "block 1 dvd ?u" "\<not> block 2 dvd ?u" | (c2) "block 2 dvd ?u" "\<not> block 3 dvd ?u" | (c3) "block 3 dvd ?u"
    by blast
  then show ?thesis
  proof cases
    case q
    then show ?thesis by (simp add: shift_loop.simps ti_consts low)
  next
    case c0
    then show ?thesis using zero [of 0] mid [of 0]
      by (simp add: shift_loop.simps ti_consts low carry_def)
  next
    case c1
    then show ?thesis using mono zero [of 0] z1 mid [of 1]
      by (simp add: shift_loop.simps ti_consts push_bit_eq_mult low carry_def)
  next
    case c2
    then show ?thesis using mono zero [of 0] z1 zero [of 2] mid [of 2]
      by (simp add: shift_loop.simps ti_consts push_bit_eq_mult low carry_def)
  next
    case c3
    then show ?thesis using mono zero [of 0] z1 zero [of 2] zero [of 3] mid [of 3] last
      by (simp add: shift_loop.simps ti_consts push_bit_eq_mult low carry_def)
  qed
qed

text \<open>
  \<open>wheel T ps\<close>: every slot holds, in order, the nodes of \<open>ps\<close> that belong there
  at the current time.  \<open>timer_ok\<close> adds that no node is due or more than \<open>2\<^sup>3\<^sup>1\<close>
  ticks away.
\<close>

definition wheel :: "timer \<Rightarrow> timer_node list \<Rightarrow> bool" where
  "wheel T ps \<longleftrightarrow>
     (\<forall>s. contents T s = filter (\<lambda>n. slot_of (unat (expire n)) (unat (time T)) = s) ps)"

definition timer_ok :: "timer \<Rightarrow> timer_node list \<Rightarrow> bool" where
  "timer_ok T ps \<longleftrightarrow>
     wheel T ps \<and> (\<forall>n \<in> set ps. 0 < unat (expire n - time T) \<and> unat (expire n - time T) < 2 ^ 31)"

definition new_node :: "u32 \<Rightarrow> timer_event \<times> int \<Rightarrow> timer_node" where
  "new_node t a = \<lparr>expire = word_of_int (snd a) + t, event = fst a\<rparr>"

text \<open>\<^verbatim>\<open>skynet_timeout\<close> only adds positive timeouts, and an \<^verbatim>\<open>int\<close> is below \<open>2\<^sup>3\<^sup>1\<close>.\<close>

definition valid_adds :: "additions \<Rightarrow> bool" where
  "valid_adds adds \<longleftrightarrow> list_all (\<lambda>a. 0 < snd a \<and> snd a < 2 ^ 31) adds"

definition valid_windows :: "additions list \<Rightarrow> bool" where
  "valid_windows ws \<longleftrightarrow> list_all valid_adds ws"

lemma add_node_wheel: "wheel T ps \<Longrightarrow> wheel (add_node T n) (ps @ [n])"
  by (simp add: wheel_def add_node_contents)

lemma distance_new: "0 < k \<Longrightarrow> k < 2 ^ 31 \<Longrightarrow> unat (word_of_int k :: u32) = nat k"
  by (simp add: unsigned_of_int take_bit_int_eq_self_iff take_bit_int_eq_self nat_take_bit_eq)

lemma timer_add_ok:
  assumes "timer_ok T ps" "0 < k" "k < 2 ^ 31"
  shows "timer_ok (timer_add T arg k) (ps @ [new_node (time T) (arg, k)])" "time (timer_add T arg k) = time T"
  using assms distance_new [of k]
  by (auto simp: timer_ok_def timer_add_def new_node_def add_node_wheel)

lemma timer_adds_ok:
  assumes "timer_ok T ps" "valid_adds adds"
  shows "timer_ok (timer_adds T adds) (ps @ map (new_node (time T)) adds) \<and> time (timer_adds T adds) = time T"
  using assms
proof (induction adds arbitrary: T ps)
  case Nil
  then show ?case by (simp add: timer_adds_def)
next
  case (Cons a adds)
  obtain arg k where a: "a = (arg, k)" by (cases a)
  have k: "0 < k" "k < 2 ^ 31" and v: "valid_adds adds" using Cons.prems by (auto simp: valid_adds_def a)
  from Cons.IH [OF timer_add_ok(1) [OF Cons.prems(1) k, of arg] v] timer_add_ok(2) [OF Cons.prems(1) k]
  show ?case by (simp add: timer_adds_def a)
qed

text \<open>The distance of a node that is still to come.\<close>

lemma future_word:
  assumes "0 < unat (e - t)" "unat (e - t) < 2 ^ 31"
  shows "future (unat e) (unat (t :: u32))"
proof -
  have "unat t < unat e" if b: "unat e div block 3 = unat t div block 3"
  proof (rule ccontr)
    assume "\<not> unat t < unat e"
    then have le: "unat e \<le> unat t" by simp
    have "unat t - unat e < block 3"
    proof -
      have "unat e = unat t div block 3 * block 3 + unat e mod block 3"
        using b by (metis div_mult_mod_eq)
      moreover have "unat t = unat t div block 3 * block 3 + unat t mod block 3" by simp
      moreover have "unat t mod block 3 < block 3" by simp
      ultimately show ?thesis by linarith
    qed
    moreover have "unat (e - t) = 2 ^ 32 - (unat t - unat e)"
      using le assms(1) by (auto simp: unat_sub_if_size word_size)
    ultimately show False using assms(2) by (simp add: block_nums)
  qed
  then show ?thesis using assms(1) unat_u32_less [of e] by (auto simp: future_def)
qed

lemma filter_move:
  assumes "\<And>x. x \<in> set ps \<Longrightarrow> g x \<noteq> M \<Longrightarrow> h x = g x"
    and "\<And>x y. x \<in> set ps \<Longrightarrow> y \<in> set ps \<Longrightarrow> g x = M \<Longrightarrow> g y \<noteq> M \<Longrightarrow> h x \<noteq> h y"
    and "\<And>x. x \<in> set ps \<Longrightarrow> g x = M \<Longrightarrow> h x \<noteq> M"
  shows "(if s = M then [] else filter (\<lambda>x. g x = s) ps) @ filter (\<lambda>x. h x = s) (filter (\<lambda>x. g x = M) ps)
       = filter (\<lambda>x. h x = s) ps"
proof (cases "\<exists>y \<in> set ps. g y \<noteq> M \<and> h y = s")
  case True
  then obtain y where y: "y \<in> set ps" "g y \<noteq> M" "h y = s" by blast
  then have "s \<noteq> M" using assms(1) by metis
  moreover have "filter (\<lambda>x. h x = s) (filter (\<lambda>x. g x = M) ps) = []"
    using assms(2) y by (auto simp: filter_empty_conv)
  moreover have "filter (\<lambda>x. g x = s) ps = filter (\<lambda>x. h x = s) ps"
    using assms(1,2) y \<open>s \<noteq> M\<close> by (intro filter_cong) (metis, metis)
  ultimately show ?thesis by simp
next
  case False
  then have "(if s = M then [] else filter (\<lambda>x. g x = s) ps) = []"
    using assms(1) by (auto simp: filter_empty_conv)
  moreover have "filter (\<lambda>x. h x = s) (filter (\<lambda>x. g x = M) ps) = filter (\<lambda>x. h x = s) ps"
    using False by (auto intro: filter_cong)
  ultimately show ?thesis by simp
qed

lemma wheel_time [simp]: "contents (T\<lparr>time := t\<rparr>) s = contents T s"
  by (simp add: contents_def split: slot.splits)

lemma unat_Suc32: "unat (t + 1 :: u32) = Suc (unat t) mod 2 ^ 32"
  by (simp add: unat_word_ariths)

text \<open>After the shift every slot is right for the new time.\<close>

lemma timer_shift_ok:
  assumes T: "timer_ok T ps"
  shows "\<exists>T'. timer_shift T = Inr T' \<and> wheel T' ps \<and> time T' = time T + 1"
proof -
  let ?t = "unat (time T)" and ?u = "unat (time T + 1)"
  let ?g = "\<lambda>n. slot_of (unat (expire n)) ?t" and ?h = "\<lambda>n. slot_of (unat (expire n)) ?u"
  let ?T = "T\<lparr>time := time T + 1\<rparr>"
  have w: "contents T s = filter (\<lambda>n. ?g n = s) ps" for s using T by (simp add: timer_ok_def wheel_def)
  have fut: "future (unat (expire n)) ?t" if "n \<in> set ps" for n
    using T that future_word by (simp add: timer_ok_def)
  have t: "?t < 2 ^ 32" by (rule unat_u32_less)
  have mv: "\<exists>i k. i < 4 \<and> M = Level i k \<and> timer_shift T = Inr (move_list ?T i k)" if "moved ?u = Some M" for M
    using that shift_loop_eq [of "time T + 1"] carry_le [of ?u]
    by (auto simp: timer_shift_def Let_def moved_def unat_eq_zero split: if_splits)
  show ?thesis
  proof (cases "moved ?u")
    case None
    then have "timer_shift T = Inr ?T"
      using shift_loop_eq [of "time T + 1"]
      by (auto simp: timer_shift_def Let_def moved_def unat_eq_zero split: if_splits)
    moreover have "wheel ?T ps"
      unfolding wheel_def
      using None tick_stay [OF fut t] w by (simp add: unat_Suc32 cong: filter_cong)
    ultimately show ?thesis by simp
  next
    case (Some M)
    with mv obtain i k where M: "M = Level i k" "timer_shift T = Inr (move_list ?T i k)" by blast
    have "contents (move_list ?T i k) s = filter (\<lambda>n. ?h n = s) ps" for s
    proof -
      have "contents (move_list ?T i k) s
          = (if s = M then [] else filter (\<lambda>n. ?g n = s) ps) @ filter (\<lambda>n. ?h n = s) (filter (\<lambda>n. ?g n = M) ps)"
        by (simp add: move_list_contents w M(1))
      also have "\<dots> = filter (\<lambda>n. ?h n = s) ps"
      proof (rule filter_move)
        show "?h x = ?g x" if "x \<in> set ps" "?g x \<noteq> M" for x
          using that Some tick_stay [OF fut t] by (simp add: unat_Suc32)
        show "?h x \<noteq> ?h y" if "x \<in> set ps" "y \<in> set ps" "?g x = M" "?g y \<noteq> M" for x y
          using that Some tick_move(2) [OF fut t _ fut] by (simp add: unat_Suc32)
        show "?h x \<noteq> M" if "x \<in> set ps" "?g x = M" for x
          using that Some tick_move(1) [OF fut t] by (simp add: unat_Suc32)
      qed
      finally show ?thesis .
    qed
    then show ?thesis using M(2) by (simp add: wheel_def move_list_contents)
  qed
qed

text \<open>The slot of the current time holds exactly the nodes that are due.\<close>

lemma due_slot: "slot_of (unat e) (unat t) = Near (unat (t AND TIME_NEAR_MASK)) \<longleftrightarrow> e = (t :: u32)"
proof -
  have "slot_of (unat e) (unat t) = Near (unat t mod 256) \<longleftrightarrow>
      unat e div 256 = unat t div 256 \<and> unat e mod 256 = unat t mod 256"
    by (simp add: slot_of_def lev_def block_nums)
  also have "\<dots> \<longleftrightarrow> e = t" by (metis div_mult_mod_eq word_unat_eq_iff)
  finally show ?thesis by (simp add: ti_consts mask_nums unat_and_mask)
qed

lemma due_contents:
  assumes "wheel T ps"
  shows "near T (unat (time T AND TIME_NEAR_MASK)) = filter (\<lambda>n. expire n = time T) ps"
proof -
  have "near T k = contents T (Near k)" for k by (simp add: contents_def)
  then show ?thesis using assms by (simp add: wheel_def due_slot)
qed

definition spec_execute :: "additions list \<Rightarrow> u32 \<Rightarrow> timer_node list \<Rightarrow> timer_node list \<times> timer_node list" where
  "spec_execute windows t ps =
     (let due = filter (\<lambda>n. expire n = t) ps; later = filter (\<lambda>n. expire n \<noteq> t) ps
      in (due, if due = [] \<or> windows = [] then later else later @ map (new_node t) (hd windows)))"

lemma timer_execute_quiet:
  assumes "timer_ok T ps"
  shows "timer_execute windows T = ([], T)"
proof -
  have "near T (unat (time T AND TIME_NEAR_MASK)) = []"
    using assms due_contents [of T ps] by (auto simp: timer_ok_def filter_empty_conv)
  then show ?thesis by (subst timer_execute.simps) simp
qed

lemma wheel_clear:
  assumes "wheel T ps"
  shows "wheel (T\<lparr>near := (near T)(unat (time T AND TIME_NEAR_MASK) := [])\<rparr>) (filter (\<lambda>n. expire n \<noteq> time T) ps)"
proof -
  let ?d = "Near (unat (time T AND TIME_NEAR_MASK))"
  have "contents (T\<lparr>near := (near T)(unat (time T AND TIME_NEAR_MASK) := [])\<rparr>) s
      = (if s = ?d then [] else contents T s)" for s
    by (auto simp: contents_def split: slot.splits)
  then show ?thesis
    using assms by (auto simp: wheel_def filter_empty_conv due_slot [symmetric] intro!: filter_cong)
qed

lemma timer_execute_ok:
  assumes T: "wheel T ps" and d: "\<forall>n \<in> set ps. unat (expire n - time T) < 2 ^ 31"
    and ws: "valid_windows windows"
  shows "\<exists>T'. timer_execute windows T = (fst (spec_execute windows (time T) ps), T') \<and>
      timer_ok T' (snd (spec_execute windows (time T) ps)) \<and> time T' = time T"
proof -
  let ?due = "filter (\<lambda>n. expire n = time T) ps" and ?later = "filter (\<lambda>n. expire n \<noteq> time T) ps"
  let ?T = "T\<lparr>near := (near T)(unat (time T AND TIME_NEAR_MASK) := [])\<rparr>"
  have later: "timer_ok ?T ?later"
    using wheel_clear [OF T] d by (auto simp: timer_ok_def unat_gt_0)
  consider "?due = []" | "?due \<noteq> []" "windows = []" | adds ws where "?due \<noteq> []" "windows = adds # ws"
    by (cases windows) auto
  then show ?thesis
  proof cases
    case 1
    then have "?later = ps" by (auto simp: filter_empty_conv intro: filter_True)
    moreover have "timer_ok T ps" using 1 d T by (auto simp: timer_ok_def filter_empty_conv unat_gt_0)
    ultimately show ?thesis using 1 timer_execute_quiet by (simp add: spec_execute_def)
  next
    case 2
    then show ?thesis using later
      by (subst timer_execute.simps) (simp add: due_contents [OF T] spec_execute_def link_clear_def)
  next
    case (3 adds ws)
    then have "valid_adds adds" using \<open>valid_windows windows\<close> by (simp add: valid_windows_def)
    then have "timer_ok (timer_adds ?T adds) (?later @ map (new_node (time T)) adds)"
        "time (timer_adds ?T adds) = time T"
      using timer_adds_ok [OF later] by auto
    then show ?thesis using 3 timer_execute_quiet
      by (subst timer_execute.simps) (simp add: due_contents [OF T] spec_execute_def link_clear_def Let_def)
  qed
qed

text \<open>The wheel does not touch the readings of the system clocks.\<close>

definition same_clock :: "timer \<Rightarrow> timer \<Rightarrow> bool" where
  "same_clock T T' \<longleftrightarrow>
     current T' = current T \<and> current_point T' = current_point T \<and> starttime T' = starttime T"

lemma same_clock_refl [simp]: "same_clock T T"
  and same_clock_upd [simp]: "same_clock T (T\<lparr>near := n\<rparr>)" "same_clock T (T\<lparr>levels := l\<rparr>)" "same_clock T (T\<lparr>time := t\<rparr>)"
  by (simp_all add: same_clock_def)

lemma same_clock_trans: "same_clock T U \<Longrightarrow> same_clock U V \<Longrightarrow> same_clock T V"
  by (simp add: same_clock_def)

lemma add_node_clock: "same_clock T (add_node T n)"
  by (simp add: add_node_def Let_def)

lemma add_nodes_clock: "same_clock T (foldl add_node T ns)"
  by (induction ns arbitrary: T) (auto intro: same_clock_trans [OF add_node_clock])

lemma timer_adds_clock: "same_clock T (timer_adds T adds)"
  unfolding timer_adds_def timer_add_def
  by (induction adds arbitrary: T) (auto intro: same_clock_trans [OF add_node_clock])

lemma move_list_clock: "same_clock T (move_list T i k)"
  unfolding move_list_def link_clear_def Let_def
  by (simp add: same_clock_trans [OF same_clock_upd(2) add_nodes_clock])

lemma timer_shift_clock: "timer_shift T = Inr T' \<Longrightarrow> same_clock T T'"
  using same_clock_trans [OF same_clock_upd(3) move_list_clock, of T]
  by (auto simp: timer_shift_def Let_def split: if_splits option.splits)

lemma timer_execute_clock: "timer_execute windows T = (out, T') \<Longrightarrow> same_clock T T'"
proof (induction windows arbitrary: T out T')
  case Nil
  then show ?case by (subst (asm) timer_execute.simps) (auto simp: link_clear_def Let_def split: if_splits)
next
  case (Cons adds ws)
  let ?T = "timer_adds (T\<lparr>near := (near T)(unat (time T AND TIME_NEAR_MASK) := [])\<rparr>) adds"
  have T: "same_clock T ?T" by (rule same_clock_trans [OF same_clock_upd(1) timer_adds_clock])
  show ?case
  proof (cases "near T (unat (time T AND TIME_NEAR_MASK)) = []")
    case True
    then show ?thesis using Cons.prems by (subst (asm) timer_execute.simps) auto
  next
    case False
    then have "T' = snd (timer_execute ws ?T)"
      using Cons.prems by (subst (asm) timer_execute.simps) (auto simp: link_clear_def Let_def case_prod_unfold)
    then show ?thesis using same_clock_trans [OF T Cons.IH [of ?T "fst (timer_execute ws ?T)"]] by simp
  qed
qed

lemma timer_update_clock: "timer_update w1 w2 T = Inr (out, T') \<Longrightarrow> same_clock T T'"
  by (auto simp: timer_update_def bindR_eq_Inr case_prod_unfold Let_def)
    (metis prod.collapse same_clock_trans timer_execute_clock timer_shift_clock)

lemma timer_updates_clock: "timer_updates env i n T = Inr (outs, T') \<Longrightarrow> same_clock T T'"
proof (induction n arbitrary: i T outs)
  case (Suc n)
  then show ?case
    by (auto simp: bindR_eq_Inr) (meson same_clock_trans timer_adds_clock timer_update_clock)
qed simp

section \<open>Ticks\<close>

lemma distance_tick:
  fixes e t :: u32
  assumes "0 < unat (e - t)"
  shows "unat (e - (t + 1)) = unat (e - t) - 1"
proof -
  have "e - (t + 1) = e - t - 1" by (rule diff_diff_eq [symmetric])
  moreover have "unat (e - t - 1) = unat (e - t) - 1"
    using assms by (intro unat_minus_one) auto
  ultimately show ?thesis by (simp only:)
qed

lemma timer_update_ok:
  assumes "timer_ok T ps" and "valid_windows windows2"
  shows "\<exists>T'. timer_update windows1 windows2 T = Inr (fst (spec_execute windows2 (time T + 1) ps), T') \<and>
           timer_ok T' (snd (spec_execute windows2 (time T + 1) ps)) \<and> time T' = time T + 1"
proof -
  obtain T2 where T2: "timer_shift T = Inr T2" "wheel T2 ps" "time T2 = time T + 1"
    using timer_shift_ok [OF assms(1)] by blast
  have "\<forall>n \<in> set ps. unat (expire n - time T2) < 2 ^ 31"
    using assms(1) T2(3) by (force simp: timer_ok_def distance_tick)
  from timer_execute_ok [OF T2(2) this assms(2)] show ?thesis
    using timer_execute_quiet [OF assms(1)] T2 by (auto simp: timer_update_def)
qed

text \<open>
  C5: one tick of the timing wheel refines one tick of a plain list of pending
  timers.  The wheel hands out exactly the nodes that expire at the new time, in
  the order they were added, although they went through up to five slots on the
  way; everything else stays pending, timers that other threads add meanwhile
  included.  The loop that looks for the slot to move ends inside the four levels.
\<close>

theorem timer_update_refines:
  assumes "timer_ok T ps" and "valid_windows windows2"
  shows "\<exists>T'. timer_update windows1 windows2 T = Inr (fst (spec_execute windows2 (time T + 1) ps), T') \<and>
           timer_ok T' (snd (spec_execute windows2 (time T + 1) ps)) \<and> time T' = time T + 1"
  using assms by (rule timer_update_ok)

definition tick_event :: timer_event where
  "tick_event = \<lparr>ev_handle = 9, ev_session = 4\<rparr>"

lemma timer_create_ok: "timer_ok timer_create_timer []"
  by (simp add: timer_ok_def wheel_def contents_def timer_create_timer_def split: slot.splits)

theorem timer_update_refines_witness:
  "\<exists>T'. timer_update [] [] (timer_add timer_create_timer tick_event 1)
      = Inr ([new_node 0 (tick_event, 1)], T') \<and> timer_ok T' []"
proof -
  have t: "time timer_create_timer = 0" by (simp add: timer_create_timer_def)
  have ok: "timer_ok (timer_add timer_create_timer tick_event 1) [new_node 0 (tick_event, 1)]"
      "time (timer_add timer_create_timer tick_event 1) = 0"
    using timer_add_ok [OF timer_create_ok, of 1 tick_event] t by simp_all
  show ?thesis
    using timer_update_refines [OF ok(1), of "[]" "[]"] ok(2)
    by (auto simp: spec_execute_def new_node_def valid_windows_def)
qed

definition valid_env :: "timer_env \<Rightarrow> bool" where
  "valid_env env \<longleftrightarrow> (\<forall>i. valid_adds (fst (env i)) \<and> valid_windows (snd (snd (env i))))"

text \<open>The specification of a run of ticks: the list of pending nodes and what each tick hands out.\<close>

fun spec_run :: "timer_env \<Rightarrow> nat \<Rightarrow> nat \<Rightarrow> u32 \<Rightarrow> timer_node list \<Rightarrow> timer_node list list \<times> timer_node list" where
  "spec_run env i 0 t ps = ([], ps)"
| "spec_run env i (Suc n) t ps =
     (let (out, ps') = spec_execute (snd (snd (env i))) (t + 1) (ps @ map (new_node t) (fst (env i)));
          (outs, ps'') = spec_run env (Suc i) n (t + 1) ps'
      in (out # outs, ps''))"

lemma timer_updates_ok:
  assumes "timer_ok T ps" "valid_env env"
  shows "\<exists>T'. timer_updates env i n T = Inr (fst (spec_run env i n (time T) ps), T') \<and>
           timer_ok T' (snd (spec_run env i n (time T) ps)) \<and> time T' = time T + of_nat n"
  using assms(1)
proof (induction n arbitrary: i T ps)
  case 0
  then show ?case by simp
next
  case (Suc n)
  let ?T = "timer_adds T (fst (env i))" and ?ps = "ps @ map (new_node (time T)) (fst (env i))"
  have v: "valid_adds (fst (env i))" "valid_windows (snd (snd (env i)))"
    using assms(2) by (auto simp: valid_env_def)
  have T: "timer_ok ?T ?ps" "time ?T = time T" using timer_adds_ok [OF Suc.prems v(1)] by auto
  obtain T' where T': "timer_update (fst (snd (env i))) (snd (snd (env i))) ?T
        = Inr (fst (spec_execute (snd (snd (env i))) (time T + 1) ?ps), T')"
      "timer_ok T' (snd (spec_execute (snd (snd (env i))) (time T + 1) ?ps))" "time T' = time T + 1"
    using timer_update_ok [OF T(1) v(2)] T(2) by metis
  from Suc.IH [OF T'(2), of "Suc i"] T' show ?case
    by (auto simp: case_prod_unfold Let_def)
qed

text \<open>A pending node keeps pending until its time, and is handed out then.\<close>

lemma spec_run_fires:
  assumes "n \<in> set ps" "unat (expire n - t) = Suc k" "k < m"
  shows "n \<in> set (fst (spec_run env i m t ps) ! k) \<and> (\<forall>j < k. n \<notin> set (fst (spec_run env i m t ps) ! j))"
  using assms
proof (induction k arbitrary: i m t ps)
  case 0
  then obtain m' where "m = Suc m'" by (cases m) auto
  moreover have "expire n - t = 1" using 0(2) by (simp add: word_unat_eq_iff)
  then have "expire n = t + 1" by (simp add: diff_eq_eq add.commute)
  ultimately show ?case using 0(1) by (auto simp: case_prod_unfold Let_def spec_execute_def)
next
  case (Suc k)
  then obtain m' where m: "m = Suc m'" "k < m'" by (cases m) auto
  have d: "unat (expire n - (t + 1)) = Suc k"
    using Suc.prems(2) by (simp add: distance_tick)
  then have ne: "expire n \<noteq> t + 1" by auto
  let ?ps = "snd (spec_execute (snd (snd (env i))) (t + 1) (ps @ map (new_node t) (fst (env i))))"
  have "n \<in> set ?ps" using Suc.prems(1) ne by (auto simp: spec_execute_def Let_def)
  from Suc.IH [OF this d m(2), of "Suc i"] ne show ?case
    by (auto simp: m(1) case_prod_unfold Let_def spec_execute_def less_Suc_eq_0_disj)
qed

lemma length_spec_run: "length (fst (spec_run env i m t ps)) = m"
  by (induction m arbitrary: i t ps) (auto simp: case_prod_unfold Let_def)





end
