(* ===== verification/Locks.thy ===== *)
theory Locks
  imports Prelude
begin

text \<open>
  The two locks of the kernel (\<^verbatim>\<open>skynet-src/spinlock.h\<close> and
  \<^verbatim>\<open>skynet-src/rwlock.h\<close>, the variants built on the \<^verbatim>\<open>__sync\<close> builtins) at the
  granularity of their memory accesses: any number of threads, each at a
  program point, interleave single accesses to the words of the lock.  Mutual
  exclusion is what makes the operations of the other theories atomic.
\<close>

section \<open>Spin lock\<close>

text \<open>\<^verbatim>\<open>__sync_lock_test_and_set(p, 1)\<close> returns the old value and stores 1.\<close>

definition test_and_set :: "int \<Rightarrow> int \<times> int" where
  "test_and_set v = (v, 1)"

datatype spin_pc = S_out | S_locking | S_in

record spin_state =
  spin_word :: int
  spin_pc :: "nat \<Rightarrow> spin_pc"

definition spinlock_init :: spin_state where
  "spinlock_init = \<lparr>spin_word = 0, spin_pc = (\<lambda>_. S_out)\<rparr>"

text \<open>One iteration of \<^verbatim>\<open>while (__sync_lock_test_and_set(&lock->lock,1)) {}\<close>.\<close>

definition spinlock_lock :: "nat \<Rightarrow> spin_state \<Rightarrow> spin_state" where
  "spinlock_lock t s =
     (let (old, new) = test_and_set (spin_word s)
      in s\<lparr>spin_word := new, spin_pc := (spin_pc s)(t := if old \<noteq> 0 then S_locking else S_in)\<rparr>)"

definition spinlock_trylock :: "nat \<Rightarrow> spin_state \<Rightarrow> bool \<times> spin_state" where
  "spinlock_trylock t s =
     (let (old, new) = test_and_set (spin_word s)
      in (old = 0, s\<lparr>spin_word := new, spin_pc := (spin_pc s)(t := if old = 0 then S_in else S_out)\<rparr>))"

definition spinlock_unlock :: "nat \<Rightarrow> spin_state \<Rightarrow> spin_state" where
  "spinlock_unlock t s = s\<lparr>spin_word := 0, spin_pc := (spin_pc s)(t := S_out)\<rparr>"

inductive spin_step :: "spin_state \<Rightarrow> spin_state \<Rightarrow> bool" where
  lock: "spin_pc s t \<noteq> S_in \<Longrightarrow> spin_step s (spinlock_lock t s)"
| trylock: "spin_pc s t = S_out \<Longrightarrow> spin_step s (snd (spinlock_trylock t s))"
| unlock: "spin_pc s t = S_in \<Longrightarrow> spin_step s (spinlock_unlock t s)"

inductive spin_reachable :: "spin_state \<Rightarrow> bool" where
  start: "spin_reachable spinlock_init"
| step: "spin_reachable s \<Longrightarrow> spin_step s s' \<Longrightarrow> spin_reachable s'"

definition spin_ok :: "spin_state \<Rightarrow> bool" where
  "spin_ok s \<longleftrightarrow>
     (spin_word s = 0 \<and> (\<forall>t. spin_pc s t \<noteq> S_in)) \<or>
     (spin_word s = 1 \<and> (\<exists>!t. spin_pc s t = S_in))"

lemma spin_step_ok: "spin_step s s' \<Longrightarrow> spin_ok s \<Longrightarrow> spin_ok s'"
proof (induction rule: spin_step.induct)
  case (lock s t)
  then show ?case by (auto simp: spin_ok_def spinlock_lock_def test_and_set_def split: if_splits)
next
  case (trylock s t)
  then show ?case
    by (auto simp: spin_ok_def spinlock_trylock_def test_and_set_def split: if_splits) (metis spin_pc.distinct)
next
  case (unlock s t)
  then show ?case by (auto simp: spin_ok_def spinlock_unlock_def)
qed

lemma spin_reachable_ok: "spin_reachable s \<Longrightarrow> spin_ok s"
proof (induction rule: spin_reachable.induct)
  case start
  show ?case by (simp add: spin_ok_def spinlock_init_def)
next
  case (step s s')
  then show ?case by (blast intro: spin_step_ok)
qed

text \<open>
  C8: the spin lock excludes.  In every reachable state at most one thread is
  inside, and a thread can enter (by \<^verbatim>\<open>spinlock_lock\<close> or \<^verbatim>\<open>spinlock_trylock\<close>)
  exactly when none is.
\<close>

theorem spinlock_exclusion:
  assumes "spin_reachable s"
  shows "(spin_pc s t = S_in \<longrightarrow> spin_pc s u = S_in \<longrightarrow> t = u) \<and>
    (spin_pc (spinlock_lock v s) v = S_in \<longleftrightarrow> (\<forall>t. spin_pc s t \<noteq> S_in)) \<and>
    (fst (spinlock_trylock v s) \<longleftrightarrow> (\<forall>t. spin_pc s t \<noteq> S_in))"
  using spin_reachable_ok [OF assms]
  by (auto simp: spin_ok_def spinlock_lock_def spinlock_trylock_def test_and_set_def)

theorem spinlock_exclusion_witness:
  "spin_reachable (spinlock_lock 3 spinlock_init) \<and> \<not> fst (spinlock_trylock 4 (spinlock_lock 3 spinlock_init))"
proof -
  have r: "spin_reachable (spinlock_lock 3 spinlock_init)"
    by (rule spin_reachable.step [OF spin_reachable.start], rule spin_step.lock) (simp add: spinlock_init_def)
  have "spin_pc (spinlock_lock 3 spinlock_init) 3 = S_in"
    by (simp add: spinlock_lock_def spinlock_init_def test_and_set_def)
  then show ?thesis using spinlock_exclusion [OF r, of 0 0 4] r by blast
qed

section \<open>Reader-writer lock\<close>

text \<open>
  The program points of \<^verbatim>\<open>rwlock_rlock\<close> (waiting for the writer, about to count
  itself, counted and about to look again, about to step back), of
  \<^verbatim>\<open>rwlock_wlock\<close> (claiming the word \<^verbatim>\<open>write\<close>, waiting for the readers), and
  of the threads that hold the lock.
\<close>

datatype rw_pc = RW_out | R_wait | R_count | R_check | R_back | R_in | W_claim | W_drain | W_in

record rwlock =
  rw_write :: int
  rw_read :: int
  rw_pc :: "nat \<Rightarrow> rw_pc"

definition rwlock_init :: rwlock where
  "rwlock_init = \<lparr>rw_write = 0, rw_read = 0, rw_pc = (\<lambda>_. RW_out)\<rparr>"

definition goto :: "nat \<Rightarrow> rw_pc \<Rightarrow> rwlock \<Rightarrow> rwlock" where
  "goto t p s = s\<lparr>rw_pc := (rw_pc s)(t := p)\<rparr>"

text \<open>The next memory access of a thread inside \<^verbatim>\<open>rwlock_rlock\<close>.\<close>

definition rwlock_rlock :: "nat \<Rightarrow> rwlock \<Rightarrow> rwlock" where
  "rwlock_rlock t s =
     (case rw_pc s t of
        R_wait \<Rightarrow> goto t (if rw_write s \<noteq> 0 then R_wait else R_count) s
      | R_count \<Rightarrow> goto t R_check (s\<lparr>rw_read := rw_read s + 1\<rparr>)
      | R_check \<Rightarrow> goto t (if rw_write s \<noteq> 0 then R_back else R_in) s
      | R_back \<Rightarrow> goto t R_wait (s\<lparr>rw_read := rw_read s - 1\<rparr>)
      | _ \<Rightarrow> goto t R_wait s)"

definition rwlock_wlock :: "nat \<Rightarrow> rwlock \<Rightarrow> rwlock" where
  "rwlock_wlock t s =
     (case rw_pc s t of
        W_claim \<Rightarrow>
          (let (old, new) = test_and_set (rw_write s)
           in goto t (if old \<noteq> 0 then W_claim else W_drain) (s\<lparr>rw_write := new\<rparr>))
      | W_drain \<Rightarrow> goto t (if rw_read s \<noteq> 0 then W_drain else W_in) s
      | _ \<Rightarrow> goto t W_claim s)"

definition rwlock_wunlock :: "nat \<Rightarrow> rwlock \<Rightarrow> rwlock" where
  "rwlock_wunlock t s = goto t RW_out (s\<lparr>rw_write := 0\<rparr>)"

definition rwlock_runlock :: "nat \<Rightarrow> rwlock \<Rightarrow> rwlock" where
  "rwlock_runlock t s = goto t RW_out (s\<lparr>rw_read := rw_read s - 1\<rparr>)"

inductive rw_step :: "rwlock \<Rightarrow> rwlock \<Rightarrow> bool" where
  rlock: "rw_pc s t \<in> {RW_out, R_wait, R_count, R_check, R_back} \<Longrightarrow> rw_step s (rwlock_rlock t s)"
| wlock: "rw_pc s t \<in> {RW_out, W_claim, W_drain} \<Longrightarrow> rw_step s (rwlock_wlock t s)"
| runlock: "rw_pc s t = R_in \<Longrightarrow> rw_step s (rwlock_runlock t s)"
| wunlock: "rw_pc s t = W_in \<Longrightarrow> rw_step s (rwlock_wunlock t s)"

inductive rw_reachable :: "rwlock \<Rightarrow> bool" where
  start: "rw_reachable rwlock_init"
| step: "rw_reachable s \<Longrightarrow> rw_step s s' \<Longrightarrow> rw_reachable s'"

text \<open>
  \<^verbatim>\<open>read\<close> counts the threads that have counted themselves; \<^verbatim>\<open>write\<close> is set while
  one thread has claimed it; and while a writer is inside no reader is.
\<close>

definition counted :: "rwlock \<Rightarrow> nat set" where
  "counted s = {t. rw_pc s t \<in> {R_check, R_back, R_in}}"

definition claimed :: "rwlock \<Rightarrow> nat set" where
  "claimed s = {t. rw_pc s t \<in> {W_drain, W_in}}"

definition rw_ok :: "rwlock \<Rightarrow> bool" where
  "rw_ok s \<longleftrightarrow>
     finite (counted s) \<and> rw_read s = int (card (counted s)) \<and>
     (rw_write s = 0 \<and> claimed s = {} \<or> rw_write s = 1 \<and> (\<exists>t. claimed s = {t})) \<and>
     (\<forall>t u. rw_pc s t = W_in \<longrightarrow> rw_pc s u \<noteq> R_in)"

lemma counted_goto:
  "counted (goto t p s) = (if p \<in> {R_check, R_back, R_in} then insert t (counted s) else counted s - {t})"
  by (auto simp: counted_def goto_def)

lemma claimed_goto:
  "claimed (goto t p s) = (if p \<in> {W_drain, W_in} then insert t (claimed s) else claimed s - {t})"
  by (auto simp: claimed_def goto_def)

lemma goto_fields [simp]:
  "rw_read (goto t p s) = rw_read s" "rw_write (goto t p s) = rw_write s"
  "rw_pc (goto t p s) = (rw_pc s)(t := p)"
  by (simp_all add: goto_def)

lemma sets_upd [simp]:
  "counted (s\<lparr>rw_read := r\<rparr>) = counted s" "claimed (s\<lparr>rw_read := r\<rparr>) = claimed s"
  "counted (s\<lparr>rw_write := w\<rparr>) = counted s" "claimed (s\<lparr>rw_write := w\<rparr>) = claimed s"
  by (simp_all add: counted_def claimed_def)

lemma rw_member:
  "t \<in> counted s \<longleftrightarrow> rw_pc s t \<in> {R_check, R_back, R_in}"
  "t \<in> claimed s \<longleftrightarrow> rw_pc s t \<in> {W_drain, W_in}"
  by (simp_all add: counted_def claimed_def)

text \<open>Moving between program points outside the two sets changes nothing.\<close>

lemma goto_neutral:
  assumes ok: "rw_ok s" and "t \<notin> counted s" "t \<notin> claimed s" "p \<in> {RW_out, R_wait, R_count, W_claim}"
  shows "rw_ok (goto t p s)"
proof -
  have "counted (goto t p s) = counted s" "claimed (goto t p s) = claimed s"
    using assms(2-4) by (auto simp: counted_goto claimed_goto)
  moreover have "rw_pc (goto t p s) u = W_in \<longrightarrow> rw_pc s u = W_in"
      "rw_pc (goto t p s) u = R_in \<longrightarrow> rw_pc s u = R_in" for u
    using assms(4) by auto
  ultimately show ?thesis using ok unfolding rw_ok_def by (metis goto_fields(1,2))
qed

lemma rlock_ok:
  assumes ok: "rw_ok s" and pc: "rw_pc s t \<in> {RW_out, R_wait, R_count, R_check, R_back}"
  shows "rw_ok (rwlock_rlock t s)"
proof -
  have c: "t \<in> counted s \<longleftrightarrow> rw_pc s t \<in> {R_check, R_back}" "t \<notin> claimed s"
    using pc by (auto simp: rw_member)
  have in_write: "rw_write s \<noteq> 0" if "rw_pc s u = W_in" for u
    using ok that by (auto simp: rw_ok_def claimed_def)
  consider "rw_pc s t \<in> {RW_out, R_wait}" | "rw_pc s t = R_count" | "rw_pc s t = R_check" | "rw_pc s t = R_back"
    using pc by blast
  then show ?thesis
  proof cases
    case 1
    then have "t \<notin> counted s" using c by auto
    then show ?thesis using 1 ok c(2) by (auto simp: rwlock_rlock_def intro: goto_neutral)
  next
    case 2
    then show ?thesis using ok c
      by (auto simp: rw_ok_def rwlock_rlock_def counted_goto claimed_goto)
  next
    case 3
    then show ?thesis using ok c in_write
      by (auto simp: rw_ok_def rwlock_rlock_def counted_goto claimed_goto insert_absorb)
  next
    case 4
    then have "0 < card (counted s)" using ok c by (auto simp: rw_ok_def card_gt_0_iff)
    then show ?thesis using 4 ok c
      by (auto simp: rw_ok_def rwlock_rlock_def counted_goto claimed_goto card_Diff_singleton)
  qed
qed

lemma wlock_ok:
  assumes ok: "rw_ok s" and pc: "rw_pc s t \<in> {RW_out, W_claim, W_drain}"
  shows "rw_ok (rwlock_wlock t s)"
proof -
  have c: "t \<in> claimed s \<longleftrightarrow> rw_pc s t = W_drain" "t \<notin> counted s" using pc by (auto simp: rw_member)
  have empty: "rw_pc s u \<noteq> R_in" if "rw_read s = 0" for u
    using ok that by (auto simp: rw_ok_def counted_def)
  consider "rw_pc s t = RW_out" | "rw_pc s t = W_claim" | "rw_pc s t = W_drain"
    using pc by blast
  then show ?thesis
  proof cases
    case 1
    then show ?thesis using ok c by (auto simp: rwlock_wlock_def intro: goto_neutral)
  next
    case 2
    then show ?thesis using ok c
      by (auto simp: rw_ok_def rwlock_wlock_def test_and_set_def counted_goto claimed_goto)
  next
    case 3
    then show ?thesis using ok c empty
      by (auto simp: rw_ok_def rwlock_wlock_def counted_goto claimed_goto insert_absorb)
  qed
qed

lemma unlock_ok:
  assumes ok: "rw_ok s"
  shows "rw_pc s t = R_in \<Longrightarrow> rw_ok (rwlock_runlock t s)"
    and "rw_pc s t = W_in \<Longrightarrow> rw_ok (rwlock_wunlock t s)"
proof -
  assume "rw_pc s t = R_in"
  then have c: "t \<in> counted s" "t \<notin> claimed s" by (auto simp: rw_member)
  then have "0 < card (counted s)" using ok by (auto simp: rw_ok_def card_gt_0_iff)
  then show "rw_ok (rwlock_runlock t s)" using ok c
    by (auto simp: rw_ok_def rwlock_runlock_def counted_goto claimed_goto card_Diff_singleton)
next
  assume "rw_pc s t = W_in"
  then have c: "t \<notin> counted s" "t \<in> claimed s" by (auto simp: rw_member)
  then have "claimed s = {t}" using ok by (auto simp: rw_ok_def)
  moreover from this have "rw_pc s u \<noteq> W_in" if "u \<noteq> t" for u
    using that rw_member(2) [of u s] by auto
  ultimately show "rw_ok (rwlock_wunlock t s)" using ok c
    by (auto simp: rw_ok_def rwlock_wunlock_def counted_goto claimed_goto)
qed

lemma rw_reachable_ok: "rw_reachable s \<Longrightarrow> rw_ok s"
proof (induction rule: rw_reachable.induct)
  case start
  show ?case by (simp add: rw_ok_def rwlock_init_def counted_def claimed_def)
next
  case (step s s')
  from step.hyps(2) step.IH show ?case
    by (induction rule: rw_step.induct) (blast intro: rlock_ok wlock_ok unlock_ok)+
qed

text \<open>
  C9: the reader-writer lock excludes.  In every reachable state a writer inside
  is alone: no other writer and no reader is inside.
\<close>

theorem rwlock_exclusion:
  assumes "rw_reachable s" and "rw_pc s t = W_in"
  shows "rw_pc s u \<noteq> R_in \<and> (rw_pc s u = W_in \<longrightarrow> u = t)"
proof -
  have ok: "rw_ok s" using assms(1) by (rule rw_reachable_ok)
  have "t \<in> claimed s" using assms(2) by (simp add: rw_member)
  then have "claimed s = {t}" using ok by (auto simp: rw_ok_def)
  then show ?thesis using ok assms(2) rw_member(2) [of u s] by (auto simp: rw_ok_def)
qed

definition one_writer :: rwlock where
  "one_writer = rwlock_wlock 1 (rwlock_wlock 1 (rwlock_wlock 1 rwlock_init))"

theorem rwlock_exclusion_witness:
  "rw_reachable one_writer \<and> rw_pc one_writer 1 = W_in \<and> rw_pc one_writer 2 \<noteq> R_in"
proof -
  have w: "rw_reachable (rwlock_wlock t s)" if "rw_reachable s" "rw_pc s t \<in> {RW_out, W_claim, W_drain}" for s t
    using that rw_step.wlock by (blast intro: rw_reachable.step)
  have r: "rw_reachable one_writer"
    unfolding one_writer_def
    by (intro w rw_reachable.start) (simp_all add: rwlock_wlock_def rwlock_init_def goto_def test_and_set_def)
  have p: "rw_pc one_writer 1 = W_in"
    by (simp add: one_writer_def rwlock_wlock_def rwlock_init_def goto_def test_and_set_def)
  show ?thesis using rwlock_exclusion [OF r p] r p by blast
qed

end
