(* ===== verification/Scheduler.thy ===== *)
theory Scheduler
  imports Message_Queue
begin

text \<open>
  How the worker threads, the senders and the creators of services use the
  queues of \<open>Message_Queue\<close> together.  A state is the heap of queues and, for
  every activity that has taken a queue out of the global list (a worker in
  \<^verbatim>\<open>skynet_context_message_dispatch\<close>, or a thread between
  \<^verbatim>\<open>skynet_mq_create\<close> and \<^verbatim>\<open>skynet_globalmq_push\<close> in
  \<^verbatim>\<open>skynet_context_new\<close>), the queue it holds.  The steps interleave freely.
\<close>

section \<open>Steps\<close>

record sched =
  world :: mq_world
  held :: "nat \<rightharpoonup> addr"

definition sched_init :: sched where
  "sched_init = \<lparr>world = skynet_mq_init, held = Map.empty\<rparr>"

text \<open>
  A message is only sent to a queue that is not marked for release: the sender
  holds a reference to the context, and a context marks its queue when its last
  reference is gone.  For the same reason the dispatch loop pops from unmarked
  queues, and only a marked queue is emptied and freed.
\<close>

inductive sched_step :: "sched \<Rightarrow> sched \<Rightarrow> bool" where
  create: "held s t = None \<Longrightarrow> skynet_mq_create h (world s) = (a, w) \<Longrightarrow>
     sched_step s (s\<lparr>world := w, held := (held s)(t \<mapsto> a)\<rparr>)"
| send: "mqs (world s) a = Some q \<Longrightarrow> q_release q = 0 \<Longrightarrow> skynet_mq_length q < mq_limit \<Longrightarrow>
     skynet_mq_push a m (world s) = Inr w \<Longrightarrow> sched_step s (s\<lparr>world := w\<rparr>)"
| take_queue: "held s t = None \<Longrightarrow> skynet_globalmq_pop (world s) = Inr (Some a, w) \<Longrightarrow>
     sched_step s (s\<lparr>world := w, held := (held s)(t \<mapsto> a)\<rparr>)"
| give_back: "held s t = Some a \<Longrightarrow> skynet_globalmq_push a (world s) = Inr w \<Longrightarrow>
     sched_step s (s\<lparr>world := w, held := (held s)(t := None)\<rparr>)"
| pop_message: "held s t = Some a \<Longrightarrow> mqs (world s) a = Some q \<Longrightarrow>
     skynet_mq_pop q = Inr (Some m, q') \<Longrightarrow>
     sched_step s (s\<lparr>world := (world s)\<lparr>mqs := (mqs (world s))(a \<mapsto> q')\<rparr>\<rparr>)"
| pop_empty: "held s t = Some a \<Longrightarrow> mqs (world s) a = Some q \<Longrightarrow> q_release q = 0 \<Longrightarrow>
     skynet_mq_pop q = Inr (None, q') \<Longrightarrow>
     sched_step s (s\<lparr>world := (world s)\<lparr>mqs := (mqs (world s))(a \<mapsto> q')\<rparr>, held := (held s)(t := None)\<rparr>)"
| mark: "mqs (world s) a = Some q \<Longrightarrow> q_release q = 0 \<Longrightarrow>
     skynet_mq_mark_release a (world s) = Inr w \<Longrightarrow> sched_step s (s\<lparr>world := w\<rparr>)"
| free: "held s t = Some a \<Longrightarrow> mqs (world s) a = Some q \<Longrightarrow> q_release q \<noteq> 0 \<Longrightarrow>
     skynet_mq_pop q = Inr (None, q') \<Longrightarrow>
     mq_release_memory a ((world s)\<lparr>mqs := (mqs (world s))(a \<mapsto> q')\<rparr>) = Inr w \<Longrightarrow>
     sched_step s (s\<lparr>world := w, held := (held s)(t := None)\<rparr>)"

inductive sched_reachable :: "sched \<Rightarrow> bool" where
  start: "sched_reachable sched_init"
| step: "sched_reachable s \<Longrightarrow> sched_step s s' \<Longrightarrow> sched_reachable s'"

section \<open>The invariant\<close>

text \<open>
  A queue is \<open>busy\<close> when it is in the global list or held.  The flag
  \<^verbatim>\<open>in_global\<close> of an unmarked queue says exactly that; a marked queue is
  always busy; a queue that is not busy is empty.
\<close>

definition queue_ok :: "bool \<Rightarrow> message_queue \<Rightarrow> bool" where
  "queue_ok busy q \<longleftrightarrow>
     mq_valid q \<and>
     (if q_release q = 0 then q_in_global q = (if busy then MQ_IN_GLOBAL else 0) else busy) \<and>
     (\<not> busy \<longrightarrow> mq_list q = [])"

definition world_ok :: "'z mq_world_scheme \<Rightarrow> addr list \<Rightarrow> addr set \<Rightarrow> bool" where
  "world_ok w xs B \<longleftrightarrow>
     gq_list w xs \<and> set xs \<inter> B = {} \<and> B \<subseteq> dom (mqs w) \<and>
     (\<forall>a q. mqs w a = Some q \<longrightarrow> queue_ok (a \<in> set xs \<union> B) q)"

definition one_holder :: "(nat \<rightharpoonup> addr) \<Rightarrow> bool" where
  "one_holder h \<longleftrightarrow> (\<forall>s t a. h s = Some a \<longrightarrow> h t = Some a \<longrightarrow> s = t)"

definition sched_ok :: "sched \<Rightarrow> bool" where
  "sched_ok s \<longleftrightarrow> one_holder (held s) \<and> (\<exists>xs. world_ok (world s) xs (ran (held s)))"

lemma queue_ok_next [simp]: "queue_ok b (q\<lparr>q_next := n\<rparr>) = queue_ok b q"
  by (simp add: queue_ok_def)

lemma world_ok_queue: "world_ok w xs B \<Longrightarrow> mqs w a = Some q \<Longrightarrow> queue_ok (a \<in> set xs \<union> B) q"
  by (simp add: world_ok_def)

lemma world_ok_list:
  assumes "world_ok w xs B"
  shows "gq_list w xs" "distinct xs" "set xs \<inter> B = {}" "B \<subseteq> dom (mqs w)" "set xs \<subseteq> dom (mqs w)"
  using assms gq_list_dom [of w xs] by (auto simp: world_ok_def gq_list_def)

lemma world_ok_held:
  assumes "world_ok w xs B" "a \<in> B"
  shows "a \<notin> set xs" and "\<exists>q. mqs w a = Some q" and "mqs w a = Some q \<Longrightarrow> queue_ok True q"
  using assms world_ok_queue [OF assms(1), of a q] by (auto simp: world_ok_def)

lemma world_ok_relink:
  assumes "world_ok w xs B" "same_queues (mqs w) h" "gq_list (w\<lparr>mqs := h, gq := g\<rparr>) ys"
    "set ys \<inter> C = {}" "set ys \<union> C = set xs \<union> B" "C \<subseteq> dom (mqs w)"
  shows "world_ok (w\<lparr>mqs := h, gq := g\<rparr>) ys C"
proof -
  have q: "\<exists>n. mqs w a = Some (q\<lparr>q_next := n\<rparr>)" if "h a = Some q" for a q
  proof -
    from assms(2) that obtain p where p: "mqs w a = Some p"
        "p\<lparr>q_next := None\<rparr> = q\<lparr>q_next := None\<rparr>"
      by (auto simp: same_queues_def dest!: spec [of _ a])
    then have "p = q\<lparr>q_next := q_next p\<rparr>"
      by (metis message_queue.surjective message_queue.update_convs(10) message_queue.select_convs)
    with p(1) show ?thesis by metis
  qed
  have "dom h = dom (mqs w)"
    using assms(2) by (auto simp: same_queues_def dom_def) (metis option.map_disc_iff not_Some_eq)+
  moreover have "queue_ok (a \<in> set ys \<union> C) r" if "h a = Some r" for a r
    using q [OF that] assms(1,5) unfolding world_ok_def by (metis queue_ok_next)
  ultimately show ?thesis using assms by (simp add: world_ok_def)
qed

text \<open>Changing one queue in place keeps the global list.\<close>

lemma gq_list_set:
  "gq_list w xs \<Longrightarrow> mqs w a = Some q \<Longrightarrow> q_next q' = q_next q \<Longrightarrow>
   gq_list (w\<lparr>mqs := (mqs w)(a \<mapsto> q')\<rparr>) xs"
  by (auto simp: gq_list_def gq_chain_keep split: if_splits)

lemma world_ok_set:
  "world_ok w xs B \<Longrightarrow> mqs w a = Some q \<Longrightarrow> q_next q' = q_next q \<Longrightarrow>
   queue_ok (a \<in> set xs \<union> B) q' \<Longrightarrow> world_ok (w\<lparr>mqs := (mqs w)(a \<mapsto> q')\<rparr>) xs B"
  by (auto simp: world_ok_def gq_list_set)

text \<open>
  A queue that has just become busy is put into the list: the state between the
  update of its fields and \<^verbatim>\<open>skynet_globalmq_push\<close>.
\<close>

lemma globalmq_push_fresh:
  assumes w: "world_ok w xs B" "mqs w a = Some q" "a \<notin> set xs \<union> B"
    and q': "q_next q' = q_next q" "queue_ok True q'"
  shows "\<exists>w'. skynet_globalmq_push a (w\<lparr>mqs := (mqs w)(a \<mapsto> q')\<rparr>) = Inr w' \<and> world_ok w' (xs @ [a]) B"
proof -
  let ?v = "w\<lparr>mqs := (mqs w)(a \<mapsto> q')\<rparr>"
  have v: "gq_list ?v xs" using w q' by (simp add: world_ok_def gq_list_set)
  then obtain h g where hg: "skynet_globalmq_push a ?v = Inr (?v\<lparr>mqs := h, gq := g\<rparr>)"
      "gq_list (?v\<lparr>mqs := h, gq := g\<rparr>) (xs @ [a])" "same_queues (mqs ?v) h"
    using w globalmq_push_ok [of ?v xs a q'] by auto
  have "world_ok ?v xs (insert a B)"
    using w q' v by (auto simp: world_ok_def)
  then have "world_ok (?v\<lparr>mqs := h, gq := g\<rparr>) (xs @ [a]) B"
    using world_ok_relink [OF _ hg(3,2), of xs "insert a B" B] w by (auto simp: world_ok_def)
  with hg(1) show ?thesis by blast
qed

section \<open>Every operation succeeds and keeps the invariant\<close>

lemma create_ok:
  assumes "world_ok w xs B" "skynet_mq_create h w = (a, w')"
  shows "world_ok w' xs (insert a B) \<and> a \<notin> dom (mqs w)"
proof -
  have a: "a = mq_brk w" "w' = w\<lparr>mqs := (mqs w)(a \<mapsto> skynet_mq_new h), mq_brk := mq_brk w + 1\<rparr>"
    using assms(2) by (auto simp: skynet_mq_create_def)
  have new: "mqs w a = None"
    using assms(1) by (cases "mqs w a") (auto simp: world_ok_def gq_list_def a(1))
  then have "a \<notin> set xs \<union> B"
    using assms(1) gq_list_dom [of w xs a] by (auto simp: world_ok_def)
  moreover have "queue_ok True (skynet_mq_new h)"
    by (simp add: queue_ok_def)
  ultimately show ?thesis
    using assms(1) new unfolding world_ok_def gq_list_def a(2)
    by (auto simp: gq_chain_upd less_Suc_eq a(1))
qed

lemma send_ok:
  assumes w: "world_ok w xs B" and q: "mqs w a = Some q" "q_release q = 0" "skynet_mq_length q < mq_limit"
  shows "\<exists>w'. skynet_mq_push a m w = Inr w' \<and>
      world_ok w' (if a \<in> set xs \<union> B then xs else xs @ [a]) B"
proof -
  have ok: "queue_ok (a \<in> set xs \<union> B) q" using w q by (intro world_ok_queue)
  then obtain q' where q': "mq_enqueue m q = Inr q'" "mq_valid q'" "q_release q' = q_release q"
      "q_in_global q' = q_in_global q" "q_next q' = q_next q"
    using mq_enqueue_ok [of q m] q(3) by (auto simp: queue_ok_def)
  show ?thesis
  proof (cases "a \<in> set xs \<union> B")
    case True
    then have "queue_ok True q'" using ok q' q by (auto simp: queue_ok_def)
    with True show ?thesis
      using q q' ok w by (auto simp: skynet_mq_push_def queue_ok_def MQ_IN_GLOBAL_def intro!: world_ok_set)
  next
    case False
    then have "queue_ok True (q'\<lparr>q_in_global := MQ_IN_GLOBAL\<rparr>)"
      using q q' by (simp add: queue_ok_def)
    then show ?thesis
      using False q q' ok globalmq_push_fresh [OF w q(1) False]
      by (auto simp: skynet_mq_push_def queue_ok_def)
  qed
qed

lemma take_queue_ok:
  assumes "world_ok w (a # xs) B"
  shows "\<exists>w'. skynet_globalmq_pop w = Inr (Some a, w') \<and> world_ok w' xs (insert a B)"
proof -
  from assms obtain h g where hg: "skynet_globalmq_pop w = Inr (Some a, w\<lparr>mqs := h, gq := g\<rparr>)"
      "gq_list (w\<lparr>mqs := h, gq := g\<rparr>) xs" "same_queues (mqs w) h"
    using globalmq_pop_cons [of w a xs] by (auto simp: world_ok_def)
  have "world_ok (w\<lparr>mqs := h, gq := g\<rparr>) xs (insert a B)"
    by (rule world_ok_relink [OF assms hg(3,2)]) (use world_ok_list [OF assms] in auto)
  with hg(1) show ?thesis by blast
qed

lemma give_back_ok:
  assumes w: "world_ok w xs B" and a: "a \<in> B"
  shows "\<exists>w'. skynet_globalmq_push a w = Inr w' \<and> world_ok w' (xs @ [a]) (B - {a})"
proof -
  from w a obtain q where q: "mqs w a = Some q" "a \<notin> set xs" using world_ok_held by blast
  obtain h g where hg: "skynet_globalmq_push a w = Inr (w\<lparr>mqs := h, gq := g\<rparr>)"
      "gq_list (w\<lparr>mqs := h, gq := g\<rparr>) (xs @ [a])" "same_queues (mqs w) h"
    using globalmq_push_ok [OF _ q] w by (auto simp: world_ok_def)
  have "world_ok (w\<lparr>mqs := h, gq := g\<rparr>) (xs @ [a]) (B - {a})"
    by (rule world_ok_relink [OF w hg(3,2)]) (use world_ok_list [OF w] a q in auto)
  with hg(1) show ?thesis by blast
qed

lemma pop_message_ok:
  assumes w: "world_ok w xs B" and a: "a \<in> B" "mqs w a = Some q" "skynet_mq_pop q = Inr (Some m, q')"
  shows "world_ok (w\<lparr>mqs := (mqs w)(a \<mapsto> q')\<rparr>) xs B"
proof -
  have ok: "queue_ok True q" using world_ok_held(3) [OF w a(1)] a by blast
  then have v: "mq_valid q" by (simp add: queue_ok_def)
  obtain n ms where "mq_list q = n # ms"
    using mq_pop_empty [OF v] a(3) by (cases "mq_list q") auto
  then obtain h ov th where "mq_valid q'" "q' = q\<lparr>q_head := h, q_overload := ov, q_overload_threshold := th\<rparr>"
    using mq_pop_nonempty [OF v] a(3) by fastforce
  then show ?thesis
    using world_ok_set [OF w a(2), of q'] ok a by (auto simp: queue_ok_def)
qed

lemma pop_empty_content:
  assumes "mq_valid q" "skynet_mq_pop q = Inr (None, q')"
  shows "mq_list q = []" and "q' = q\<lparr>q_overload_threshold := MQ_OVERLOAD, q_in_global := 0\<rparr>"
proof -
  show *: "mq_list q = []"
    using mq_pop_nonempty [OF assms(1)] assms(2) by (cases "mq_list q") fastforce+
  show "q' = q\<lparr>q_overload_threshold := MQ_OVERLOAD, q_in_global := 0\<rparr>"
    using mq_pop_empty [OF assms(1) *] assms(2) by simp
qed

lemma pop_empty_ok:
  assumes w: "world_ok w xs B" and a: "a \<in> B" "mqs w a = Some q" "q_release q = 0"
    "skynet_mq_pop q = Inr (None, q')"
  shows "world_ok (w\<lparr>mqs := (mqs w)(a \<mapsto> q')\<rparr>) xs (B - {a})"
proof -
  have ok: "queue_ok True q" "a \<notin> set xs" using world_ok_held [OF w a(1)] a by blast+
  then have e: "mq_list q = []" "q' = q\<lparr>q_overload_threshold := MQ_OVERLOAD, q_in_global := 0\<rparr>"
    using pop_empty_content [of q q'] a(4) by (auto simp: queue_ok_def)
  then have "queue_ok False q'"
    using ok a by (simp add: queue_ok_def MQ_OVERLOAD_def)
  then show ?thesis
    using w a ok e(2) gq_list_set [of w xs a q q'] by (auto simp: world_ok_def)
qed

lemma mark_ok:
  assumes w: "world_ok w xs B" and q: "mqs w a = Some q" "q_release q = 0"
  shows "\<exists>w'. skynet_mq_mark_release a w = Inr w' \<and>
      world_ok w' (if a \<in> set xs \<union> B then xs else xs @ [a]) B"
proof -
  have ok: "queue_ok (a \<in> set xs \<union> B) q" using w q by (intro world_ok_queue)
  then have q': "queue_ok True (q\<lparr>q_release := 1\<rparr>)"
    by (simp add: queue_ok_def)
  show ?thesis
  proof (cases "a \<in> set xs \<union> B")
    case True
    then show ?thesis
      using q q' ok w by (auto simp: skynet_mq_mark_release_def queue_ok_def intro!: world_ok_set)
  next
    case False
    then show ?thesis
      using q q' ok globalmq_push_fresh [OF w q(1) False]
      by (auto simp: skynet_mq_mark_release_def queue_ok_def MQ_IN_GLOBAL_def)
  qed
qed

lemma free_ok:
  assumes w: "world_ok w xs B" and a: "a \<in> B" "mqs w a = Some q" "skynet_mq_pop q = Inr (None, q')"
  shows "\<exists>w'. mq_release_memory a (w\<lparr>mqs := (mqs w)(a \<mapsto> q')\<rparr>) = Inr w' \<and> world_ok w' xs (B - {a})"
proof -
  have ok: "mq_valid q" "a \<notin> set xs" "q_next q = None"
    using world_ok_held [OF w a(1)] w a by (auto simp: world_ok_def queue_ok_def gq_list_def)
  then have "q_next q' = None" using pop_empty_content [of q q'] a(3) by simp
  with w a ok show ?thesis
    by (auto simp: mq_release_memory_def world_ok_def gq_list_def gq_chain_upd)
qed

section \<open>Reachable states\<close>

lemma ran_new: "t \<notin> dom h \<Longrightarrow> ran (h(t \<mapsto> a)) = insert a (ran h)"
  by (auto simp: ran_def)

lemma ran_clear: "one_holder h \<Longrightarrow> h t = Some a \<Longrightarrow> ran (h(t := None)) = ran h - {a}"
  unfolding ran_def one_holder_def by (auto, metis option.inject)

lemma one_holder_new: "one_holder h \<Longrightarrow> a \<notin> ran h \<Longrightarrow> one_holder (h(t \<mapsto> a))"
  by (auto simp: one_holder_def ran_def)

lemma one_holder_clear: "one_holder h \<Longrightarrow> one_holder (h(t := None))"
  by (auto simp: one_holder_def)

lemma sched_step_ok: "sched_step s s' \<Longrightarrow> sched_ok s \<Longrightarrow> sched_ok s'"
proof (induction rule: sched_step.induct)
  case (create s t h a w)
  then obtain xs where xs: "world_ok (world s) xs (ran (held s))" and i: "one_holder (held s)"
    by (auto simp: sched_ok_def)
  have "a \<notin> ran (held s)" using create_ok [OF xs] create world_ok_list(4) [OF xs] by blast
  moreover have "world_ok w xs (insert a (ran (held s)))" using create_ok [OF xs] create by blast
  ultimately show ?case using create i ran_new [of t "held s" a] one_holder_new by (auto simp: sched_ok_def)
next
  case (send s a q m w)
  then obtain xs where xs: "world_ok (world s) xs (ran (held s))" and i: "one_holder (held s)"
    by (auto simp: sched_ok_def)
  with send_ok [OF xs send(1-3), of m] send(4) show ?case by (auto simp: sched_ok_def)
next
  case (take_queue s t a w)
  then obtain xs where xs: "world_ok (world s) xs (ran (held s))" and i: "one_holder (held s)"
    by (auto simp: sched_ok_def)
  obtain ys where ys: "xs = a # ys"
  proof (cases xs)
    case Nil
    then show ?thesis using take_queue(2) globalmq_pop_empty [of "world s"] world_ok_list(1) [OF xs] by simp
  next
    case (Cons b ys)
    then show ?thesis using take_queue(2) take_queue_ok [of "world s" b ys] xs that by auto
  qed
  have "a \<notin> ran (held s)" using world_ok_list(3) [OF xs] ys by auto
  moreover have "world_ok w ys (insert a (ran (held s)))" using take_queue_ok [of "world s" a ys] xs take_queue(2) ys by auto
  ultimately show ?case using take_queue(1) i ran_new [of t "held s" a] one_holder_new by (auto simp: sched_ok_def)
next
  case (give_back s t a w)
  then show ?case
    using give_back_ok [of "world s" _ "ran (held s)" a] ran_clear [of "held s" t a] one_holder_clear
    by (fastforce simp: sched_ok_def intro: ranI)
next
  case (pop_message s t a q m q')
  then show ?case
    using pop_message_ok [of "world s" _ "ran (held s)" a q m q'] by (auto simp: sched_ok_def intro: ranI)
next
  case (pop_empty s t a q q')
  then show ?case
    using pop_empty_ok [of "world s" _ "ran (held s)" a q q'] ran_clear [of "held s" t a] one_holder_clear
    by (auto simp: sched_ok_def intro: ranI)
next
  case (mark s a q w)
  then obtain xs where xs: "world_ok (world s) xs (ran (held s))" and i: "one_holder (held s)"
    by (auto simp: sched_ok_def)
  with mark_ok [OF xs mark(1,2)] mark(3) show ?case by (auto simp: sched_ok_def)
next
  case (free s t a q q' w)
  then show ?case
    using free_ok [of "world s" _ "ran (held s)" a q q'] ran_clear [of "held s" t a] one_holder_clear
    by (fastforce simp: sched_ok_def intro: ranI)
qed

lemma sched_init_ok: "sched_ok sched_init"
  by (auto simp: sched_ok_def one_holder_def sched_init_def skynet_mq_init_def world_ok_def gq_list_def
      intro!: exI [of _ "[]"])

lemma sched_reachable_ok: "sched_reachable s \<Longrightarrow> sched_ok s"
  by (induction rule: sched_reachable.induct) (auto intro: sched_init_ok sched_step_ok)

text \<open>
  \<open>scheduled s a\<close>: the queue at \<open>a\<close> will get a worker's attention; it is on the
  global list or a worker has it.
\<close>

definition scheduled :: "sched \<Rightarrow> addr \<Rightarrow> bool" where
  "scheduled s a \<longleftrightarrow> (\<exists>xs. gq_list (world s) xs \<and> a \<in> set xs) \<or> a \<in> ran (held s)"

text \<open>
  C2: no message is forgotten.  In every reachable state a queue that holds a
  message is scheduled: it is on the global list or some worker is dispatching
  it, so the flag \<^verbatim>\<open>in_global\<close> never hides a queue that has work.
\<close>

theorem no_lost_message:
  assumes "sched_reachable s" and "mqs (world s) a = Some q" and "mq_list q \<noteq> []"
  shows "scheduled s a"
proof -
  from assms(1) obtain xs where xs: "world_ok (world s) xs (ran (held s))"
    using sched_reachable_ok by (auto simp: sched_ok_def)
  from world_ok_queue [OF this assms(2)] assms(3) have "a \<in> set xs \<union> ran (held s)"
    by (auto simp: queue_ok_def)
  then show ?thesis using world_ok_list(1) [OF xs] by (auto simp: scheduled_def)
qed

definition created :: sched where
  "created = \<lparr>world = snd (skynet_mq_create 5 skynet_mq_init), held = [0 \<mapsto> 0]\<rparr>"

lemma created_reachable: "sched_reachable created"
proof (rule sched_reachable.step [OF sched_reachable.start])
  show "sched_step sched_init created"
    using sched_step.create [of sched_init 0 5 0 "world created"]
    by (simp add: created_def sched_init_def skynet_mq_create_def skynet_mq_init_def)
qed

lemma created_queue: "mqs (world created) 0 = Some (skynet_mq_new 5)"
  by (simp add: created_def skynet_mq_create_def skynet_mq_init_def)

lemma sent_reachable:
  "\<exists>s q. sched_reachable s \<and> held s = [0 \<mapsto> 0] \<and> mqs (world s) 0 = Some q \<and> mq_list q = [some_message]"
proof -
  obtain q where q: "mq_enqueue some_message (skynet_mq_new 5) = Inr q" "mq_list q = [some_message]"
      "q_in_global q = MQ_IN_GLOBAL"
    using mq_enqueue_ok [of "skynet_mq_new 5" some_message]
    by (auto simp: mq_limit_def)
  let ?w = "(world created)\<lparr>mqs := (mqs (world created))(0 \<mapsto> q)\<rparr>"
  have "skynet_mq_push 0 some_message (world created) = Inr ?w"
    using q by (simp add: skynet_mq_push_def created_queue MQ_IN_GLOBAL_def)
  moreover have "skynet_mq_length (skynet_mq_new 5) < mq_limit" "q_release (skynet_mq_new 5) = 0"
    by (simp_all add: mq_limit_def)
  ultimately have "sched_step created (created\<lparr>world := ?w\<rparr>)"
    using sched_step.send [OF created_queue] by blast
  then have "sched_reachable (created\<lparr>world := ?w\<rparr>)" by (rule sched_reachable.step [OF created_reachable])
  then show ?thesis using q by (intro exI [of _ "created\<lparr>world := ?w\<rparr>"] exI [of _ q])
      (simp add: created_def)
qed

theorem no_lost_message_witness:
  "\<exists>s q. sched_reachable s \<and> mqs (world s) 0 = Some q \<and> mq_list q \<noteq> [] \<and> scheduled s 0"
proof -
  from sent_reachable obtain s q where "sched_reachable s" "mqs (world s) 0 = Some q" "mq_list q \<noteq> []"
    by fastforce
  with no_lost_message [OF this] show ?thesis by blast
qed

text \<open>
  C3: a service is never dispatched by two workers at once.  In every reachable
  state a queue has at most one holder, and a held queue is not on the global
  list, so no second worker can take it.
\<close>

theorem dispatch_exclusive:
  assumes "sched_reachable s" and "held s t = Some a"
  shows "(\<forall>u. held s u = Some a \<longrightarrow> u = t) \<and>
         (\<exists>xs. gq_list (world s) xs \<and> distinct xs \<and> a \<notin> set xs)"
proof -
  from assms(1) obtain xs where xs: "one_holder (held s)" "world_ok (world s) xs (ran (held s))"
    using sched_reachable_ok by (auto simp: sched_ok_def)
  then show ?thesis
    using assms(2) world_ok_list [OF xs(2)] world_ok_held(1) [OF xs(2) ranI [of "held s" t a]]
    by (auto simp: one_holder_def)
qed

theorem dispatch_exclusive_witness:
  "\<exists>s. sched_reachable s \<and> held s 0 = Some 0 \<and> (\<forall>u. held s u = Some 0 \<longrightarrow> u = 0)"
proof -
  have "held created 0 = Some 0" by (simp add: created_def)
  with dispatch_exclusive [OF created_reachable this] created_reachable show ?thesis by blast
qed



end
