(* ===== verification/Cstring.thy ===== *)
theory Cstring
  imports Prelude "HOL-Library.List_Lexorder"
begin

text \<open>
  What the kernel uses of the C string library: \<^verbatim>\<open>strcmp\<close>, the conversions
  \<^verbatim>\<open>%x\<close>, \<^verbatim>\<open>%d\<close> and \<^verbatim>\<open>%u\<close> of \<^verbatim>\<open>printf\<close>, and \<^verbatim>\<open>strtoul\<close> and \<^verbatim>\<open>strtol\<close>.
\<close>

section \<open>Literals and comparison\<close>

definition cstr :: "string \<Rightarrow> cstring" where
  "cstr s = map of_char s"

text \<open>The sign of \<^verbatim>\<open>strcmp\<close>: bytes compare as unsigned characters.\<close>

fun strcmp :: "cstring \<Rightarrow> cstring \<Rightarrow> int" where
  "strcmp [] [] = 0"
| "strcmp [] (y # ys) = -1"
| "strcmp (x # xs) [] = 1"
| "strcmp (x # xs) (y # ys) = (if x < y then -1 else if y < x then 1 else strcmp xs ys)"

lemma strcmp_zero [simp]: "strcmp a b = 0 \<longleftrightarrow> a = b"
  by (induction a b rule: strcmp.induct) auto

lemma strcmp_neg [simp]: "strcmp a b < 0 \<longleftrightarrow> a < b"
  by (induction a b rule: strcmp.induct) auto

section \<open>Printing numbers\<close>

definition digit_char :: "nat \<Rightarrow> u8" where
  "digit_char d = (if d < 10 then of_nat (48 + d) else of_nat (87 + d))"

definition digit_char_upper :: "nat \<Rightarrow> u8" where
  "digit_char_upper d = (if d < 10 then of_nat (48 + d) else of_nat (55 + d))"

function print_nat :: "nat \<Rightarrow> nat \<Rightarrow> cstring" where
  "print_nat base n =
     (if n < base \<or> base \<le> 1 then [digit_char n] else print_nat base (n div base) @ [digit_char (n mod base)])"
  by pat_completeness auto
termination
  by (relation "measure snd") auto

declare print_nat.simps [simp del]

text \<open>\<^verbatim>\<open>%x\<close> of an unsigned, \<^verbatim>\<open>%d\<close> of an int.\<close>

definition print_x :: "u32 \<Rightarrow> cstring" where
  "print_x w = print_nat 16 (unat w)"

definition print_08x :: "u32 \<Rightarrow> cstring" where
  "print_08x w = replicate (8 - length (print_x w)) 48 @ print_x w"

definition print_d :: "int \<Rightarrow> cstring" where
  "print_d i = (if i < 0 then 45 # print_nat 10 (nat (- i)) else print_nat 10 (nat i))"

section \<open>Reading numbers\<close>

definition digit_val :: "u8 \<Rightarrow> nat option" where
  "digit_val c =
     (let n = unat c in
      if 48 \<le> n \<and> n \<le> 57 then Some (n - 48)
      else if 97 \<le> n \<and> n \<le> 122 then Some (n - 87)
      else if 65 \<le> n \<and> n \<le> 90 then Some (n - 55)
      else None)"

definition is_digit :: "nat \<Rightarrow> u8 \<Rightarrow> bool" where
  "is_digit base c = (case digit_val c of None \<Rightarrow> False | Some d \<Rightarrow> d < base)"

fun digits_val :: "nat \<Rightarrow> nat \<Rightarrow> cstring \<Rightarrow> nat" where
  "digits_val base acc [] = acc"
| "digits_val base acc (c # cs) =
     (if is_digit base c then digits_val base (acc * base + the (digit_val c)) cs else acc)"

definition is_space :: "u8 \<Rightarrow> bool" where
  "is_space c \<longleftrightarrow> c = 32 \<or> (9 \<le> unat c \<and> unat c \<le> 13)"

text \<open>
  White space, a sign, and for base 16 the prefix \<open>0x\<close> (when a digit follows);
  base 0 takes the base from the prefix.  The result is the sign and the value.
\<close>

definition strip_prefix :: "nat \<Rightarrow> cstring \<Rightarrow> nat \<times> cstring" where
  "strip_prefix base s =
     (case s of
        a # x # d # _ \<Rightarrow>
          if (base = 16 \<or> base = 0) \<and> a = 48 \<and> (x = 120 \<or> x = 88) \<and> is_digit 16 d then (16, drop 2 s)
          else if base = 0 then (if a = 48 then 8 else 10, s) else (base, s)
      | a # _ \<Rightarrow> if base = 0 then (if a = 48 then 8 else 10, s) else (base, s)
      | [] \<Rightarrow> (if base = 0 then 10 else base, s))"

definition parse_number :: "nat \<Rightarrow> cstring \<Rightarrow> bool \<times> nat" where
  "parse_number base s =
     (let s = dropWhile is_space s;
          neg = (s \<noteq> [] \<and> hd s = 45);
          s = (if s \<noteq> [] \<and> (hd s = 45 \<or> hd s = 43) then tl s else s);
          (base, s) = strip_prefix base s
      in (neg, digits_val base 0 s))"

text \<open>\<^verbatim>\<open>strtoul\<close> stops at the largest \<^verbatim>\<open>unsigned long\<close>; \<^verbatim>\<open>strtol\<close> at the ends of \<^verbatim>\<open>long\<close>.\<close>

definition strtoul :: "nat \<Rightarrow> cstring \<Rightarrow> u64" where
  "strtoul base s =
     (let (neg, n) = parse_number base s
      in if n \<ge> 2 ^ 64 then -1 else if neg then - of_nat n else of_nat n)"

definition strtol :: "nat \<Rightarrow> cstring \<Rightarrow> int" where
  "strtol base s =
     (let (neg, n) = parse_number base s; i = (if neg then - int n else int n)
      in if i \<ge> 2 ^ 63 then 2 ^ 63 - 1 else if i < - (2 ^ 63) then - (2 ^ 63) else i)"

text \<open>The conversion of a \<^verbatim>\<open>long\<close> to \<^verbatim>\<open>int\<close>.\<close>

definition to_int :: "int \<Rightarrow> int" where
  "to_int i = sint (word_of_int i :: 32 word)"

section \<open>Round trips\<close>

lemma digit_val_char:
  assumes "d < 16"
  shows "digit_val (digit_char d) = Some d" "digit_val (digit_char_upper d) = Some d"
proof -
  have "\<forall>d \<in> set [0..<16]. digit_val (digit_char d) = Some d \<and> digit_val (digit_char_upper d) = Some d"
    by code_simp
  then show "digit_val (digit_char d) = Some d" "digit_val (digit_char_upper d) = Some d"
    using assms by auto
qed

lemma is_digit_char [simp]:
  assumes "base \<le> 16" "d < base"
  shows "is_digit base (digit_char d)" "is_digit base (digit_char_upper d)"
  using assms digit_val_char [of d] by (simp_all add: is_digit_def)

lemma digits_val_append:
  assumes "base \<le> 16" "2 \<le> base"
  shows "digits_val base acc (print_nat base n @ rest) = digits_val base (acc * base ^ length (print_nat base n) + n) rest"
  using assms
proof (induction base n arbitrary: acc rest rule: print_nat.induct)
  case (1 base n)
  show ?case
  proof (cases "n < base")
    case True
    then have "print_nat base n = [digit_char n]" by (subst print_nat.simps) simp
    then show ?thesis using 1 True digit_val_char [of n] by simp
  next
    case False
    then have eq: "print_nat base n = print_nat base (n div base) @ [digit_char (n mod base)]"
      using 1 by (subst print_nat.simps) simp
    have m: "n mod base < base" using 1 by simp
    then have m2: "n mod base < 16" using 1 by linarith
    show ?thesis
      using 1 False m digit_val_char [OF m2] by (simp add: eq algebra_simps)
  qed
qed

lemma print_nat_digits:
  assumes "base \<le> 16" "2 \<le> base"
  shows "\<forall>c \<in> set (print_nat base n). is_digit base c"
  using assms
proof (induction base n rule: print_nat.induct)
  case (1 base n)
  show ?case
  proof (cases "n < base")
    case False
    have "n mod base < base" using 1 by simp
    then show ?thesis using 1 False by (subst print_nat.simps) auto
  qed (use 1 in \<open>subst print_nat.simps, auto\<close>)
qed

lemma is_digit16_facts:
  assumes "is_digit 16 c"
  shows "\<not> is_space c" "c \<noteq> 45" "c \<noteq> 43" "c \<noteq> 120" "c \<noteq> 88"
  using assms by (auto simp: is_digit_def digit_val_def is_space_def Let_def split: if_splits)

lemma parse_hex_digits:
  assumes "\<forall>c \<in> set s. is_digit 16 c"
  shows "parse_number 16 s = (False, digits_val 16 0 s)"
proof -
  have "dropWhile is_space s = s" using assms is_digit16_facts by (cases s) auto
  moreover have "strip_prefix 16 s = (16, s)"
    using assms is_digit16_facts unfolding strip_prefix_def by (auto split: list.split)
  ultimately show ?thesis
    using assms is_digit16_facts by (cases s) (auto simp: parse_number_def Let_def)
qed

lemma strtoul_hex_digits:
  assumes "\<forall>c \<in> set s. is_digit 16 c" "digits_val 16 0 s = unat (w :: u32)"
  shows "ucast (strtoul 16 s) = w"
proof -
  have "unat w < 2 ^ 64" using unat_u32_less [of w] by simp
  moreover have "ucast (ucast w :: u64) = w" by (rule bit_word_eqI) (auto simp: bit_simps)
  ultimately show ?thesis
    by (simp add: strtoul_def parse_hex_digits [OF assms(1)] assms(2))
qed

lemma strtoul_print_x: "ucast (strtoul 16 (print_x w)) = w"
proof (rule strtoul_hex_digits)
  show "\<forall>c \<in> set (print_x w). is_digit 16 c" unfolding print_x_def by (rule print_nat_digits) simp_all
  show "digits_val 16 0 (print_x w) = unat w"
    using digits_val_append [of 16 0 "unat w" "[]"] by (simp add: print_x_def)
qed

end
