(* ===== verification/Handle.thy ===== *)
theory Handle
  imports Cstring
begin

text \<open>
  The handle storage (\<^verbatim>\<open>skynet-src/skynet_handle.c\<close>): a hash table of the
  contexts of the running services, indexed by the low bits of their handle, and
  a sorted table of service names.  Contexts live elsewhere; what this component
  reads of them is the field \<^verbatim>\<open>handle\<close>, here the map \<open>ch\<close> from the address of a
  live context to the value of that field.  The functions run under the
  reader-writer lock of \<open>Locks\<close>.
\<close>

section \<open>Data\<close>

definition HANDLE_MASK :: u32 where "HANDLE_MASK = 0xffffff"
definition HANDLE_REMOTE_SHIFT :: nat where "HANDLE_REMOTE_SHIFT = 24"
definition GLOBALNAME_LENGTH :: nat where "GLOBALNAME_LENGTH = 16"
definition DEFAULT_SLOT_SIZE :: nat where "DEFAULT_SLOT_SIZE = 4"
definition MAX_SLOT_SIZE :: nat where "MAX_SLOT_SIZE = 0x40000000"

record handle_name =
  hn_name :: cstring
  hn_handle :: u32

record handle_storage =
  hs_harbor :: u32
  hs_handle_index :: u32
  hs_slot_size :: nat
  hs_slot :: "addr option list"
  hs_name_cap :: nat
  hs_name_count :: nat
  hs_name :: "handle_name option list"

type_synonym ctx_handles = "addr \<rightharpoonup> u32"

section \<open>Registering and retiring\<close>

definition slot_hash :: "nat \<Rightarrow> u32 \<Rightarrow> nat" where
  "slot_hash sz handle = unat (handle AND (of_nat sz - 1))"

text \<open>The inner loop of \<^verbatim>\<open>skynet_handle_register\<close>: the first free handle, if any.\<close>

function register_scan :: "handle_storage \<Rightarrow> nat \<Rightarrow> (u32 \<times> nat) option res" where
  "register_scan s i =
     (if i < hs_slot_size s then
        let handle = (of_nat i + hs_handle_index s) AND HANDLE_MASK;
            hash = slot_hash (hs_slot_size s) handle
        in bindR (aget (hs_slot s) hash) (\<lambda>slot.
           if slot = None \<and> handle \<noteq> 1 then Inr (Some (handle, hash))
           else register_scan s (i + 1))
      else Inr None)"
  by pat_completeness auto
termination
  by (relation "measure (\<lambda>(s, i). hs_slot_size s - i)") auto

declare register_scan.simps [simp del]

text \<open>Moving the contexts to a table of \<open>sz\<close> slots; a null slot would be followed.\<close>

fun rehash :: "ctx_handles \<Rightarrow> nat \<Rightarrow> addr option list \<Rightarrow> addr option list \<Rightarrow> addr option list res" where
  "rehash ch sz [] new_slot = Inr new_slot"
| "rehash ch sz (None # slots) new_slot = Inl Bad_pointer"
| "rehash ch sz (Some ctx # slots) new_slot =
     bindR (deref ch ctx) (\<lambda>handle.
     let hash = slot_hash sz handle in
     bindR (aget new_slot hash) (\<lambda>old.
     bindR (c_assert (old = None)) (\<lambda>_.
     bindR (aset new_slot hash (Some ctx)) (rehash ch sz slots))))"

definition grow_slots :: "ctx_handles \<Rightarrow> handle_storage \<Rightarrow> handle_storage res" where
  "grow_slots ch s =
     bindR (c_assert (hs_slot_size s * 2 - 1 \<le> unat HANDLE_MASK)) (\<lambda>_.
     bindR (rehash ch (hs_slot_size s * 2) (take (hs_slot_size s) (hs_slot s))
              (replicate (hs_slot_size s * 2) None)) (\<lambda>new_slot.
     Inr (s\<lparr>hs_slot := new_slot, hs_slot_size := hs_slot_size s * 2\<rparr>)))"

partial_function (option) register_loop ::
  "ctx_handles \<Rightarrow> addr \<Rightarrow> handle_storage \<Rightarrow> (u32 \<times> handle_storage) res option" where
  "register_loop ch ctx s =
     (case register_scan s 0 of
        Inl e \<Rightarrow> Some (Inl e)
      | Inr found \<Rightarrow>
          (case found of
             Some p \<Rightarrow>
               Some (bindR (aset (hs_slot s) (snd p) (Some ctx)) (\<lambda>slot.
                     Inr (fst p OR hs_harbor s, s\<lparr>hs_slot := slot, hs_handle_index := fst p + 1\<rparr>)))
           | None \<Rightarrow>
               (case grow_slots ch s of
                  Inl e \<Rightarrow> Some (Inl e)
                | Inr s' \<Rightarrow> register_loop ch ctx s')))"

definition skynet_handle_register ::
  "ctx_handles \<Rightarrow> addr \<Rightarrow> handle_storage \<Rightarrow> (u32 \<times> handle_storage) res" where
  "skynet_handle_register ch ctx s =
     (case register_loop ch ctx s of None \<Rightarrow> Inl Diverges | Some r \<Rightarrow> r)"

text \<open>
  The compaction loop of \<^verbatim>\<open>skynet_handle_retire\<close>: entries of the handle are
  dropped, the others move down to \<open>j\<close>.
\<close>

function retire_names :: "u32 \<Rightarrow> nat \<Rightarrow> nat \<Rightarrow> nat \<Rightarrow> handle_name option list \<Rightarrow> (nat \<times> handle_name option list) res" where
  "retire_names handle i j n names =
     (if i < n then
        bindR (bindR (aget names i) Prelude.init) (\<lambda>e.
        if hn_handle e = handle then retire_names handle (i + 1) j n names
        else bindR (if i \<noteq> j then aset names j (Some e) else Inr names) (\<lambda>names.
             retire_names handle (i + 1) (j + 1) n names))
      else Inr (j, names))"
  by pat_completeness auto
termination
  by (relation "measure (\<lambda>(handle, i, j, n, names). n - i)") auto

declare retire_names.simps [simp del]

text \<open>
  The result is 1 and the context whose reference the table gave up (the caller
  releases it outside the lock), or 0.
\<close>

definition skynet_handle_retire ::
  "ctx_handles \<Rightarrow> u32 \<Rightarrow> handle_storage \<Rightarrow> (nat \<times> addr option \<times> handle_storage) res" where
  "skynet_handle_retire ch handle s =
     (let hash = slot_hash (hs_slot_size s) handle in
      bindR (aget (hs_slot s) hash) (\<lambda>ctx.
      case ctx of
        None \<Rightarrow> Inr (0, None, s)
      | Some c \<Rightarrow>
          bindR (deref ch c) (\<lambda>h.
          if h = handle then
            bindR (aset (hs_slot s) hash None) (\<lambda>slot.
            bindR (retire_names handle 0 0 (hs_name_count s) (hs_name s)) (\<lambda>(j, names).
            Inr (1, Some c, s\<lparr>hs_slot := slot, hs_name := names, hs_name_count := j\<rparr>)))
          else Inr (0, None, s))))"

text \<open>The lookup of \<^verbatim>\<open>skynet_handle_grab\<close>; the caller counts the reference.\<close>

definition skynet_handle_grab :: "ctx_handles \<Rightarrow> u32 \<Rightarrow> handle_storage \<Rightarrow> addr option res" where
  "skynet_handle_grab ch handle s =
     bindR (aget (hs_slot s) (slot_hash (hs_slot_size s) handle)) (\<lambda>ctx.
     case ctx of
       None \<Rightarrow> Inr None
     | Some c \<Rightarrow> bindR (deref ch c) (\<lambda>h. Inr (if h = handle then Some c else None)))"

section \<open>Names\<close>

text \<open>
  The binary search shared by \<^verbatim>\<open>skynet_handle_findname\<close> and \<^verbatim>\<open>_insert_name\<close>: the
  entry found, or the place where the name belongs.
\<close>

function name_search :: "handle_storage \<Rightarrow> cstring \<Rightarrow> int \<Rightarrow> int \<Rightarrow> (handle_name + nat) res" where
  "name_search s name begin' end' =
     (if begin' \<le> end' then
        let mid = (begin' + end') div 2 in
        bindR (bindR (aget (hs_name s) (nat mid)) Prelude.init) (\<lambda>n.
        let c = strcmp (hn_name n) name in
        if c = 0 then Inr (Inl n)
        else if c < 0 then name_search s name (mid + 1) end'
        else name_search s name begin' (mid - 1))
      else Inr (Inr (nat begin')))"
  by pat_completeness auto
termination
  by (relation "measure (\<lambda>(s, name, b, e). nat (e - b + 1))") auto

declare name_search.simps [simp del]

definition skynet_handle_findname :: "cstring \<Rightarrow> handle_storage \<Rightarrow> u32 res" where
  "skynet_handle_findname name s =
     bindR (name_search s name 0 (int (hs_name_count s) - 1)) (\<lambda>r.
     Inr (case r of Inl n \<Rightarrow> hn_handle n | Inr _ \<Rightarrow> 0))"

text \<open>The copy loops of \<^verbatim>\<open>_insert_name_before\<close>: into a larger table, or one place up.\<close>

function copy_names :: "handle_name option list \<Rightarrow> nat \<Rightarrow> nat \<Rightarrow> nat \<Rightarrow> handle_name option list \<Rightarrow> handle_name option list res" where
  "copy_names old i n d new =
     (if i < n then
        bindR (aget old i) (\<lambda>e. bindR (aset new (i + d) e) (copy_names old (i + 1) n d))
      else Inr new)"
  by pat_completeness auto
termination
  by (relation "measure (\<lambda>(old, i, n, d, new). n - i)") auto

fun shift_names :: "nat \<Rightarrow> nat \<Rightarrow> handle_name option list \<Rightarrow> handle_name option list res" where
  "shift_names 0 before names = Inr names"
| "shift_names (Suc i) before names =
     (if Suc i > before then
        bindR (aget names i) (\<lambda>e. bindR (aset names (Suc i) e) (shift_names i before))
      else Inr names)"

declare copy_names.simps [simp del] shift_names.simps [simp del]

definition insert_name_before :: "cstring \<Rightarrow> u32 \<Rightarrow> nat \<Rightarrow> handle_storage \<Rightarrow> handle_storage res" where
  "insert_name_before name handle before s =
     bindR (if hs_name_count s \<ge> hs_name_cap s then
              let cap = hs_name_cap s * 2 in
              bindR (c_assert (cap \<le> MAX_SLOT_SIZE)) (\<lambda>_.
              bindR (copy_names (hs_name s) 0 before 0 (replicate cap None)) (\<lambda>n.
              bindR (copy_names (hs_name s) before (hs_name_count s) 1 n) (\<lambda>n.
              Inr (s\<lparr>hs_name_cap := cap, hs_name := n\<rparr>))))
            else
              bindR (shift_names (hs_name_count s) before (hs_name s)) (\<lambda>n.
              Inr (s\<lparr>hs_name := n\<rparr>))) (\<lambda>s.
     bindR (aset (hs_name s) before (Some \<lparr>hn_name = name, hn_handle = handle\<rparr>)) (\<lambda>names.
     Inr (s\<lparr>hs_name := names, hs_name_count := hs_name_count s + 1\<rparr>)))"

text \<open>The registered name, or \<open>None\<close> where the C function returns \<^verbatim>\<open>NULL\<close>.\<close>

definition skynet_handle_namehandle :: "u32 \<Rightarrow> cstring \<Rightarrow> handle_storage \<Rightarrow> (cstring option \<times> handle_storage) res" where
  "skynet_handle_namehandle handle name s =
     bindR (name_search s name 0 (int (hs_name_count s) - 1)) (\<lambda>r.
     case r of
       Inl _ \<Rightarrow> Inr (None, s)
     | Inr begin' \<Rightarrow> bindR (insert_name_before name handle begin' s) (\<lambda>s'. Inr (Some name, s')))"

definition skynet_handle_init :: "nat \<Rightarrow> handle_storage" where
  "skynet_handle_init harbor =
     \<lparr> hs_harbor = push_bit HANDLE_REMOTE_SHIFT (of_nat harbor AND 0xff), hs_handle_index = 1,
       hs_slot_size = DEFAULT_SLOT_SIZE, hs_slot = replicate DEFAULT_SLOT_SIZE None,
       hs_name_cap = 2, hs_name_count = 0, hs_name = replicate 2 None \<rparr>"

section \<open>The slot table is a map from handles to contexts\<close>

definition slot_sizes :: "nat list" where
  "slot_sizes = map (\<lambda>k. 4 * 2 ^ k) [0..<23]"

text \<open>The contexts in the table; a context sits in the slot its handle hashes to.\<close>

definition members :: "handle_storage \<Rightarrow> addr set" where
  "members s = {c. Some c \<in> set (hs_slot s)}"

definition hs_ok :: "ctx_handles \<Rightarrow> handle_storage \<Rightarrow> bool" where
  "hs_ok ch s \<longleftrightarrow>
     hs_slot_size s \<in> set slot_sizes \<and> length (hs_slot s) = hs_slot_size s \<and>
     hs_harbor s AND HANDLE_MASK = 0 \<and>
     (\<forall>i < hs_slot_size s. \<forall>c. hs_slot s ! i = Some c \<longrightarrow>
        (\<exists>h. ch c = Some h \<and> slot_hash (hs_slot_size s) h = i))"

lemma slot_sizes_pow: "sz \<in> set slot_sizes \<Longrightarrow> \<exists>k. 2 \<le> k \<and> k \<le> 24 \<and> sz = 2 ^ k"
proof -
  assume "sz \<in> set slot_sizes"
  then obtain k where k: "k < 23" "sz = 4 * 2 ^ k" by (auto simp: slot_sizes_def)
  then show ?thesis by (intro exI [of _ "k + 2"]) (simp add: power_add)
qed

lemma slot_sizes_double:
  assumes "sz \<in> set slot_sizes" "sz < 2 ^ 24"
  shows "sz * 2 \<in> set slot_sizes"
proof -
  from assms obtain k where k: "sz = 4 * 2 ^ k" "k < 23" by (auto simp: slot_sizes_def)
  have "k \<noteq> 22" using assms(2) k by auto
  with k have "sz * 2 = 4 * 2 ^ Suc k" "Suc k < 23" by simp_all
  then show ?thesis unfolding slot_sizes_def set_map by (intro image_eqI [of _ _ "Suc k"]) auto
qed

lemma slot_sizes_bounds: "sz \<in> set slot_sizes \<Longrightarrow> 4 \<le> sz \<and> sz \<le> 2 ^ 24"
  by (auto simp: slot_sizes_def upt_rec)

lemma slot_hash_mod:
  assumes "sz \<in> set slot_sizes"
  shows "slot_hash sz h = unat h mod sz"
proof -
  from slot_sizes_pow [OF assms] obtain k where "sz = 2 ^ k" by blast
  then have "(of_nat sz - 1 :: u32) = Bit_Operations.mask k" by (simp add: mask_eq_exp_minus_1)
  then show ?thesis using \<open>sz = 2 ^ k\<close> by (simp add: slot_hash_def unat_and_mask)
qed

lemma slot_hash_less: "sz \<in> set slot_sizes \<Longrightarrow> slot_hash sz h < sz"
  using slot_sizes_bounds [of sz] by (simp add: slot_hash_mod)

lemma hs_ok_member:
  assumes "hs_ok ch s"
  shows "c \<in> members s \<longleftrightarrow> (\<exists>h. ch c = Some h \<and> hs_slot s ! slot_hash (hs_slot_size s) h = Some c)"
proof
  assume "c \<in> members s"
  then obtain i where "i < hs_slot_size s" "hs_slot s ! i = Some c"
    using assms by (auto simp: members_def hs_ok_def in_set_conv_nth)
  then show "\<exists>h. ch c = Some h \<and> hs_slot s ! slot_hash (hs_slot_size s) h = Some c"
    using assms by (force simp: hs_ok_def)
next
  assume "\<exists>h. ch c = Some h \<and> hs_slot s ! slot_hash (hs_slot_size s) h = Some c"
  then obtain h where h: "hs_slot s ! slot_hash (hs_slot_size s) h = Some c" by blast
  have "slot_hash (hs_slot_size s) h < length (hs_slot s)" using assms slot_hash_less by (simp add: hs_ok_def)
  then show "c \<in> members s" using h nth_mem by (fastforce simp: members_def)
qed

text \<open>\<^verbatim>\<open>skynet_handle_grab\<close> never fails and finds exactly the context with the handle.\<close>

lemma grab_iff:
  assumes "hs_ok ch s"
  shows "\<exists>r. skynet_handle_grab ch h s = Inr r \<and> (\<forall>c. r = Some c \<longleftrightarrow> c \<in> members s \<and> ch c = Some h)"
proof -
  let ?i = "slot_hash (hs_slot_size s) h"
  have i: "?i < hs_slot_size s" "?i < length (hs_slot s)" using assms slot_hash_less by (simp_all add: hs_ok_def)
  show ?thesis
  proof (cases "hs_slot s ! ?i")
    case None
    then show ?thesis using i hs_ok_member [OF assms] by (auto simp: skynet_handle_grab_def)
  next
    case (Some c)
    then obtain h' where h': "ch c = Some h'" using assms i by (force simp: hs_ok_def)
    then show ?thesis using i Some hs_ok_member [OF assms] by (auto simp: skynet_handle_grab_def)
  qed
qed

lemma members_inj: "hs_ok ch s \<Longrightarrow> c \<in> members s \<Longrightarrow> d \<in> members s \<Longrightarrow> ch c = ch d \<Longrightarrow> c = d"
  by (auto simp: hs_ok_member)

section \<open>Registering\<close>

lemma mask24: "HANDLE_MASK = Bit_Operations.mask 24"
  by (simp add: HANDLE_MASK_def mask_eq_exp_minus_1)

text \<open>The handle that the inner loop tries in its \<open>i\<close>-th round, and its slot.\<close>

abbreviation candidate :: "handle_storage \<Rightarrow> nat \<Rightarrow> u32" where
  "candidate s i \<equiv> (of_nat i + hs_handle_index s) AND HANDLE_MASK"

lemma slot_sizes_dvd: "sz \<in> set slot_sizes \<Longrightarrow> sz dvd 2 ^ 24"
  using slot_sizes_pow [of sz] le_imp_power_dvd by blast

lemma slot_hash_masked:
  assumes "sz \<in> set slot_sizes"
  shows "slot_hash sz (h AND HANDLE_MASK) = slot_hash sz h"
  by (simp only: slot_hash_mod [OF assms] mask24 unat_and_mask mod_mod_cancel [OF slot_sizes_dvd [OF assms]])

lemma slot_hash_candidate:
  assumes "sz \<in> set slot_sizes"
  shows "slot_hash sz (candidate s i) = (unat (hs_handle_index s) + i) mod sz"
proof -
  have dvd: "sz dvd 2 ^ 32" using slot_sizes_dvd [OF assms] by (rule dvd_trans) (simp add: le_imp_power_dvd)
  have "slot_hash sz (of_nat i + hs_handle_index s) = (unat (of_nat i :: u32) + unat (hs_handle_index s)) mod sz"
    using mod_mod_cancel [OF dvd] by (simp only: slot_hash_mod [OF assms] unat_word_ariths) simp
  also have "unat (of_nat i :: u32) = i mod 2 ^ 32" by (simp add: unat_of_nat)
  also have "(i mod 2 ^ 32 + unat (hs_handle_index s)) mod sz = (unat (hs_handle_index s) + i) mod sz"
    by (metis add.commute dvd mod_add_left_eq mod_mod_cancel)
  finally show ?thesis by (simp add: slot_hash_masked [OF assms])
qed

text \<open>Every slot is tried once.\<close>

lemma candidate_surj:
  assumes "sz \<in> set slot_sizes" "k < sz"
  shows "\<exists>i < sz. slot_hash sz (candidate s i) = k"
proof -
  let ?x = "unat (hs_handle_index s)"
  let ?i = "(k + (sz - ?x mod sz)) mod sz"
  have "(?x + ?i) mod sz = (?x mod sz + (k + (sz - ?x mod sz))) mod sz"
    by (simp add: mod_simps)
  also have "\<dots> = (k + sz) mod sz"
    using assms(2) mod_less_divisor [of sz ?x] by (metis (no_types, lifting) add.commute add.left_commute gr_implies_not_zero
      le_add_diff_inverse less_imp_le_nat neq0_conv)
  finally have "(?x + ?i) mod sz = k" using assms(2) by simp
  then show ?thesis using assms by (intro exI [of _ ?i]) (simp add: slot_hash_candidate)
qed

lemma register_scan_ok:
  assumes ok: "hs_ok ch s" and i: "i \<le> hs_slot_size s"
  shows "case register_scan s i of
           Inl e \<Rightarrow> False
         | Inr None \<Rightarrow> \<forall>j. i \<le> j \<and> j < hs_slot_size s \<longrightarrow>
             hs_slot s ! slot_hash (hs_slot_size s) (candidate s j) \<noteq> None \<or> candidate s j = 1
         | Inr (Some p) \<Rightarrow> snd p = slot_hash (hs_slot_size s) (fst p) \<and> fst p \<noteq> 1 \<and>
             hs_slot s ! snd p = None \<and> (\<exists>j < hs_slot_size s. fst p = candidate s j)"
  using i
proof (induction "hs_slot_size s - i" arbitrary: i)
  case 0
  then show ?case by (subst register_scan.simps) auto
next
  case (Suc n)
  let ?k = "slot_hash (hs_slot_size s) (candidate s i)"
  have i: "i < hs_slot_size s" using Suc by linarith
  have k: "?k < length (hs_slot s)" using ok slot_hash_less by (simp add: hs_ok_def)
  show ?case
  proof (cases "hs_slot s ! ?k = None \<and> candidate s i \<noteq> 1")
    case True
    then have "register_scan s i = Inr (Some (candidate s i, ?k))"
      using i k by (subst register_scan.simps) (simp add: Let_def)
    then show ?thesis using True i by auto
  next
    case False
    then have eq: "register_scan s i = register_scan s (i + 1)"
      using i k by (subst register_scan.simps) (auto simp: Let_def)
    have "n = hs_slot_size s - (i + 1)" "i + 1 \<le> hs_slot_size s" using Suc.hyps(2) i by simp_all
    note IH = Suc.hyps(1) [OF this]
    have step: "i \<le> j \<longleftrightarrow> j = i \<or> i + 1 \<le> j" for j by auto
    show ?thesis using IH False unfolding eq step by (auto split: sum.splits option.splits)
  qed
qed

text \<open>
  When the scan finds nothing, every slot but that of handle 1 is taken: the
  code then assumes that this one is taken as well.
\<close>

definition slots_full :: "handle_storage \<Rightarrow> bool" where
  "slots_full s \<longleftrightarrow> None \<notin> set (hs_slot s)"

lemma register_scan_None:
  assumes ok: "hs_ok ch s" and none: "register_scan s 0 = Inr None"
    and k: "k < hs_slot_size s" "hs_slot s ! k = None"
  shows "k = 1 \<and> (\<exists>j < hs_slot_size s. candidate s j = 1)"
proof -
  have sz: "hs_slot_size s \<in> set slot_sizes" using ok by (simp add: hs_ok_def)
  obtain j where j: "j < hs_slot_size s" "slot_hash (hs_slot_size s) (candidate s j) = k"
    using candidate_surj [OF sz k(1), of s] by blast
  have "candidate s j = 1"
    using register_scan_ok [OF ok, of 0] none j k by auto
  moreover have "slot_hash (hs_slot_size s) 1 = 1"
    using slot_sizes_bounds [OF sz] by (simp add: slot_hash_mod [OF sz])
  ultimately show ?thesis using j by auto
qed


text \<open>Growing a full table keeps every context, and leaves half of the slots free.\<close>

definition rehashed :: "ctx_handles \<Rightarrow> addr option list \<Rightarrow> nat \<Rightarrow> addr option list \<Rightarrow> bool" where
  "rehashed ch old n new \<longleftrightarrow>
     length new = 2 * length old \<and>
     (\<forall>p < 2 * length old. new ! p =
        (if p mod length old < n \<and>
            slot_hash (2 * length old) (the (ch (the (old ! (p mod length old))))) = p
         then old ! (p mod length old) else None))"

lemma rehash_ok:
  assumes sz: "length old \<in> set slot_sizes" "2 * length old \<in> set slot_sizes"
    and full: "\<And>i. i < length old \<Longrightarrow> \<exists>c h. old ! i = Some c \<and> ch c = Some h \<and> slot_hash (length old) h = i"
    and n: "n \<le> length old" and re: "rehashed ch old n new"
  shows "\<exists>new'. rehash ch (length old * 2) (drop n old) new = Inr new' \<and> rehashed ch old (length old) new'"
  using n re
proof (induction "length old - n" arbitrary: n new)
  case 0
  then show ?case by simp
next
  case (Suc m)
  let ?sz = "length old"
  have n: "n < ?sz" using Suc by linarith
  obtain c h where ch: "old ! n = Some c" "ch c = Some h" "slot_hash ?sz h = n" using full [OF n] by blast
  let ?k = "slot_hash (?sz * 2) h"
  have k: "?k < length new" "?k mod ?sz = n"
    using Suc.prems slot_hash_less [OF sz(2), of h] ch(3) slot_hash_mod [OF sz(1), of h] slot_hash_mod [OF sz(2), of h]
    by (simp_all add: rehashed_def mult.commute mod_mod_cancel)
  have free: "new ! ?k = None" using Suc.prems k by (simp add: rehashed_def)
  have re: "rehashed ch old (Suc n) (new[?k := Some c])"
  proof -
    have "p = ?k" if "p mod ?sz = n" "slot_hash (2 * ?sz) h = p" for p using that by (simp add: mult.commute)
    then show ?thesis
      using Suc.prems(2) k ch unfolding rehashed_def
      by (auto simp: nth_list_update less_Suc_eq mult.commute)
  qed
  have "m = ?sz - Suc n" "Suc n \<le> ?sz" using Suc.hyps(2) n by simp_all
  then obtain new' where "rehash ch (?sz * 2) (drop (Suc n) old) (new[?k := Some c]) = Inr new'"
      "rehashed ch old ?sz new'"
    using Suc.hyps(1) re by blast
  moreover have "drop n old = Some c # drop (Suc n) old" using n ch Cons_nth_drop_Suc by metis
  ultimately show ?case using k free ch by simp
qed

lemma grow_slots_ok:
  assumes ok: "hs_ok ch s" and full: "slots_full s" and room: "hs_slot_size s < 2 ^ 24"
  shows "\<exists>s'. grow_slots ch s = Inr s' \<and> hs_ok ch s' \<and> members s' = members s \<and>
              hs_name s' = hs_name s \<and> hs_name_count s' = hs_name_count s \<and> hs_name_cap s' = hs_name_cap s \<and>
              hs_harbor s' = hs_harbor s \<and> hs_slot_size s' = 2 * hs_slot_size s \<and>
              (hs_slot s' ! 0 = None \<or> hs_slot s' ! hs_slot_size s = None)"
proof -
  let ?sz = "hs_slot_size s" and ?old = "hs_slot s"
  have len: "length ?old = ?sz" and sz: "?sz \<in> set slot_sizes" using ok by (simp_all add: hs_ok_def)
  have sz2: "2 * ?sz \<in> set slot_sizes" using slot_sizes_double [OF sz room] by (simp add: mult.commute)
  have pos: "4 \<le> ?sz" using slot_sizes_bounds [OF sz] by simp
  have ent: "\<exists>c h. ?old ! i = Some c \<and> ch c = Some h \<and> slot_hash (length ?old) h = i" if i: "i < length ?old" for i
  proof -
    have "?old ! i \<noteq> None" using full i nth_mem unfolding slots_full_def by metis
    then obtain c where "?old ! i = Some c" by blast
    then show ?thesis using ok i unfolding hs_ok_def len by blast
  qed
  have "rehashed ch ?old 0 (replicate (?sz * 2) None)" by (simp add: rehashed_def len)
  then have "\<exists>new'. rehash ch (length ?old * 2) (drop 0 ?old) (replicate (?sz * 2) None) = Inr new' \<and>
      rehashed ch ?old (length ?old) new'"
    by (intro rehash_ok) (simp_all only: len sz sz2 ent [unfolded len] le0)
  then obtain new where new: "rehash ch (?sz * 2) ?old (replicate (?sz * 2) None) = Inr new"
    and re: "rehashed ch ?old ?sz new"
    unfolding len drop_0 by blast
  let ?s = "s\<lparr>hs_slot := new, hs_slot_size := ?sz * 2\<rparr>"
  have new_nth: "new ! p = (if slot_hash (2 * ?sz) (the (ch (the (?old ! (p mod ?sz))))) = p then ?old ! (p mod ?sz) else None)"
    if "p < 2 * ?sz" for p
    using re that len pos by (simp add: rehashed_def)
  have lnew: "length new = 2 * ?sz" using re len by (simp add: rehashed_def)
  have ok': "hs_ok ch ?s"
    unfolding hs_ok_def
  proof (intro conjI allI impI)
    fix i c assume i: "i < hs_slot_size ?s" "hs_slot ?s ! i = Some c"
    then have "?old ! (i mod ?sz) = Some c" "slot_hash (2 * ?sz) (the (ch c)) = i"
      using new_nth [of i] by (auto split: if_splits)
    moreover have "i mod ?sz < length ?old" using pos len by simp
    ultimately show "\<exists>h. ch c = Some h \<and> slot_hash (hs_slot_size ?s) h = i"
      using ent [of "i mod ?sz"] by (auto simp: mult.commute)
  qed (use ok lnew sz2 in \<open>simp_all add: hs_ok_def mult.commute\<close>)
  have mem: "members ?s = members s"
  proof (intro set_eqI)
    fix c
    show "c \<in> members ?s \<longleftrightarrow> c \<in> members s"
    proof (cases "ch c")
      case (Some h)
      let ?k = "slot_hash (2 * ?sz) h"
      have "?k mod ?sz = slot_hash ?sz h" by (simp add: slot_hash_mod [OF sz] slot_hash_mod [OF sz2] mod_mod_cancel)
      then show ?thesis
        using new_nth [of ?k] slot_hash_less [OF sz2, of h] Some
        by (auto simp: hs_ok_member [OF ok] hs_ok_member [OF ok'] mult.commute)
    qed (simp add: hs_ok_member [OF ok] hs_ok_member [OF ok'])
  qed
  have half: "new ! 0 = None \<or> new ! ?sz = None" using new_nth [of 0] new_nth [of ?sz] pos by auto
  have "?sz * 2 \<le> 2 ^ 24" using slot_sizes_bounds [OF sz2] by simp
  then have "grow_slots ch s = Inr ?s" using new len by (simp add: grow_slots_def HANDLE_MASK_def)
  then show ?thesis using ok' mem half by (intro exI [of _ ?s]) auto
qed


lemma grab_cong:
  assumes "hs_ok ch s" "hs_ok ch' s'"
    and "\<And>d. d \<in> members s' \<and> ch' d = Some k \<longleftrightarrow> d \<in> members s \<and> ch d = Some k"
  shows "skynet_handle_grab ch' k s' = skynet_handle_grab ch k s"
proof -
  obtain r r' where r: "skynet_handle_grab ch k s = Inr r" "\<forall>c. r = Some c \<longleftrightarrow> c \<in> members s \<and> ch c = Some k"
    and r': "skynet_handle_grab ch' k s' = Inr r'" "\<forall>c. r' = Some c \<longleftrightarrow> c \<in> members s' \<and> ch' c = Some k"
    using grab_iff [OF assms(1), of k] grab_iff [OF assms(2), of k] by blast
  have "r = r'" by (rule option_eqI) (use r(2) r'(2) assms(3) in blast)
  then show ?thesis using r r' by simp
qed

lemma grab_eqI:
  assumes "hs_ok ch s" "c \<in> members s" "ch c = Some h"
  shows "skynet_handle_grab ch h s = Inr (Some c)"
  using grab_iff [OF assms(1), of h] assms by metis

lemma masked_or_harbor:
  fixes p g :: u32
  assumes "g AND HANDLE_MASK = 0"
  shows "(p OR g) AND HANDLE_MASK = p AND HANDLE_MASK"
proof (rule bit_word_eqI)
  fix n assume "n < LENGTH(32)"
  have "bit (g AND HANDLE_MASK) n = False" using assms by simp
  then show "bit ((p OR g) AND HANDLE_MASK) n = bit (p AND HANDLE_MASK) n"
    by (auto simp only: bit_simps)
qed

lemma slot_hash_or_harbor:
  assumes "sz \<in> set slot_sizes" "g AND HANDLE_MASK = 0"
  shows "slot_hash sz (p OR g) = slot_hash sz p"
  using slot_hash_masked [OF assms(1), of "p OR g"] slot_hash_masked [OF assms(1), of p] masked_or_harbor [OF assms(2)]
  by simp

text \<open>Taking a free slot, and giving one up.\<close>

lemma put_slot:
  assumes ok: "hs_ok ch s" and free: "hs_slot s ! slot_hash (hs_slot_size s) h = None" and c: "c \<notin> members s"
    and s': "hs_slot s' = (hs_slot s)[slot_hash (hs_slot_size s) h := Some c]"
      "hs_slot_size s' = hs_slot_size s" "hs_harbor s' = hs_harbor s"
  shows "hs_ok (ch(c \<mapsto> h)) s'" and "members s' = insert c (members s)"
proof -
  let ?k = "slot_hash (hs_slot_size s) h"
  have k: "?k < length (hs_slot s)" using ok slot_hash_less by (simp add: hs_ok_def)
  have "d \<noteq> c" if "i < hs_slot_size s" "hs_slot s ! i = Some d" for i d
    using c that ok nth_mem unfolding members_def hs_ok_def by (metis mem_Collect_eq)
  then show "hs_ok (ch(c \<mapsto> h)) s'"
    using ok k unfolding hs_ok_def s' by (auto simp: nth_list_update)
  have "set ((hs_slot s)[?k := Some c]) \<subseteq> insert (Some c) (set (hs_slot s))" by (rule set_update_subset_insert)
  moreover have "Some d \<in> set ((hs_slot s)[?k := Some c])" if d: "Some d \<in> set (hs_slot s)" for d
  proof -
    obtain i where i: "i < length (hs_slot s)" "hs_slot s ! i = Some d" using d by (auto simp: in_set_conv_nth)
    then have "i \<noteq> ?k" using free by auto
    then show ?thesis using i by (metis length_list_update nth_list_update_neq nth_mem)
  qed
  moreover have "Some c \<in> set ((hs_slot s)[?k := Some c])" using k by (rule set_update_memI)
  ultimately show "members s' = insert c (members s)" by (auto simp: members_def s')
qed

lemma drop_slot:
  assumes ok: "hs_ok ch s" and at: "hs_slot s ! slot_hash (hs_slot_size s) h = Some c" and h: "ch c = Some h"
    and s': "hs_slot s' = (hs_slot s)[slot_hash (hs_slot_size s) h := None]"
      "hs_slot_size s' = hs_slot_size s" "hs_harbor s' = hs_harbor s"
  shows "hs_ok ch s'" and "members s' = members s - {c}"
proof -
  let ?k = "slot_hash (hs_slot_size s) h"
  have k: "?k < length (hs_slot s)" using ok slot_hash_less by (simp add: hs_ok_def)
  show ok': "hs_ok ch s'"
    using ok k unfolding hs_ok_def s' by (auto simp: nth_list_update)
  have "d \<in> members s' \<longleftrightarrow> d \<in> members s - {c}" for d
    using k h at by (cases "ch d") (auto simp: hs_ok_member [OF ok] hs_ok_member [OF ok'] s' nth_list_update)
  then show "members s' = members s - {c}" by blast
qed

text \<open>What registering establishes, from a scan that found a free handle.\<close>

definition registered :: "ctx_handles \<Rightarrow> addr \<Rightarrow> handle_storage \<Rightarrow> u32 \<Rightarrow> handle_storage \<Rightarrow> bool" where
  "registered ch c s h s' \<longleftrightarrow>
     h AND HANDLE_MASK \<noteq> 1 \<and> (\<exists>p. p AND HANDLE_MASK = p \<and> h = p OR hs_harbor s) \<and>
     hs_ok (ch(c \<mapsto> h)) s' \<and> members s' = insert c (members s) \<and>
     (\<forall>d \<in> members s. ch d \<noteq> Some h) \<and>
     hs_name s' = hs_name s \<and> hs_name_count s' = hs_name_count s \<and> hs_name_cap s' = hs_name_cap s \<and>
     hs_harbor s' = hs_harbor s"

lemma register_found:
  assumes ok: "hs_ok ch s" and c: "c \<notin> members s" and found: "register_scan s 0 = Inr (Some p)"
  shows "\<exists>h s'. register_loop ch c s = Some (Inr (h, s')) \<and> registered ch c s h s'"
proof -
  obtain q k where p: "p = (q, k)" by (cases p)
  have q: "k = slot_hash (hs_slot_size s) q" "q \<noteq> 1" "hs_slot s ! k = None" "\<exists>j. q = candidate s j"
    using register_scan_ok [OF ok, of 0] found p by auto
  have sz: "hs_slot_size s \<in> set slot_sizes" and g: "hs_harbor s AND HANDLE_MASK = 0"
    using ok by (simp_all add: hs_ok_def)
  have k: "k < length (hs_slot s)" using ok slot_hash_less [OF sz] q(1) by (simp add: hs_ok_def)
  let ?h = "q OR hs_harbor s"
  have qm: "q AND HANDLE_MASK = q" using q(4) by (auto simp: and.assoc)
  have kh: "k = slot_hash (hs_slot_size s) ?h" using q(1) slot_hash_or_harbor [OF sz g] by simp
  let ?s = "s\<lparr>hs_slot := (hs_slot s)[k := Some c], hs_handle_index := q + 1\<rparr>"
  have "hs_ok (ch(c \<mapsto> ?h)) ?s" "members ?s = insert c (members s)"
    using put_slot [OF ok _ c, of ?h ?s] q(3) kh by simp_all
  moreover have "\<forall>d \<in> members s. ch d \<noteq> Some ?h" using q(3) kh by (auto simp: hs_ok_member [OF ok])
  moreover have "?h AND HANDLE_MASK \<noteq> 1" using masked_or_harbor [OF g, of q] qm q(2) by simp
  moreover have "\<exists>p. p AND HANDLE_MASK = p \<and> ?h = p OR hs_harbor s" using qm by blast
  ultimately have "registered ch c s ?h ?s" by (simp add: registered_def)
  moreover have "register_loop ch c s = Some (Inr (?h, ?s))"
    using found p k by (subst register_loop.simps) simp
  ultimately show ?thesis by blast
qed

text \<open>
  \<open>reserved_only s\<close>: the one free slot is the one for which the scan would hand
  out the reserved handle 1.
\<close>

definition reserved_only :: "handle_storage \<Rightarrow> bool" where
  "reserved_only s \<longleftrightarrow>
     hs_slot s ! 1 = None \<and> (\<forall>k < hs_slot_size s. k \<noteq> 1 \<longrightarrow> hs_slot s ! k \<noteq> None) \<and>
     (\<exists>j < hs_slot_size s. candidate s j = 1)"

lemma register_full:
  assumes ok: "hs_ok ch s" and none: "register_scan s 0 = Inr None" and r: "\<not> reserved_only s"
  shows "slots_full s"
proof (rule ccontr)
  assume "\<not> slots_full s"
  then obtain k where k: "k < hs_slot_size s" "hs_slot s ! k = None"
    using ok by (auto simp: slots_full_def hs_ok_def in_set_conv_nth)
  then show False
    using r register_scan_None [OF ok none] unfolding reserved_only_def by blast
qed

lemma register_ok:
  assumes ok: "hs_ok ch s" and c: "c \<notin> members s"
    and r: "\<not> reserved_only s" and room: "\<not> slots_full s \<or> hs_slot_size s < 2 ^ 24"
  shows "\<exists>h s'. skynet_handle_register ch c s = Inr (h, s') \<and> registered ch c s h s'"
proof -
  obtain f where f: "register_scan s 0 = Inr f"
    using register_scan_ok [OF ok, of 0] by (cases "register_scan s 0") auto
  have "\<exists>h s'. register_loop ch c s = Some (Inr (h, s')) \<and> registered ch c s h s'"
  proof (cases f)
    case (Some p)
    then show ?thesis using register_found [OF ok c] f by blast
  next
    case None
    then have full: "slots_full s" using register_full [OF ok _ r] f by blast
    then obtain s1 where s1: "grow_slots ch s = Inr s1" "hs_ok ch s1" "members s1 = members s"
        "hs_name s1 = hs_name s" "hs_name_count s1 = hs_name_count s" "hs_name_cap s1 = hs_name_cap s"
        "hs_harbor s1 = hs_harbor s" "hs_slot_size s1 = 2 * hs_slot_size s"
        "hs_slot s1 ! 0 = None \<or> hs_slot s1 ! hs_slot_size s = None"
      using grow_slots_ok [OF ok] room by blast
    have pos: "4 \<le> hs_slot_size s" using ok slot_sizes_bounds by (simp add: hs_ok_def)
    have "register_scan s1 0 \<noteq> Inr None"
    proof
      assume none: "register_scan s1 0 = Inr None"
      show False
        using register_scan_None [OF s1(2) none, of 0] register_scan_None [OF s1(2) none, of "hs_slot_size s"] s1 pos
        by auto
    qed
    then obtain p where "register_scan s1 0 = Inr (Some p)"
      using register_scan_ok [OF s1(2), of 0] by (auto split: sum.splits option.splits)
    then obtain h s' where "register_loop ch c s1 = Some (Inr (h, s'))" "registered ch c s1 h s'"
      using register_found [OF s1(2), of c p] c s1(3) by auto
    moreover have "register_loop ch c s = register_loop ch c s1"
      using f None s1(1) by (subst register_loop.simps) simp
    ultimately show ?thesis using s1 by (auto simp: registered_def)
  qed
  then show ?thesis by (auto simp: skynet_handle_register_def)
qed


section \<open>The name table is a map from names to handles\<close>

definition names_list :: "handle_storage \<Rightarrow> handle_name list" where
  "names_list s = map the (take (hs_name_count s) (hs_name s))"

definition name_map :: "handle_storage \<Rightarrow> cstring \<rightharpoonup> u32" where
  "name_map s = map_of (map (\<lambda>e. (hn_name e, hn_handle e)) (names_list s))"

definition names_ok :: "handle_storage \<Rightarrow> bool" where
  "names_ok s \<longleftrightarrow>
     hs_name_count s \<le> hs_name_cap s \<and> length (hs_name s) = hs_name_cap s \<and>
     hs_name_cap s \<in> (\<lambda>k. 2 * 2 ^ k) ` {0..<30} \<and>
     None \<notin> set (take (hs_name_count s) (hs_name s)) \<and>
     sorted_wrt (<) (map hn_name (names_list s))"

lemma names_nth:
  assumes "names_ok s" "i < hs_name_count s"
  shows "hs_name s ! i = Some (names_list s ! i)" "i < length (hs_name s)"
proof -
  show i: "i < length (hs_name s)" using assms by (simp add: names_ok_def)
  have "take (hs_name_count s) (hs_name s) ! i \<noteq> None"
    using assms i nth_mem [of i "take (hs_name_count s) (hs_name s)"] by (metis length_take min_less_iff_conj names_ok_def)
  then show "hs_name s ! i = Some (names_list s ! i)" using assms i by (simp add: names_list_def)
qed

lemma length_names: "names_ok s \<Longrightarrow> length (names_list s) = hs_name_count s"
  by (simp add: names_list_def names_ok_def)

lemma names_less:
  "names_ok s \<Longrightarrow> i < j \<Longrightarrow> j < hs_name_count s \<Longrightarrow> hn_name (names_list s ! i) < hn_name (names_list s ! j)"
  using sorted_wrt_nth_less [of "(<)" "map hn_name (names_list s)" i j] length_names [of s]
  by (auto simp: names_ok_def)

lemma name_map_Some_iff:
  assumes "names_ok s"
  shows "name_map s n = Some h \<longleftrightarrow> (\<exists>e \<in> set (names_list s). hn_name e = n \<and> hn_handle e = h)"
proof -
  have "distinct (map hn_name (names_list s))"
    using assms strict_sorted_iff [of "map hn_name (names_list s)"] by (simp add: names_ok_def)
  then have "distinct (map fst (map (\<lambda>e. (hn_name e, hn_handle e)) (names_list s)))" by (simp add: comp_def)
  then show ?thesis unfolding name_map_def by (force simp: map_of_eq_Some_iff)
qed

lemma name_map_None_iff: "name_map s n = None \<longleftrightarrow> n \<notin> hn_name ` set (names_list s)"
  by (auto simp: name_map_def map_of_eq_None_iff image_image)

text \<open>The binary search ends at the entry, or at the place that splits the table.\<close>

lemma name_search_ok:
  assumes ok: "names_ok s" and "0 \<le> b" "b \<le> e + 1" "e < int (hs_name_count s)"
    and "\<And>i. int i < b \<Longrightarrow> hn_name (names_list s ! i) < n"
    and "\<And>i. e < int i \<Longrightarrow> i < hs_name_count s \<Longrightarrow> n < hn_name (names_list s ! i)"
  shows "(\<exists>x. name_search s n b e = Inr (Inl x) \<and> x \<in> set (names_list s) \<and> hn_name x = n) \<or>
         (\<exists>p. name_search s n b e = Inr (Inr p) \<and> p \<le> hs_name_count s \<and>
            (\<forall>i < p. hn_name (names_list s ! i) < n) \<and>
            (\<forall>i. p \<le> i \<and> i < hs_name_count s \<longrightarrow> n < hn_name (names_list s ! i)))"
  using assms(2-)
proof (induction "nat (e - b + 1)" arbitrary: b e rule: less_induct)
  case less
  show ?case
  proof (cases "b \<le> e")
    case False
    then have "name_search s n b e = Inr (Inr (nat b))" by (subst name_search.simps) simp
    then show ?thesis using less.prems False by auto
  next
    case True
    let ?m = "(b + e) div 2"
    have m: "b \<le> ?m" "?m \<le> e" using True by simp_all
    then have nm: "nat ?m < hs_name_count s" "0 \<le> ?m" using less.prems by linarith+
    let ?x = "names_list s ! nat ?m"
    have x: "hs_name s ! nat ?m = Some ?x" "nat ?m < length (hs_name s)" using names_nth [OF ok nm(1)] by simp_all
    consider "hn_name ?x = n" | "hn_name ?x < n" | "n < hn_name ?x" by fastforce
    then show ?thesis
    proof cases
      case 1
      then have "name_search s n b e = Inr (Inl ?x)" using True x by (subst name_search.simps) (simp add: Let_def)
      moreover have "?x \<in> set (names_list s)" using nm length_names [OF ok] by simp
      ultimately show ?thesis using 1 by blast
    next
      case 2
      then have eq: "name_search s n b e = name_search s n (?m + 1) e"
        using True x by (subst name_search.simps) (auto simp: Let_def)
      have low: "hn_name (names_list s ! i) < n" if "int i < ?m + 1" for i
        using 2 names_less [OF ok, of i "nat ?m"] nm that by (cases "i = nat ?m") (force simp: nat_le_iff)+
      show ?thesis unfolding eq by (rule less.hyps) (use less.prems m low in auto)
    next
      case 3
      then have eq: "name_search s n b e = name_search s n b (?m - 1)"
        using True x by (subst name_search.simps) (auto simp: Let_def)
      have high: "n < hn_name (names_list s ! i)" if "?m - 1 < int i" "i < hs_name_count s" for i
        using 3 names_less [OF ok, of "nat ?m" i] nm that by (cases "i = nat ?m") (force simp: nat_le_iff)+
      show ?thesis unfolding eq by (rule less.hyps) (use less.prems m high in auto)
    qed
  qed
qed

lemma name_search_cases:
  assumes ok: "names_ok s"
  obtains x where "name_search s n 0 (int (hs_name_count s) - 1) = Inr (Inl x)"
      "x \<in> set (names_list s)" "hn_name x = n" "name_map s n = Some (hn_handle x)"
    | p where "name_search s n 0 (int (hs_name_count s) - 1) = Inr (Inr p)" "p \<le> hs_name_count s"
      "\<forall>i < p. hn_name (names_list s ! i) < n"
      "\<forall>i. p \<le> i \<and> i < hs_name_count s \<longrightarrow> n < hn_name (names_list s ! i)" "name_map s n = None"
proof -
  have "(\<exists>x. name_search s n 0 (int (hs_name_count s) - 1) = Inr (Inl x) \<and> x \<in> set (names_list s) \<and> hn_name x = n) \<or>
        (\<exists>p. name_search s n 0 (int (hs_name_count s) - 1) = Inr (Inr p) \<and> p \<le> hs_name_count s \<and>
            (\<forall>i < p. hn_name (names_list s ! i) < n) \<and>
            (\<forall>i. p \<le> i \<and> i < hs_name_count s \<longrightarrow> n < hn_name (names_list s ! i)))"
    using ok by (intro name_search_ok) auto
  moreover have "name_map s n = None"
    if "p \<le> hs_name_count s" "\<forall>i < p. hn_name (names_list s ! i) < n"
      "\<forall>i. p \<le> i \<and> i < hs_name_count s \<longrightarrow> n < hn_name (names_list s ! i)" for p
    unfolding name_map_None_iff
  proof
    assume "n \<in> hn_name ` set (names_list s)"
    then obtain i where i: "i < hs_name_count s" "hn_name (names_list s ! i) = n"
      using length_names [OF ok] by (auto simp: in_set_conv_nth)
    then show False using that by (metis less_irrefl not_le)
  qed
  ultimately show ?thesis
    using that name_map_Some_iff [OF ok, of n] by blast
qed

lemma findname_ok:
  assumes "names_ok s"
  shows "skynet_handle_findname n s = Inr (case name_map s n of None \<Rightarrow> 0 | Some h \<Rightarrow> h)"
  by (rule name_search_cases [OF assms, of n]) (simp_all add: skynet_handle_findname_def)

text \<open>Inserting at place \<open>p\<close>, with and without a larger table.\<close>

lemma copy_names_ok:
  assumes "n \<le> length old" "n + d \<le> length new"
  shows "\<exists>new'. copy_names old i n d new = Inr new' \<and> length new' = length new \<and>
           (\<forall>k < length new. new' ! k = (if i + d \<le> k \<and> k < n + d then old ! (k - d) else new ! k))"
  using assms
proof (induction old i n d new rule: copy_names.induct)
  case (1 old i n d new)
  show ?case
  proof (cases "i < n")
    case True
    then obtain new' where "copy_names old (i + 1) n d (new[i + d := old ! i]) = Inr new'"
        "length new' = length new"
        "\<forall>k < length new. new' ! k =
          (if i + 1 + d \<le> k \<and> k < n + d then old ! (k - d) else new[i + d := old ! i] ! k)"
      using 1 by fastforce
    moreover have "copy_names old i n d new = copy_names old (i + 1) n d (new[i + d := old ! i])"
      using True 1 by (subst copy_names.simps) simp
    ultimately show ?thesis using True 1 by (auto simp: nth_list_update Suc_le_eq)
  qed (subst copy_names.simps, auto)
qed

lemma shift_names_ok:
  assumes "i < length names" "p \<le> i"
  shows "\<exists>names'. shift_names i p names = Inr names' \<and> length names' = length names \<and>
           (\<forall>k < length names. names' ! k = (if p < k \<and> k \<le> i then names ! (k - 1) else names ! k))"
  using assms
proof (induction i p names rule: shift_names.induct)
  case (2 i p names)
  show ?case
  proof (cases "Suc i > p")
    case True
    then obtain names' where "shift_names i p (names[Suc i := names ! i]) = Inr names'" "length names' = length names"
        "\<forall>k < length names. names' ! k =
          (if p < k \<and> k \<le> i then names[Suc i := names ! i] ! (k - 1) else names[Suc i := names ! i] ! k)"
      using 2 by fastforce
    then show ?thesis using True 2 by (subst shift_names.simps) (auto simp: nth_list_update le_Suc_eq)
  qed (auto simp: shift_names.simps)
qed (simp add: shift_names.simps)


lemma insert_name_before_ok:
  assumes ok: "names_ok s" and p: "p \<le> hs_name_count s" and room: "hs_name_count s < MAX_SLOT_SIZE"
  shows "\<exists>names cap. insert_name_before n h p s =
            Inr (s\<lparr>hs_name_cap := cap, hs_name := names, hs_name_count := hs_name_count s + 1\<rparr>) \<and>
          hs_name_count s + 1 \<le> cap \<and> length names = cap \<and> cap \<in> (\<lambda>k. 2 * 2 ^ k) ` {0..<30} \<and>
          take (hs_name_count s + 1) names =
            take p (hs_name s) @ Some \<lparr>hn_name = n, hn_handle = h\<rparr> # take (hs_name_count s - p) (drop p (hs_name s))"
proof -
  let ?c = "hs_name_count s" and ?e = "Some \<lparr>hn_name = n, hn_handle = h\<rparr>"
  have c: "?c \<le> hs_name_cap s" "length (hs_name s) = hs_name_cap s" using ok by (simp_all add: names_ok_def)
  obtain k where k: "hs_name_cap s = 2 * 2 ^ k" "k < 30" using ok by (auto simp: names_ok_def)
  have shape: "take (?c + 1) (m[p := ?e]) = take p (hs_name s) @ ?e # take (?c - p) (drop p (hs_name s))"
    if m: "?c < length m" "\<forall>i < p. m ! i = hs_name s ! i" "\<forall>i. p \<le> i \<and> i < ?c \<longrightarrow> m ! Suc i = hs_name s ! i" for m
  proof (rule nth_equalityI)
    fix i assume "i < length (take (?c + 1) (m[p := ?e]))"
    then have i: "i \<le> ?c" by simp
    show "take (?c + 1) (m[p := ?e]) ! i = (take p (hs_name s) @ ?e # take (?c - p) (drop p (hs_name s))) ! i"
    proof (cases "i \<le> p")
      case False
      then obtain j where "i = Suc j" "p \<le> j" "j < ?c" using i by (cases i) auto
      then show ?thesis using m c p by (auto simp: nth_append Suc_diff_le)
    qed (use i m c p in \<open>auto simp: nth_append nth_list_update\<close>)
  qed (use m c p in auto)
  show ?thesis
  proof (cases "?c \<ge> hs_name_cap s")
    case True
    let ?cap = "hs_name_cap s * 2"
    have "k \<noteq> 29" using True k room c by (auto simp: MAX_SLOT_SIZE_def)
    then have cap: "?cap \<in> (\<lambda>k. 2 * 2 ^ k) ` {0..<30}" using k by (intro image_eqI [of _ _ "Suc k"]) auto
    then have le: "?cap \<le> MAX_SLOT_SIZE"
    proof -
      obtain j where "?cap = 2 * 2 ^ j" "j \<le> 29" using cap by (auto simp del: power_Suc)
      then show ?thesis using power_increasing [of j 29 "2::nat"] by (simp add: MAX_SLOT_SIZE_def)
    qed
    have pos: "0 < hs_name_cap s" using k by simp
    obtain m1 where m1: "copy_names (hs_name s) 0 p 0 (replicate ?cap None) = Inr m1" "length m1 = ?cap"
        "\<forall>i < ?cap. m1 ! i = (if i < p then hs_name s ! i else None)"
      using copy_names_ok [of p "hs_name s" 0 "replicate ?cap None" 0] p c by auto
    obtain m2 where m2: "copy_names (hs_name s) p ?c 1 m1 = Inr m2" "length m2 = ?cap"
        "\<forall>i < ?cap. m2 ! i = (if p + 1 \<le> i \<and> i < ?c + 1 then hs_name s ! (i - 1) else m1 ! i)"
      using copy_names_ok [of ?c "hs_name s" 1 m1 p] c True pos m1(2) by auto
    have lt: "?c < length m2" using m2(2) c pos by linarith
    have low: "\<forall>i < p. m2 ! i = hs_name s ! i" and high: "\<forall>i. p \<le> i \<and> i < ?c \<longrightarrow> m2 ! Suc i = hs_name s ! i"
      using m1 m2 p lt by auto
    show ?thesis
      using True le lt p m1(1) m2(1) m2(2) cap shape [OF lt low high]
      by (intro exI [of _ "m2[p := ?e]"] exI [of _ ?cap]) (auto simp: insert_name_before_def Let_def)
  next
    case False
    then have lt: "?c < length (hs_name s)" using c by simp
    obtain m where m: "shift_names ?c p (hs_name s) = Inr m" "length m = length (hs_name s)"
        "\<forall>i < length (hs_name s). m ! i = (if p < i \<and> i \<le> ?c then hs_name s ! (i - 1) else hs_name s ! i)"
      using shift_names_ok [OF lt p] by blast
    have lt': "?c < length m" using lt m by simp
    have low: "\<forall>i < p. m ! i = hs_name s ! i" and high: "\<forall>i. p \<le> i \<and> i < ?c \<longrightarrow> m ! Suc i = hs_name s ! i"
      using m p lt by auto
    show ?thesis
      using False lt p m(1) m(2) c k shape [OF lt' low high]
      by (intro exI [of _ "m[p := ?e]"] exI [of _ "hs_name_cap s"]) (auto simp: insert_name_before_def)
  qed
qed

lemma namehandle_new:
  assumes ok: "names_ok s" and new: "name_map s n = None" and room: "hs_name_count s < MAX_SLOT_SIZE"
  shows "\<exists>s'. skynet_handle_namehandle h n s = Inr (Some n, s') \<and> names_ok s' \<and>
           name_map s' = (name_map s)(n \<mapsto> h) \<and> hs_name_count s' = hs_name_count s + 1 \<and>
           hs_slot s' = hs_slot s \<and> hs_slot_size s' = hs_slot_size s \<and> hs_harbor s' = hs_harbor s"
proof -
  let ?c = "hs_name_count s" and ?e = "\<lparr>hn_name = n, hn_handle = h\<rparr>"
  obtain p where p: "name_search s n 0 (int ?c - 1) = Inr (Inr p)" "p \<le> ?c"
      "\<forall>i < p. hn_name (names_list s ! i) < n"
      "\<forall>i. p \<le> i \<and> i < ?c \<longrightarrow> n < hn_name (names_list s ! i)"
    by (rule name_search_cases [OF ok, of n]) (use new in auto)
  obtain names cap where s': "insert_name_before n h p s =
        Inr (s\<lparr>hs_name_cap := cap, hs_name := names, hs_name_count := ?c + 1\<rparr>)"
      and cap: "?c + 1 \<le> cap" "length names = cap" "cap \<in> (\<lambda>k. 2 * 2 ^ k) ` {0..<30}"
      and tk: "take (?c + 1) names = take p (hs_name s) @ Some ?e # take (?c - p) (drop p (hs_name s))"
    using insert_name_before_ok [OF ok p(2) room] by metis
  let ?s = "s\<lparr>hs_name_cap := cap, hs_name := names, hs_name_count := ?c + 1\<rparr>"
  have split: "take p (hs_name s) = take p (take ?c (hs_name s))"
    "take (?c - p) (drop p (hs_name s)) = drop p (take ?c (hs_name s))"
    using p(2) by (simp_all add: drop_take min_absorb1)
  have nl: "names_list ?s = take p (names_list s) @ ?e # drop p (names_list s)"
    using tk unfolding split by (simp add: names_list_def take_map drop_map)
  have none: "None \<notin> set (take (?c + 1) names)"
    using ok set_take_subset [of p "take ?c (hs_name s)"] set_drop_subset [of p "take ?c (hs_name s)"]
    unfolding tk split names_ok_def by (auto simp del: take_take)
  have sorted: "sorted_wrt (<) (map hn_name (names_list ?s))"
  proof -
    have len: "length (names_list s) = ?c" using length_names [OF ok] .
    have "\<forall>x \<in> set (take p (names_list s)). hn_name x < n" using p len by (auto simp: in_set_conv_nth)
    moreover have "\<forall>x \<in> set (drop p (names_list s)). n < hn_name x"
      using p len by (auto simp: in_set_conv_nth)
    moreover have "sorted_wrt (\<lambda>x y. hn_name x < hn_name y) (take p (names_list s) @ drop p (names_list s))"
      using ok by (simp add: names_ok_def sorted_wrt_map)
    ultimately show ?thesis unfolding nl sorted_wrt_map sorted_wrt_append by fastforce
  qed
  have ok': "names_ok ?s" using cap none sorted by (simp add: names_ok_def)
  have "name_map ?s m = ((name_map s)(n \<mapsto> h)) m" for m
  proof -
    have set: "set (names_list ?s) = insert ?e (set (names_list s))"
      unfolding nl using append_take_drop_id [of p "names_list s"] by (metis Un_insert_right list.simps(15) set_append)
    have "name_map ?s m = Some x \<longleftrightarrow> ((name_map s)(n \<mapsto> h)) m = Some x" for x
      using new unfolding name_map_Some_iff [OF ok'] set
      by (auto simp: name_map_Some_iff [OF ok] name_map_None_iff)
    then show ?thesis by (rule option_eqI)
  qed
  then have "name_map ?s = (name_map s)(n \<mapsto> h)" by blast
  then show ?thesis using p(1) s' ok' by (simp add: skynet_handle_namehandle_def)
qed

lemma namehandle_dup:
  assumes "names_ok s" "name_map s n = Some h'"
  shows "skynet_handle_namehandle h n s = Inr (None, s)"
  by (rule name_search_cases [OF assms(1), of n]) (use assms(2) in \<open>simp_all add: skynet_handle_namehandle_def\<close>)


text \<open>Retiring compacts the table.\<close>

lemma retire_names_ok:
  assumes "j \<le> i" "i \<le> n" "n \<le> length names" "\<forall>k. i \<le> k \<and> k < n \<longrightarrow> names ! k \<noteq> None"
  shows "\<exists>j' names'. retire_names h i j n names = Inr (j', names') \<and> length names' = length names \<and> j' \<le> n \<and>
           take j' names' = take j names @ filter (\<lambda>e. hn_handle (the e) \<noteq> h) (take (n - i) (drop i names))"
  using assms
proof (induction "n - i" arbitrary: i j names)
  case 0
  then show ?case by (subst retire_names.simps) simp
next
  case (Suc m)
  have i: "i < n" "i < length names" using Suc by linarith+
  obtain e where e: "names ! i = Some e" using Suc.prems i by blast
  have tk: "take (n - i) (drop i names) = Some e # take (n - Suc i) (drop (Suc i) names)"
  proof -
    have "n - i = Suc (n - Suc i)" using i by simp
    then show ?thesis using Cons_nth_drop_Suc [OF i(2)] e by (metis take_Suc_Cons)
  qed
  have m: "m = n - Suc i" "Suc i \<le> n" using Suc.hyps(2) i by simp_all
  show ?case
  proof (cases "hn_handle e = h")
    case True
    have "retire_names h i j n names = retire_names h (Suc i) j n names"
      using i e True by (subst retire_names.simps) simp
    then show ?thesis using Suc.hyps(1) [OF m(1), of j names] Suc.prems m tk True by auto
  next
    case False
    let ?n = "if i \<noteq> j then names[j := Some e] else names"
    have eq: "retire_names h i j n names = retire_names h (Suc i) (Suc j) n ?n"
      using i e False Suc.prems by (subst retire_names.simps) auto
    have "length ?n = length names" "take (Suc j) ?n = take j names @ [Some e]" "drop (Suc i) ?n = drop (Suc i) names"
      using i e Suc.prems by (auto simp: take_Suc_conv_app_nth)
    moreover have "\<forall>k. Suc i \<le> k \<and> k < n \<longrightarrow> ?n ! k \<noteq> None" using Suc.prems by auto
    ultimately show ?thesis
      using Suc.hyps(1) [OF m(1), of "Suc j" ?n] Suc.prems m tk False unfolding eq by auto
  qed
qed

text \<open>What retiring a registered handle does: the slot and the names of the handle are gone.\<close>

definition retired :: "ctx_handles \<Rightarrow> u32 \<Rightarrow> handle_storage \<Rightarrow> addr \<Rightarrow> handle_storage \<Rightarrow> bool" where
  "retired ch h s c s' \<longleftrightarrow>
     hs_ok ch s' \<and> names_ok s' \<and> members s' = members s - {c} \<and>
     name_map s' = (\<lambda>n. if name_map s n = Some h then None else name_map s n)"

lemma retire_registered:
  assumes ok: "hs_ok ch s" and nok: "names_ok s" and c: "c \<in> members s" "ch c = Some h"
  shows "\<exists>s'. skynet_handle_retire ch h s = Inr (1, Some c, s') \<and> retired ch h s c s'"
proof -
  let ?k = "slot_hash (hs_slot_size s) h" and ?n = "hs_name_count s"
  have k: "?k < length (hs_slot s)" "hs_slot s ! ?k = Some c"
    using ok slot_hash_less c hs_ok_member [OF ok] by (simp_all add: hs_ok_def)
  have n: "?n \<le> length (hs_name s)" "\<forall>k. 0 \<le> k \<and> k < ?n \<longrightarrow> hs_name s ! k \<noteq> None"
    using nok names_nth [OF nok] by (simp_all add: names_ok_def)
  obtain j names where r: "retire_names h 0 0 ?n (hs_name s) = Inr (j, names)" "length names = length (hs_name s)"
      "j \<le> ?n" "take j names = filter (\<lambda>e. hn_handle (the e) \<noteq> h) (take ?n (hs_name s))"
    using retire_names_ok [of 0 0 ?n "hs_name s" h] n by auto
  let ?s = "s\<lparr>hs_slot := (hs_slot s)[?k := None], hs_name := names, hs_name_count := j\<rparr>"
  have slot: "hs_ok ch ?s" "members ?s = members s - {c}"
    using drop_slot [OF ok k(2) c(2), of ?s] by simp_all
  have nl: "names_list ?s = filter (\<lambda>e. hn_handle e \<noteq> h) (names_list s)"
    using r(4) by (simp add: names_list_def filter_map comp_def)
  have "None \<notin> set (take j names)" using nok unfolding r(4) names_ok_def by auto
  moreover have "sorted_wrt (<) (map hn_name (names_list ?s))"
    using nok unfolding nl names_ok_def by (simp add: sorted_wrt_map sorted_wrt_filter)
  ultimately have nok': "names_ok ?s" using nok r by (simp add: names_ok_def)
  have "name_map ?s m = (if name_map s m = Some h then None else name_map s m)" for m
  proof -
    have "name_map ?s m = Some x \<longleftrightarrow> name_map s m = Some x \<and> x \<noteq> h" for x
      unfolding name_map_Some_iff [OF nok'] name_map_Some_iff [OF nok] nl by auto
    then show ?thesis by (intro option_eqI) auto
  qed
  then have "retired ch h s c ?s" using slot nok' by (simp add: retired_def fun_eq_iff)
  moreover have "skynet_handle_retire ch h s = Inr (1, Some c, ?s)"
    using k c r(1) by (simp add: skynet_handle_retire_def Let_def)
  ultimately show ?thesis by blast
qed

lemma retire_unknown:
  assumes ok: "hs_ok ch s" and no: "\<forall>c \<in> members s. ch c \<noteq> Some h"
  shows "skynet_handle_retire ch h s = Inr (0, None, s)"
proof -
  let ?k = "slot_hash (hs_slot_size s) h"
  have k: "?k < length (hs_slot s)" "?k < hs_slot_size s" using ok slot_hash_less by (simp_all add: hs_ok_def)
  show ?thesis
  proof (cases "hs_slot s ! ?k")
    case (Some c)
    then obtain h' where "ch c = Some h'" using ok k(2) unfolding hs_ok_def by blast
    moreover have "c \<in> members s" using Some k(1) nth_mem unfolding members_def by (metis mem_Collect_eq)
    ultimately show ?thesis using no Some k by (auto simp: skynet_handle_retire_def Let_def)
  qed (use k in \<open>simp add: skynet_handle_retire_def Let_def\<close>)
qed

section \<open>The name table as an interface\<close>

text \<open>
  A table in which the first binding of a key wins, with room for \<open>limit\<close> keys:
  \<open>ins\<close> says whether it added the binding.
\<close>

primrec ins_all :: "('v \<Rightarrow> 'k \<Rightarrow> 's \<Rightarrow> ('r \<times> 's) res) \<Rightarrow> ('k \<times> 'v) list \<Rightarrow> 's \<Rightarrow> 's res" where
  "ins_all ins [] s = Inr s"
| "ins_all ins (b # bs) s = bindR (ins (snd b) (fst b) s) (\<lambda>r. ins_all ins bs (snd r))"

locale first_wins =
  fixes valid :: "'s \<Rightarrow> bool" and content :: "'s \<Rightarrow> 'k \<rightharpoonup> 'v" and used :: "'s \<Rightarrow> nat" and limit :: nat
    and ins :: "'v \<Rightarrow> 'k \<Rightarrow> 's \<Rightarrow> ('k option \<times> 's) res"
  assumes ins_new: "valid s \<Longrightarrow> content s k = None \<Longrightarrow> used s < limit \<Longrightarrow>
      \<exists>s'. ins v k s = Inr (Some k, s') \<and> valid s' \<and> content s' = (content s)(k \<mapsto> v) \<and> used s' = used s + 1"
    and ins_dup: "valid s \<Longrightarrow> content s k = Some w \<Longrightarrow> ins v k s = Inr (None, s)"
begin

lemma ins_all_content:
  assumes "valid s" "used s + length bs \<le> limit"
  shows "\<exists>s'. ins_all ins bs s = Inr s' \<and> valid s' \<and> content s' = map_of bs ++ content s"
  using assms
proof (induction bs arbitrary: s)
  case (Cons b bs)
  show ?case
  proof (cases "content s (fst b)")
    case None
    then obtain s1 where s1: "ins (snd b) (fst b) s = Inr (Some (fst b), s1)" "valid s1"
        "content s1 = (content s)(fst b \<mapsto> snd b)" "used s1 = used s + 1"
      using ins_new [of s "fst b" "snd b"] Cons.prems by auto
    then obtain s' where "ins_all ins bs s1 = Inr s'" "valid s'" "content s' = map_of bs ++ content s1"
      using Cons.IH [OF s1(2)] Cons.prems(2) s1(4) by fastforce
    moreover have "map_of bs ++ content s1 = map_of (b # bs) ++ content s"
      using None s1(3) by (auto simp: fun_eq_iff map_add_def split: option.splits)
    ultimately show ?thesis using s1(1) by (simp del: map_of.simps)
  next
    case (Some w)
    then have "ins (snd b) (fst b) s = Inr (None, s)" using ins_dup Cons.prems by blast
    moreover obtain s' where "ins_all ins bs s = Inr s'" "valid s'" "content s' = map_of bs ++ content s"
      using Cons.IH [of s] Cons.prems by auto
    moreover have "map_of bs ++ content s = map_of (b # bs) ++ content s"
      using Some by (auto simp: fun_eq_iff map_add_def split: option.splits)
    ultimately show ?thesis by (simp del: map_of.simps)
  qed
qed simp

end

interpretation names: first_wins names_ok name_map hs_name_count MAX_SLOT_SIZE skynet_handle_namehandle
proof unfold_locales
  fix s k v assume "names_ok s" "name_map s k = None" "hs_name_count s < MAX_SLOT_SIZE"
  then show "\<exists>s'. skynet_handle_namehandle v k s = Inr (Some k, s') \<and> names_ok s' \<and>
      name_map s' = (name_map s)(k \<mapsto> v) \<and> hs_name_count s' = hs_name_count s + 1"
    using namehandle_new by blast
qed (rule namehandle_dup)


section \<open>Properties of the handle storage\<close>

lemma init_hs_ok: "hs_ok ch (skynet_handle_init n)"
proof -
  have "(push_bit 24 w :: u32) AND Bit_Operations.mask 24 = 0" for w
    by (rule bit_word_eqI) (auto simp: bit_simps)
  then show ?thesis
    by (simp add: hs_ok_def skynet_handle_init_def DEFAULT_SLOT_SIZE_def slot_sizes_def upt_rec mask24
        HANDLE_REMOTE_SHIFT_def del: push_bit_and)
qed

lemma init_names: "names_ok (skynet_handle_init n)" "name_map (skynet_handle_init n) = Map.empty"
  "hs_name_count (skynet_handle_init n) = 0"
  by (simp_all add: names_ok_def skynet_handle_init_def names_list_def name_map_def image_iff Bex_def)

lemma init_slots: "members (skynet_handle_init n) = {}" "\<not> slots_full (skynet_handle_init n)"
  "\<not> reserved_only (skynet_handle_init n)"
  by (simp_all add: members_def slots_full_def reserved_only_def skynet_handle_init_def DEFAULT_SLOT_SIZE_def)
    (rule disjI1, rule exI [of _ 0], simp)

lemma registered_grab:
  assumes ok: "hs_ok ch s" and c: "c \<notin> members s" and r: "registered ch c s h s'"
  shows "skynet_handle_grab (ch(c \<mapsto> h)) k s' = (if k = h then Inr (Some c) else skynet_handle_grab ch k s)"
proof (cases "k = h")
  case True
  then show ?thesis using r by (auto simp: registered_def intro!: grab_eqI)
next
  case False
  have "skynet_handle_grab (ch(c \<mapsto> h)) k s' = skynet_handle_grab ch k s"
    using r False c by (intro grab_cong [OF ok]) (auto simp: registered_def)
  then show ?thesis using False by simp
qed



text \<open>
  C11. Retiring a handle: the table gives up the context registered under it and
  every name bound to it, and nothing else; a handle that is not registered leaves
  the table as it is.  No access leaves the tables.
\<close>

theorem handle_retire:
  assumes "hs_ok ch s" and "names_ok s"
  shows "case skynet_handle_grab ch h s of
           Inl e \<Rightarrow> False
         | Inr None \<Rightarrow> skynet_handle_retire ch h s = Inr (0, None, s)
         | Inr (Some c) \<Rightarrow> \<exists>s'. skynet_handle_retire ch h s = Inr (1, Some c, s') \<and> hs_ok ch s' \<and> names_ok s' \<and>
             (\<forall>k. skynet_handle_grab ch k s' = (if k = h then Inr None else skynet_handle_grab ch k s)) \<and>
             (\<forall>n. skynet_handle_findname n s' =
                (if skynet_handle_findname n s = Inr h then Inr 0 else skynet_handle_findname n s))"
proof -
  obtain r where r: "skynet_handle_grab ch h s = Inr r" "\<forall>c. r = Some c \<longleftrightarrow> c \<in> members s \<and> ch c = Some h"
    using grab_iff [OF assms(1)] by blast
  show ?thesis
  proof (cases r)
    case None
    then show ?thesis using r retire_unknown [OF assms(1), of h] by auto
  next
    case (Some c)
    then have c: "c \<in> members s" "ch c = Some h" using r(2) by auto
    obtain s' where s': "skynet_handle_retire ch h s = Inr (1, Some c, s')" "retired ch h s c s'"
      using retire_registered [OF assms c] by blast
    have ok': "hs_ok ch s'" "names_ok s'" "members s' = members s - {c}"
      "name_map s' = (\<lambda>n. if name_map s n = Some h then None else name_map s n)"
      using s'(2) by (simp_all add: retired_def)
    have "skynet_handle_grab ch k s' = (if k = h then Inr None else skynet_handle_grab ch k s)" for k
    proof (cases "k = h")
      case True
      have "\<forall>d. \<not> (d \<in> members s' \<and> ch d = Some h)" using members_inj [OF assms(1)] c ok'(3) by auto
      then show ?thesis using grab_iff [OF ok'(1), of h] True by (metis option.exhaust)
    next
      case False
      have "skynet_handle_grab ch k s' = skynet_handle_grab ch k s"
        unfolding ok'(3) using False c by (intro grab_cong [OF assms(1) ok'(1)]) (metis Diff_iff ok'(3) option.inject singletonD)
      then show ?thesis using False by simp
    qed
    moreover have "skynet_handle_findname n s' =
        (if skynet_handle_findname n s = Inr h then Inr 0 else skynet_handle_findname n s)" for n
      by (auto simp: findname_ok [OF ok'(2)] findname_ok [OF assms(2)] ok'(4) split: option.splits)
    ultimately have "\<exists>s'. skynet_handle_retire ch h s = Inr (1, Some c, s') \<and> hs_ok ch s' \<and> names_ok s' \<and>
        (\<forall>k. skynet_handle_grab ch k s' = (if k = h then Inr None else skynet_handle_grab ch k s)) \<and>
        (\<forall>n. skynet_handle_findname n s' =
           (if skynet_handle_findname n s = Inr h then Inr 0 else skynet_handle_findname n s))"
      using s'(1) ok'(1,2) by blast
    then show ?thesis unfolding r(1) Some by simp
  qed
qed


theorem handle_retire_witness:
  "\<exists>s. skynet_handle_retire Map.empty 5 (skynet_handle_init 3) = Inr (0, None, s)"
proof -
  obtain r where r: "skynet_handle_grab Map.empty 5 (skynet_handle_init 3) = Inr r" "\<forall>c. r \<noteq> Some c"
    using grab_iff [OF init_hs_ok, of Map.empty 5] by auto
  then show ?thesis
    using handle_retire [OF init_hs_ok init_names(1), of Map.empty 5 3] by (cases r) auto
qed

text \<open>
  C12. Names: whatever sequence of bindings is entered with
  \<^verbatim>\<open>skynet_handle_namehandle\<close> into the empty table, growing and shifting the sorted
  array as needed, \<^verbatim>\<open>skynet_handle_findname\<close> then finds for every name the handle of
  its first binding, and 0 for a name without one.
\<close>

theorem findname_first_binding:
  assumes "length bs \<le> MAX_SLOT_SIZE"
  shows "\<exists>s. ins_all skynet_handle_namehandle bs (skynet_handle_init harbor) = Inr s \<and>
           (\<forall>n. skynet_handle_findname n s = Inr (case map_of bs n of None \<Rightarrow> 0 | Some h \<Rightarrow> h))"
proof -
  obtain s where "ins_all skynet_handle_namehandle bs (skynet_handle_init harbor) = Inr s" "names_ok s"
      "name_map s = map_of bs"
    using names.ins_all_content [OF init_names(1) [of harbor], where bs = bs] assms by (auto simp: init_names)
  then show ?thesis by (intro exI [of _ s]) (simp add: findname_ok)
qed

theorem findname_first_binding_witness:
  "\<exists>s. ins_all skynet_handle_namehandle [([104, 105], 10), ([97], 11), ([104, 105], 12)] (skynet_handle_init 1) = Inr s \<and>
     skynet_handle_findname [104, 105] s = Inr 10 \<and> skynet_handle_findname [98] s = Inr 0"
proof -
  have "length [([104, 105 :: u8], 10 :: u32), ([97], 11), ([104, 105], 12)] \<le> MAX_SLOT_SIZE"
    by (simp add: MAX_SLOT_SIZE_def)
  from findname_first_binding [OF this, of 1] show ?thesis by fastforce
qed

lemma candidate_slot_inj:
  assumes sz: "sz \<in> set slot_sizes" and "i < sz" "j < sz"
    and "slot_hash sz (candidate s i) = slot_hash sz (candidate s j)"
  shows "i = j"
proof -
  have le: "a = b" if "a \<le> b" "b < sz" "(x + a) mod sz = (x + b) mod sz" for a b x :: nat
  proof -
    have "sz dvd (x + b) - (x + a)" using that by (metis add_le_cancel_left mod_eq_dvd_iff_nat)
    then show ?thesis using that by (auto dest: dvd_imp_le)
  qed
  show ?thesis
    using assms le [of i j] le [of j i] by (simp only: slot_hash_candidate [OF sz]) (metis nat_le_linear)
qed

lemma reserved_scan_None:
  assumes ok: "hs_ok ch s" and r: "reserved_only s"
  shows "register_scan s 0 = Inr None"
proof -
  have sz: "hs_slot_size s \<in> set slot_sizes" using ok by (simp add: hs_ok_def)
  have one: "slot_hash (hs_slot_size s) 1 = 1"
    using slot_sizes_bounds [OF sz] by (simp add: slot_hash_mod [OF sz])
  obtain j where j: "j < hs_slot_size s" "candidate s j = 1" using r by (auto simp: reserved_only_def)
  have "register_scan s 0 \<noteq> Inr (Some p)" for p
  proof
    assume "register_scan s 0 = Inr (Some p)"
    then obtain i where p: "snd p = slot_hash (hs_slot_size s) (fst p)" "fst p \<noteq> 1" "hs_slot s ! snd p = None"
        "i < hs_slot_size s" "fst p = candidate s i"
      using register_scan_ok [OF ok, of 0] by auto
    then have "snd p = 1" using r slot_hash_less [OF sz] unfolding reserved_only_def by metis
    then have "i = j" using candidate_slot_inj [OF sz p(4) j(1), of s] p j one by simp
    then show False using p j by simp
  qed
  then show ?thesis using register_scan_ok [OF ok, of 0] by (auto split: sum.splits option.splits)
qed

lemma rehash_second_None:
  assumes "ch c = Some h" "slot_hash sz h < sz"
  shows "rehash ch sz (Some c # None # slots) (replicate sz None) = Inl Bad_pointer"
  using assms by (simp add: Let_def)

text \<open>
  A reserved handle can stop the server.  When every slot is taken but the
  one that handle 1 hashes to, and the scan would offer handle 1 for it, the scan
  skips it and the code goes on to enlarge the table as if it were full:
  it follows the null pointer in the free slot.
\<close>

theorem register_reserved_crash:
  assumes ok: "hs_ok ch s" and r: "reserved_only s" and room: "hs_slot_size s < 2 ^ 24"
  shows "skynet_handle_register ch c s = Inl Bad_pointer"
proof -
  let ?sz = "hs_slot_size s"
  have sz: "?sz \<in> set slot_sizes" and len: "length (hs_slot s) = ?sz" using ok by (simp_all add: hs_ok_def)
  have b: "4 \<le> ?sz" and sz2: "?sz * 2 \<in> set slot_sizes" "?sz * 2 \<le> 2 ^ 24"
    using slot_sizes_bounds [OF sz] slot_sizes_double [OF sz room] slot_sizes_bounds by auto
  have "hs_slot s ! 0 \<noteq> None" "0 < ?sz" using r b by (auto simp: reserved_only_def)
  then obtain c0 h0 where c0: "hs_slot s ! 0 = Some c0" "ch c0 = Some h0"
    using ok unfolding hs_ok_def by blast
  have "hs_slot s = Some c0 # None # drop 2 (hs_slot s)"
    using b len c0 r Cons_nth_drop_Suc [of 0 "hs_slot s"] Cons_nth_drop_Suc [of 1 "hs_slot s"]
    by (simp add: reserved_only_def numeral_2_eq_2)
  then have "rehash ch (?sz * 2) (hs_slot s) (replicate (?sz * 2) None) = Inl Bad_pointer"
    using rehash_second_None [of ch c0 h0 "?sz * 2" "drop 2 (hs_slot s)"] c0(2) slot_hash_less [OF sz2(1)] by metis
  then have "grow_slots ch s = Inl Bad_pointer"
    using len sz2(2) by (simp add: grow_slots_def HANDLE_MASK_def)
  then have "register_loop ch c s = Some (Inl Bad_pointer)"
    using reserved_scan_None [OF ok r] by (subst register_loop.simps) simp
  then show ?thesis by (simp add: skynet_handle_register_def)
qed


theorem register_reserved_crash_witness:
  "skynet_handle_register [10 \<mapsto> 4, 12 \<mapsto> 2, 13 \<mapsto> 3] 14
     (skynet_handle_init 0 \<lparr>hs_handle_index := 0xffffff, hs_slot := [Some 10, None, Some 12, Some 13]\<rparr>) = Inl Bad_pointer"
  (is "skynet_handle_register ?ch 14 ?s = _")
proof (rule register_reserved_crash)
  have sz: "hs_slot_size ?s = 4" by (simp add: skynet_handle_init_def DEFAULT_SLOT_SIZE_def)
  have four: "k < 4 \<longleftrightarrow> k = 0 \<or> k = 1 \<or> k = 2 \<or> k = 3" for k :: nat by arith
  have "candidate ?s 2 = 1" by (simp add: HANDLE_MASK_def)
  then have "\<exists>j < 4. candidate ?s j = 1" by (intro exI [of _ 2]) simp
  then show "reserved_only ?s" unfolding reserved_only_def sz four by simp
  have "slot_hash 4 4 = 0" "slot_hash 4 2 = 2" "slot_hash 4 3 = 3" by (simp_all add: slot_hash_def)
  then show "hs_ok ?ch ?s"
    using init_hs_ok [of ?ch 0] unfolding hs_ok_def sz four by (auto simp: skynet_handle_init_def DEFAULT_SLOT_SIZE_def)
  show "hs_slot_size ?s < 2 ^ 24" unfolding sz by simp
qed

definition register_race :: "addr option res" where
  "register_race =
     bindR (skynet_handle_register [10 \<mapsto> 0] 10 (skynet_handle_init 0)) (\<lambda>(h1, s1).
     bindR (skynet_handle_register [10 \<mapsto> h1, 11 \<mapsto> 0] 11 s1) (\<lambda>(h2, s2).
     bindR (skynet_handle_register [10 \<mapsto> h1, 11 \<mapsto> h2, 12 \<mapsto> 0] 12 s2) (\<lambda>(h3, s3).
     bindR (skynet_handle_register [10 \<mapsto> h1, 11 \<mapsto> h2, 12 \<mapsto> h3, 13 \<mapsto> 0] 13 s3) (\<lambda>(h4, s4).
     bindR (skynet_handle_register [10 \<mapsto> h1, 11 \<mapsto> h2, 12 \<mapsto> h3, 13 \<mapsto> 0, 14 \<mapsto> 0] 14 s4) (\<lambda>(h5, s5).
     skynet_handle_grab [10 \<mapsto> h1, 11 \<mapsto> h2, 12 \<mapsto> h3, 13 \<mapsto> h4, 14 \<mapsto> h5] h4 s5)))))"

abbreviation table_of :: "nat \<Rightarrow> addr option list \<Rightarrow> u32 \<Rightarrow> handle_storage" where
  "table_of sz slots idx \<equiv>
     (skynet_handle_init 0)\<lparr>hs_slot := slots, hs_slot_size := sz, hs_handle_index := idx\<rparr>"

lemma replicate_slots: "replicate 4 x = [x, x, x, x]" "replicate 8 x = [x, x, x, x, x, x, x, x]"
  by (simp_all add: numeral_eq_Suc)

lemmas register_simps = skynet_handle_register_def register_loop.simps register_scan.simps grow_slots_def
  skynet_handle_init_def slot_hash_def HANDLE_MASK_def Let_def

lemma race_steps:
  "skynet_handle_register ch 10 (skynet_handle_init 0) = Inr (2, table_of 4 [None, None, Some 10, None] 3)"
  "skynet_handle_register ch 11 (table_of 4 [None, None, Some 10, None] 3) = Inr (3, table_of 4 [None, None, Some 10, Some 11] 4)"
  "skynet_handle_register ch 12 (table_of 4 [None, None, Some 10, Some 11] 4) =
     Inr (4, table_of 4 [Some 12, None, Some 10, Some 11] 5)"
  "skynet_handle_register ch 13 (table_of 4 [Some 12, None, Some 10, Some 11] 5) =
     Inr (5, table_of 4 [Some 12, Some 13, Some 10, Some 11] 6)"
  by (simp_all add: register_simps DEFAULT_SLOT_SIZE_def replicate_slots)

lemma race_grow:
  "skynet_handle_register [10 \<mapsto> 2, 11 \<mapsto> 3, 12 \<mapsto> 4, 13 \<mapsto> 0, 14 \<mapsto> 0] 14
     (table_of 4 [Some 12, Some 13, Some 10, Some 11] 6) =
   Inr (6, table_of 8 [Some 13, None, Some 10, Some 11, Some 12, None, Some 14, None] 7)"
  by (simp add: register_simps replicate_slots)

text \<open>
  The handle must be stored in the context before another service is
  registered.  \<^verbatim>\<open>skynet_handle_register\<close> gives back the lock and only then does its
  caller (\<^verbatim>\<open>skynet_context_new\<close>) store the handle it returned in the context.  If a
  fifth service is registered in between, enlarging the table rehashes the fourth
  context by its old handle 0, and after the store it cannot be found under the
  handle it was given.
\<close>

theorem register_race_loses_service: "register_race = Inr None"
  by (simp add: register_race_def race_steps race_grow skynet_handle_grab_def slot_hash_def)

end
