(* ===== verification/Module.thy ===== *)
theory Module
  imports Prelude
begin

text \<open>
  The table of service modules (\<^verbatim>\<open>skynet-src/skynet_module.c\<close>): at most 32
  shared objects, found along a search path and opened once.  \<^verbatim>\<open>dlopen\<close> and
  \<^verbatim>\<open>dlsym\<close> belong to the system: they are parameters, the first from a file name
  to a handle of the object, the second from that handle and a symbol to the
  address of the function.
\<close>

section \<open>Data\<close>

definition MAX_MODULE_TYPE :: nat where "MAX_MODULE_TYPE = 32"

record skynet_module =
  m_name :: cstring
  m_module :: addr
  m_create :: "addr option"
  m_init :: "addr option"
  m_release :: "addr option"
  m_signal :: "addr option"

record modules =
  mod_count :: nat
  mod_path :: cstring
  mod_m :: "skynet_module option list"

record linker =
  dlopen :: "cstring \<Rightarrow> addr option"
  dlsym :: "addr \<Rightarrow> cstring \<Rightarrow> addr option"

section \<open>Opening a module\<close>

text \<open>
  One round of the loop of \<^verbatim>\<open>_try_open\<close> takes the entry before the next \<open>;\<close> (59) and
  replaces its first \<open>?\<close> (63) by the name, in a buffer of \<open>sz\<close> bytes; an entry
  without \<open>?\<close> ends the process.  A path that is used up ends the loop.
\<close>

function try_open :: "linker \<Rightarrow> nat \<Rightarrow> cstring \<Rightarrow> cstring \<Rightarrow> addr option res" where
  "try_open ld sz name path =
     (let path = dropWhile (\<lambda>c. c = 59) path in
      if path = [] then Inr None
      else
        let len = length (takeWhile (\<lambda>c. c \<noteq> 59) path);
            i = length (takeWhile (\<lambda>c. c \<noteq> 63) (take len path));
            tmp = take i path @ name @ take (len - i - 1) (drop (i + 1) path)
        in if i < len then
             if length tmp < sz then
               case dlopen ld tmp of
                 Some dl \<Rightarrow> Inr (Some dl)
               | None \<Rightarrow> try_open ld sz name (drop len path)
             else Inl Out_of_bounds
           else Inl Exits)"
  by pat_completeness auto
termination
proof (relation "measure (\<lambda>(ld, sz, name, path). length path)")
  fix ld :: linker and sz :: nat and name path p :: cstring and len i tmp
  assume p: "p = dropWhile (\<lambda>c. c = 59) path" "p \<noteq> []" and len: "len = length (takeWhile (\<lambda>c. c \<noteq> 59) p)"
    and i: "i < len"
  have "length p \<le> length path" using p(1) length_dropWhile_le by blast
  then show "((ld, sz, name, drop len p), ld, sz, name, path) \<in> measure (\<lambda>(ld, sz, name, path). length path)"
    using i p(2) by (cases p) auto
qed simp

declare try_open.simps [simp del]

definition mod_try_open :: "linker \<Rightarrow> modules \<Rightarrow> cstring \<Rightarrow> addr option res" where
  "mod_try_open ld m name = try_open ld (length (mod_path m) + length name) name (mod_path m)"

text \<open>The functions of a module are named after the part of its name behind the last dot (46).\<close>

definition get_api :: "linker \<Rightarrow> skynet_module \<Rightarrow> cstring \<Rightarrow> addr option" where
  "get_api ld m api_name =
     dlsym ld (m_module m) (rev (takeWhile (\<lambda>c. c \<noteq> 46) (rev (m_name m @ api_name))))"

definition open_sym :: "linker \<Rightarrow> skynet_module \<Rightarrow> bool \<times> skynet_module" where
  "open_sym ld m =
     (let m = m\<lparr>m_create := get_api ld m [95, 99, 114, 101, 97, 116, 101],
                m_init := get_api ld m [95, 105, 110, 105, 116],
                m_release := get_api ld m [95, 114, 101, 108, 101, 97, 115, 101],
                m_signal := get_api ld m [95, 115, 105, 103, 110, 97, 108]\<rparr>
      in (m_init m = None, m))"

section \<open>The table\<close>

function mod_query :: "modules \<Rightarrow> cstring \<Rightarrow> nat \<Rightarrow> (nat option) res" where
  "mod_query M name i =
     (if i < mod_count M then
        bindR (bindR (aget (mod_m M) i) Prelude.init) (\<lambda>m.
        if m_name m = name then Inr (Some i) else mod_query M name (i + 1))
      else Inr None)"
  by pat_completeness auto
termination
  by (relation "measure (\<lambda>(M, name, i). mod_count M - i)") auto

declare mod_query.simps [simp del]

text \<open>
  \<^verbatim>\<open>skynet_module_query\<close>: the lookup before the lock and the second lookup under it
  are the same reading here, as this is the only thread of the model.  A failed
  \<^verbatim>\<open>open_sym\<close> leaves what it wrote in the slot behind the last entry.
\<close>

definition skynet_module_query :: "linker \<Rightarrow> cstring \<Rightarrow> modules \<Rightarrow> (nat option \<times> modules) res" where
  "skynet_module_query ld name M =
     bindR (mod_query M name 0) (\<lambda>result.
     case result of
       Some i \<Rightarrow> Inr (Some i, M)
     | None \<Rightarrow>
         if mod_count M < MAX_MODULE_TYPE then
           bindR (mod_try_open ld M name) (\<lambda>dl.
           case dl of
             None \<Rightarrow> Inr (None, M)
           | Some d \<Rightarrow>
               let index = mod_count M;
                   (failed, m) = open_sym ld \<lparr>m_name = name, m_module = d, m_create = None,
                                   m_init = None, m_release = None, m_signal = None\<rparr>
               in bindR (aset (mod_m M) index (Some m)) (\<lambda>ms.
                  if failed then Inr (None, M\<lparr>mod_m := ms\<rparr>)
                  else Inr (Some index, M\<lparr>mod_m := ms, mod_count := index + 1\<rparr>)))
         else Inr (None, M))"

definition skynet_module_insert :: "skynet_module \<Rightarrow> modules \<Rightarrow> modules res" where
  "skynet_module_insert m M =
     bindR (mod_query M (m_name m) 0) (\<lambda>r.
     bindR (c_assert (r = None \<and> mod_count M < MAX_MODULE_TYPE)) (\<lambda>_.
     bindR (aset (mod_m M) (mod_count M) (Some m)) (\<lambda>ms.
     Inr (M\<lparr>mod_m := ms, mod_count := mod_count M + 1\<rparr>))))"

definition skynet_module_init :: "cstring \<Rightarrow> modules" where
  "skynet_module_init path =
     \<lparr>mod_count = 0, mod_path = path, mod_m = replicate MAX_MODULE_TYPE None\<rparr>"

section \<open>The search path\<close>

text \<open>The reference: split the path at \<open>;\<close>, drop empty entries, substitute, open the first that works.\<close>

fun split_on :: "'a \<Rightarrow> 'a list \<Rightarrow> 'a list list" where
  "split_on c [] = [[]]"
| "split_on c (x # xs) =
     (if x = c then [] # split_on c xs else (x # hd (split_on c xs)) # tl (split_on c xs))"

definition path_entries :: "cstring \<Rightarrow> cstring list" where
  "path_entries path = filter (\<lambda>e. e \<noteq> []) (split_on 59 path)"

definition substitute :: "cstring \<Rightarrow> cstring \<Rightarrow> cstring" where
  "substitute name entry = takeWhile (\<lambda>c. c \<noteq> 63) entry @ name @ drop 1 (dropWhile (\<lambda>c. c \<noteq> 63) entry)"

fun first_open :: "linker \<Rightarrow> cstring \<Rightarrow> cstring list \<Rightarrow> addr option" where
  "first_open ld name [] = None"
| "first_open ld name (e # es) =
     (case dlopen ld (substitute name e) of Some dl \<Rightarrow> Some dl | None \<Rightarrow> first_open ld name es)"

lemma split_on_ne [simp]: "split_on c xs \<noteq> []"
  by (cases xs) auto

lemma split_on_span:
  "split_on c xs = takeWhile (\<lambda>x. x \<noteq> c) xs #
     (case dropWhile (\<lambda>x. x \<noteq> c) xs of [] \<Rightarrow> [] | y # ys \<Rightarrow> split_on c ys)"
  by (induction xs) (auto split: list.splits)

lemma path_entries_skip: "path_entries (dropWhile (\<lambda>c. c = 59) path) = path_entries path"
  by (induction path) (auto simp: path_entries_def)

lemma path_entries_step:
  assumes "p \<noteq> []" "hd p \<noteq> 59"
  shows "path_entries p = takeWhile (\<lambda>c. c \<noteq> 59) p # path_entries (dropWhile (\<lambda>c. c \<noteq> 59) p)"
proof -
  have ne: "takeWhile (\<lambda>c. c \<noteq> 59) p \<noteq> []" using assms by (cases p) auto
  show ?thesis
  proof (cases "dropWhile (\<lambda>c. c \<noteq> 59) p")
    case Nil
    have "split_on 59 p = [takeWhile (\<lambda>c. c \<noteq> 59) p]" by (subst split_on_span) (simp only: Nil list.case)
    then show ?thesis unfolding path_entries_def Nil using ne by simp
  next
    case (Cons y ys)
    have y: "y = 59" using Cons by (metis (mono_tags, lifting) dropWhile_eq_Cons_conv)
    have "split_on 59 p = takeWhile (\<lambda>c. c \<noteq> 59) p # split_on 59 ys" by (subst split_on_span) (simp only: Cons list.case)
    then show ?thesis using ne Cons y by (simp add: path_entries_def)
  qed
qed

lemma try_open_step:
  assumes p: "dropWhile (\<lambda>c. c = 59) path = p" "p \<noteq> []" and e: "e = takeWhile (\<lambda>c. c \<noteq> 59) p"
    and q: "63 \<in> set e" and sz: "length e + length name \<le> sz"
  shows "try_open ld sz name path =
     (case dlopen ld (substitute name e) of
        Some dl \<Rightarrow> Inr (Some dl) | None \<Rightarrow> try_open ld sz name (dropWhile (\<lambda>c. c \<noteq> 59) p))"
proof -
  let ?i = "length (takeWhile (\<lambda>c. c \<noteq> 63) e)"
  have te: "take (length e) p = e" and de: "drop (length e) p = dropWhile (\<lambda>c. c \<noteq> 59) p"
    unfolding e using takeWhile_dropWhile_id [of "\<lambda>c. c \<noteq> 59" p] by (metis append_eq_conv_conj)+
  have i: "?i < length e"
    using q length_takeWhile_le [of "\<lambda>c. c \<noteq> 63" e] takeWhile_eq_all_conv [of "\<lambda>c. c \<noteq> 63" e]
    by (metis le_neq_implies_less takeWhile_eq_take take_all_iff order_refl)
  have p': "take ?i p = takeWhile (\<lambda>c. c \<noteq> 63) e"
  proof -
    have "take ?i p = take ?i (take (length e) p)" using i by (simp add: min_absorb1)
    then show ?thesis unfolding te by (simp add: takeWhile_eq_take [symmetric])
  qed
  have "take (length e - ?i - 1) (drop (?i + 1) p) = drop (?i + 1) (take (length e) p)"
    by (simp add: drop_take)
  then have d: "take (length e - ?i - 1) (drop (?i + 1) p) = drop 1 (dropWhile (\<lambda>c. c \<noteq> 63) e)"
    unfolding te by (simp add: dropWhile_eq_drop)
  have sub: "take ?i p @ name @ take (length e - ?i - 1) (drop (?i + 1) p) = substitute name e"
    by (simp only: p' d substitute_def)
  have "length (substitute name e) + 1 = length e + length name"
    using i q by (simp add: substitute_def dropWhile_eq_drop)
  then have lt: "length (substitute name e) < sz" using sz by linarith
  show ?thesis
    using p i lt unfolding try_open.simps [of ld sz name path] Let_def p(1) e [symmetric] te sub de by simp
qed


lemma try_open_first:
  assumes "\<forall>e \<in> set (path_entries (mod_path m)). 63 \<in> set e"
  shows "mod_try_open ld m name = Inr (first_open ld name (path_entries (mod_path m)))"
proof -
  have "try_open ld sz name path = Inr (first_open ld name (path_entries path))"
    if "\<forall>e \<in> set (path_entries path). 63 \<in> set e" "length path + length name \<le> sz" for sz path
    using that
  proof (induction "length path" arbitrary: path rule: less_induct)
    case less
    define p where "p = dropWhile (\<lambda>c. c = (59::u8)) path"
    have len: "length p \<le> length path" by (simp add: p_def length_dropWhile_le)
    have pe: "path_entries path = path_entries p" by (simp add: p_def path_entries_skip)
    show ?case
    proof (cases "p = []")
      case True
      then have "try_open ld sz name path = Inr None" by (subst try_open.simps) (simp add: p_def)
      then show ?thesis unfolding pe True by (simp add: path_entries_def)
    next
      case False
      let ?e = "takeWhile (\<lambda>c. c \<noteq> 59) p" and ?r = "dropWhile (\<lambda>c. c \<noteq> 59) p"
      have hd: "hd p \<noteq> 59" using hd_dropWhile [of "\<lambda>c. c = 59" path] False unfolding p_def by blast
      note es = path_entries_step [OF False hd]
      have "length ?r < length p"
        using False hd by (cases p) (simp_all add: le_imp_less_Suc length_dropWhile_le)
      then have "try_open ld sz name ?r = Inr (first_open ld name (path_entries ?r))"
        using less.prems len pe es by (intro less.hyps) auto
      moreover have "length ?e \<le> length p" by (rule length_takeWhile_le)
      ultimately show ?thesis
        using try_open_step [OF p_def [symmetric] False refl, of name sz ld] less.prems len
        unfolding pe es by (auto split: option.splits)
    qed
  qed
  then show ?thesis using assms by (simp add: mod_try_open_def)
qed

lemma try_open_total:
  "\<forall>e \<in> set (path_entries (mod_path m)). 63 \<in> set e \<Longrightarrow> \<exists>dl. mod_try_open ld m name = Inr dl"
  by (simp add: try_open_first)

text \<open>
  C13. The module search: if every entry of the path has a \<open>?\<close>, the C loop, with its
  pointer arithmetic in a buffer of fixed size, tries exactly the entries of the
  path in order with the name put in for the first \<open>?\<close>, and returns the first
  object that opens; it does not write outside its buffer and ends.
\<close>

theorem try_open_search:
  assumes "\<forall>e \<in> set (path_entries (mod_path m)). 63 \<in> set e"
  shows "mod_try_open ld m name = Inr (first_open ld name (path_entries (mod_path m)))"
  using assms by (rule try_open_first)

theorem try_open_search_witness:
  "mod_try_open \<lparr>dlopen = (\<lambda>f. if f = [98, 120, 99] then Some 5 else None), dlsym = (\<lambda>_ _. None)\<rparr>
     (skynet_module_init [97, 63, 59, 59, 98, 63, 99]) [120] = Inr (Some 5)"
  using try_open_search [of "skynet_module_init [97, 63, 59, 59, 98, 63, 99]"
      "\<lparr>dlopen = (\<lambda>f. if f = [98, 120, 99] then Some 5 else None), dlsym = (\<lambda>_ _. None)\<rparr>" "[120]"]
  by (simp add: skynet_module_init_def path_entries_def substitute_def)

section \<open>The table holds every module once\<close>

definition modules_ok :: "modules \<Rightarrow> bool" where
  "modules_ok M \<longleftrightarrow>
     length (mod_m M) = MAX_MODULE_TYPE \<and> mod_count M \<le> MAX_MODULE_TYPE \<and>
     None \<notin> set (take (mod_count M) (mod_m M)) \<and>
     distinct (map (m_name \<circ> the) (take (mod_count M) (mod_m M)))"

lemma mod_nth:
  assumes "modules_ok M" "i < mod_count M"
  shows "\<exists>m. mod_m M ! i = Some m" "i < length (mod_m M)"
proof -
  show i: "i < length (mod_m M)" using assms by (simp add: modules_ok_def)
  have "mod_m M ! i \<in> set (take (mod_count M) (mod_m M))"
    using assms i by (metis in_set_conv_nth length_take min_less_iff_conj nth_take)
  then show "\<exists>m. mod_m M ! i = Some m" using assms by (auto simp: modules_ok_def) (metis not_Some_eq)
qed

lemma mod_query_ok:
  assumes "modules_ok M" "i \<le> mod_count M"
  shows "(\<exists>k m. mod_query M name i = Inr (Some k) \<and> i \<le> k \<and> k < mod_count M \<and> mod_m M ! k = Some m \<and> m_name m = name) \<or>
         (mod_query M name i = Inr None \<and> (\<forall>k m. i \<le> k \<and> k < mod_count M \<and> mod_m M ! k = Some m \<longrightarrow> m_name m \<noteq> name))"
  using assms(2)
proof (induction "mod_count M - i" arbitrary: i)
  case 0
  then have "mod_query M name i = Inr None" by (subst mod_query.simps) simp
  then show ?case using 0 by auto
next
  case (Suc n)
  have i: "i < mod_count M" using Suc by linarith
  obtain m where m: "mod_m M ! i = Some m" "i < length (mod_m M)" using mod_nth [OF assms(1) i] by blast
  show ?case
  proof (cases "m_name m = name")
    case True
    then have "mod_query M name i = Inr (Some i)" using i m by (subst mod_query.simps) simp
    then show ?thesis using i m True by blast
  next
    case False
    then have eq: "mod_query M name i = mod_query M name (i + 1)" using i m by (subst mod_query.simps) simp
    have "n = mod_count M - (i + 1)" "i + 1 \<le> mod_count M" using Suc.hyps(2) i by simp_all
    note IH = Suc.hyps(1) [OF this]
    have step: "i \<le> k \<longleftrightarrow> k = i \<or> i + 1 \<le> k" for k by auto
    show ?thesis using IH False m unfolding eq step by auto
  qed
qed


lemma modules_ok_append:
  assumes ok: "modules_ok M" and lt: "mod_count M < MAX_MODULE_TYPE"
    and new: "\<forall>k m. k < mod_count M \<and> mod_m M ! k = Some m \<longrightarrow> m_name m \<noteq> m_name x"
  shows "modules_ok (M\<lparr>mod_m := (mod_m M)[mod_count M := Some x], mod_count := mod_count M + 1\<rparr>)"
proof -
  let ?t = "take (mod_count M) (mod_m M)"
  have tk: "take (mod_count M + 1) ((mod_m M)[mod_count M := Some x]) = ?t @ [Some x]"
    using ok lt by (simp add: modules_ok_def take_Suc_conv_app_nth)
  have "(m_name \<circ> the) y \<noteq> m_name x" if "y \<in> set ?t" for y
  proof -
    from that obtain i where "i < length ?t" "?t ! i = y" by (auto simp only: in_set_conv_nth)
    then have i: "i < mod_count M" "y = mod_m M ! i" by simp_all
    obtain m where "mod_m M ! i = Some m" using mod_nth(1) [OF ok i(1)] by blast
    then show ?thesis using new i by auto
  qed
  then have "m_name x \<notin> set (map (m_name \<circ> the) ?t)" by (metis imageE set_map)
  then show ?thesis
    using ok lt unfolding modules_ok_def by (simp add: tk [simplified])
qed

lemma module_query_ok:
  assumes ok: "modules_ok M" and path: "\<forall>e \<in> set (path_entries (mod_path M)). 63 \<in> set e"
  shows "\<exists>r M'. skynet_module_query ld name M = Inr (r, M') \<and> modules_ok M' \<and> mod_path M' = mod_path M \<and>
     mod_count M \<le> mod_count M' \<and>
     (\<forall>i. r = Some i \<longrightarrow> i < mod_count M' \<and> (\<exists>m. mod_m M' ! i = Some m \<and> m_name m = name)) \<and>
     (r = None \<longrightarrow> mod_count M' = mod_count M)"
proof -
  consider k m where "mod_query M name 0 = Inr (Some k)" "k < mod_count M" "mod_m M ! k = Some m" "m_name m = name"
    | "mod_query M name 0 = Inr None" "\<forall>k m. k < mod_count M \<and> mod_m M ! k = Some m \<longrightarrow> m_name m \<noteq> name"
    using mod_query_ok [OF ok, of 0 name] by auto
  then show ?thesis
  proof cases
    case 1
    then show ?thesis using ok by (auto simp: skynet_module_query_def)
  next
    case 2
    obtain dl where dl: "mod_try_open ld M name = Inr dl" using try_open_total [OF path] by blast
    show ?thesis
    proof (cases "mod_count M < MAX_MODULE_TYPE \<and> dl \<noteq> None")
      case False
      then show ?thesis using ok 2(1) dl by (auto simp: skynet_module_query_def)
    next
      case True
      then obtain d where d: "dl = Some d" and lt: "mod_count M < MAX_MODULE_TYPE" by blast
      obtain failed x where x: "open_sym ld \<lparr>m_name = name, m_module = d, m_create = None, m_init = None,
          m_release = None, m_signal = None\<rparr> = (failed, x)" by (metis surj_pair)
      then have nm: "m_name x = name" by (auto simp: open_sym_def Let_def)
      have len: "mod_count M < length (mod_m M)" using ok lt by (simp add: modules_ok_def)
      have q: "skynet_module_query ld name M =
          (if failed then Inr (None, M\<lparr>mod_m := (mod_m M)[mod_count M := Some x]\<rparr>)
           else Inr (Some (mod_count M), M\<lparr>mod_m := (mod_m M)[mod_count M := Some x], mod_count := mod_count M + 1\<rparr>))"
        using 2(1) dl d lt x len by (simp add: skynet_module_query_def Let_def)
      show ?thesis
      proof (cases failed)
        case True
        have "modules_ok (M\<lparr>mod_m := (mod_m M)[mod_count M := Some x]\<rparr>)" using ok by (simp add: modules_ok_def)
        then show ?thesis using q True by auto
      next
        case False
        then show ?thesis using q modules_ok_append [OF ok lt] 2(2) nm len by auto
      qed
    qed
  qed
qed

end
