(* ===== verification/Server.thy ===== *)
theory Server
  imports Scheduler Timer Handle Module
begin

text \<open>
  The contexts of the services and the messages between them
  (\<^verbatim>\<open>skynet-src/skynet_server.c\<close>, with \<^verbatim>\<open>skynet_harbor.c\<close>, \<^verbatim>\<open>skynet_error.c\<close>,
  \<^verbatim>\<open>skynet_monitor.c\<close> and \<^verbatim>\<open>skynet_timeout\<close> of \<^verbatim>\<open>skynet_timer.c\<close>, which call each
  other).  The state extends the heap of queues by the heap of contexts, the
  handle storage, the globals of those files and the heap of message data.
  Services are C code behind function pointers: what their callbacks, and the
  create, init and release functions of their modules, do to the state is a
  parameter \<open>V\<close> of the operations that call them, as are the readings of the clock
  of the running thread, the dynamic linker and \<^verbatim>\<open>fopen\<close>.
\<close>

section \<open>Data\<close>

record skynet_context =
  c_instance :: addr
  c_mod :: nat
  c_cb_ud :: addr
  c_cb :: "addr option"
  c_queue :: addr
  c_logfile :: "addr option"
  c_cpu_cost :: u64
  c_cpu_start :: u64
  c_result :: cstring
  c_handle :: u32
  c_session_id :: int
  c_ref :: int
  c_message_count :: int
  c_init :: bool
  c_endless :: bool
  c_profile :: bool

text \<open>\<open>n_handle_key\<close> is the value of the thread-local key of the running thread.\<close>

record skynet_node =
  n_total :: int
  n_init :: bool
  n_monitor_exit :: u32
  n_handle_key :: u32
  n_profile :: bool

record remote_message =
  rm_name :: cstring
  rm_handle :: u32
  rm_message :: addr
  rm_sz :: u64
  rm_type :: u64

text \<open>What a pointer to message data points to; address 0 is \<^verbatim>\<open>NULL\<close>.\<close>

datatype data = Bytes "u8 list" | Remote remote_message

record server = mq_world +
  ctxs :: "addr \<rightharpoonup> skynet_context"
  ctx_brk :: addr
  H :: handle_storage
  G_NODE :: skynet_node
  REMOTE :: "addr option"
  HARBOR :: u32
  TI :: timer
  M :: modules
  E :: "cstring \<rightharpoonup> cstring"
  logger :: u32
  mem :: "addr \<rightharpoonup> data"
  mem_brk :: addr

text \<open>
  The code of the services: a callback gets the address of its context, its user
  data, type, session, source, data and size; a module function the instance.
\<close>

record services =
  cb_call :: "addr \<Rightarrow> addr \<Rightarrow> addr \<Rightarrow> u64 \<Rightarrow> int \<Rightarrow> u32 \<Rightarrow> addr \<Rightarrow> u64 \<Rightarrow> server \<Rightarrow> (int \<times> server) res"
  mod_create :: "addr \<Rightarrow> server \<Rightarrow> (addr option \<times> server) res"
  mod_init :: "addr \<Rightarrow> addr \<Rightarrow> addr \<Rightarrow> cstring option \<Rightarrow> server \<Rightarrow> (int \<times> server) res"
  mod_release :: "addr \<Rightarrow> addr \<Rightarrow> server \<Rightarrow> server res"
  mod_signal :: "addr \<Rightarrow> addr \<Rightarrow> int \<Rightarrow> server \<Rightarrow> server res"
  thread_time :: "server \<Rightarrow> u64"
  sys_linker :: linker
  sys_fopen :: "cstring \<Rightarrow> addr option"

text \<open>The simplest services: every function does nothing and reports success.\<close>

definition idle_services :: services where
  "idle_services =
     \<lparr>cb_call = (\<lambda>_ _ _ _ _ _ _ _ w. Inr (0, w)), mod_create = (\<lambda>_ w. Inr (Some 1, w)),
      mod_init = (\<lambda>_ _ _ _ w. Inr (0, w)), mod_release = (\<lambda>_ _ w. Inr w),
      mod_signal = (\<lambda>_ _ _ w. Inr w), thread_time = (\<lambda>_. 0),
      sys_linker = \<lparr>dlopen = (\<lambda>_. Some 1), dlsym = (\<lambda>_ _. Some 1)\<rparr>, sys_fopen = (\<lambda>_. None)\<rparr>"

definition PTYPE_TEXT :: u64 where "PTYPE_TEXT = 0"
definition PTYPE_CLIENT :: u64 where "PTYPE_CLIENT = 3"
definition PTYPE_SYSTEM :: u64 where "PTYPE_SYSTEM = 4"
definition PTYPE_HARBOR :: u64 where "PTYPE_HARBOR = 5"
definition PTYPE_ERROR :: u64 where "PTYPE_ERROR = 7"
definition PTYPE_TAG_DONTCOPY :: u64 where "PTYPE_TAG_DONTCOPY = 0x10000"
definition PTYPE_TAG_ALLOCSESSION :: u64 where "PTYPE_TAG_ALLOCSESSION = 0x20000"
definition MESSAGE_TYPE_MASK :: u64 where "MESSAGE_TYPE_MASK = drop_bit 8 (-1)"

definition sizeof_remote_message :: u64 where "sizeof_remote_message = 48"

definition ctx_handle_map :: "server \<Rightarrow> ctx_handles" where
  "ctx_handle_map w = map_option c_handle \<circ> ctxs w"

section \<open>The environment\<close>

text \<open>
  The variables of the configuration (\<^verbatim>\<open>skynet_env.c\<close>) are the string globals of a Lua
  state that only these two functions use.
\<close>

definition skynet_getenv :: "cstring \<Rightarrow> server \<Rightarrow> cstring option" where
  "skynet_getenv key w = E w key"

definition skynet_setenv :: "cstring \<Rightarrow> cstring \<Rightarrow> server \<Rightarrow> server res" where
  "skynet_setenv key val w =
     bindR (c_assert (E w key = None)) (\<lambda>_. Inr (w\<lparr>E := (E w)(key \<mapsto> val)\<rparr>))"

section \<open>Memory\<close>

definition skynet_malloc :: "data \<Rightarrow> server \<Rightarrow> addr \<times> server" where
  "skynet_malloc d w = (mem_brk w, w\<lparr>mem := (mem w)(mem_brk w \<mapsto> d), mem_brk := mem_brk w + 1\<rparr>)"

definition skynet_free :: "addr \<Rightarrow> server \<Rightarrow> server res" where
  "skynet_free a w =
     (if a = 0 then Inr w
      else bindR (deref (mem w) a) (\<lambda>_. Inr (w\<lparr>mem := (mem w)(a := None)\<rparr>)))"

section \<open>Contexts\<close>

definition ctx_update :: "addr \<Rightarrow> (skynet_context \<Rightarrow> skynet_context) \<Rightarrow> server \<Rightarrow> server res" where
  "ctx_update c f w = bindR (deref (ctxs w) c) (\<lambda>ctx. Inr (w\<lparr>ctxs := (ctxs w)(c \<mapsto> f ctx)\<rparr>))"

definition skynet_context_total :: "server \<Rightarrow> int" where
  "skynet_context_total w = n_total (G_NODE w)"

definition context_inc :: "server \<Rightarrow> server" where
  "context_inc w = w\<lparr>G_NODE := (G_NODE w)\<lparr>n_total := n_total (G_NODE w) + 1\<rparr>\<rparr>"

definition context_dec :: "server \<Rightarrow> server" where
  "context_dec w = w\<lparr>G_NODE := (G_NODE w)\<lparr>n_total := n_total (G_NODE w) - 1\<rparr>\<rparr>"

definition THREAD_MAIN :: nat where "THREAD_MAIN = 1"

definition skynet_current_handle :: "server \<Rightarrow> u32" where
  "skynet_current_handle w =
     (if n_init (G_NODE w) then n_handle_key (G_NODE w) else - of_nat THREAD_MAIN)"

text \<open>\<^verbatim>\<open>++ctx->session_id\<close> on a 32-bit \<^verbatim>\<open>int\<close> that wraps around.\<close>

definition skynet_context_newsession :: "addr \<Rightarrow> server \<Rightarrow> (int \<times> server) res" where
  "skynet_context_newsession c w =
     bindR (deref (ctxs w) c) (\<lambda>ctx.
     let session = to_int (c_session_id ctx + 1);
         session = (if session \<le> 0 then 1 else session)
     in Inr (session, w\<lparr>ctxs := (ctxs w)(c \<mapsto> ctx\<lparr>c_session_id := session\<rparr>)\<rparr>))"

definition skynet_context_grab :: "addr \<Rightarrow> server \<Rightarrow> server res" where
  "skynet_context_grab c = ctx_update c (\<lambda>ctx. ctx\<lparr>c_ref := c_ref ctx + 1\<rparr>)"

definition skynet_context_reserve :: "addr \<Rightarrow> server \<Rightarrow> server res" where
  "skynet_context_reserve c w = bindR (skynet_context_grab c w) (\<lambda>w. Inr (context_dec w))"

text \<open>
  \<^verbatim>\<open>delete_context\<close>; closing the log file is output only.  The module's release
  function may change the state.
\<close>

definition skynet_module_instance_release :: "services \<Rightarrow> nat \<Rightarrow> addr \<Rightarrow> server \<Rightarrow> server res" where
  "skynet_module_instance_release V m inst w =
     bindR (bindR (aget (mod_m (M w)) m) Prelude.init) (\<lambda>md.
     case m_release md of None \<Rightarrow> Inr w | Some f \<Rightarrow> mod_release V f inst w)"

definition delete_context :: "services \<Rightarrow> addr \<Rightarrow> server \<Rightarrow> server res" where
  "delete_context V c w =
     bindR (deref (ctxs w) c) (\<lambda>ctx.
     bindR (skynet_module_instance_release V (c_mod ctx) (c_instance ctx) w) (\<lambda>w.
     bindR (skynet_mq_mark_release (c_queue ctx) w) (\<lambda>w.
     Inr (context_dec (w\<lparr>ctxs := (ctxs w)(c := None)\<rparr>)))))"

text \<open>The result tells whether the context is still there.\<close>

definition skynet_context_release :: "services \<Rightarrow> addr \<Rightarrow> server \<Rightarrow> (addr option \<times> server) res" where
  "skynet_context_release V c w =
     bindR (deref (ctxs w) c) (\<lambda>ctx.
     let w = w\<lparr>ctxs := (ctxs w)(c \<mapsto> ctx\<lparr>c_ref := c_ref ctx - 1\<rparr>)\<rparr>
     in if c_ref ctx - 1 = 0 then bindR (delete_context V c w) (\<lambda>w. Inr (None, w))
        else Inr (Some c, w))"

text \<open>\<^verbatim>\<open>skynet_handle_grab\<close> with the reference it takes, \<^verbatim>\<open>skynet_handle_retire\<close> with the one it gives up.\<close>

definition handle_grab :: "u32 \<Rightarrow> server \<Rightarrow> (addr option \<times> server) res" where
  "handle_grab handle w =
     bindR (skynet_handle_grab (ctx_handle_map w) handle (H w)) (\<lambda>r.
     case r of None \<Rightarrow> Inr (None, w)
     | Some c \<Rightarrow> bindR (skynet_context_grab c w) (\<lambda>w. Inr (Some c, w)))"

definition handle_retire :: "services \<Rightarrow> u32 \<Rightarrow> server \<Rightarrow> (nat \<times> server) res" where
  "handle_retire V handle w =
     bindR (skynet_handle_retire (ctx_handle_map w) handle (H w)) (\<lambda>(ret, ctx, h).
     let w = w\<lparr>H := h\<rparr> in
     case ctx of None \<Rightarrow> Inr (ret, w)
     | Some c \<Rightarrow> bindR (skynet_context_release V c w) (\<lambda>(_, w). Inr (ret, w)))"

section \<open>Sending\<close>

definition skynet_context_push :: "services \<Rightarrow> u32 \<Rightarrow> skynet_message \<Rightarrow> server \<Rightarrow> (int \<times> server) res" where
  "skynet_context_push V handle message w =
     bindR (handle_grab handle w) (\<lambda>(ctx, w).
     case ctx of None \<Rightarrow> Inr (-1, w)
     | Some c \<Rightarrow>
         bindR (deref (ctxs w) c) (\<lambda>x.
         bindR (skynet_mq_push (c_queue x) message w) (\<lambda>w.
         bindR (skynet_context_release V c w) (\<lambda>(_, w). Inr (0, w)))))"

definition skynet_context_endless :: "services \<Rightarrow> u32 \<Rightarrow> server \<Rightarrow> server res" where
  "skynet_context_endless V handle w =
     bindR (handle_grab handle w) (\<lambda>(ctx, w).
     case ctx of None \<Rightarrow> Inr w
     | Some c \<Rightarrow>
         bindR (ctx_update c (\<lambda>x. x\<lparr>c_endless := True\<rparr>) w) (\<lambda>w.
         bindR (skynet_context_release V c w) (\<lambda>(_, w). Inr w)))"

text \<open>
  \<^verbatim>\<open>skynet_error\<close>: \<open>text\<close> is what the format and its arguments print.  The handle of
  the logger is looked up until it is found once.  The buffer of a longer text is
  the one the doubling loop ends with; what it holds is the text and its final zero.
\<close>

definition logger_name :: cstring where
  "logger_name = cstr ''logger''"

definition skynet_error :: "services \<Rightarrow> addr option \<Rightarrow> cstring \<Rightarrow> server \<Rightarrow> server res" where
  "skynet_error V context text w =
     bindR (if logger w = 0 then skynet_handle_findname logger_name (H w) else Inr (logger w)) (\<lambda>lg.
     let w = w\<lparr>logger := lg\<rparr> in
     if lg = 0 then Inr w
     else
       let (data, w) = skynet_malloc (Bytes (text @ [0])) w in
       bindR (case context of None \<Rightarrow> Inr 0
              | Some c \<Rightarrow> bindR (deref (ctxs w) c) (\<lambda>ctx. Inr (c_handle ctx))) (\<lambda>source.
       bindR (skynet_context_push V lg
                \<lparr>msg_source = source, msg_session = 0, msg_data = data,
                 msg_sz = of_nat (length text) OR push_bit MESSAGE_TYPE_SHIFT PTYPE_TEXT\<rparr> w) (\<lambda>(_, w).
       Inr w)))"

text \<open>\<^verbatim>\<open>skynet_context_send\<close> puts a message into the queue of a context it has a pointer to.\<close>

definition skynet_context_send :: "addr \<Rightarrow> addr \<Rightarrow> u64 \<Rightarrow> u32 \<Rightarrow> u64 \<Rightarrow> int \<Rightarrow> server \<Rightarrow> server res" where
  "skynet_context_send c msg sz source type session w =
     bindR (deref (ctxs w) c) (\<lambda>ctx.
     skynet_mq_push (c_queue ctx)
       \<lparr>msg_source = source, msg_session = session, msg_data = msg,
        msg_sz = sz OR push_bit MESSAGE_TYPE_SHIFT type\<rparr> w)"

subsection \<open>The harbor\<close>

definition invalid_type :: "u64 \<Rightarrow> bool" where
  "invalid_type type \<longleftrightarrow> type \<noteq> PTYPE_SYSTEM \<and> type \<noteq> PTYPE_HARBOR"

definition skynet_harbor_send :: "addr \<Rightarrow> u32 \<Rightarrow> int \<Rightarrow> server \<Rightarrow> server res" where
  "skynet_harbor_send rmsg source session w =
     bindR (deref (mem w) rmsg) (\<lambda>d.
     case d of
       Bytes _ \<Rightarrow> Inl Bad_pointer
     | Remote r \<Rightarrow>
         bindR (c_assert (invalid_type (rm_type r))) (\<lambda>_.
         case REMOTE w of
           None \<Rightarrow> Inl Assert_failed
         | Some c \<Rightarrow> skynet_context_send c rmsg sizeof_remote_message source PTYPE_SYSTEM session w))"

definition skynet_harbor_message_isremote :: "u32 \<Rightarrow> server \<Rightarrow> bool res" where
  "skynet_harbor_message_isremote handle w =
     bindR (c_assert (HARBOR w \<noteq> -1)) (\<lambda>_.
     let h = handle AND (NOT HANDLE_MASK) in Inr (h \<noteq> HARBOR w \<and> h \<noteq> 0))"

definition skynet_harbor_init :: "nat \<Rightarrow> server \<Rightarrow> server" where
  "skynet_harbor_init harbor w = w\<lparr>HARBOR := push_bit HANDLE_REMOTE_SHIFT (of_nat harbor)\<rparr>"

definition skynet_harbor_start :: "addr \<Rightarrow> server \<Rightarrow> server res" where
  "skynet_harbor_start c w = bindR (skynet_context_reserve c w) (\<lambda>w. Inr (w\<lparr>REMOTE := Some c\<rparr>))"

definition skynet_harbor_exit :: "services \<Rightarrow> server \<Rightarrow> server res" where
  "skynet_harbor_exit V w =
     (case REMOTE w of
        None \<Rightarrow> Inr (w\<lparr>REMOTE := None\<rparr>)
      | Some c \<Rightarrow> bindR (skynet_context_release V c (w\<lparr>REMOTE := None\<rparr>)) (\<lambda>(_, w). Inr w))"

definition skynet_isremote :: "u32 \<Rightarrow> server \<Rightarrow> (bool \<times> nat) res" where
  "skynet_isremote handle w =
     bindR (skynet_harbor_message_isremote handle w) (\<lambda>ret.
     Inr (ret, unat (drop_bit HANDLE_REMOTE_SHIFT handle)))"

subsection \<open>Messages\<close>

text \<open>
  The bytes that \<^verbatim>\<open>memcpy(msg, data, sz)\<close> reads; a block that is no byte buffer, or
  is shorter, is not read by a correct program.
\<close>

definition read_bytes :: "addr \<Rightarrow> u64 \<Rightarrow> server \<Rightarrow> u8 list res" where
  "read_bytes a sz w =
     bindR (deref (mem w) a) (\<lambda>d.
     case d of
       Bytes bs \<Rightarrow> if unat sz \<le> length bs then Inr (take (unat sz) bs) else Inl Out_of_bounds
     | Remote _ \<Rightarrow> Inl Bad_pointer)"

definition filter_args ::
  "addr option \<Rightarrow> u64 \<Rightarrow> int \<Rightarrow> addr \<Rightarrow> u64 \<Rightarrow> server \<Rightarrow> (int \<times> addr \<times> u64 \<times> server) res" where
  "filter_args context type session data sz w =
     (let needcopy = (type AND PTYPE_TAG_DONTCOPY = 0);
          allocsession = (type AND PTYPE_TAG_ALLOCSESSION \<noteq> 0);
          type = type AND 0xff
      in bindR (if allocsession then
                  bindR (c_assert (session = 0)) (\<lambda>_.
                  case context of None \<Rightarrow> Inl Bad_pointer | Some c \<Rightarrow> skynet_context_newsession c w)
                else Inr (session, w)) (\<lambda>(session, w).
         bindR (if needcopy \<and> data \<noteq> 0 then
                  bindR (read_bytes data sz w) (\<lambda>bs. Inr (skynet_malloc (Bytes (bs @ [0])) w))
                else Inr (data, w)) (\<lambda>(data, w).
         Inr (session, data, sz OR push_bit MESSAGE_TYPE_SHIFT type, w))))"

definition handle_of :: "addr option \<Rightarrow> server \<Rightarrow> u32 res" where
  "handle_of context w =
     (case context of None \<Rightarrow> Inl Bad_pointer
      | Some c \<Rightarrow> bindR (deref (ctxs w) c) (\<lambda>ctx. Inr (c_handle ctx)))"

definition too_large_text :: "u32 \<Rightarrow> cstring" where
  "too_large_text destination = cstr ''The message to '' @ print_x destination @ cstr '' is too large''"

definition skynet_send ::
  "services \<Rightarrow> addr option \<Rightarrow> u32 \<Rightarrow> u32 \<Rightarrow> u64 \<Rightarrow> int \<Rightarrow> addr \<Rightarrow> u64 \<Rightarrow> server \<Rightarrow> (int \<times> server) res" where
  "skynet_send V context source destination type session data sz w =
     (if sz AND MESSAGE_TYPE_MASK \<noteq> sz then
        bindR (skynet_error V context (too_large_text destination) w) (\<lambda>w.
        bindR (if type AND PTYPE_TAG_DONTCOPY \<noteq> 0 then skynet_free data w else Inr w) (\<lambda>w.
        Inr (-1, w)))
      else
        bindR (filter_args context type session data sz w) (\<lambda>(session, data, sz, w).
        bindR (if source = 0 then handle_of context w else Inr source) (\<lambda>source.
        if destination = 0 then Inr (session, w)
        else
          bindR (skynet_harbor_message_isremote destination w) (\<lambda>remote.
          if remote then
            let (rmsg, w) = skynet_malloc (Remote
                  \<lparr>rm_name = [], rm_handle = destination, rm_message = data,
                   rm_sz = sz AND MESSAGE_TYPE_MASK, rm_type = drop_bit MESSAGE_TYPE_SHIFT sz\<rparr>) w
            in bindR (skynet_harbor_send rmsg source session w) (\<lambda>w. Inr (session, w))
          else
            bindR (skynet_context_push V destination
                     \<lparr>msg_source = source, msg_session = session, msg_data = data, msg_sz = sz\<rparr> w) (\<lambda>(r, w).
            if r \<noteq> 0 then bindR (skynet_free data w) (\<lambda>w. Inr (-1, w)) else Inr (session, w))))))"


text \<open>\<^verbatim>\<open>copy_name\<close>: the first 16 bytes of the name, filled up with zeros.\<close>

definition copy_name :: "cstring \<Rightarrow> cstring" where
  "copy_name addr = take GLOBALNAME_LENGTH addr @ replicate (GLOBALNAME_LENGTH - length addr) 0"

definition skynet_sendname ::
  "services \<Rightarrow> addr option \<Rightarrow> u32 \<Rightarrow> cstring \<Rightarrow> u64 \<Rightarrow> int \<Rightarrow> addr \<Rightarrow> u64 \<Rightarrow> server \<Rightarrow> (int \<times> server) res" where
  "skynet_sendname V context source addr type session data sz w =
     bindR (if source = 0 then handle_of context w else Inr source) (\<lambda>source.
     if addr \<noteq> [] \<and> hd addr = 58 then
       skynet_send V context source (ucast (strtoul 16 (tl addr))) type session data sz w
     else if addr \<noteq> [] \<and> hd addr = 46 then
       bindR (skynet_handle_findname (tl addr) (H w)) (\<lambda>des.
       if des = 0 then
         bindR (if type AND PTYPE_TAG_DONTCOPY \<noteq> 0 then skynet_free data w else Inr w) (\<lambda>w. Inr (-1, w))
       else skynet_send V context source des type session data sz w)
     else
       bindR (filter_args context type session data sz w) (\<lambda>(session, data, sz, w).
       let (rmsg, w) = skynet_malloc (Remote
             \<lparr>rm_name = copy_name addr, rm_handle = 0, rm_message = data,
              rm_sz = sz AND MESSAGE_TYPE_MASK, rm_type = drop_bit MESSAGE_TYPE_SHIFT sz\<rparr>) w
       in bindR (skynet_harbor_send rmsg source session w) (\<lambda>w. Inr (session, w))))"

definition skynet_queryname :: "services \<Rightarrow> addr option \<Rightarrow> cstring \<Rightarrow> server \<Rightarrow> (u32 \<times> server) res" where
  "skynet_queryname V context name w =
     (if name \<noteq> [] \<and> hd name = 58 then Inr (ucast (strtoul 16 (tl name)), w)
      else if name \<noteq> [] \<and> hd name = 46 then
        bindR (skynet_handle_findname (tl name) (H w)) (\<lambda>h. Inr (h, w))
      else
        bindR (skynet_error V context (cstr ''Don't support query global name '' @ name) w) (\<lambda>w. Inr (0, w)))"

text \<open>The result of \<^verbatim>\<open>skynet_timeout\<close> is the session, or -1.\<close>

definition skynet_timeout :: "services \<Rightarrow> u32 \<Rightarrow> int \<Rightarrow> int \<Rightarrow> server \<Rightarrow> (int \<times> server) res" where
  "skynet_timeout V handle t session w =
     (if t \<le> 0 then
        bindR (skynet_context_push V handle (timeout_message session) w) (\<lambda>(r, w).
        Inr (if r \<noteq> 0 then -1 else session, w))
      else Inr (session, w\<lparr>TI := timer_add (TI w) \<lparr>ev_handle = handle, ev_session = session\<rparr> t\<rparr>))"

section \<open>The life of a context\<close>

definition drop_message :: "services \<Rightarrow> u32 \<Rightarrow> skynet_message \<Rightarrow> server \<Rightarrow> server res" where
  "drop_message V handle msg w =
     bindR (skynet_free (msg_data msg) w) (\<lambda>w.
     bindR (c_assert (handle \<noteq> 0)) (\<lambda>_.
     bindR (skynet_send V None handle (msg_source msg) PTYPE_ERROR 0 0 0 w) (\<lambda>(_, w). Inr w)))"

definition skynet_module_instance_create :: "services \<Rightarrow> nat \<Rightarrow> server \<Rightarrow> (addr option \<times> server) res" where
  "skynet_module_instance_create V m w =
     bindR (bindR (aget (mod_m (M w)) m) Prelude.init) (\<lambda>md.
     case m_create md of None \<Rightarrow> Inr (Some (2 ^ 64 - 1), w) | Some f \<Rightarrow> mod_create V f w)"

definition skynet_module_instance_init ::
  "services \<Rightarrow> nat \<Rightarrow> addr \<Rightarrow> addr \<Rightarrow> cstring option \<Rightarrow> server \<Rightarrow> (int \<times> server) res" where
  "skynet_module_instance_init V m inst c parm w =
     bindR (bindR (aget (mod_m (M w)) m) Prelude.init) (\<lambda>md.
     case m_init md of None \<Rightarrow> Inl Bad_pointer | Some f \<Rightarrow> mod_init V f inst c parm w)"

text \<open>
  A new context; its fields \<^verbatim>\<open>queue\<close> and \<^verbatim>\<open>result\<close> are not initialised here (the
  queue is set before anything reads it).
\<close>

definition new_context :: "server \<Rightarrow> nat \<Rightarrow> addr \<Rightarrow> skynet_context" where
  "new_context w m inst =
     \<lparr>c_instance = inst, c_mod = m, c_cb_ud = 0, c_cb = None, c_queue = 0, c_logfile = None,
      c_cpu_cost = 0, c_cpu_start = 0, c_result = [], c_handle = 0, c_session_id = 0, c_ref = 2,
      c_message_count = 0, c_init = False, c_endless = False, c_profile = n_profile (G_NODE w)\<rparr>"

text \<open>
  \<^verbatim>\<open>skynet_context_new\<close>.  The last \<^verbatim>\<open>printf\<close> reads \<^verbatim>\<open>ctx->handle\<close>, also when the release
  just before has deleted the context.
\<close>

definition context_started :: "services \<Rightarrow> addr \<Rightarrow> addr \<Rightarrow> cstring \<Rightarrow> cstring option \<Rightarrow> server \<Rightarrow> (addr option \<times> server) res" where
  "context_started V c queue name param w =
     bindR (skynet_context_release V c w) (\<lambda>(ret, w).
     bindR (case ret of None \<Rightarrow> Inr w | Some _ \<Rightarrow> ctx_update c (\<lambda>ctx. ctx\<lparr>c_init := True\<rparr>) w) (\<lambda>w.
     bindR (skynet_globalmq_push queue w) (\<lambda>w.
     bindR (case ret of None \<Rightarrow> Inr w
            | Some r \<Rightarrow> skynet_error V (Some r)
                (cstr ''LAUNCH '' @ name @ [32] @ (case param of None \<Rightarrow> [] | Some p \<Rightarrow> p)) w) (\<lambda>w.
     bindR (deref (ctxs w) c) (\<lambda>_.
     Inr (ret, w))))))"

definition context_failed :: "services \<Rightarrow> addr \<Rightarrow> addr \<Rightarrow> cstring \<Rightarrow> server \<Rightarrow> (addr option \<times> server) res" where
  "context_failed V c queue name w =
     bindR (skynet_error V (Some c) (cstr ''FAILED launch '' @ name) w) (\<lambda>w.
     bindR (deref (ctxs w) c) (\<lambda>ctx.
     let handle = c_handle ctx in
     bindR (skynet_context_release V c w) (\<lambda>(_, w).
     bindR (handle_retire V handle w) (\<lambda>(_, w).
     bindR (skynet_mq_release (drop_message V handle) queue w) (\<lambda>w.
     Inr (None, w))))))"

definition skynet_context_new ::
  "services \<Rightarrow> cstring \<Rightarrow> cstring option \<Rightarrow> server \<Rightarrow> (addr option \<times> server) res" where
  "skynet_context_new V name param w =
     bindR (skynet_module_query (sys_linker V) name (M w)) (\<lambda>(md, ms).
     let w = w\<lparr>M := ms\<rparr> in
     case md of None \<Rightarrow> Inr (None, w)
     | Some m \<Rightarrow>
         bindR (skynet_module_instance_create V m w) (\<lambda>(inst, w).
         case inst of None \<Rightarrow> Inr (None, w)
         | Some inst \<Rightarrow>
             let c = ctx_brk w;
                 w = w\<lparr>ctx_brk := c + 1, ctxs := (ctxs w)(c \<mapsto> new_context w m inst)\<rparr>
             in bindR (skynet_handle_register (ctx_handle_map w) c (H w)) (\<lambda>(handle, hs).
                let (queue, w) = skynet_mq_create handle (w\<lparr>H := hs\<rparr>)
                in bindR (ctx_update c (\<lambda>ctx. ctx\<lparr>c_handle := handle, c_queue := queue\<rparr>) w) (\<lambda>w.
                   bindR (skynet_module_instance_init V m inst c param (context_inc w)) (\<lambda>(r, w).
                   if r = 0 then context_started V c queue name param w
                   else context_failed V c queue name w)))))"

text \<open>
  \<^verbatim>\<open>skynet_handle_retireall\<close>: passes over the slots until one retires nothing.  A
  module's release function could keep registering services: the loop may not end.
\<close>

partial_function (option) retireall_loop :: "services \<Rightarrow> nat \<Rightarrow> nat \<Rightarrow> server \<Rightarrow> server res option" where
  "retireall_loop V i n w =
     (if i < hs_slot_size (H w) then
        (case bindR (aget (hs_slot (H w)) i) (\<lambda>ctx.
               bindR (case ctx of None \<Rightarrow> Inr 0 | Some c \<Rightarrow> deref (ctx_handle_map w) c) (\<lambda>handle.
               if handle \<noteq> 0 then handle_retire V handle w else Inr (0, w))) of
           Inl e \<Rightarrow> Some (Inl e)
         | Inr r \<Rightarrow> retireall_loop V (i + 1) (n + fst r) (snd r))
      else if n = 0 then Some (Inr w)
      else retireall_loop V 0 0 w)"

definition skynet_handle_retireall :: "services \<Rightarrow> server \<Rightarrow> server res" where
  "skynet_handle_retireall V w = run_loop (retireall_loop V 0 0 w)"

definition handle_exit :: "services \<Rightarrow> addr \<Rightarrow> u32 \<Rightarrow> server \<Rightarrow> server res" where
  "handle_exit V context handle w =
     bindR (if handle = 0
            then bindR (handle_of (Some context) w) (\<lambda>h.
                 bindR (skynet_error V (Some context) (cstr ''KILL self'') w) (\<lambda>w. Inr (h, w)))
            else bindR (skynet_error V (Some context) (cstr ''KILL :'' @ print_x handle) w) (\<lambda>w. Inr (handle, w)))
       (\<lambda>(handle, w).
     bindR (if n_monitor_exit (G_NODE w) \<noteq> 0
            then bindR (skynet_send V (Some context) handle (n_monitor_exit (G_NODE w)) PTYPE_CLIENT 0 0 0 w) (\<lambda>(_, w). Inr w)
            else Inr w) (\<lambda>w.
     bindR (handle_retire V handle w) (\<lambda>(_, w). Inr w)))"

definition skynet_callback :: "addr \<Rightarrow> addr \<Rightarrow> addr option \<Rightarrow> server \<Rightarrow> server res" where
  "skynet_callback c ud cb = ctx_update c (\<lambda>ctx. ctx\<lparr>c_cb := cb, c_cb_ud := ud\<rparr>)"

section \<open>The monitor\<close>

record skynet_monitor =
  sm_version :: u32
  sm_check_version :: u32
  sm_source :: u32
  sm_destination :: u32

definition skynet_monitor_new :: skynet_monitor where
  "skynet_monitor_new = \<lparr>sm_version = 0, sm_check_version = 0, sm_source = 0, sm_destination = 0\<rparr>"

definition skynet_monitor_trigger :: "u32 \<Rightarrow> u32 \<Rightarrow> skynet_monitor \<Rightarrow> skynet_monitor" where
  "skynet_monitor_trigger source destination sm =
     sm\<lparr>sm_source := source, sm_destination := destination, sm_version := sm_version sm + 1\<rparr>"

definition endless_text :: "skynet_monitor \<Rightarrow> cstring" where
  "endless_text sm =
     cstr ''A message from [ :'' @ print_08x (sm_source sm) @ cstr '' ] to [ :'' @ print_08x (sm_destination sm) @
     cstr '' ] maybe in an endless loop (version = '' @ print_d (sint (sm_version sm)) @ cstr '')''"

definition skynet_monitor_check :: "services \<Rightarrow> skynet_monitor \<Rightarrow> server \<Rightarrow> (skynet_monitor \<times> server) res" where
  "skynet_monitor_check V sm w =
     (if sm_version sm = sm_check_version sm then
        if sm_destination sm \<noteq> 0 then
          bindR (skynet_context_endless V (sm_destination sm) w) (\<lambda>w.
          bindR (skynet_error V None (endless_text sm) w) (\<lambda>w. Inr (sm, w)))
        else Inr (sm, w)
      else Inr (sm\<lparr>sm_check_version := sm_version sm\<rparr>, w))"

section \<open>Dispatch\<close>

text \<open>Writing the message to the log file of the context is output only.\<close>

definition dispatch_message :: "services \<Rightarrow> addr \<Rightarrow> skynet_message \<Rightarrow> server \<Rightarrow> server res" where
  "dispatch_message V c msg w =
     bindR (deref (ctxs w) c) (\<lambda>ctx.
     bindR (c_assert (c_init ctx)) (\<lambda>_.
     let type = drop_bit MESSAGE_TYPE_SHIFT (msg_sz msg);
         sz = msg_sz msg AND MESSAGE_TYPE_MASK;
         ctx = ctx\<lparr>c_message_count := to_int (c_message_count ctx + 1),
                   c_cpu_start := (if c_profile ctx then thread_time V w else c_cpu_start ctx)\<rparr>;
         w = w\<lparr>G_NODE := (G_NODE w)\<lparr>n_handle_key := c_handle ctx\<rparr>, ctxs := (ctxs w)(c \<mapsto> ctx)\<rparr>
     in bindR (case c_cb ctx of
                 None \<Rightarrow> Inl Bad_pointer
               | Some cb \<Rightarrow> cb_call V cb c (c_cb_ud ctx) type (msg_session msg) (msg_source msg) (msg_data msg) sz w)
          (\<lambda>(reserve_msg, w).
        bindR (if c_profile ctx
               then ctx_update c (\<lambda>x. x\<lparr>c_cpu_cost := c_cpu_cost x + (thread_time V w - c_cpu_start x)\<rparr>) w
               else Inr w) (\<lambda>w.
        if reserve_msg = 0 then skynet_free (msg_data msg) w else Inr w))))"

text \<open>A callback may keep the queue filled: the loop may not end.\<close>

partial_function (option) dispatchall_loop :: "services \<Rightarrow> addr \<Rightarrow> addr \<Rightarrow> server \<Rightarrow> server res option" where
  "dispatchall_loop V c q w =
     (case bindR (deref (mqs w) q) skynet_mq_pop of
        Inl e \<Rightarrow> Some (Inl e)
      | Inr r \<Rightarrow>
          (case fst r of
             None \<Rightarrow> Some (Inr (w\<lparr>mqs := (mqs w)(q \<mapsto> snd r)\<rparr>))
           | Some msg \<Rightarrow>
               (case dispatch_message V c msg (w\<lparr>mqs := (mqs w)(q \<mapsto> snd r)\<rparr>) of
                  Inl e \<Rightarrow> Some (Inl e)
                | Inr w' \<Rightarrow> dispatchall_loop V c q w')))"

definition skynet_context_dispatchall :: "services \<Rightarrow> addr \<Rightarrow> server \<Rightarrow> server res" where
  "skynet_context_dispatchall V c w =
     bindR (deref (ctxs w) c) (\<lambda>ctx. run_loop (dispatchall_loop V c (c_queue ctx) w))"

text \<open>
  The loop of \<^verbatim>\<open>skynet_context_message_dispatch\<close>: \<open>n - i\<close> rounds are left, and the
  first one sets \<open>n\<close>.  It tells whether the queue ran empty.
\<close>

definition dispatch_round ::
  "services \<Rightarrow> addr \<Rightarrow> addr \<Rightarrow> u32 \<Rightarrow> skynet_message \<Rightarrow> skynet_monitor \<times> server \<Rightarrow> (skynet_monitor \<times> server) res" where
  "dispatch_round V c q handle msg s =
     (let (sm, w) = s in
      bindR (deref (mqs w) q) (\<lambda>mq.
      let (overload, mq) = skynet_mq_overload mq;
          w = w\<lparr>mqs := (mqs w)(q \<mapsto> mq)\<rparr>
      in bindR (if overload \<noteq> 0
                then skynet_error V (Some c) (cstr ''May overload, message queue length = '' @ print_d (int overload)) w
                else Inr w) (\<lambda>w.
         let sm = skynet_monitor_trigger (msg_source msg) handle sm in
         bindR (deref (ctxs w) c) (\<lambda>ctx.
         bindR (if c_cb ctx = None then skynet_free (msg_data msg) w else dispatch_message V c msg w) (\<lambda>w.
         Inr (skynet_monitor_trigger 0 0 sm, w))))))"

function dispatch_loop ::
  "services \<Rightarrow> int \<Rightarrow> addr \<Rightarrow> addr \<Rightarrow> u32 \<Rightarrow> bool \<Rightarrow> nat \<Rightarrow> skynet_monitor \<times> server \<Rightarrow>
   (bool \<times> skynet_monitor \<times> server) res" where
  "dispatch_loop V weight c q handle first left s =
     (if left = 0 then Inr (False, s)
      else
        bindR (bindR (deref (mqs (snd s)) q) skynet_mq_pop) (\<lambda>(m, mq).
        let w = (snd s)\<lparr>mqs := (mqs (snd s))(q \<mapsto> mq)\<rparr> in
        case m of
          None \<Rightarrow> Inr (True, fst s, w)
        | Some msg \<Rightarrow>
            let n = (if first \<and> 0 \<le> weight then skynet_mq_length mq div 2 ^ nat weight else left)
            in bindR (dispatch_round V c q handle msg (fst s, w)) (\<lambda>s'.
               dispatch_loop V weight c q handle False (n - 1) s')))"
  by pat_completeness auto
termination
  by (relation "measures [\<lambda>(V, weight, c, q, handle, first, left, s). if first then 1 else 0,
                          \<lambda>(V, weight, c, q, handle, first, left, s). left]") auto

declare dispatch_loop.simps [simp del]

definition dispatch_queue ::
  "services \<Rightarrow> int \<Rightarrow> addr \<Rightarrow> skynet_monitor \<Rightarrow> server \<Rightarrow> (addr option \<times> skynet_monitor \<times> server) res" where
  "dispatch_queue V weight q sm w =
     bindR (deref (mqs w) q) (\<lambda>mq.
     let handle = skynet_mq_handle mq in
     bindR (handle_grab handle w) (\<lambda>(ctx, w).
     case ctx of
       None \<Rightarrow>
         bindR (skynet_mq_release (drop_message V handle) q w) (\<lambda>w.
         bindR (skynet_globalmq_pop w) (\<lambda>(nq, w). Inr (nq, sm, w)))
     | Some c \<Rightarrow>
         bindR (dispatch_loop V weight c q handle True 1 (sm, w)) (\<lambda>(empty, sm, w).
         if empty then
           bindR (skynet_context_release V c w) (\<lambda>(_, w).
           bindR (skynet_globalmq_pop w) (\<lambda>(nq, w). Inr (nq, sm, w)))
         else
           bindR (deref (ctxs w) c) (\<lambda>x.
           bindR (c_assert (q = c_queue x)) (\<lambda>_.
           bindR (skynet_globalmq_pop w) (\<lambda>(nq, w).
           bindR (case nq of None \<Rightarrow> Inr (q, w)
                  | Some n \<Rightarrow> bindR (skynet_globalmq_push q w) (\<lambda>w. Inr (n, w))) (\<lambda>(q, w).
           bindR (skynet_context_release V c w) (\<lambda>(_, w).
           Inr (Some q, sm, w)))))))))"

definition skynet_context_message_dispatch ::
  "services \<Rightarrow> skynet_monitor \<Rightarrow> addr option \<Rightarrow> int \<Rightarrow> server \<Rightarrow> (addr option \<times> skynet_monitor \<times> server) res" where
  "skynet_context_message_dispatch V sm q weight w =
     (case q of
        Some q \<Rightarrow> dispatch_queue V weight q sm w
      | None \<Rightarrow>
          bindR (skynet_globalmq_pop w) (\<lambda>(q, w).
          case q of None \<Rightarrow> Inr (None, sm, w) | Some q \<Rightarrow> dispatch_queue V weight q sm w))"

section \<open>Start\<close>

definition skynet_initthread :: "nat \<Rightarrow> server \<Rightarrow> server" where
  "skynet_initthread m w = w\<lparr>G_NODE := (G_NODE w)\<lparr>n_handle_key := - of_nat m\<rparr>\<rparr>"

definition skynet_globalinit :: "server \<Rightarrow> server" where
  "skynet_globalinit w =
     skynet_initthread THREAD_MAIN
       (w\<lparr>G_NODE := (G_NODE w)\<lparr>n_total := 0, n_monitor_exit := 0, n_init := True\<rparr>\<rparr>)"

definition skynet_profile_enable :: "bool \<Rightarrow> server \<Rightarrow> server" where
  "skynet_profile_enable enable w = w\<lparr>G_NODE := (G_NODE w)\<lparr>n_profile := enable\<rparr>\<rparr>"


section \<open>The invariant of the kernel state\<close>

text \<open>
  Beside the invariants of the queues, of the handle storage and of its names:
  every context is referenced, and has a queue of its own that is not marked for
  release; the harbor number is that of the handle storage; message data lives
  below the next free address.
\<close>

definition srv_ok :: "server \<Rightarrow> addr list \<Rightarrow> addr set \<Rightarrow> bool" where
  "srv_ok w xs B \<longleftrightarrow>
     world_ok w xs B \<and> hs_ok (ctx_handle_map w) (H w) \<and> names_ok (H w) \<and>
     (\<forall>c ctx. ctxs w c = Some ctx \<longrightarrow> c < ctx_brk w \<and> 0 < c_ref ctx \<and>
        (\<exists>q. mqs w (c_queue ctx) = Some q \<and> q_release q = 0)) \<and>
     (\<forall>c d x y. ctxs w c = Some x \<and> ctxs w d = Some y \<and> c_queue x = c_queue y \<longrightarrow> c = d) \<and>
     HARBOR w = hs_harbor (H w) \<and> hs_harbor (H w) \<noteq> -1 \<and>
     (\<forall>c. REMOTE w = Some c \<longrightarrow> c \<in> dom (ctxs w)) \<and>
     0 < mem_brk w \<and> (\<forall>a \<in> dom (mem w). 0 < a \<and> a < mem_brk w)"

text \<open>What other services see of a service: the messages waiting for its handle, if it is registered.\<close>

definition mailbox :: "server \<Rightarrow> u32 \<rightharpoonup> skynet_message list" where
  "mailbox w h =
     (case skynet_handle_grab (ctx_handle_map w) h (H w) of
        Inr (Some c) \<Rightarrow>
          (case ctxs w c of None \<Rightarrow> None
           | Some ctx \<Rightarrow> map_option mq_list (mqs w (c_queue ctx)))
      | _ \<Rightarrow> None)"

lemma ctx_handle_map_Some [simp]: "ctx_handle_map w c = Some h \<longleftrightarrow> (\<exists>ctx. ctxs w c = Some ctx \<and> c_handle ctx = h)"
  by (auto simp: ctx_handle_map_def)

lemma ctx_handle_map_cong:
  "ctxs w' = ctxs w \<Longrightarrow> ctx_handle_map w' = ctx_handle_map w"
  by (simp add: ctx_handle_map_def)

lemma same_queues_list:
  assumes "same_queues h h'"
  shows "map_option mq_list (h' a) = map_option mq_list (h a)"
    and "h a = Some q \<Longrightarrow> \<exists>n. h' a = Some (q\<lparr>q_next := n\<rparr>)"
proof -
  have eq: "map_option (q_next_update (\<lambda>_. None)) (h a) = map_option (q_next_update (\<lambda>_. None)) (h' a)"
    using assms by (simp add: same_queues_def)
  show "map_option mq_list (h' a) = map_option mq_list (h a)"
    using arg_cong [OF eq, of "map_option mq_list"] by (simp add: option.map_comp comp_def)
  show "\<exists>n. h' a = Some (q\<lparr>q_next := n\<rparr>)" if q: "h a = Some q"
  proof -
    obtain q' where q': "h' a = Some q'" "q'\<lparr>q_next := None\<rparr> = q\<lparr>q_next := None\<rparr>"
      using eq q by (cases "h' a") auto
    then have "q' = q\<lparr>q_next := q_next q'\<rparr>"
      by (metis message_queue.surjective message_queue.update_convs(10) message_queue.select_convs)
    then show ?thesis using q'(1) by metis
  qed
qed

text \<open>The effect of \<^verbatim>\<open>skynet_mq_push\<close> on the whole heap of queues.\<close>

lemma mq_push_effect:
  assumes w: "world_ok w xs B" and q: "mqs w a = Some q" "q_release q = 0" "skynet_mq_length q < mq_limit"
  shows "\<exists>h g q'. skynet_mq_push a m w = Inr (w\<lparr>mqs := h, gq := g\<rparr>) \<and>
      world_ok (w\<lparr>mqs := h, gq := g\<rparr>) (if a \<in> set xs \<union> B then xs else xs @ [a]) B \<and>
      same_queues ((mqs w)(a \<mapsto> q')) h \<and> mq_list q' = mq_list q @ [m] \<and> q_release q' = 0 \<and> q_handle q' = q_handle q"
proof -
  have ok: "queue_ok (a \<in> set xs \<union> B) q" using w q by (intro world_ok_queue)
  then obtain q' where q': "mq_enqueue m q = Inr q'" "mq_valid q'" "mq_list q' = mq_list q @ [m]"
      "q_release q' = q_release q" "q_in_global q' = q_in_global q" "q_next q' = q_next q" "q_handle q' = q_handle q"
    using mq_enqueue_ok [of q m] q(3) by (auto simp: queue_ok_def)
  show ?thesis
  proof (cases "a \<in> set xs \<union> B")
    case True
    then have "queue_ok True q'" using ok q' q by (auto simp: queue_ok_def)
    then have "world_ok (w\<lparr>mqs := (mqs w)(a \<mapsto> q')\<rparr>) xs B" using world_ok_set [OF w q(1)] q' True by auto
    moreover have "skynet_mq_push a m w = Inr (w\<lparr>mqs := (mqs w)(a \<mapsto> q'), gq := gq w\<rparr>)"
      using q q' ok True by (simp add: skynet_mq_push_def queue_ok_def MQ_IN_GLOBAL_def)
    ultimately show ?thesis
      using True q q' by (intro exI [of _ "(mqs w)(a \<mapsto> q')"] exI [of _ "gq w"] exI [of _ q']) (simp add: same_queues_def)
  next
    case False
    let ?q = "q'\<lparr>q_in_global := MQ_IN_GLOBAL\<rparr>"
    have qok: "queue_ok True ?q" using q q' by (simp add: queue_ok_def)
    let ?v = "w\<lparr>mqs := (mqs w)(a \<mapsto> ?q)\<rparr>"
    have v: "gq_list ?v xs" using w q q' by (simp add: world_ok_def gq_list_set)
    then obtain h g where hg: "skynet_globalmq_push a ?v = Inr (?v\<lparr>mqs := h, gq := g\<rparr>)" "same_queues (mqs ?v) h"
      using False globalmq_push_ok [of ?v xs a ?q] by auto
    have push: "skynet_mq_push a m w = Inr (w\<lparr>mqs := h, gq := g\<rparr>)"
      using False q q' ok hg(1) by (simp add: skynet_mq_push_def queue_ok_def)
    moreover have "world_ok (w\<lparr>mqs := h, gq := g\<rparr>) (xs @ [a]) B"
      using globalmq_push_fresh [OF w q(1) False, of ?q] q'(6) qok hg(1) by auto
    ultimately show ?thesis using hg(2) q q' False by (intro exI [of _ h] exI [of _ g] exI [of _ ?q]) auto
  qed
qed


text \<open>The same with other parts of the state changed on the way.\<close>

lemma world_ok_fields: "world_ok (w\<lparr>ctxs := x\<rparr>) xs B = world_ok w xs B"
  by (simp add: world_ok_def gq_list_def)

lemma mq_push_ctx:
  assumes w: "world_ok w xs B" and q: "mqs w a = Some q" "q_release q = 0" "skynet_mq_length q < mq_limit"
  shows "\<exists>h g q'. skynet_mq_push a m (w\<lparr>ctxs := x\<rparr>) = Inr (w\<lparr>ctxs := x\<rparr>\<lparr>mqs := h, gq := g\<rparr>) \<and>
      world_ok (w\<lparr>mqs := h, gq := g\<rparr>) (if a \<in> set xs \<union> B then xs else xs @ [a]) B \<and>
      same_queues ((mqs w)(a \<mapsto> q')) h \<and> mq_list q' = mq_list q @ [m] \<and> q_release q' = 0 \<and> q_handle q' = q_handle q"
proof -
  have "world_ok (w\<lparr>mqs := h, gq := g\<rparr>) ys B = world_ok (w\<lparr>ctxs := x\<rparr>\<lparr>mqs := h, gq := g\<rparr>) ys B" for h g ys
    by (simp add: world_ok_def gq_list_def)
  then show ?thesis
    using mq_push_effect [of "w\<lparr>ctxs := x\<rparr>" xs B a q m] assms by (simp add: world_ok_fields)
qed

lemma srv_okD:
  assumes "srv_ok w xs B"
  shows "world_ok w xs B" "hs_ok (ctx_handle_map w) (H w)" "names_ok (H w)"
  using assms by (simp_all add: srv_ok_def)

lemma srv_ok_ctx:
  assumes "srv_ok w xs B" "ctxs w c = Some ctx"
  shows "c < ctx_brk w" "0 < c_ref ctx" "\<exists>q. mqs w (c_queue ctx) = Some q \<and> q_release q = 0"
  using assms by (auto simp: srv_ok_def)

text \<open>Putting a message into the queue of one context keeps the invariant and all else.\<close>

lemma srv_ok_queues:
  assumes w: "srv_ok w xs B" and a: "mqs w a = Some q" "q_release q = 0"
    and h: "same_queues ((mqs w)(a \<mapsto> q')) h" "q_release q' = 0" "world_ok (w\<lparr>mqs := h, gq := g\<rparr>) ys B"
  shows "srv_ok (w\<lparr>mqs := h, gq := g\<rparr>) ys B"
proof -
  have keep: "\<exists>q. h b = Some q \<and> q_release q = 0" if "mqs w b = Some p" "q_release p = 0" for b p
  proof -
    have "\<exists>p'. ((mqs w)(a \<mapsto> q')) b = Some p' \<and> q_release p' = 0" using that h(2) by auto
    then show ?thesis using same_queues_list(2) [OF h(1), of b] by fastforce
  qed
  have ctx: "\<exists>q. h (c_queue ctx) = Some q \<and> q_release q = 0" if "ctxs w c = Some ctx" for c ctx
    using srv_ok_ctx(3) [OF w that] keep by blast
  have "ctx_handle_map (w\<lparr>mqs := h, gq := g\<rparr>) = ctx_handle_map w" by (rule ctx_handle_map_cong) simp
  then show ?thesis using w h(3) ctx unfolding srv_ok_def by simp
qed

lemma mailbox_Some:
  assumes w: "srv_ok w xs B"
  shows "mailbox w h = Some ms \<longleftrightarrow>
    (\<exists>c ctx q. c \<in> members (H w) \<and> ctxs w c = Some ctx \<and> c_handle ctx = h \<and>
       mqs w (c_queue ctx) = Some q \<and> mq_list q = ms)"
proof -
  obtain r where r: "skynet_handle_grab (ctx_handle_map w) h (H w) = Inr r"
      "\<forall>c. r = Some c \<longleftrightarrow> c \<in> members (H w) \<and> ctx_handle_map w c = Some h"
    using grab_iff [OF srv_okD(2) [OF w]] by blast
  show ?thesis
  proof (cases r)
    case None
    then show ?thesis using r by (auto simp: mailbox_def)
  next
    case (Some c)
    then have c: "c \<in> members (H w)" "ctx_handle_map w c = Some h"
        "\<forall>d. d \<in> members (H w) \<and> ctx_handle_map w d = Some h \<longrightarrow> d = c"
      using r(2) by (metis option.inject)+
    obtain ctx where ctx: "ctxs w c = Some ctx" "c_handle ctx = h" using c(2) by auto
    have "mailbox w h = map_option mq_list (mqs w (c_queue ctx))" using r(1) Some ctx by (simp add: mailbox_def)
    then have "mailbox w h = Some ms \<longleftrightarrow> (\<exists>q. mqs w (c_queue ctx) = Some q \<and> mq_list q = ms)" by auto
    moreover have "d = c" if "d \<in> members (H w)" "ctxs w d = Some y" "c_handle y = h" for d y
      using c(3) that by (metis ctx_handle_map_Some)
    ultimately show ?thesis using c(1) ctx by (metis option.inject)
  qed
qed

lemma mailbox_None:
  assumes w: "srv_ok w xs B"
  shows "mailbox w h = None \<longleftrightarrow> skynet_handle_grab (ctx_handle_map w) h (H w) = Inr None"
proof -
  obtain r where r: "skynet_handle_grab (ctx_handle_map w) h (H w) = Inr r"
      "\<forall>c. r = Some c \<longleftrightarrow> c \<in> members (H w) \<and> ctx_handle_map w c = Some h"
    using grab_iff [OF srv_okD(2) [OF w]] by blast
  have "mailbox w h \<noteq> None" if c: "r = Some c" for c
  proof -
    obtain ctx where "ctxs w c = Some ctx" using r c by auto
    then show ?thesis using r c srv_ok_ctx(3) [OF w, of c ctx] by (auto simp: mailbox_def)
  qed
  then show ?thesis using r by (cases r) (auto simp: mailbox_def)
qed

text \<open>A message to a service ends up in its mailbox, and in no other.\<close>

lemma mailbox_push:
  assumes w: "srv_ok w xs B" and c: "c \<in> members (H w)" "ctxs w c = Some ctx"
    and q: "mqs w (c_queue ctx) = Some q"
    and h: "same_queues ((mqs w)(c_queue ctx \<mapsto> q')) h" "mq_list q' = ms"
  shows "mailbox (w\<lparr>mqs := h, gq := g\<rparr>) = (mailbox w)(c_handle ctx \<mapsto> ms)"
proof
  fix k
  let ?w = "w\<lparr>mqs := h, gq := g\<rparr>"
  have chm: "ctx_handle_map ?w = ctx_handle_map w" by (rule ctx_handle_map_cong) simp
  obtain r where r: "skynet_handle_grab (ctx_handle_map w) k (H w) = Inr r"
      "\<forall>c. r = Some c \<longleftrightarrow> c \<in> members (H w) \<and> ctx_handle_map w c = Some k"
    using grab_iff [OF srv_okD(2) [OF w]] by blast
  show "mailbox ?w k = ((mailbox w)(c_handle ctx \<mapsto> ms)) k"
  proof (cases "k = c_handle ctx")
    case True
    then have "r = Some c" using r c by auto
    moreover obtain n where "h (c_queue ctx) = Some (q'\<lparr>q_next := n\<rparr>)"
      using same_queues_list(2) [OF h(1), of "c_queue ctx" q'] by auto
    ultimately show ?thesis using True r(1) c h(2) by (simp add: mailbox_def chm)
  next
    case False
    have "map_option mq_list (h (c_queue x)) = map_option mq_list (mqs w (c_queue x))"
      if "r = Some d" "ctxs w d = Some x" for d x
    proof -
      have "d \<noteq> c" using that r(2) c False by auto
      then have "c_queue x \<noteq> c_queue ctx" using w that c unfolding srv_ok_def by blast
      then show ?thesis using same_queues_list(1) [OF h(1), of "c_queue x"] by simp
    qed
    then show ?thesis using False r(1) by (auto simp: mailbox_def chm split: option.splits)
  qed
qed

lemma grab_release:
  assumes "ctxs w c = Some ctx" "0 < c_ref ctx" "ctxs w' = (ctxs w)(c \<mapsto> ctx\<lparr>c_ref := c_ref ctx + 1\<rparr>)"
  shows "skynet_context_release V c w' = Inr (Some c, w'\<lparr>ctxs := ctxs w\<rparr>)"
  using assms by (auto simp: skynet_context_release_def fun_upd_idem)

lemma context_push_ok:
  assumes w: "srv_ok w xs B" and mb: "mailbox w h = Some ms" and room: "length ms < mq_limit"
  shows "\<exists>hq g ys. skynet_context_push V h m w = Inr (0, w\<lparr>mqs := hq, gq := g\<rparr>) \<and>
     srv_ok (w\<lparr>mqs := hq, gq := g\<rparr>) ys B \<and> mailbox (w\<lparr>mqs := hq, gq := g\<rparr>) = (mailbox w)(h \<mapsto> ms @ [m]) \<and>
     (\<forall>a q. mqs w a = Some q \<and> q_release q \<noteq> 0 \<longrightarrow> (\<exists>n. hq a = Some (q\<lparr>q_next := n\<rparr>)))"
proof -
  obtain c ctx q where c: "c \<in> members (H w)" "ctxs w c = Some ctx" "c_handle ctx = h"
      "mqs w (c_queue ctx) = Some q" "mq_list q = ms"
    using mb mailbox_Some [OF w] by blast
  have ref: "0 < c_ref ctx" and rel: "q_release q = 0" using srv_ok_ctx [OF w c(2)] c(4) by auto
  have grab: "skynet_handle_grab (ctx_handle_map w) h (H w) = Inr (Some c)"
    using grab_eqI [OF srv_okD(2) [OF w] c(1)] c by simp
  let ?w1 = "w\<lparr>ctxs := (ctxs w)(c \<mapsto> ctx\<lparr>c_ref := c_ref ctx + 1\<rparr>)\<rparr>"
  have hg: "handle_grab h w = Inr (Some c, ?w1)"
    using grab c by (simp add: handle_grab_def skynet_context_grab_def ctx_update_def)
  have len: "skynet_mq_length q < mq_limit" using room c(5) by (metis length_mq_list)
  obtain hq g q' where push: "skynet_mq_push (c_queue ctx) m ?w1 = Inr (?w1\<lparr>mqs := hq, gq := g\<rparr>)"
      and wok: "world_ok (w\<lparr>mqs := hq, gq := g\<rparr>) (if c_queue ctx \<in> set xs \<union> B then xs else xs @ [c_queue ctx]) B"
      and sq: "same_queues ((mqs w)(c_queue ctx \<mapsto> q')) hq" "mq_list q' = mq_list q @ [m]" "q_release q' = 0"
    using mq_push_ctx [OF srv_okD(1) [OF w] c(4) rel len] by blast
  let ?w2 = "w\<lparr>mqs := hq, gq := g\<rparr>"
  have "skynet_context_push V h m w = Inr (0, ?w2)"
    using hg push c grab_release [OF c(2) ref, of "?w1\<lparr>mqs := hq, gq := g\<rparr>" V] by (simp add: skynet_context_push_def)
  moreover have "srv_ok ?w2 (if c_queue ctx \<in> set xs \<union> B then xs else xs @ [c_queue ctx]) B"
    by (rule srv_ok_queues [OF w c(4) rel sq(1,3) wok])
  moreover have "mailbox ?w2 = (mailbox w)(h \<mapsto> ms @ [m])"
    using mailbox_push [OF w c(1,2,4) sq(1,2), of g] c by simp
  moreover have "\<exists>n. hq a = Some (p\<lparr>q_next := n\<rparr>)" if "mqs w a = Some p" "q_release p \<noteq> 0" for a p
  proof -
    have "a \<noteq> c_queue ctx" using that c(4) rel by auto
    then show ?thesis using same_queues_list(2) [OF sq(1), of a p] that by simp
  qed
  ultimately show ?thesis by blast
qed

lemma context_push_none:
  assumes "srv_ok w xs B" "mailbox w h = None"
  shows "skynet_context_push V h m w = Inr (-1, w)"
  using assms mailbox_None [OF assms(1)] by (simp add: skynet_context_push_def handle_grab_def)

end
