(* ===== verification/Messaging.thy ===== *)
theory Messaging
  imports Server
begin

text \<open>
  What \<^verbatim>\<open>skynet_send\<close> does on each of its branches, seen through the mailboxes of
  the services: delivery to a local service, to an unknown one and through the
  harbor; and what becomes of the messages of a service that is gone.
\<close>

section \<open>Type and size share one word\<close>

lemma mask56: "MESSAGE_TYPE_MASK = Bit_Operations.mask 56"
  by (simp add: MESSAGE_TYPE_MASK_def mask_eq_exp_minus_1)

lemma packed_size:
  assumes "sz AND MESSAGE_TYPE_MASK = sz"
  shows "(sz OR push_bit MESSAGE_TYPE_SHIFT t) AND MESSAGE_TYPE_MASK = sz"
proof (rule bit_word_eqI)
  fix n assume "n < LENGTH(64)"
  have "bit sz n \<longleftrightarrow> bit sz n \<and> n < 56" using arg_cong [OF assms, of "\<lambda>x. bit x n"] by (auto simp: mask56 bit_simps)
  then show "bit ((sz OR push_bit MESSAGE_TYPE_SHIFT t) AND MESSAGE_TYPE_MASK) n = bit sz n"
    by (auto simp: mask56 bit_simps MESSAGE_TYPE_SHIFT_def)
qed

lemma packed_type:
  assumes "sz AND MESSAGE_TYPE_MASK = sz"
  shows "drop_bit MESSAGE_TYPE_SHIFT (sz OR push_bit MESSAGE_TYPE_SHIFT (t AND 0xff)) = t AND 0xff"
proof (rule bit_word_eqI)
  fix n assume n: "n < LENGTH(64)"
  have "\<not> bit sz (n + 56)" using arg_cong [OF assms, of "\<lambda>x. bit x (n + 56)"] by (auto simp: mask56 bit_simps)
  moreover have ff: "(0xff :: u64) = Bit_Operations.mask 8" by (simp add: mask_eq_exp_minus_1)
  ultimately show "bit (drop_bit MESSAGE_TYPE_SHIFT (sz OR push_bit MESSAGE_TYPE_SHIFT (t AND 0xff))) n = bit (t AND 0xff) n"
    using n unfolding ff MESSAGE_TYPE_SHIFT_def by (auto simp: bit_simps add.commute simp del: push_bit_and)
qed

section \<open>The heap of message data\<close>

lemma mailbox_mem [simp]: "mailbox (w\<lparr>mem := f, mem_brk := b\<rparr>) = mailbox w" "mailbox (w\<lparr>mem := f\<rparr>) = mailbox w"
  "mailbox (w\<lparr>mem_brk := b\<rparr>) = mailbox w"
  by (auto simp: mailbox_def fun_eq_iff ctx_handle_map_def split: sum.splits option.splits)

lemma srv_ok_malloc:
  assumes "srv_ok w xs B"
  shows "srv_ok (w\<lparr>mem := (mem w)(mem_brk w \<mapsto> d), mem_brk := mem_brk w + 1\<rparr>) xs B" "mem w (mem_brk w) = None"
proof -
  have m: "0 < a \<and> a < mem_brk w" if "mem w a = Some y" for a y
    using assms that unfolding srv_ok_def by blast
  show "srv_ok (w\<lparr>mem := (mem w)(mem_brk w \<mapsto> d), mem_brk := mem_brk w + 1\<rparr>) xs B"
    using assms by (auto simp: srv_ok_def world_ok_def gq_list_def ctx_handle_map_def dest: m)
  have "mem_brk w \<notin> dom (mem w)" using assms unfolding srv_ok_def by blast
  then show "mem w (mem_brk w) = None" by blast
qed

lemma srv_ok_free:
  assumes "srv_ok w xs B"
  shows "srv_ok (w\<lparr>mem := (mem w)(a := None)\<rparr>) xs B"
  using assms by (auto simp: srv_ok_def world_ok_def gq_list_def ctx_handle_map_def)

definition plain_type :: "u64 \<Rightarrow> bool" where
  "plain_type type \<longleftrightarrow> type AND PTYPE_TAG_DONTCOPY = 0 \<and> type AND PTYPE_TAG_ALLOCSESSION = 0"

lemma filter_args_copy:
  assumes "plain_type type" "data \<noteq> 0" "mem w data = Some (Bytes bs)" "unat sz \<le> length bs"
  shows "filter_args context type session data sz w =
     Inr (session, mem_brk w, sz OR push_bit MESSAGE_TYPE_SHIFT (type AND 0xff),
          w\<lparr>mem := (mem w)(mem_brk w \<mapsto> Bytes (take (unat sz) bs @ [0])), mem_brk := mem_brk w + 1\<rparr>)"
  using assms by (simp add: filter_args_def plain_type_def read_bytes_def skynet_malloc_def Let_def)

lemma filter_args_null:
  assumes "type AND PTYPE_TAG_ALLOCSESSION = 0"
  shows "filter_args context type session 0 sz w = Inr (session, 0, sz OR push_bit MESSAGE_TYPE_SHIFT (type AND 0xff), w)"
  using assms by (simp add: filter_args_def Let_def)

section \<open>Delivery\<close>

definition is_local :: "server \<Rightarrow> u32 \<Rightarrow> bool" where
  "is_local w h \<longleftrightarrow> h AND NOT HANDLE_MASK = HARBOR w \<or> h AND NOT HANDLE_MASK = 0"

lemma isremote_ok:
  assumes "srv_ok w xs B"
  shows "skynet_harbor_message_isremote h w = Inr (\<not> is_local w h)"
  using assms by (simp add: skynet_harbor_message_isremote_def is_local_def srv_ok_def Let_def)

lemma is_local_mem [simp]: "is_local (w\<lparr>mem := f, mem_brk := b\<rparr>) h = is_local w h" "is_local (w\<lparr>mem := f\<rparr>) h = is_local w h"
  by (simp_all add: is_local_def)

lemma send_local_copied:
  assumes w: "srv_ok w xs B" and mb: "mailbox w dest = Some ms" "length ms < mq_limit"
    and d: "dest \<noteq> 0" "is_local w dest" "source \<noteq> 0" and sz: "sz AND MESSAGE_TYPE_MASK = sz"
    and fa: "filter_args context type session data sz w = Inr (session', data', sz', w\<lparr>mem := f, mem_brk := b\<rparr>)"
    and w1: "srv_ok (w\<lparr>mem := f, mem_brk := b\<rparr>) xs B"
  shows "\<exists>w' ys. skynet_send V context source dest type session data sz w = Inr (session', w') \<and> srv_ok w' ys B \<and>
     mem w' = f \<and>
     mailbox w' = (mailbox w)(dest \<mapsto> ms @ [\<lparr>msg_source = source, msg_session = session', msg_data = data', msg_sz = sz'\<rparr>])"
proof -
  let ?w = "w\<lparr>mem := f, mem_brk := b\<rparr>"
  let ?m = "\<lparr>msg_source = source, msg_session = session', msg_data = data', msg_sz = sz'\<rparr>"
  obtain hq g ys where p: "skynet_context_push V dest ?m ?w = Inr (0, ?w\<lparr>mqs := hq, gq := g\<rparr>)"
      "srv_ok (?w\<lparr>mqs := hq, gq := g\<rparr>) ys B"
      "mailbox (?w\<lparr>mqs := hq, gq := g\<rparr>) = (mailbox ?w)(dest \<mapsto> ms @ [?m])"
    using context_push_ok [OF w1, of dest ms V ?m] mb by auto
  have "skynet_send V context source dest type session data sz w = Inr (session', ?w\<lparr>mqs := hq, gq := g\<rparr>)"
    using sz fa d isremote_ok [OF w1, of dest] p(1) by (simp add: skynet_send_def)
  then show ?thesis using p(2,3) by (intro exI [of _ "?w\<lparr>mqs := hq, gq := g\<rparr>"] exI [of _ ys]) simp
qed


text \<open>
  C14. Sending to a local service: the caller's data is copied to a fresh block
  with a final zero, the message with the sender's handle, the session, the
  block and the packed type and size is appended to the mailbox of the
  destination, no other mailbox changes, and the receiver's unpacking gives back
  the type and the size.
\<close>

theorem send_local:
  assumes "srv_ok w xs B" and "mailbox w dest = Some ms" and "length ms < mq_limit"
    and "dest \<noteq> 0" and "is_local w dest" and "source \<noteq> 0" and "sz AND MESSAGE_TYPE_MASK = sz"
    and "plain_type type" and "mem w data = Some (Bytes bs)" and "unat sz \<le> length bs"
  shows "\<exists>w' ys a m. skynet_send V context source dest type session data sz w = Inr (session, w') \<and> srv_ok w' ys B \<and>
     a \<notin> dom (mem w) \<and> mem w' = (mem w)(a \<mapsto> Bytes (take (unat sz) bs @ [0])) \<and>
     mailbox w' = (mailbox w)(dest \<mapsto> ms @ [m]) \<and>
     msg_source m = source \<and> msg_session m = session \<and> msg_data m = a \<and>
     msg_sz m AND MESSAGE_TYPE_MASK = sz \<and> drop_bit MESSAGE_TYPE_SHIFT (msg_sz m) = type AND 0xff"
proof -
  let ?f = "(mem w)(mem_brk w \<mapsto> Bytes (take (unat sz) bs @ [0]))"
  let ?m = "\<lparr>msg_source = source, msg_session = session, msg_data = mem_brk w,
      msg_sz = sz OR push_bit MESSAGE_TYPE_SHIFT (type AND 0xff)\<rparr>"
  have "data \<noteq> 0" using assms(1,9) unfolding srv_ok_def by (metis domI less_irrefl)
  note fa = filter_args_copy [OF assms(8) this assms(9,10), of "context" session]
  obtain w' ys where "skynet_send V context source dest type session data sz w = Inr (session, w')" "srv_ok w' ys B"
      "mem w' = ?f" "mailbox w' = (mailbox w)(dest \<mapsto> ms @ [?m])"
    using send_local_copied [OF assms(1-7) fa srv_ok_malloc(1) [OF assms(1)], of V] by blast
  then show ?thesis
    using srv_ok_malloc(2) [OF assms(1)] packed_size [OF assms(7), of "type AND 0xff"] packed_type [OF assms(7), of type]
    by (intro exI [of _ w'] exI [of _ ys] exI [of _ "mem_brk w"] exI [of _ ?m]) auto
qed

text \<open>A server with one service, under handle 2, and a block of message data.\<close>

definition one_service :: server where
  "one_service =
     \<lparr>mqs = [0 \<mapsto> skynet_mq_new 2], gq = \<lparr>gq_head = None, gq_tail = None\<rparr>, mq_brk = 1,
      ctxs = [5 \<mapsto> \<lparr>c_instance = 1, c_mod = 0, c_cb_ud = 0, c_cb = None, c_queue = 0, c_logfile = None,
                     c_cpu_cost = 0, c_cpu_start = 0, c_result = [], c_handle = 2, c_session_id = 0, c_ref = 1,
                     c_message_count = 0, c_init = True, c_endless = False, c_profile = False\<rparr>],
      ctx_brk = 6, H = table_of 4 [None, None, Some 5, None] 3,
      G_NODE = \<lparr>n_total = 1, n_init = True, n_monitor_exit = 0, n_handle_key = 0, n_profile = False\<rparr>,
      REMOTE = Some 5, HARBOR = 0, TI = timer_create_timer, M = skynet_module_init [], E = Map.empty, logger = 0,
      mem = [1 \<mapsto> Bytes [1, 2, 3]], mem_brk = 2\<rparr>"

lemma one_service_ok: "srv_ok one_service [] {0}" and one_service_mailbox: "mailbox one_service 2 = Some []"
    "mailbox one_service 3 = None"
proof -
  let ?ch = "ctx_handle_map one_service" and ?s = "table_of 4 [None, None, Some 5, None] 3"
  have four: "k < 4 \<longleftrightarrow> k = 0 \<or> k = 1 \<or> k = 2 \<or> k = 3" for k :: nat by arith
  have ch: "?ch = [5 \<mapsto> 2]" by (auto simp: ctx_handle_map_def one_service_def)
  have sh: "slot_hash 4 2 = 2" "slot_hash 4 3 = 3" by (simp_all add: slot_hash_def)
  have hs: "hs_ok [5 \<mapsto> 2] ?s"
    using init_hs_ok [of "[5 \<mapsto> 2]" 0] sh unfolding hs_ok_def
    by (auto simp: four skynet_handle_init_def DEFAULT_SLOT_SIZE_def)
  have nm: "names_ok ?s" using init_names(1) [of 0] by (simp add: names_ok_def names_list_def)
  have hb: "hs_harbor ?s = 0" by (simp add: skynet_handle_init_def)
  show "srv_ok one_service [] {0}"
    unfolding srv_ok_def ch using hs nm hb
    by (auto simp: one_service_def world_ok_def gq_list_def queue_ok_def MQ_IN_GLOBAL_def split: if_splits)
  show "mailbox one_service 2 = Some []" "mailbox one_service 3 = None"
    unfolding mailbox_def ch by (simp_all add: one_service_def skynet_handle_grab_def sh)
qed

theorem send_local_witness:
  "\<exists>w' ys a m. skynet_send idle_services None 9 2 10 77 1 2 one_service = Inr (77, w') \<and> srv_ok w' ys {0} \<and>
     mem w' = (mem one_service)(a \<mapsto> Bytes [1, 2, 0]) \<and> mailbox w' 2 = Some [m] \<and> msg_session m = 77 \<and>
     drop_bit MESSAGE_TYPE_SHIFT (msg_sz m) = 10"
proof -
  have "\<exists>w' ys a m. skynet_send idle_services None 9 2 10 77 1 2 one_service = Inr (77, w') \<and> srv_ok w' ys {0} \<and>
     a \<notin> dom (mem one_service) \<and> mem w' = (mem one_service)(a \<mapsto> Bytes (take (unat (2 :: u64)) [1, 2, 3] @ [0])) \<and>
     mailbox w' = (mailbox one_service)(2 \<mapsto> [] @ [m]) \<and>
     msg_source m = 9 \<and> msg_session m = 77 \<and> msg_data m = a \<and>
     msg_sz m AND MESSAGE_TYPE_MASK = 2 \<and> drop_bit MESSAGE_TYPE_SHIFT (msg_sz m) = 10 AND 0xff"
    by (rule send_local [OF one_service_ok one_service_mailbox(1)])
      (simp_all add: mq_limit_def is_local_def one_service_def HANDLE_MASK_def MESSAGE_TYPE_MASK_def mask_eq_exp_minus_1 plain_type_def
        PTYPE_TAG_DONTCOPY_def PTYPE_TAG_ALLOCSESSION_def)
  then show ?thesis by fastforce
qed

text \<open>
  Sending to a local handle that no service has: the sender gets -1, no mailbox
  changes, and the copy of the data is freed again.
\<close>

theorem send_unknown:
  assumes "srv_ok w xs B" and "mailbox w dest = None"
    and "dest \<noteq> 0" and "is_local w dest" and "source \<noteq> 0" and "sz AND MESSAGE_TYPE_MASK = sz"
    and "plain_type type" and "mem w data = Some (Bytes bs)" and "unat sz \<le> length bs"
  shows "\<exists>w'. skynet_send V context source dest type session data sz w = Inr (-1, w') \<and> srv_ok w' xs B \<and>
     mem w' = mem w \<and> mailbox w' = mailbox w"
proof -
  let ?w = "w\<lparr>mem := (mem w)(mem_brk w \<mapsto> Bytes (take (unat sz) bs @ [0])), mem_brk := mem_brk w + 1\<rparr>"
  let ?w' = "w\<lparr>mem := mem w, mem_brk := mem_brk w + 1\<rparr>"
  have "data \<noteq> 0" using assms(1,8) unfolding srv_ok_def by (metis domI less_irrefl)
  note fa = filter_args_copy [OF assms(7) this assms(8,9), of "context" session]
  have w1: "srv_ok ?w xs B" and fresh: "mem w (mem_brk w) = None" using srv_ok_malloc [OF assms(1)] by auto
  have none: "mailbox ?w dest = None" using assms(2) by simp
  have "(mem w)(mem_brk w := None) = mem w" using fresh by (simp add: fun_upd_idem)
  moreover have "mem_brk w \<noteq> 0" using assms(1) by (simp add: srv_ok_def)
  ultimately have "skynet_send V context source dest type session data sz w = Inr (-1, ?w')"
    using fa assms(3-6) isremote_ok [OF w1, of dest] context_push_none [OF w1 none]
    by (simp add: skynet_send_def skynet_free_def)
  moreover have "srv_ok ?w' xs B"
    using srv_ok_free [OF w1, of "mem_brk w"] \<open>(mem w)(mem_brk w := None) = mem w\<close> by simp
  ultimately show ?thesis by (intro exI [of _ ?w']) simp
qed


theorem send_unknown_witness:
  "\<exists>w'. skynet_send idle_services None 9 3 10 77 1 2 one_service = Inr (-1, w') \<and> srv_ok w' [] {0} \<and>
     mem w' = mem one_service \<and> mailbox w' = mailbox one_service"
  by (rule send_unknown [OF one_service_ok one_service_mailbox(2), where bs = "[1, 2, 3]"])
    (simp_all add: is_local_def one_service_def HANDLE_MASK_def MESSAGE_TYPE_MASK_def mask_eq_exp_minus_1 plain_type_def
      PTYPE_TAG_DONTCOPY_def PTYPE_TAG_ALLOCSESSION_def)


text \<open>
  Sending to a handle of another node: the copy of the data is wrapped in a
  remote message that carries the destination, the size and the type, and a
  pointer to it is appended to the queue of the harbor service.
\<close>

lemma send_remote:
  assumes w: "srv_ok w xs B" and c: "REMOTE w = Some c" "ctxs w c = Some ctx" "mqs w (c_queue ctx) = Some q"
    and room: "length (mq_list q) < mq_limit"
    and d: "dest \<noteq> 0" "\<not> is_local w dest" "source \<noteq> 0" and sz: "sz AND MESSAGE_TYPE_MASK = sz"
    and ty: "plain_type type" "type AND 0xff \<noteq> PTYPE_SYSTEM" "type AND 0xff \<noteq> PTYPE_HARBOR"
    and data: "mem w data = Some (Bytes bs)" "unat sz \<le> length bs"
  shows "\<exists>w' ys a r q'. skynet_send V context source dest type session data sz w = Inr (session, w') \<and> srv_ok w' ys B \<and>
     mqs w' (c_queue ctx) = Some q' \<and>
     mq_list q' = mq_list q @ [\<lparr>msg_source = source, msg_session = session, msg_data = r,
                                 msg_sz = sizeof_remote_message OR push_bit MESSAGE_TYPE_SHIFT PTYPE_SYSTEM\<rparr>] \<and>
     mem w' a = Some (Bytes (take (unat sz) bs @ [0])) \<and>
     mem w' r = Some (Remote \<lparr>rm_name = [], rm_handle = dest, rm_message = a, rm_sz = sz, rm_type = type AND 0xff\<rparr>)"
proof -
  let ?a = "mem_brk w" and ?r = "mem_brk w + 1"
  let ?rm = "\<lparr>rm_name = [], rm_handle = dest, rm_message = ?a, rm_sz = sz, rm_type = type AND 0xff\<rparr>"
  let ?w1 = "w\<lparr>mem := (mem w)(?a \<mapsto> Bytes (take (unat sz) bs @ [0])), mem_brk := ?r\<rparr>"
  let ?w2 = "?w1\<lparr>mem := (mem ?w1)(?r \<mapsto> Remote ?rm), mem_brk := ?r + 1\<rparr>"
  let ?m = "\<lparr>msg_source = source, msg_session = session, msg_data = ?r,
      msg_sz = sizeof_remote_message OR push_bit MESSAGE_TYPE_SHIFT PTYPE_SYSTEM\<rparr>"
  have "data \<noteq> 0" using w data unfolding srv_ok_def by (metis domI less_irrefl)
  note fa = filter_args_copy [OF ty(1) this data, of "context" session]
  have w1: "srv_ok ?w1 xs B" using srv_ok_malloc(1) [OF w] by simp
  have w2: "srv_ok ?w2 xs B" using srv_ok_malloc(1) [OF w1, of "Remote ?rm"] by simp
  have q: "mqs ?w2 (c_queue ctx) = Some q" "q_release q = 0" "skynet_mq_length q < mq_limit"
    using c srv_ok_ctx(3) [OF w c(2)] room by auto
  obtain hq g q1 where p: "skynet_mq_push (c_queue ctx) ?m ?w2 = Inr (?w2\<lparr>mqs := hq, gq := g\<rparr>)"
      and wok: "world_ok (?w2\<lparr>mqs := hq, gq := g\<rparr>) (if c_queue ctx \<in> set xs \<union> B then xs else xs @ [c_queue ctx]) B"
      and sq: "same_queues ((mqs ?w2)(c_queue ctx \<mapsto> q1)) hq" "mq_list q1 = mq_list q @ [?m]" "q_release q1 = 0"
    using mq_push_effect [OF srv_okD(1) [OF w2] q, of ?m] by blast
  have ok: "srv_ok (?w2\<lparr>mqs := hq, gq := g\<rparr>) (if c_queue ctx \<in> set xs \<union> B then xs else xs @ [c_queue ctx]) B"
    by (rule srv_ok_queues [OF w2 q(1,2) sq(1,3) wok])
  obtain n where "hq (c_queue ctx) = Some (q1\<lparr>q_next := n\<rparr>)"
    using same_queues_list(2) [OF sq(1), of "c_queue ctx" q1] by auto
  moreover have "invalid_type (type AND 0xff)" using ty by (simp add: invalid_type_def)
  then have "skynet_harbor_send ?r source session ?w2 = Inr (?w2\<lparr>mqs := hq, gq := g\<rparr>)"
    using c p by (simp add: skynet_harbor_send_def skynet_context_send_def)
  then have "skynet_send V context source dest type session data sz w = Inr (session, ?w2\<lparr>mqs := hq, gq := g\<rparr>)"
    using sz fa d isremote_ok [OF w1, of dest] packed_size [OF sz, of "type AND 0xff"] packed_type [OF sz, of type]
    by (simp add: skynet_send_def skynet_malloc_def)
  ultimately show ?thesis
    using ok sq(2) by (intro exI [of _ "?w2\<lparr>mqs := hq, gq := g\<rparr>"] exI [of _ ?a] exI [of _ ?r]) auto
qed

text \<open>
  A message to handle 0 is not delivered, yet its data is copied first: the
  call returns the session and the copy is lost, nothing points to it.
\<close>

theorem send_zero_leaks:
  assumes "srv_ok w xs B" and "source \<noteq> 0" and "sz AND MESSAGE_TYPE_MASK = sz"
    and "plain_type type" and "mem w data = Some (Bytes bs)" and "unat sz \<le> length bs"
  shows "\<exists>w' a. skynet_send V context source 0 type session data sz w = Inr (session, w') \<and>
     a \<notin> dom (mem w) \<and> mem w' a = Some (Bytes (take (unat sz) bs @ [0])) \<and>
     mqs w' = mqs w \<and> ctxs w' = ctxs w \<and> TI w' = TI w"
proof -
  have "data \<noteq> 0" using assms(1,5) unfolding srv_ok_def by (metis domI less_irrefl)
  note fa = filter_args_copy [OF assms(4) this assms(5,6), of "context" session]
  show ?thesis using fa assms(2,3) srv_ok_malloc(2) [OF assms(1)] by (auto simp: skynet_send_def)
qed

theorem send_zero_leaks_witness:
  "\<exists>w' a. skynet_send idle_services None 9 0 10 77 1 2 one_service = Inr (77, w') \<and>
     a \<notin> dom (mem one_service) \<and> mem w' a = Some (Bytes (take (unat (2 :: u64)) [1, 2, 3] @ [0])) \<and>
     mqs w' = mqs one_service \<and> ctxs w' = ctxs one_service \<and> TI w' = TI one_service"
  by (rule send_zero_leaks [OF one_service_ok])
    (simp_all add: one_service_def MESSAGE_TYPE_MASK_def mask_eq_exp_minus_1 plain_type_def
      PTYPE_TAG_DONTCOPY_def PTYPE_TAG_ALLOCSESSION_def)


section \<open>The messages of a service that is gone\<close>

text \<open>A queue that is marked for release belongs to no context any more.\<close>

lemma srv_ok_marked:
  assumes w: "srv_ok w xs B" and a: "mqs w a = Some q" "q_release q \<noteq> 0"
    and wok: "world_ok (w\<lparr>mqs := (mqs w)(a := v)\<rparr>) ys C"
  shows "srv_ok (w\<lparr>mqs := (mqs w)(a := v)\<rparr>) ys C" "mailbox (w\<lparr>mqs := (mqs w)(a := v)\<rparr>) = mailbox w"
proof -
  let ?w = "w\<lparr>mqs := (mqs w)(a := v)\<rparr>"
  have ne: "c_queue ctx \<noteq> a" if "ctxs w c = Some ctx" for c ctx using srv_ok_ctx(3) [OF w that] a by auto
  have chm: "ctx_handle_map ?w = ctx_handle_map w" by (rule ctx_handle_map_cong) simp
  have "\<exists>q. mqs ?w (c_queue ctx) = Some q \<and> q_release q = 0" if "ctxs w c = Some ctx" for c ctx
    using srv_ok_ctx(3) [OF w that] ne [OF that] by simp
  then show "srv_ok ?w ys C" using w wok unfolding srv_ok_def chm by simp
  show "mailbox ?w = mailbox w"
    using ne by (auto simp: mailbox_def chm fun_eq_iff split: sum.splits option.splits)
qed

definition error_reply :: "u32 \<Rightarrow> skynet_message" where
  "error_reply h = \<lparr>msg_source = h, msg_session = 0, msg_data = 0, msg_sz = push_bit MESSAGE_TYPE_SHIFT PTYPE_ERROR\<rparr>"

text \<open>The mailboxes after each sender of \<open>ms\<close> (other than handle 0) got one error reply per message.\<close>

definition replied :: "u32 \<Rightarrow> skynet_message list \<Rightarrow> (u32 \<rightharpoonup> skynet_message list) \<Rightarrow> (u32 \<rightharpoonup> skynet_message list)" where
  "replied h ms mb =
     (\<lambda>k. map_option (\<lambda>l. l @ replicate (length (filter (\<lambda>m. msg_source m = k \<and> k \<noteq> 0) ms)) (error_reply h)) (mb k))"

definition data_free :: "skynet_message list \<Rightarrow> (addr \<rightharpoonup> data) \<Rightarrow> (addr \<rightharpoonup> data)" where
  "data_free ms f = (\<lambda>a. if a \<noteq> 0 \<and> a \<in> msg_data ` set ms then None else f a)"

lemma next_self [simp]: "\<exists>n. q = q\<lparr>q_next := n\<rparr>"
  by (rule exI [of _ "q_next q"]) simp

lemma send_error:
  assumes w: "srv_ok w xs B" and h: "h \<noteq> 0" and l: "is_local w k" and room: "\<forall>l. mailbox w k = Some l \<longrightarrow> length l < mq_limit"
  shows "\<exists>r hq g ys. skynet_send V None h k PTYPE_ERROR 0 0 0 w = Inr (r, w\<lparr>mqs := hq, gq := g\<rparr>) \<and>
     srv_ok (w\<lparr>mqs := hq, gq := g\<rparr>) ys B \<and>
     mailbox (w\<lparr>mqs := hq, gq := g\<rparr>) = (if k = 0 then mailbox w else
        (\<lambda>j. if j = k then map_option (\<lambda>l. l @ [error_reply h]) (mailbox w k) else mailbox w j)) \<and>
     (\<forall>a q. mqs w a = Some q \<and> q_release q \<noteq> 0 \<longrightarrow> (\<exists>n. hq a = Some (q\<lparr>q_next := n\<rparr>)))"
proof -
  have fa: "filter_args None PTYPE_ERROR 0 0 0 w = Inr (0, 0, push_bit MESSAGE_TYPE_SHIFT PTYPE_ERROR, w)"
    using filter_args_null [of PTYPE_ERROR None 0 0 w] by (simp add: PTYPE_ERROR_def PTYPE_TAG_ALLOCSESSION_def)
  have same: "w\<lparr>mqs := mqs w, gq := gq w\<rparr> = w" by simp
  consider "k = 0" | "k \<noteq> 0" "mailbox w k = None" | ms where "k \<noteq> 0" "mailbox w k = Some ms" by fastforce
  then show ?thesis
  proof cases
    case 1
    then have "skynet_send V None h k PTYPE_ERROR 0 0 0 w = Inr (0, w\<lparr>mqs := mqs w, gq := gq w\<rparr>)"
      using fa h by (simp add: skynet_send_def)
    then show ?thesis using w 1 unfolding same
      by (intro exI [of _ 0] exI [of _ "mqs w"] exI [of _ "gq w"] exI [of _ xs]) auto
  next
    case 2
    then have "skynet_send V None h k PTYPE_ERROR 0 0 0 w = Inr (-1, w\<lparr>mqs := mqs w, gq := gq w\<rparr>)"
      using fa h l isremote_ok [OF w, of k] context_push_none [OF w 2(2)] by (simp add: skynet_send_def skynet_free_def)
    then show ?thesis using w 2 unfolding same
      by (intro exI [of _ "-1"] exI [of _ "mqs w"] exI [of _ "gq w"] exI [of _ xs])
        (auto simp: fun_eq_iff)
  next
    case (3 ms)
    obtain hq g ys where p: "skynet_context_push V k (error_reply h) w = Inr (0, w\<lparr>mqs := hq, gq := g\<rparr>)"
        "srv_ok (w\<lparr>mqs := hq, gq := g\<rparr>) ys B"
        "mailbox (w\<lparr>mqs := hq, gq := g\<rparr>) = (mailbox w)(k \<mapsto> ms @ [error_reply h])"
        "\<forall>a q. mqs w a = Some q \<and> q_release q \<noteq> 0 \<longrightarrow> (\<exists>n. hq a = Some (q\<lparr>q_next := n\<rparr>))"
      using context_push_ok [OF w 3(2), of V "error_reply h"] room 3 by blast
    have "skynet_send V None h k PTYPE_ERROR 0 0 0 w = Inr (0, w\<lparr>mqs := hq, gq := g\<rparr>)"
      using fa h l 3 isremote_ok [OF w, of k] p(1) by (simp add: skynet_send_def error_reply_def)
    moreover have "mailbox (w\<lparr>mqs := hq, gq := g\<rparr>) = (\<lambda>j. if j = k then map_option (\<lambda>l. l @ [error_reply h]) (mailbox w k) else mailbox w j)"
      using p(3) 3 by (auto simp: fun_eq_iff)
    ultimately show ?thesis using p(2,4) 3(1) by (intro exI [of _ 0] exI [of _ hq] exI [of _ g] exI [of _ ys]) simp
  qed
qed


lemma drop_message_ok:
  assumes w: "srv_ok w xs B" and h: "h \<noteq> 0" and l: "is_local w (msg_source m)"
    and room: "\<forall>l. mailbox w (msg_source m) = Some l \<longrightarrow> length l < mq_limit"
    and d: "msg_data m = 0 \<or> msg_data m \<in> dom (mem w)"
  shows "\<exists>w' ys. drop_message V h m w = Inr w' \<and> srv_ok w' ys B \<and> mailbox w' = replied h [m] (mailbox w) \<and>
     mem w' = data_free [m] (mem w) \<and> HARBOR w' = HARBOR w \<and>
     (\<forall>a q. mqs w a = Some q \<and> q_release q \<noteq> 0 \<longrightarrow> (\<exists>n. mqs w' a = Some (q\<lparr>q_next := n\<rparr>)))"
proof -
  let ?w = "w\<lparr>mem := data_free [m] (mem w)\<rparr>"
  have free: "skynet_free (msg_data m) w = Inr ?w" and w1: "srv_ok ?w xs B"
  proof -
    have f: "data_free [m] (mem w) = (if msg_data m = 0 then mem w else (mem w)(msg_data m := None))"
      by (auto simp: data_free_def fun_eq_iff)
    then show "skynet_free (msg_data m) w = Inr ?w" using d by (auto simp: skynet_free_def)
    show "srv_ok ?w xs B" using w srv_ok_free [OF w] f by auto
  qed
  have pre: "is_local ?w (msg_source m)" "\<forall>l. mailbox ?w (msg_source m) = Some l \<longrightarrow> length l < mq_limit"
    using l room by simp_all
  obtain r hq g ys where s: "skynet_send V None h (msg_source m) PTYPE_ERROR 0 0 0 ?w = Inr (r, ?w\<lparr>mqs := hq, gq := g\<rparr>)"
      "srv_ok (?w\<lparr>mqs := hq, gq := g\<rparr>) ys B"
      "mailbox (?w\<lparr>mqs := hq, gq := g\<rparr>) = (if msg_source m = 0 then mailbox ?w else
        (\<lambda>j. if j = msg_source m then map_option (\<lambda>l. l @ [error_reply h]) (mailbox ?w (msg_source m)) else mailbox ?w j))"
      "\<forall>a q. mqs ?w a = Some q \<and> q_release q \<noteq> 0 \<longrightarrow> (\<exists>n. hq a = Some (q\<lparr>q_next := n\<rparr>))"
    using send_error [OF w1 h pre, of V] by blast
  have "mailbox (?w\<lparr>mqs := hq, gq := g\<rparr>) = replied h [m] (mailbox w)"
    unfolding s(3) replied_def by (auto simp: fun_eq_iff option.map_ident)
  moreover have "drop_message V h m w = Inr (?w\<lparr>mqs := hq, gq := g\<rparr>)"
    using free h s(1) by (simp add: drop_message_def)
  ultimately show ?thesis using s(2,4) by (intro exI [of _ "?w\<lparr>mqs := hq, gq := g\<rparr>"] exI [of _ ys]) simp
qed

lemma replied_Cons: "replied h ms (replied h [m] mb) = replied h (m # ms) mb"
proof
  fix k
  have "replicate n x @ [x] = x # replicate n x" for n and x :: skynet_message by (simp add: replicate_append_same)
  then show "replied h ms (replied h [m] mb) k = replied h (m # ms) mb k"
    by (cases "mb k") (simp_all add: replied_def)
qed

lemma data_free_Cons: "data_free ms (data_free [m] f) = data_free (m # ms) f"
  by (auto simp: data_free_def fun_eq_iff)

definition droppable :: "server \<Rightarrow> skynet_message list \<Rightarrow> bool" where
  "droppable w ms \<longleftrightarrow>
     (\<forall>m \<in> set ms. is_local w (msg_source m) \<and> (msg_data m = 0 \<or> msg_data m \<in> dom (mem w))) \<and>
     distinct (filter (\<lambda>a. a \<noteq> 0) (map msg_data ms)) \<and>
     (\<forall>k l. mailbox w k = Some l \<longrightarrow> length l + length ms \<le> mq_limit)"

lemma droppable_step:
  assumes "droppable w (m # ms)" "mem w' = data_free [m] (mem w)" "HARBOR w' = HARBOR w"
    "mailbox w' = replied h [m] (mailbox w)"
  shows "droppable w' ms"
proof -
  have loc: "is_local w' k = is_local w k" for k using assms(3) by (simp add: is_local_def)
  have "msg_data x = 0 \<or> msg_data x \<in> dom (mem w')" if x: "x \<in> set ms" for x
  proof -
    have "msg_data x = 0 \<or> msg_data x \<noteq> msg_data m"
      using assms(1) x by (auto simp: droppable_def) (metis image_eqI)
    then show ?thesis using assms(1,2) x by (auto simp: droppable_def data_free_def)
  qed
  moreover have "length l + length ms \<le> mq_limit" if mb: "mailbox w' k = Some l" for k l
  proof -
    obtain l0 where l0: "mailbox w k = Some l0" "length l \<le> length l0 + 1"
      using mb unfolding assms(4) replied_def by (auto split: if_splits)
    then show ?thesis using assms(1) unfolding droppable_def by fastforce
  qed
  ultimately show ?thesis using assms(1) loc by (auto simp: droppable_def split: if_splits)
qed

lemma drop_queue_ok:
  assumes "srv_ok w xs B" "a \<in> B" "mqs w a = Some q" "q_release q \<noteq> 0" "mq_list q = ms" "h \<noteq> 0" "droppable w ms"
  shows "\<exists>w' ys. drop_queue (drop_message V h) a w = Some (Inr w') \<and> srv_ok w' ys (B - {a}) \<and> a \<notin> dom (mqs w') \<and>
     mailbox w' = replied h ms (mailbox w) \<and> mem w' = data_free ms (mem w)"
  using assms
proof (induction ms arbitrary: w xs q)
  case Nil
  have v: "mq_valid q" using Nil world_ok_held(3) [OF srv_okD(1)] by (metis queue_ok_def)
  let ?q = "q\<lparr>q_overload_threshold := MQ_OVERLOAD, q_in_global := 0\<rparr>"
  have pop: "skynet_mq_pop q = Inr (None, ?q)" by (rule mq_pop_empty [OF v Nil.prems(5)])
  obtain w' where w': "mq_release_memory a (w\<lparr>mqs := (mqs w)(a \<mapsto> ?q)\<rparr>) = Inr w'" "world_ok w' xs (B - {a})"
    using free_ok [OF srv_okD(1) [OF Nil.prems(1)] Nil.prems(2,3) pop] by blast
  have eq: "w' = w\<lparr>mqs := (mqs w)(a := None)\<rparr>"
    using w'(1) by (auto simp: mq_release_memory_def c_assert_def split: if_splits)
  have "srv_ok w' xs (B - {a})" "mailbox w' = mailbox w"
    using srv_ok_marked [OF Nil.prems(1,3,4), of None xs "B - {a}"] w'(2) unfolding eq by auto
  moreover have "drop_queue (drop_message V h) a w = Some (Inr w')"
    using Nil.prems(3) pop w'(1) by (subst drop_queue.simps) simp
  ultimately show ?case
    using eq by (intro exI [of _ w'] exI [of _ xs]) (auto simp: replied_def data_free_def option.map_ident)
next
  case (Cons m ms)
  have v: "mq_valid q" using Cons.prems world_ok_held(3) [OF srv_okD(1)] by (metis queue_ok_def)
  obtain q1 where q1: "skynet_mq_pop q = Inr (Some m, q1)" "mq_list q1 = ms" "q_release q1 = q_release q"
  proof -
    obtain q1 hd ov th where "skynet_mq_pop q = Inr (Some m, q1)" "mq_list q1 = ms"
        "q1 = q\<lparr>q_head := hd, q_overload := ov, q_overload_threshold := th\<rparr>"
      using mq_pop_nonempty [OF v Cons.prems(5)] by blast
    then show thesis by (intro that [of q1]) simp_all
  qed
  let ?w = "w\<lparr>mqs := (mqs w)(a \<mapsto> q1)\<rparr>"
  have "world_ok ?w xs B" using pop_message_ok [OF srv_okD(1) [OF Cons.prems(1)] Cons.prems(2,3) q1(1)] .
  then have w1: "srv_ok ?w xs B" "mailbox ?w = mailbox w"
    using srv_ok_marked [OF Cons.prems(1,3,4), of "Some q1" xs B] by auto
  have d1: "is_local ?w (msg_source m)" "\<forall>l. mailbox ?w (msg_source m) = Some l \<longrightarrow> length l < mq_limit"
      "msg_data m = 0 \<or> msg_data m \<in> dom (mem ?w)"
  proof -
    have "length l < mq_limit" if "mailbox w k = Some l" for k l
      using Cons.prems(7) that unfolding droppable_def by fastforce
    then show "\<forall>l. mailbox ?w (msg_source m) = Some l \<longrightarrow> length l < mq_limit" unfolding w1(2) by blast
  qed (use Cons.prems(7) in \<open>auto simp: droppable_def is_local_def\<close>)
  obtain w2 ys where w2: "drop_message V h m ?w = Inr w2" "srv_ok w2 ys B" "mailbox w2 = replied h [m] (mailbox w)"
      "mem w2 = data_free [m] (mem w)" "HARBOR w2 = HARBOR w"
      "\<forall>b p. mqs ?w b = Some p \<and> q_release p \<noteq> 0 \<longrightarrow> (\<exists>n. mqs w2 b = Some (p\<lparr>q_next := n\<rparr>))"
    using drop_message_ok [OF w1(1) Cons.prems(6) d1, of V] w1(2) by auto
  obtain n where q2: "mqs w2 a = Some (q1\<lparr>q_next := n\<rparr>)"
    using w2(6) [rule_format, of a q1] q1(3) Cons.prems(4) by auto
  have "droppable w2 ms" by (rule droppable_step [OF Cons.prems(7) w2(4,5,3)])
  then obtain w' zs where "drop_queue (drop_message V h) a w2 = Some (Inr w')" "srv_ok w' zs (B - {a})" "a \<notin> dom (mqs w')"
      "mailbox w' = replied h ms (mailbox w2)" "mem w' = data_free ms (mem w2)"
    using Cons.IH [OF w2(2) Cons.prems(2) q2 _ _ Cons.prems(6)] q1(2,3) Cons.prems(4) by auto
  moreover have "drop_queue (drop_message V h) a w = drop_queue (drop_message V h) a w2"
    using Cons.prems(3) q1(1) w2(1) by (subst drop_queue.simps) simp
  ultimately show ?case using w2(3,4) by (auto simp: replied_Cons data_free_Cons)
qed


lemma srv_ok_relink:
  assumes w: "srv_ok w xs B" and h: "same_queues (mqs w) h" and wok: "world_ok (w\<lparr>mqs := h, gq := g\<rparr>) ys C"
  shows "srv_ok (w\<lparr>mqs := h, gq := g\<rparr>) ys C" "mailbox (w\<lparr>mqs := h, gq := g\<rparr>) = mailbox w"
proof -
  let ?w = "w\<lparr>mqs := h, gq := g\<rparr>"
  have chm: "ctx_handle_map ?w = ctx_handle_map w" by (rule ctx_handle_map_cong) simp
  have "\<exists>q. h (c_queue ctx) = Some q \<and> q_release q = 0" if "ctxs w c = Some ctx" for c ctx
    using srv_ok_ctx(3) [OF w that] same_queues_list(2) [OF h] by fastforce
  then show "srv_ok ?w ys C" using w wok unfolding srv_ok_def chm by simp
  show "mailbox ?w = mailbox w"
    using same_queues_list(1) [OF h] by (auto simp: mailbox_def chm fun_eq_iff split: sum.splits option.splits)
qed

lemma globalmq_pop_srv:
  assumes w: "srv_ok w xs B"
  shows "\<exists>nq w'. skynet_globalmq_pop w = Inr (nq, w') \<and> mailbox w' = mailbox w \<and> mem w' = mem w \<and>
    (\<forall>a. mqs w' a = None \<longleftrightarrow> mqs w a = None) \<and>
    (case nq of None \<Rightarrow> xs = [] \<and> srv_ok w' [] B | Some n \<Rightarrow> \<exists>ys. xs = n # ys \<and> srv_ok w' ys (insert n B))"
proof (cases xs)
  case Nil
  then have "skynet_globalmq_pop w = Inr (None, w)"
    using globalmq_pop_empty world_ok_list(1) [OF srv_okD(1) [OF w]] by blast
  then show ?thesis using w Nil by auto
next
  case (Cons n ys)
  have wk: "world_ok w (n # ys) B" using srv_okD(1) [OF w] Cons by simp
  obtain h g where hg: "skynet_globalmq_pop w = Inr (Some n, w\<lparr>mqs := h, gq := g\<rparr>)" "same_queues (mqs w) h"
    using globalmq_pop_cons [OF world_ok_list(1) [OF wk]] by blast
  have wok: "world_ok (w\<lparr>mqs := h, gq := g\<rparr>) ys (insert n B)" using take_queue_ok [OF wk] hg(1) by auto
  have "h a = None \<longleftrightarrow> mqs w a = None" for a
    using same_queues_list(1) [OF hg(2), of a] by (metis option.map_disc_iff)
  then show ?thesis using hg(1) srv_ok_relink [OF w hg(2) wok] Cons by auto
qed



text \<open>A marked queue of a retired service, handle 7, with a message from the service of \<open>one_service\<close>.\<close>

definition dead_queue :: message_queue where
  "dead_queue = (skynet_mq_new 7)\<lparr>q_release := 1, q_tail := 1,
     q_queue := Some \<lparr>msg_source = 2, msg_session = 4, msg_data = 1, msg_sz = 3\<rparr> # replicate 63 None\<rparr>"

definition dead_service :: server where
  "dead_service = one_service\<lparr>mqs := (mqs one_service)(1 \<mapsto> dead_queue), mq_brk := 2\<rparr>"

lemma dead_queue_list: "mq_valid dead_queue" "mq_list dead_queue = [\<lparr>msg_source = 2, msg_session = 4, msg_data = 1, msg_sz = 3\<rparr>]"
proof -
  have "skynet_mq_length dead_queue = 1" by (simp add: dead_queue_def skynet_mq_length_def skynet_mq_new_def)
  moreover have "ring_seg (q_queue dead_queue) (q_head dead_queue) 1 = [Some \<lparr>msg_source = 2, msg_session = 4, msg_data = 1, msg_sz = 3\<rparr>]"
    by (simp add: ring_seg_def dead_queue_def skynet_mq_new_def)
  ultimately show "mq_valid dead_queue" "mq_list dead_queue = [\<lparr>msg_source = 2, msg_session = 4, msg_data = 1, msg_sz = 3\<rparr>]"
    by (simp_all add: mq_valid_def mq_list_def dead_queue_def skynet_mq_new_def mq_caps_def DEFAULT_QUEUE_SIZE_def
        MQ_OVERLOAD_def)
qed

lemma dead_service_ok: "srv_ok dead_service [] {0, 1}"
  and dead_service_mailbox: "mailbox dead_service 7 = None" "\<forall>k l. mailbox dead_service k = Some l \<longrightarrow> l = []"
proof -
  have chm: "ctx_handle_map dead_service = ctx_handle_map one_service"
    by (rule ctx_handle_map_cong) (simp add: dead_service_def)
  have q: "queue_ok True dead_queue" "q_next dead_queue = None"
    using dead_queue_list by (simp_all add: queue_ok_def dead_queue_def skynet_mq_new_def)
  show ok: "srv_ok dead_service [] {0, 1}"
  proof -
    have "gq_list dead_service []" "{0, 1} \<subseteq> dom (mqs dead_service)"
      using q by (auto simp: dead_service_def one_service_def gq_list_def split: if_splits)
    moreover have "queue_ok True p" if "mqs dead_service b = Some p" for b p
      using that q by (auto simp: dead_service_def one_service_def queue_ok_def split: if_splits)
    moreover have "b \<in> {0, 1}" if "mqs dead_service b = Some p" for b p
      using that by (auto simp: dead_service_def one_service_def split: if_splits)
    ultimately have "world_ok dead_service [] {0, 1}" unfolding world_ok_def by simp
    moreover have "\<exists>p. mqs dead_service (c_queue ctx) = Some p \<and> q_release p = 0" if "ctxs one_service c = Some ctx" for c ctx
      using that by (auto simp: dead_service_def one_service_def split: if_splits)
    ultimately show ?thesis
      using one_service_ok unfolding srv_ok_def chm by (simp add: dead_service_def)
  qed
  have ch: "ctx_handle_map one_service = [5 \<mapsto> 2]" by (auto simp: ctx_handle_map_def one_service_def)
  show "mailbox dead_service 7 = None"
    unfolding mailbox_def chm ch by (simp add: dead_service_def one_service_def skynet_handle_grab_def slot_hash_def)
  show "\<forall>k l. mailbox dead_service k = Some l \<longrightarrow> l = []"
  proof (intro allI impI)
    fix k l assume "mailbox dead_service k = Some l"
    then obtain c ctx q where "ctxs dead_service c = Some ctx" "mqs dead_service (c_queue ctx) = Some q" "mq_list q = l"
      using mailbox_Some [OF ok, of k l] by blast
    then show "l = []" by (auto simp: dead_service_def one_service_def split: if_splits)
  qed
qed



section \<open>A service that exits while it starts\<close>

text \<open>
  A new service whose init function succeeds but has already retired its own
  handle (so that only the creator's reference is left) is deleted by
  \<^verbatim>\<open>skynet_context_new\<close>, which then prints the handle stored in the freed context:
  a use after free.
\<close>

theorem launch_use_after_free:
  assumes w: "world_ok w xs B" and q: "queue \<in> B" "mqs w queue = Some q" "q_release q = 0"
    and c: "ctxs w c = Some ctx" "c_ref ctx = 1" "c_queue ctx = queue"
    and md: "c_mod ctx < length (mod_m (M w))" "mod_m (M w) ! c_mod ctx = Some md"
    and V: "\<And>f i u. mod_release V f i u = Inr u"
  shows "context_started V c queue name param w = Inl Bad_pointer"
proof -
  let ?w = "w\<lparr>ctxs := (ctxs w)(c \<mapsto> ctx\<lparr>c_ref := c_ref ctx - 1\<rparr>)\<rparr>"
  let ?q = "q\<lparr>q_release := 1\<rparr>"
  let ?w1 = "context_dec (?w\<lparr>mqs := (mqs w)(queue \<mapsto> ?q), ctxs := (ctxs w)(c := None)\<rparr>)"
  have ok: "queue_ok True q" using world_ok_held(3) [OF w q(1)] q(2) by blast
  have mark: "skynet_mq_mark_release queue ?w = Inr (?w\<lparr>mqs := (mqs w)(queue \<mapsto> ?q)\<rparr>)"
    using ok q by (simp add: skynet_mq_mark_release_def queue_ok_def)
  have "skynet_module_instance_release V (c_mod ctx) (c_instance ctx) ?w = Inr ?w"
    using md V by (simp add: skynet_module_instance_release_def split: option.splits)
  then have rel: "skynet_context_release V c w = Inr (None, ?w1)"
    using c mark by (simp add: skynet_context_release_def delete_context_def)
  have "world_ok (w\<lparr>mqs := (mqs w)(queue \<mapsto> ?q)\<rparr>) xs B"
    using ok q(1,2) by (intro world_ok_set [OF w q(2)]) (auto simp: queue_ok_def)
  then have "world_ok ?w1 xs B" by (simp add: world_ok_def gq_list_def context_dec_def)
  then obtain w2 where w2: "skynet_globalmq_push queue ?w1 = Inr w2" using give_back_ok q(1) by blast
  then have "ctxs w2 = (ctxs w)(c := None)"
    by (auto simp: skynet_globalmq_push_def context_dec_def bindR_eq_Inr split: option.splits)
  then show ?thesis using rel w2 by (simp add: context_started_def deref_def)
qed

theorem launch_use_after_free_witness:
  "context_started idle_services 5 0 [] None
     (one_service\<lparr>M := (skynet_module_init [])\<lparr>mod_m := [Some \<lparr>m_name = [], m_module = 1, m_create = None,
        m_init = Some 1, m_release = None, m_signal = None\<rparr>]\<rparr>\<rparr>) = Inl Bad_pointer"
  (is "context_started _ _ _ _ _ ?w = _")
proof -
  obtain ctx where c: "ctxs ?w 5 = Some ctx" "c_ref ctx = 1" "c_queue ctx = 0" "c_mod ctx = 0"
    by (simp add: one_service_def)
  have w: "world_ok ?w [] {0}" using srv_okD(1) [OF one_service_ok] by (simp add: world_ok_def gq_list_def)
  have q: "mqs ?w 0 = Some (skynet_mq_new 2)" "q_release (skynet_mq_new 2) = 0" by (simp_all add: one_service_def)
  show ?thesis
    by (rule launch_use_after_free [OF w _ q c(1-3)]) (simp_all add: c(4) idle_services_def)
qed

end
