(* ===== verification/Refcount.thy ===== *)
theory Refcount
  imports Server "HOL-Library.Multiset"
begin

text \<open>
  Who may touch a context: the reference counts of \<^verbatim>\<open>skynet_server.c\<close> under every
  interleaving of the threads.  A state is the kernel state and the multiset of
  references that threads hold.  \<^verbatim>\<open>skynet_handle_grab\<close> adds one, \<^verbatim>\<open>skynet_context_release\<close>
  gives one up, \<^verbatim>\<open>skynet_handle_retire\<close> takes the context out of the table and gives
  its reference to the thread, which releases it after the lock; a new context
  starts with two references, the table's and that of its creator.
\<close>

record ref_state =
  rs_w :: server
  rs_holds :: "addr multiset"

inductive ref_step :: "services \<Rightarrow> ref_state \<Rightarrow> ref_state \<Rightarrow> bool" for V where
  grab: "handle_grab h (rs_w s) = Inr (Some c, w) \<Longrightarrow>
     ref_step V s \<lparr>rs_w = w, rs_holds = add_mset c (rs_holds s)\<rparr>"
| again: "c \<in># rs_holds s \<Longrightarrow> skynet_context_grab c (rs_w s) = Inr w \<Longrightarrow>
     ref_step V s \<lparr>rs_w = w, rs_holds = add_mset c (rs_holds s)\<rparr>"
| release: "c \<in># rs_holds s \<Longrightarrow> skynet_context_release V c (rs_w s) = Inr (r, w) \<Longrightarrow>
     ref_step V s \<lparr>rs_w = w, rs_holds = rs_holds s - {#c#}\<rparr>"
| retire: "skynet_handle_retire (ctx_handle_map (rs_w s)) h (H (rs_w s)) = Inr (1, Some c, hs) \<Longrightarrow>
     ref_step V s \<lparr>rs_w = (rs_w s)\<lparr>H := hs\<rparr>, rs_holds = add_mset c (rs_holds s)\<rparr>"
| create: "c \<notin> dom (ctxs (rs_w s)) \<Longrightarrow> c \<notin> members (H (rs_w s)) \<Longrightarrow>
     \<not> reserved_only (H (rs_w s)) \<Longrightarrow> hs_slot_size (H (rs_w s)) < 2 ^ 24 \<Longrightarrow>
     skynet_handle_register ((ctx_handle_map (rs_w s))(c \<mapsto> 0)) c (H (rs_w s)) = Inr (h, hs) \<Longrightarrow>
     ref_step V s
       \<lparr>rs_w = (rs_w s)\<lparr>H := hs, ctxs := (ctxs (rs_w s))(c \<mapsto> (new_context (rs_w s) m inst)\<lparr>c_handle := h, c_queue := q\<rparr>)\<rparr>,
        rs_holds = add_mset c (rs_holds s)\<rparr>"

inductive ref_reachable :: "services \<Rightarrow> ref_state \<Rightarrow> bool" for V where
  start: "ctxs w = Map.empty \<Longrightarrow> H w = skynet_handle_init harbor \<Longrightarrow> ref_reachable V \<lparr>rs_w = w, rs_holds = {#}\<rparr>"
| step: "ref_reachable V s \<Longrightarrow> ref_step V s s' \<Longrightarrow> ref_reachable V s'"

section \<open>The invariant\<close>

definition table_ref :: "server \<Rightarrow> addr \<Rightarrow> nat" where
  "table_ref w c = (if c \<in> members (H w) then 1 else 0)"

definition ref_at :: "server \<Rightarrow> addr multiset \<Rightarrow> addr \<Rightarrow> bool" where
  "ref_at w hs c \<longleftrightarrow>
     (case ctxs w c of
        None \<Rightarrow> count hs c + table_ref w c = 0
      | Some ctx \<Rightarrow> c_ref ctx = int (count hs c + table_ref w c) \<and> 0 < c_ref ctx)"

definition ref_ok :: "ref_state \<Rightarrow> bool" where
  "ref_ok s \<longleftrightarrow>
     hs_ok (ctx_handle_map (rs_w s)) (H (rs_w s)) \<and> names_ok (H (rs_w s)) \<and>
     (\<forall>c. ref_at (rs_w s) (rs_holds s) c)"

lemma ref_at_cong:
  "ctxs w' c = ctxs w c \<Longrightarrow> count hs' c + table_ref w' c = count hs c + table_ref w c \<Longrightarrow> ref_at w' hs' c = ref_at w hs c"
  unfolding ref_at_def by (simp only:)

lemma ref_ok_count:
  assumes "ref_ok s" "ctxs (rs_w s) c = Some ctx"
  shows "c_ref ctx = int (count (rs_holds s) c + table_ref (rs_w s) c)" "0 < c_ref ctx"
proof -
  have "ref_at (rs_w s) (rs_holds s) c" using assms(1) by (simp add: ref_ok_def)
  then show "c_ref ctx = int (count (rs_holds s) c + table_ref (rs_w s) c)" "0 < c_ref ctx"
    using assms(2) by (simp_all add: ref_at_def)
qed

lemma ref_ok_dom:
  assumes "ref_ok s" "c \<in># rs_holds s \<or> c \<in> members (H (rs_w s))"
  shows "\<exists>ctx. ctxs (rs_w s) c = Some ctx"
proof (cases "ctxs (rs_w s) c")
  case None
  have "ref_at (rs_w s) (rs_holds s) c" using assms(1) by (simp add: ref_ok_def)
  then have "count (rs_holds s) c = 0 \<and> table_ref (rs_w s) c = 0" using None by (simp add: ref_at_def)
  then show ?thesis using assms(2) by (auto simp: table_ref_def count_eq_zero_iff split: if_splits)
qed blast

lemma hs_ok_cong:
  assumes "hs_ok ch s" "\<And>c. c \<in> members s \<Longrightarrow> ch' c = ch c"
  shows "hs_ok ch' s"
proof -
  have "c \<in> members s" if "i < hs_slot_size s" "hs_slot s ! i = Some c" for i c
    using that assms(1) nth_mem unfolding members_def hs_ok_def by (metis mem_Collect_eq)
  then show ?thesis using assms unfolding hs_ok_def by metis
qed

text \<open>Changing one context, or deleting it, with the references to it in step.\<close>

lemma ref_ok_update:
  assumes ok: "ref_ok s" and w: "\<And>d. d \<noteq> c \<Longrightarrow> ctxs w d = ctxs (rs_w s) d" "H w = H (rs_w s)"
    and h: "c \<in> members (H w) \<Longrightarrow> ctx_handle_map w c = ctx_handle_map (rs_w s) c"
    and n: "ref_at w hs c" "\<And>d. d \<noteq> c \<Longrightarrow> count hs d = count (rs_holds s) d"
  shows "ref_ok \<lparr>rs_w = w, rs_holds = hs\<rparr>"
proof -
  have tr: "table_ref w d = table_ref (rs_w s) d" for d by (simp add: table_ref_def w(2))
  have "ref_at w hs d" for d
    using ok n w(1) ref_at_cong [of w d "rs_w s" hs "rs_holds s"] by (cases "d = c") (auto simp: ref_ok_def tr)
  moreover have "hs_ok (ctx_handle_map w) (H w)"
  proof (rule hs_ok_cong [of "ctx_handle_map (rs_w s)"])
    fix d assume "d \<in> members (H w)"
    then show "ctx_handle_map w d = ctx_handle_map (rs_w s) d"
      using h w(1) by (cases "d = c") (simp_all add: ctx_handle_map_def)
  qed (use ok w(2) in \<open>simp add: ref_ok_def\<close>)
  ultimately show ?thesis using ok w(2) by (simp add: ref_ok_def)
qed

lemma release_outcome:
  assumes "skynet_context_release V c w = Inr (r, w')" "ctxs w c = Some ctx" "\<And>f i u. mod_release V f i u = Inr u"
  shows "H w' = H w" "ctxs w' = (if c_ref ctx = 1 then (ctxs w)(c := None) else (ctxs w)(c \<mapsto> ctx\<lparr>c_ref := c_ref ctx - 1\<rparr>))"
proof -
  have mark: "ctxs u' = ctxs u \<and> H u' = H u" if "skynet_mq_mark_release a u = Inr u'" for a and u u' :: server
    using that by (auto simp: skynet_mq_mark_release_def skynet_globalmq_push_def bindR_eq_Inr Let_def
        split: if_splits option.splits)
  have del: "H u' = H u \<and> ctxs u' = (ctxs u)(c := None)" if "delete_context V c u = Inr u'" for u u'
    using that assms(3) mark
    by (fastforce simp: delete_context_def skynet_module_instance_release_def context_dec_def bindR_eq_Inr split: option.splits)
  show "H w' = H w" "ctxs w' = (if c_ref ctx = 1 then (ctxs w)(c := None) else (ctxs w)(c \<mapsto> ctx\<lparr>c_ref := c_ref ctx - 1\<rparr>))"
    using assms(1,2) by (auto simp: skynet_context_release_def bindR_eq_Inr Let_def dest!: del split: if_splits)
qed


lemma grab_ref_ok:
  assumes ok: "ref_ok s" and g: "skynet_context_grab c (rs_w s) = Inr w"
  shows "ref_ok \<lparr>rs_w = w, rs_holds = add_mset c (rs_holds s)\<rparr>"
proof -
  obtain ctx where ctx: "ctxs (rs_w s) c = Some ctx"
      and w: "w = (rs_w s)\<lparr>ctxs := (ctxs (rs_w s))(c \<mapsto> ctx\<lparr>c_ref := c_ref ctx + 1\<rparr>)\<rparr>"
    using g by (auto simp: skynet_context_grab_def ctx_update_def bindR_eq_Inr deref_eq_Inr)
  have "table_ref w c = table_ref (rs_w s) c" by (simp add: w table_ref_def)
  then have "ref_at w (add_mset c (rs_holds s)) c" using ref_ok_count [OF ok ctx] by (simp add: ref_at_def w)
  then show ?thesis by (intro ref_ok_update [OF ok, of c]) (auto simp: w ctx ctx_handle_map_def)
qed

lemma release_ref_ok:
  assumes ok: "ref_ok s" and c: "c \<in># rs_holds s" and r: "skynet_context_release V c (rs_w s) = Inr (r, w)"
    and V: "\<And>f i u. mod_release V f i u = Inr u"
  shows "ref_ok \<lparr>rs_w = w, rs_holds = rs_holds s - {#c#}\<rparr>"
proof -
  obtain ctx where ctx: "ctxs (rs_w s) c = Some ctx" using ref_ok_dom [OF ok] c by blast
  note out = release_outcome [OF r ctx V] and cnt = ref_ok_count [OF ok ctx]
  obtain k where pos: "count (rs_holds s) c = Suc k" using c by (metis count_greater_zero_iff gr0_implies_Suc)
  have tr: "table_ref w c = table_ref (rs_w s) c" by (simp add: out(1) table_ref_def)
  have at: "ref_at w (rs_holds s - {#c#}) c"
  proof (cases "c_ref ctx = 1")
    case True
    then show ?thesis using cnt(1) pos tr by (simp add: ref_at_def out(2))
  next
    case False
    then show ?thesis using cnt pos tr by (simp add: ref_at_def out(2))
  qed
  have "c_ref ctx \<noteq> 1" if "c \<in> members (H w)"
    using that cnt pos out(1) by (simp add: table_ref_def)
  then show ?thesis
    using at out ctx by (intro ref_ok_update [OF ok, of c]) (auto simp: ctx_handle_map_def)
qed

lemma retire_ref_ok:
  assumes ok: "ref_ok s" and r: "skynet_handle_retire (ctx_handle_map (rs_w s)) h (H (rs_w s)) = Inr (1, Some c, hs)"
  shows "ref_ok \<lparr>rs_w = (rs_w s)\<lparr>H := hs\<rparr>, rs_holds = add_mset c (rs_holds s)\<rparr>"
proof -
  let ?w = "rs_w s" and ?w' = "(rs_w s)\<lparr>H := hs\<rparr>"
  have hs: "hs_ok (ctx_handle_map ?w) (H ?w)" and nm: "names_ok (H ?w)" using ok by (simp_all add: ref_ok_def)
  have "\<exists>c \<in> members (H ?w). ctx_handle_map ?w c = Some h" using retire_unknown [OF hs, of h] r by force
  then obtain d where d: "d \<in> members (H ?w)" "ctx_handle_map ?w d = Some h" by blast
  then have "d = c" and ret: "retired (ctx_handle_map ?w) h (H ?w) c hs"
    using retire_registered [OF hs nm d] r by auto
  then have mem: "c \<in> members (H ?w)" "members hs = members (H ?w) - {c}" using d by (simp_all add: retired_def)
  have "count (add_mset c (rs_holds s)) d + table_ref ?w' d = count (rs_holds s) d + table_ref ?w d" for d
    using mem by (auto simp: table_ref_def)
  then have "ref_at ?w' (add_mset c (rs_holds s)) d" for d
    using ok ref_at_cong [of ?w' d ?w] by (simp add: ref_ok_def)
  moreover have "ctx_handle_map ?w' = ctx_handle_map ?w" by (rule ctx_handle_map_cong) simp
  ultimately show ?thesis using ret by (simp add: ref_ok_def retired_def)
qed


lemma create_ref_ok:
  assumes ok: "ref_ok s" and c: "c \<notin> dom (ctxs (rs_w s))" "c \<notin> members (H (rs_w s))"
    and r: "\<not> reserved_only (H (rs_w s))" "hs_slot_size (H (rs_w s)) < 2 ^ 24"
      "skynet_handle_register ((ctx_handle_map (rs_w s))(c \<mapsto> 0)) c (H (rs_w s)) = Inr (h, hs)"
    and ctx: "c_handle ctx = h" "c_ref ctx = 2"
  shows "ref_ok \<lparr>rs_w = (rs_w s)\<lparr>H := hs, ctxs := (ctxs (rs_w s))(c \<mapsto> ctx)\<rparr>, rs_holds = add_mset c (rs_holds s)\<rparr>"
proof -
  let ?w = "rs_w s" and ?w' = "(rs_w s)\<lparr>H := hs, ctxs := (ctxs (rs_w s))(c \<mapsto> ctx)\<rparr>"
  have "hs_ok (ctx_handle_map ?w) (H ?w)" using ok by (simp add: ref_ok_def)
  then have "hs_ok ((ctx_handle_map ?w)(c \<mapsto> 0)) (H ?w)"
    by (rule hs_ok_cong) (use c(2) in \<open>metis fun_upd_other\<close>)
  from register_ok [OF this c(2) r(1)] r(2,3)
  have reg: "registered ((ctx_handle_map ?w)(c \<mapsto> 0)) c (H ?w) h hs" by simp
  have chm: "ctx_handle_map ?w' = (ctx_handle_map ?w)(c \<mapsto> 0, c \<mapsto> h)"
    using ctx by (auto simp: ctx_handle_map_def fun_eq_iff)
  have mem: "members hs = insert c (members (H ?w))" using reg by (simp add: registered_def)
  have zero: "count (rs_holds s) c = 0" using ref_ok_dom [OF ok, of c] c(1) by (auto simp: count_eq_zero_iff)
  have "ref_at ?w' (add_mset c (rs_holds s)) d" for d
  proof (cases "d = c")
    case True
    then show ?thesis using zero mem ctx by (simp add: ref_at_def table_ref_def)
  next
    case False
    then have "ref_at ?w' (add_mset c (rs_holds s)) d = ref_at ?w (rs_holds s) d"
      using mem by (intro ref_at_cong) (auto simp: table_ref_def)
    then show ?thesis using ok by (simp add: ref_ok_def)
  qed
  moreover have "names_ok hs"
    using ok reg by (auto simp: ref_ok_def registered_def names_ok_def names_list_def)
  ultimately show ?thesis using reg chm by (simp add: ref_ok_def registered_def)
qed

lemma ref_reachable_ok:
  assumes "ref_reachable V s" and V: "\<And>f i u. mod_release V f i u = Inr u"
  shows "ref_ok s"
  using assms(1)
proof (induction rule: ref_reachable.induct)
  case (start w harbor)
  then show ?case by (simp add: ref_ok_def init_hs_ok init_names ref_at_def table_ref_def init_slots)
next
  case (step s s')
  from step(2) show ?case
  proof cases
    case (grab h c w)
    then have "skynet_context_grab c (rs_w s) = Inr w"
      by (auto simp: handle_grab_def bindR_eq_Inr split: option.splits)
    then show ?thesis using grab grab_ref_ok [OF step(3)] by simp
  next
    case (again c w)
    then show ?thesis using grab_ref_ok [OF step(3)] by simp
  next
    case (release c r w)
    then show ?thesis using release_ref_ok [OF step(3) _ _ V] by simp
  next
    case (retire h c hs)
    then show ?thesis using retire_ref_ok [OF step(3)] by simp
  next
    case (create c h hs m inst q)
    then show ?thesis
      using create_ref_ok [OF step(3) create(2-6)] by (simp add: new_context_def)
  qed
qed




end
