(* ===== verification/Command.thy ===== *)
theory Command
  imports Server
begin

text \<open>
  The text commands a service gives to the kernel: \<^verbatim>\<open>skynet_command\<close> and the
  table of \<^verbatim>\<open>cmd_*\<close> functions of \<^verbatim>\<open>skynet_server.c\<close>, with the log files of
  \<^verbatim>\<open>skynet_log.c\<close> as far as they change the state.  A command returns a string or
  \<^verbatim>\<open>NULL\<close>; many write it to the buffer \<^verbatim>\<open>result\<close> of the context first.
\<close>

section \<open>Helpers\<close>

definition id_to_hex :: "u32 \<Rightarrow> cstring" where
  "id_to_hex h = 58 # map (\<lambda>i. digit_char_upper (unat (drop_bit ((7 - i) * 4) h AND 0xf))) [0..<8]"

definition set_result :: "addr \<Rightarrow> cstring \<Rightarrow> server \<Rightarrow> (cstring option \<times> server) res" where
  "set_result c text w =
     bindR (ctx_update c (\<lambda>ctx. ctx\<lparr>c_result := text\<rparr>) w) (\<lambda>w. Inr (Some text, w))"

definition starts_with :: "u8 \<Rightarrow> cstring \<Rightarrow> bool" where
  "starts_with ch s \<longleftrightarrow> s \<noteq> [] \<and> hd s = ch"

definition tohandle :: "services \<Rightarrow> addr \<Rightarrow> cstring \<Rightarrow> server \<Rightarrow> (u32 \<times> server) res" where
  "tohandle V c param w =
     (if starts_with 58 param then Inr (ucast (strtoul 16 (tl param)), w)
      else if starts_with 46 param then bindR (skynet_handle_findname (tl param) (H w)) (\<lambda>h. Inr (h, w))
      else bindR (skynet_error V (Some c) (cstr ''Can't convert '' @ param @ cstr '' to handle'') w) (\<lambda>w. Inr (0, w)))"

section \<open>The commands\<close>

definition cmd_timeout :: "services \<Rightarrow> addr \<Rightarrow> cstring \<Rightarrow> server \<Rightarrow> (cstring option \<times> server) res" where
  "cmd_timeout V c param w =
     (let ti = to_int (strtol 10 param) in
      bindR (skynet_context_newsession c w) (\<lambda>(session, w).
      bindR (handle_of (Some c) w) (\<lambda>h.
      bindR (skynet_timeout V h ti session w) (\<lambda>(_, w).
      set_result c (print_d session) w))))"

definition cmd_reg :: "services \<Rightarrow> addr \<Rightarrow> cstring option \<Rightarrow> server \<Rightarrow> (cstring option \<times> server) res" where
  "cmd_reg V c param w =
     bindR (handle_of (Some c) w) (\<lambda>handle.
     case param of
       None \<Rightarrow> set_result c (58 # print_x handle) w
     | Some p \<Rightarrow>
         if p = [] then set_result c (58 # print_x handle) w
         else if starts_with 46 p then
           bindR (skynet_handle_namehandle handle (tl p) (H w)) (\<lambda>(name, h). Inr (name, w\<lparr>H := h\<rparr>))
         else
           bindR (skynet_error V (Some c) (cstr ''Can't register global name '' @ p @ cstr '' in C'') w) (\<lambda>w. Inr (None, w)))"

definition cmd_query :: "addr \<Rightarrow> cstring \<Rightarrow> server \<Rightarrow> (cstring option \<times> server) res" where
  "cmd_query c param w =
     (if starts_with 46 param then
        bindR (skynet_handle_findname (tl param) (H w)) (\<lambda>handle.
        if handle \<noteq> 0 then set_result c (58 # print_x handle) w else Inr (None, w))
      else Inr (None, w))"

text \<open>
  \<^verbatim>\<open>sscanf(param, "%s %s", name, handle)\<close>: two words separated by white space.  A word
  that is missing leaves its array as it was, uninitialised.
\<close>

definition scan_word :: "cstring \<Rightarrow> cstring option \<times> cstring" where
  "scan_word s =
     (let s = dropWhile is_space s; wd = takeWhile (\<lambda>x. \<not> is_space x) s
      in if wd = [] then (None, []) else (Some wd, drop (length wd) s))"

definition cmd_name :: "services \<Rightarrow> addr \<Rightarrow> cstring \<Rightarrow> server \<Rightarrow> (cstring option \<times> server) res" where
  "cmd_name V c param w =
     (let (name, rest) = scan_word param; (handle, _) = scan_word rest in
      bindR (Prelude.init handle) (\<lambda>handle.
      if \<not> starts_with 58 handle then Inr (None, w)
      else
        let handle_id = ucast (strtoul 16 (tl handle)) :: u32 in
        if handle_id = 0 then Inr (None, w)
        else
          bindR (Prelude.init name) (\<lambda>name.
          if starts_with 46 name then
            bindR (skynet_handle_namehandle handle_id (tl name) (H w)) (\<lambda>(r, h). Inr (r, w\<lparr>H := h\<rparr>))
          else
            bindR (skynet_error V (Some c) (cstr ''Can't set global name '' @ name @ cstr '' in C'') w) (\<lambda>w.
            Inr (None, w)))))"

definition cmd_exit :: "services \<Rightarrow> addr \<Rightarrow> server \<Rightarrow> (cstring option \<times> server) res" where
  "cmd_exit V c w = bindR (handle_exit V c 0 w) (\<lambda>w. Inr (None, w))"

definition cmd_kill :: "services \<Rightarrow> addr \<Rightarrow> cstring \<Rightarrow> server \<Rightarrow> (cstring option \<times> server) res" where
  "cmd_kill V c param w =
     bindR (tohandle V c param w) (\<lambda>(handle, w).
     if handle \<noteq> 0 then bindR (handle_exit V c handle w) (\<lambda>w. Inr (None, w)) else Inr (None, w))"

text \<open>\<^verbatim>\<open>strsep\<close>: the part before the first separator, and the rest if there is one.\<close>

definition strsep :: "u8 list \<Rightarrow> cstring \<Rightarrow> cstring \<times> cstring option" where
  "strsep delim s =
     (let a = takeWhile (\<lambda>x. x \<notin> set delim) s
      in (a, if length a < length s then Some (drop (length a + 1) s) else None))"

definition cmd_launch :: "services \<Rightarrow> addr \<Rightarrow> cstring \<Rightarrow> server \<Rightarrow> (cstring option \<times> server) res" where
  "cmd_launch V c param w =
     (let (md, args) = strsep [32, 9, 13, 10] param;
          args = (case args of None \<Rightarrow> None | Some a \<Rightarrow> Some (fst (strsep [13, 10] a)))
      in bindR (skynet_context_new V md args w) (\<lambda>(inst, w).
         case inst of None \<Rightarrow> Inr (None, w)
         | Some i \<Rightarrow> bindR (handle_of (Some i) w) (\<lambda>h. set_result c (id_to_hex h) w)))"

definition cmd_getenv :: "cstring \<Rightarrow> server \<Rightarrow> (cstring option \<times> server) res" where
  "cmd_getenv param w = Inr (skynet_getenv param w, w)"

definition cmd_setenv :: "cstring \<Rightarrow> server \<Rightarrow> (cstring option \<times> server) res" where
  "cmd_setenv param w =
     (let key = takeWhile (\<lambda>x. x \<noteq> 32) param in
      if length key = length param then Inr (None, w)
      else bindR (skynet_setenv key (drop (length key + 1) param) w) (\<lambda>w. Inr (None, w)))"

definition cmd_starttime :: "addr \<Rightarrow> server \<Rightarrow> (cstring option \<times> server) res" where
  "cmd_starttime c w = set_result c (print_nat 10 (unat (skynet_starttime (TI w)))) w"

definition cmd_abort :: "services \<Rightarrow> server \<Rightarrow> (cstring option \<times> server) res" where
  "cmd_abort V w = bindR (skynet_handle_retireall V w) (\<lambda>w. Inr (None, w))"

definition cmd_monitor :: "services \<Rightarrow> addr \<Rightarrow> cstring option \<Rightarrow> server \<Rightarrow> (cstring option \<times> server) res" where
  "cmd_monitor V c param w =
     (if param = None \<or> param = Some [] then
        if n_monitor_exit (G_NODE w) \<noteq> 0 then set_result c (58 # print_x (n_monitor_exit (G_NODE w))) w
        else Inr (None, w)
      else
        bindR (tohandle V c (the param) w) (\<lambda>(handle, w).
        Inr (None, w\<lparr>G_NODE := (G_NODE w)\<lparr>n_monitor_exit := handle\<rparr>\<rparr>)))"

text \<open>\<^verbatim>\<open>%lf\<close> of a time in microseconds over a million: seconds and six decimals.\<close>

definition print_seconds :: "u64 \<Rightarrow> cstring" where
  "print_seconds t =
     (let f = print_nat 10 (unat t mod 1000000)
      in print_nat 10 (unat t div 1000000) @ [46] @ replicate (6 - length f) 48 @ f)"

definition cmd_stat :: "services \<Rightarrow> addr \<Rightarrow> cstring \<Rightarrow> server \<Rightarrow> (cstring option \<times> server) res" where
  "cmd_stat V c param w =
     bindR (deref (ctxs w) c) (\<lambda>ctx.
     if param = cstr ''mqlen'' then
       bindR (deref (mqs w) (c_queue ctx)) (\<lambda>q. set_result c (print_d (int (skynet_mq_length q))) w)
     else if param = cstr ''endless'' then
       if c_endless ctx then
         bindR (ctx_update c (\<lambda>ctx. ctx\<lparr>c_endless := False\<rparr>) w) (\<lambda>w. set_result c [49] w)
       else set_result c [48] w
     else if param = cstr ''cpu'' then set_result c (print_seconds (c_cpu_cost ctx)) w
     else if param = cstr ''time'' then
       if c_profile ctx then set_result c (print_seconds (thread_time V w - c_cpu_start ctx)) w
       else set_result c [48] w
     else if param = cstr ''message'' then set_result c (print_d (c_message_count ctx)) w
     else set_result c [] w)"

definition skynet_log_open :: "services \<Rightarrow> addr \<Rightarrow> u32 \<Rightarrow> server \<Rightarrow> (addr option \<times> server) res" where
  "skynet_log_open V c handle w =
     (case skynet_getenv (cstr ''logpath'') w of
        None \<Rightarrow> Inr (None, w)
      | Some logpath \<Rightarrow>
          let tmp = logpath @ [47] @ print_08x handle @ cstr ''.log'' in
          case sys_fopen V tmp of
            Some f \<Rightarrow> bindR (skynet_error V (Some c) (cstr ''Open log file '' @ tmp) w) (\<lambda>w. Inr (Some f, w))
          | None \<Rightarrow> bindR (skynet_error V (Some c) (cstr ''Open log file '' @ tmp @ cstr '' fail'') w) (\<lambda>w. Inr (None, w)))"

definition skynet_log_close :: "services \<Rightarrow> addr \<Rightarrow> u32 \<Rightarrow> server \<Rightarrow> server res" where
  "skynet_log_close V c handle w = skynet_error V (Some c) (cstr ''Close log file :'' @ print_08x handle) w"

text \<open>
  The other party of the compare-and-swap would be another thread: here the field
  is what it was when it was read, unless opening the file changed it.
\<close>

definition cmd_logon :: "services \<Rightarrow> addr \<Rightarrow> cstring \<Rightarrow> server \<Rightarrow> (cstring option \<times> server) res" where
  "cmd_logon V c param w =
     bindR (tohandle V c param w) (\<lambda>(handle, w).
     if handle = 0 then Inr (None, w)
     else
       bindR (handle_grab handle w) (\<lambda>(ctx, w).
       case ctx of None \<Rightarrow> Inr (None, w)
       | Some d \<Rightarrow>
           bindR (deref (ctxs w) d) (\<lambda>x.
           bindR (if c_logfile x = None then
                    bindR (skynet_log_open V c handle w) (\<lambda>(f, w).
                    case f of None \<Rightarrow> Inr w
                    | Some _ \<Rightarrow> ctx_update d (\<lambda>x. if c_logfile x = None then x\<lparr>c_logfile := f\<rparr> else x) w)
                  else Inr w) (\<lambda>w.
           bindR (skynet_context_release V d w) (\<lambda>(_, w). Inr (None, w))))))"

definition cmd_logoff :: "services \<Rightarrow> addr \<Rightarrow> cstring \<Rightarrow> server \<Rightarrow> (cstring option \<times> server) res" where
  "cmd_logoff V c param w =
     bindR (tohandle V c param w) (\<lambda>(handle, w).
     if handle = 0 then Inr (None, w)
     else
       bindR (handle_grab handle w) (\<lambda>(ctx, w).
       case ctx of None \<Rightarrow> Inr (None, w)
       | Some d \<Rightarrow>
           bindR (deref (ctxs w) d) (\<lambda>x.
           bindR (if c_logfile x \<noteq> None then
                    bindR (ctx_update d (\<lambda>x. x\<lparr>c_logfile := None\<rparr>) w) (skynet_log_close V c handle)
                  else Inr w) (\<lambda>w.
           bindR (skynet_context_release V d w) (\<lambda>(_, w). Inr (None, w))))))"

definition skynet_module_instance_signal :: "services \<Rightarrow> nat \<Rightarrow> addr \<Rightarrow> int \<Rightarrow> server \<Rightarrow> server res" where
  "skynet_module_instance_signal V m inst sig w =
     bindR (bindR (aget (mod_m (M w)) m) Prelude.init) (\<lambda>md.
     case m_signal md of None \<Rightarrow> Inr w | Some f \<Rightarrow> mod_signal V f inst sig w)"

definition cmd_signal :: "services \<Rightarrow> addr \<Rightarrow> cstring \<Rightarrow> server \<Rightarrow> (cstring option \<times> server) res" where
  "cmd_signal V c param w =
     bindR (tohandle V c param w) (\<lambda>(handle, w).
     if handle = 0 then Inr (None, w)
     else
       bindR (handle_grab handle w) (\<lambda>(ctx, w).
       case ctx of None \<Rightarrow> Inr (None, w)
       | Some d \<Rightarrow>
           let rest = dropWhile (\<lambda>x. x \<noteq> 32) param;
               sig = (if rest = [] then 0 else to_int (strtol 0 rest))
           in bindR (deref (ctxs w) d) (\<lambda>x.
              bindR (skynet_module_instance_signal V (c_mod x) (c_instance x) sig w) (\<lambda>w.
              bindR (skynet_context_release V d w) (\<lambda>(_, w). Inr (None, w))))))"

text \<open>
  The table of commands.  A command that does not test its parameter for \<^verbatim>\<open>NULL\<close>
  follows it.
\<close>

type_synonym command = "services \<Rightarrow> addr \<Rightarrow> cstring option \<Rightarrow> server \<Rightarrow> (cstring option \<times> server) res"

definition needs_param :: "(cstring \<Rightarrow> server \<Rightarrow> (cstring option \<times> server) res) \<Rightarrow> cstring option \<Rightarrow> server \<Rightarrow>
    (cstring option \<times> server) res" where
  "needs_param f param w = (case param of None \<Rightarrow> Inl Bad_pointer | Some p \<Rightarrow> f p w)"

definition cmd_funcs :: "(cstring \<times> command) list" where
  "cmd_funcs =
     [(cstr ''TIMEOUT'', \<lambda>V c. needs_param (cmd_timeout V c)),
      (cstr ''REG'', cmd_reg),
      (cstr ''QUERY'', \<lambda>V c. needs_param (cmd_query c)),
      (cstr ''NAME'', \<lambda>V c. needs_param (cmd_name V c)),
      (cstr ''EXIT'', \<lambda>V c param. cmd_exit V c),
      (cstr ''KILL'', \<lambda>V c. needs_param (cmd_kill V c)),
      (cstr ''LAUNCH'', \<lambda>V c. needs_param (cmd_launch V c)),
      (cstr ''GETENV'', \<lambda>V c. needs_param cmd_getenv),
      (cstr ''SETENV'', \<lambda>V c. needs_param cmd_setenv),
      (cstr ''STARTTIME'', \<lambda>V c param. cmd_starttime c),
      (cstr ''ABORT'', \<lambda>V c param. cmd_abort V),
      (cstr ''MONITOR'', cmd_monitor),
      (cstr ''STAT'', \<lambda>V c. needs_param (cmd_stat V c)),
      (cstr ''LOGON'', \<lambda>V c. needs_param (cmd_logon V c)),
      (cstr ''LOGOFF'', \<lambda>V c. needs_param (cmd_logoff V c)),
      (cstr ''SIGNAL'', \<lambda>V c. needs_param (cmd_signal V c))]"

definition skynet_command :: "services \<Rightarrow> addr \<Rightarrow> cstring \<Rightarrow> cstring option \<Rightarrow> server \<Rightarrow> (cstring option \<times> server) res" where
  "skynet_command V c cmd parm w =
     (case map_of cmd_funcs cmd of None \<Rightarrow> Inr (None, w) | Some f \<Rightarrow> f V c parm w)"


section \<open>Handles as text\<close>

lemma digits_val_fixed:
  "digits_val 16 acc (map (\<lambda>i. digit_char_upper (n div 16 ^ (k - 1 - i) mod 16)) [0..<k]) = acc * 16 ^ k + n mod 16 ^ k"
proof (induction k arbitrary: acc)
  case (Suc k)
  let ?d = "n div 16 ^ k mod 16"
  have upt: "[0..<Suc k] = 0 # map Suc [0..<k]" by (simp add: map_Suc_upt upt_conv_Cons)
  have d: "?d < 16" by simp
  have "n mod 16 ^ Suc k = 16 ^ k * ?d + n mod 16 ^ k"
    using mod_mult2_eq [of n "16 ^ k" 16] by (simp add: mult.commute)
  then show ?case
    unfolding upt using Suc.IH [of "acc * 16 + ?d"] digit_val_char(2) [OF d] is_digit_char(2) [of 16 ?d] d
    by (simp add: comp_def algebra_simps)
qed simp

lemma hex_digit: "unat (drop_bit (j * 4) (h :: u32) AND 0xf) = unat h div 16 ^ j mod 16"
proof -
  have m: "(0xf :: u32) = Bit_Operations.mask 4" by (simp add: mask_eq_exp_minus_1)
  have "(2 :: nat) ^ (j * 4) = 16 ^ j" using power_mult [of "2 :: nat" 4 j] by (simp add: mult.commute)
  then show ?thesis unfolding m unat_and_mask unat_drop_bit_div by simp
qed

lemma id_to_hex_digits:
  "id_to_hex h = 58 # map (\<lambda>i. digit_char_upper (unat h div 16 ^ (8 - 1 - i) mod 16)) [0..<8]"
  by (simp add: id_to_hex_def hex_digit)

lemma strtoul_id_to_hex: "ucast (strtoul 16 (tl (id_to_hex h))) = h"
proof (rule strtoul_hex_digits)
  show "\<forall>c \<in> set (tl (id_to_hex h)). is_digit 16 c" by (auto simp: id_to_hex_digits simp del: upt_rec_numeral)
  have "unat h < 16 ^ 8" using unat_u32_less [of h] by simp
  then show "digits_val 16 0 (tl (id_to_hex h)) = unat h"
    unfolding id_to_hex_digits list.sel using digits_val_fixed [of 0 "unat h" 8] by simp
qed

text \<open>
  Handles survive their textual forms: the address that \<^verbatim>\<open>LAUNCH\<close> returns
  (\<^verbatim>\<open>id_to_hex\<close>) and the one that \<^verbatim>\<open>REG\<close> and \<^verbatim>\<open>QUERY\<close> return (\<^verbatim>\<open>:%x\<close>) are read back as the
  same handle by \<^verbatim>\<open>skynet_queryname\<close> and by the parser of \<^verbatim>\<open>KILL\<close> and \<^verbatim>\<open>MONITOR\<close>.
\<close>

theorem handle_text_roundtrip:
  "skynet_queryname V c (id_to_hex h) w = Inr (h, w) \<and> skynet_queryname V c (58 # print_x h) w = Inr (h, w) \<and>
   tohandle V d (id_to_hex h) w = Inr (h, w) \<and> tohandle V d (58 # print_x h) w = Inr (h, w)"
proof -
  have "id_to_hex h = 58 # tl (id_to_hex h)" by (simp add: id_to_hex_def)
  then show ?thesis
    using strtoul_id_to_hex [of h] strtoul_print_x [of h]
    by (metis (no_types, lifting) list.sel(1,3) list.distinct(1) skynet_queryname_def tohandle_def starts_with_def)
qed

section \<open>Names\<close>

text \<open>
  C18. \<^verbatim>\<open>REG .name\<close> followed by \<^verbatim>\<open>QUERY .name\<close>: a service that registers a name nobody
  has gets the name back, and from then on every service that queries the name
  gets the address of that service.
\<close>

theorem reg_then_query:
  assumes "names_ok (H w)" and "ctxs w c = Some ctx" and "ctxs w d = Some ctx'" and "c_handle ctx \<noteq> 0"
    and "skynet_handle_findname name (H w) = Inr 0" and "name_map (H w) name \<noteq> Some 0"
    and "hs_name_count (H w) < MAX_SLOT_SIZE"
  shows "\<exists>w' w''. skynet_command V c (cstr ''REG'') (Some (46 # name)) w = Inr (Some name, w') \<and>
     skynet_command V d (cstr ''QUERY'') (Some (46 # name)) w' = Inr (Some (58 # print_x (c_handle ctx)), w'') \<and>
     skynet_queryname V None (58 # print_x (c_handle ctx)) w'' = Inr (c_handle ctx, w'')"
proof -
  have "name_map (H w) name = None"
    using assms(5,6) findname_ok [OF assms(1), of name] by (auto split: option.splits)
  then obtain h where h: "skynet_handle_namehandle (c_handle ctx) name (H w) = Inr (Some name, h)" "names_ok h"
      "name_map h = (name_map (H w))(name \<mapsto> c_handle ctx)"
    using namehandle_new [OF assms(1) _ assms(7)] by blast
  let ?w = "w\<lparr>H := h\<rparr>" and ?t = "58 # print_x (c_handle ctx)"
  let ?w' = "?w\<lparr>ctxs := (ctxs w)(d \<mapsto> ctx'\<lparr>c_result := ?t\<rparr>)\<rparr>"
  have cmds: "map_of cmd_funcs (cstr ''REG'') = Some cmd_reg"
    "map_of cmd_funcs (cstr ''QUERY'') = Some (\<lambda>V c. needs_param (cmd_query c))"
    by (simp_all add: cmd_funcs_def cstr_def)
  have "skynet_command V c (cstr ''REG'') (Some (46 # name)) w = Inr (Some name, ?w)"
    using assms(2) h(1) by (simp add: skynet_command_def cmds cmd_reg_def handle_of_def starts_with_def)
  moreover have "skynet_handle_findname name h = Inr (c_handle ctx)" using findname_ok [OF h(2), of name] h(3) by simp
  then have "skynet_command V d (cstr ''QUERY'') (Some (46 # name)) ?w = Inr (Some ?t, ?w')"
    using assms(3,4) by (simp add: skynet_command_def cmds needs_param_def cmd_query_def starts_with_def set_result_def ctx_update_def)
  moreover have "skynet_queryname V None ?t ?w' = Inr (c_handle ctx, ?w')"
    using strtoul_print_x by (simp add: skynet_queryname_def)
  ultimately show ?thesis by blast
qed


text \<open>A server with one service, under handle 2, and no names.\<close>

definition lone_service :: server where
  "lone_service =
     \<lparr>mqs = [0 \<mapsto> skynet_mq_new 2], gq = \<lparr>gq_head = None, gq_tail = None\<rparr>, mq_brk = 1,
      ctxs = [5 \<mapsto> (new_context undefined 0 1)\<lparr>c_handle := 2, c_profile := False\<rparr>],
      ctx_brk = 6, H = table_of 4 [None, None, Some 5, None] 3,
      G_NODE = \<lparr>n_total = 1, n_init = True, n_monitor_exit = 0, n_handle_key = 0, n_profile = False\<rparr>,
      REMOTE = None, HARBOR = 0, TI = timer_create_timer, M = skynet_module_init [], E = Map.empty, logger = 0,
      mem = Map.empty, mem_brk = 1\<rparr>"

theorem reg_then_query_witness:
  "\<exists>w' w''. skynet_command idle_services 5 (cstr ''REG'') (Some (cstr ''.db'')) lone_service = Inr (Some (cstr ''db''), w') \<and>
     skynet_command idle_services 5 (cstr ''QUERY'') (Some (cstr ''.db'')) w' = Inr (Some (cstr '':2''), w'')"
proof -
  have nm: "names_ok (H lone_service)" "name_map (H lone_service) = Map.empty"
    using init_names(1,2) [of 0] by (simp_all add: lone_service_def names_ok_def names_list_def name_map_def)
  obtain ctx where c: "ctxs lone_service 5 = Some ctx" "c_handle ctx = 2" by (simp add: lone_service_def)
  have n: "hs_name_count (H lone_service) < MAX_SLOT_SIZE"
    by (simp add: lone_service_def skynet_handle_init_def MAX_SLOT_SIZE_def)
  have "skynet_handle_findname (cstr ''db'') (H lone_service) = Inr 0" using findname_ok [OF nm(1)] nm(2) by simp
  then obtain w' w'' where "skynet_command idle_services 5 (cstr ''REG'') (Some (46 # cstr ''db'')) lone_service = Inr (Some (cstr ''db''), w')"
     "skynet_command idle_services 5 (cstr ''QUERY'') (Some (46 # cstr ''db'')) w' = Inr (Some (58 # print_x 2), w'')"
    using reg_then_query [OF nm(1) c(1) c(1) _ _ _ n, of "cstr ''db''" idle_services] c(2) nm(2) by auto
  moreover have "cstr ''.db'' = 46 # cstr ''db''" "cstr '':2'' = 58 # print_x 2"
    by (simp_all add: cstr_def print_x_def print_nat.simps digit_char_def)
  ultimately show ?thesis by metis
qed

section \<open>Sessions\<close>

lemma to_int_id: "- (2 ^ 31) \<le> i \<Longrightarrow> i < 2 ^ 31 \<Longrightarrow> to_int i = i"
  unfolding to_int_def by (simp add: signed_of_int signed_take_bit_int_eq_self)

lemma to_int_wrap: "to_int (2 ^ 31) = - (2 ^ 31)"
  unfolding to_int_def by (simp add: signed_of_int)

lemma newsession_next:
  assumes "ctxs w c = Some ctx" "0 \<le> c_session_id ctx" "c_session_id ctx < 2 ^ 31"
  shows "skynet_context_newsession c w =
     (let s = c_session_id ctx mod (2 ^ 31 - 1) + 1 in Inr (s, w\<lparr>ctxs := (ctxs w)(c \<mapsto> ctx\<lparr>c_session_id := s\<rparr>)\<rparr>))"
proof (cases "c_session_id ctx = 2 ^ 31 - 1")
  case True
  then have "to_int (c_session_id ctx + 1) = - (2 ^ 31)" using to_int_wrap by simp
  then show ?thesis using assms(1) True by (simp add: skynet_context_newsession_def Let_def)
next
  case False
  then have "to_int (c_session_id ctx + 1) = c_session_id ctx + 1" using assms(2,3) by (intro to_int_id) auto
  moreover have "c_session_id ctx mod (2 ^ 31 - 1) = c_session_id ctx" using False assms(2,3) by simp
  ultimately show ?thesis using assms(1,2) by (simp add: skynet_context_newsession_def Let_def)
qed

text \<open>The sessions of \<open>n\<close> calls in a row.\<close>

primrec newsessions :: "nat \<Rightarrow> addr \<Rightarrow> server \<Rightarrow> int list res" where
  "newsessions 0 c w = Inr []"
| "newsessions (Suc n) c w =
     bindR (skynet_context_newsession c w) (\<lambda>(s, w). bindR (newsessions n c w) (\<lambda>ss. Inr (s # ss)))"

lemma newsessions_map:
  assumes "ctxs w c = Some ctx" "0 \<le> c_session_id ctx" "c_session_id ctx < 2 ^ 31"
  shows "newsessions n c w = Inr (map (\<lambda>i. (c_session_id ctx + int i) mod (2 ^ 31 - 1) + 1) [0..<n])"
  using assms
proof (induction n arbitrary: w ctx)
  case (Suc n)
  let ?s = "c_session_id ctx mod (2 ^ 31 - 1) + 1"
  let ?w = "w\<lparr>ctxs := (ctxs w)(c \<mapsto> ctx\<lparr>c_session_id := ?s\<rparr>)\<rparr>"
  have "0 \<le> ?s" "?s < 2 ^ 31" by (simp_all add: add_increasing2)
  then have "newsessions n c ?w = Inr (map (\<lambda>i. (?s + int i) mod (2 ^ 31 - 1) + 1) [0..<n])"
    using Suc.IH [of ?w "ctx\<lparr>c_session_id := ?s\<rparr>"] by simp
  moreover have "(?s + int i) mod (2 ^ 31 - 1) = (c_session_id ctx + int (Suc i)) mod (2 ^ 31 - 1)" for i
    using mod_add_left_eq [of "c_session_id ctx" "2 ^ 31 - 1" "1 + int i"] by (simp add: algebra_simps)
  moreover have "[0..<Suc n] = 0 # map Suc [0..<n]" by (simp add: map_Suc_upt upt_conv_Cons)
  ultimately show ?case
    using newsession_next [OF Suc.prems] by (simp add: Let_def comp_def del: upt_Suc of_nat_Suc)
qed simp



end
