(* ===== verification/Hashid.thy ===== *)
theory Hashid
  imports Prelude
begin

text \<open>
  The table of socket ids of the gate (\<^verbatim>\<open>service-src/hashid.h\<close>): a fixed array of
  nodes, each free (id -1) or holding an id, chained into buckets by the low bits
  of the id.  A pointer to a node is its index in the array.
\<close>

section \<open>Data and operations\<close>

record hashid_node =
  nd_id :: int
  nd_next :: "nat option"

record hashid =
  hi_hashmod :: nat
  hi_cap :: nat
  hi_count :: nat
  hi_id :: "hashid_node list"
  hi_hash :: "nat option list"

text \<open>
  The doubling loop, whose counter starts at 16 (a positive number) and is an \<^verbatim>\<open>int\<close>.
\<close>

function hash_cap :: "nat \<Rightarrow> nat \<Rightarrow> nat res" where
  "hash_cap mx hashcap =
     (if hashcap < mx \<and> 0 < hashcap then bindR (c_int (hashcap * 2)) (\<lambda>h. hash_cap mx h) else Inr hashcap)"
  by pat_completeness auto
termination
  by (relation "measure (\<lambda>(mx, hashcap). mx - hashcap)") (auto simp: c_int_def split: if_splits)

declare hash_cap.simps [simp del]

definition hashid_init :: "nat \<Rightarrow> hashid res" where
  "hashid_init mx =
     bindR (hash_cap mx 16) (\<lambda>hashcap.
     Inr \<lparr>hi_hashmod = hashcap - 1, hi_cap = mx, hi_count = 0,
          hi_id = replicate mx \<lparr>nd_id = -1, nd_next = None\<rparr>, hi_hash = replicate hashcap None\<rparr>)"

definition hashid_clear :: "hashid \<Rightarrow> hashid" where
  "hashid_clear hi = hi\<lparr>hi_id := [], hi_hash := [], hi_hashmod := 1, hi_cap := 0, hi_count := 0\<rparr>"

definition id_bucket :: "hashid \<Rightarrow> int \<Rightarrow> nat" where
  "id_bucket hi i = nat (i AND int (hi_hashmod hi))"

text \<open>A chain of nodes could be circular: the loops that follow it may not end.\<close>

partial_function (option) lookup_loop :: "hashid \<Rightarrow> int \<Rightarrow> nat option \<Rightarrow> int res option" where
  "lookup_loop hi i c =
     (case c of
        None \<Rightarrow> Some (Inr (-1))
      | Some k \<Rightarrow>
          (case aget (hi_id hi) k of
             Inl e \<Rightarrow> Some (Inl e)
           | Inr n \<Rightarrow> if nd_id n = i then Some (Inr (int k)) else lookup_loop hi i (nd_next n)))"

declare lookup_loop.simps [code]

definition hashid_lookup :: "hashid \<Rightarrow> int \<Rightarrow> int res" where
  "hashid_lookup hi i =
     bindR (aget (hi_hash hi) (id_bucket hi i)) (\<lambda>c. run_loop (lookup_loop hi i c))"

text \<open>The label \<^verbatim>\<open>_clear\<close>.\<close>

definition clear_node :: "nat \<Rightarrow> hashid \<Rightarrow> (int \<times> hashid) res" where
  "clear_node c hi =
     bindR (aset (hi_id hi) c \<lparr>nd_id = -1, nd_next = None\<rparr>) (\<lambda>ns.
     Inr (int c, hi\<lparr>hi_id := ns, hi_count := hi_count hi - 1\<rparr>))"

text \<open>The loop over \<^verbatim>\<open>c->next\<close>: the predecessor of the node, if the id is there.\<close>

partial_function (option) remove_loop :: "hashid \<Rightarrow> int \<Rightarrow> nat \<Rightarrow> (nat \<times> nat) option res option" where
  "remove_loop hi i c =
     (case aget (hi_id hi) c of
        Inl e \<Rightarrow> Some (Inl e)
      | Inr n \<Rightarrow>
          (case nd_next n of
             None \<Rightarrow> Some (Inr None)
           | Some k \<Rightarrow>
               (case aget (hi_id hi) k of
                  Inl e \<Rightarrow> Some (Inl e)
                | Inr m \<Rightarrow> if nd_id m = i then Some (Inr (Some (c, k))) else remove_loop hi i k)))"

declare remove_loop.simps [code]

definition hashid_remove :: "int \<Rightarrow> hashid \<Rightarrow> (int \<times> hashid) res" where
  "hashid_remove i hi =
     (let h = id_bucket hi i in
      bindR (aget (hi_hash hi) h) (\<lambda>c.
      case c of
        None \<Rightarrow> Inr (-1, hi)
      | Some c \<Rightarrow>
          bindR (aget (hi_id hi) c) (\<lambda>n.
          if nd_id n = i then
            bindR (aset (hi_hash hi) h (nd_next n)) (\<lambda>hash. clear_node c (hi\<lparr>hi_hash := hash\<rparr>))
          else
            bindR (run_loop (remove_loop hi i c)) (\<lambda>r.
            case r of
              None \<Rightarrow> Inr (-1, hi)
            | Some (p, t) \<Rightarrow>
                bindR (aget (hi_id hi) p) (\<lambda>pn.
                bindR (aget (hi_id hi) t) (\<lambda>tn.
                bindR (aset (hi_id hi) p (pn\<lparr>nd_next := nd_next tn\<rparr>)) (\<lambda>ns.
                clear_node t (hi\<lparr>hi_id := ns\<rparr>))))))))"

text \<open>
  The search for a free node; \<^verbatim>\<open>i+id\<close> is an \<^verbatim>\<open>int\<close>, and a negative
  remainder an index before the array.
\<close>

function free_node :: "hashid \<Rightarrow> int \<Rightarrow> nat \<Rightarrow> nat option res" where
  "free_node hi i k =
     (if k < hi_cap hi then
        bindR (c_sint (int k + i)) (\<lambda>s.
        let index = c_rem s (int (hi_cap hi)) in
        if index < 0 then Inl Out_of_bounds
        else
          bindR (aget (hi_id hi) (nat index)) (\<lambda>n.
          if nd_id n = -1 then Inr (Some (nat index)) else free_node hi i (k + 1)))
      else Inr None)"
  by pat_completeness auto
termination
  by (relation "measure (\<lambda>(hi, i, k). hi_cap hi - k)") auto

declare free_node.simps [simp del]

definition hashid_insert :: "int \<Rightarrow> hashid \<Rightarrow> (int \<times> hashid) res" where
  "hashid_insert i hi =
     bindR (free_node hi i 0) (\<lambda>c.
     case c of
       None \<Rightarrow> Inl Assert_failed
     | Some c \<Rightarrow>
         bindR (aget (hi_id hi) c) (\<lambda>n.
         bindR (c_assert (nd_next n = None)) (\<lambda>_.
         let h = id_bucket hi i in
         bindR (aget (hi_hash hi) h) (\<lambda>old.
         bindR (aset (hi_id hi) c \<lparr>nd_id = i, nd_next = old\<rparr>) (\<lambda>ns.
         bindR (aset (hi_hash hi) h (Some c)) (\<lambda>hash.
         Inr (int c, hi\<lparr>hi_count := hi_count hi + 1, hi_id := ns, hi_hash := hash\<rparr>)))))))"

definition hashid_full :: "hashid \<Rightarrow> bool" where
  "hashid_full hi \<longleftrightarrow> hi_count hi = hi_cap hi"

section \<open>Buckets are lists\<close>

fun chain :: "hashid_node list \<Rightarrow> nat option \<Rightarrow> nat list \<Rightarrow> bool" where
  "chain ns p [] \<longleftrightarrow> p = None"
| "chain ns p (k # ks) \<longleftrightarrow> p = Some k \<and> k < length ns \<and> chain ns (nd_next (ns ! k)) ks"

lemma chain_upd: "k \<notin> set ks \<Longrightarrow> chain (ns[k := n]) p ks = chain ns p ks"
  by (induction ns p ks rule: chain.induct) auto

lemma chain_bound: "chain ns p ks \<Longrightarrow> k \<in> set ks \<Longrightarrow> k < length ns"
  by (induction ns p ks rule: chain.induct) auto

text \<open>Unlinking the node after the prefix \<open>ks @ [p]\<close>.\<close>

lemma chain_unlink:
  assumes "chain ns s (ks @ p # t # ls)" "distinct (ks @ p # t # ls)"
  shows "chain (ns[p := (ns ! p)\<lparr>nd_next := nd_next (ns ! t)\<rparr>]) s (ks @ p # ls)"
  using assms
proof (induction ks arbitrary: s)
  case Nil
  then show ?case by (auto simp: chain_upd)
next
  case (Cons k ks)
  then show ?case by auto
qed

text \<open>The buckets \<open>L\<close> of a table: together they hold exactly the used nodes.\<close>

definition buckets :: "hashid \<Rightarrow> (nat \<Rightarrow> nat list) \<Rightarrow> bool" where
  "buckets hi L \<longleftrightarrow>
     (\<forall>h < length (hi_hash hi). chain (hi_id hi) (hi_hash hi ! h) (L h) \<and> distinct (L h)) \<and>
     (\<forall>h < length (hi_hash hi). \<forall>k. k \<in> set (L h) \<longleftrightarrow>
        k < hi_cap hi \<and> nd_id (hi_id hi ! k) \<noteq> -1 \<and> id_bucket hi (nd_id (hi_id hi ! k)) = h)"

definition used_nodes :: "hashid \<Rightarrow> nat set" where
  "used_nodes hi = {k. k < hi_cap hi \<and> nd_id (hi_id hi ! k) \<noteq> -1}"

definition hashid_ok :: "hashid \<Rightarrow> bool" where
  "hashid_ok hi \<longleftrightarrow>
     length (hi_id hi) = hi_cap hi \<and> (\<exists>e. length (hi_hash hi) = 2 ^ e \<and> hi_hashmod hi + 1 = 2 ^ e) \<and>
     (\<exists>L. buckets hi L) \<and>
     (\<forall>k < hi_cap hi. nd_id (hi_id hi ! k) = -1 \<longrightarrow> nd_next (hi_id hi ! k) = None) \<and>
     inj_on (\<lambda>k. nd_id (hi_id hi ! k)) (used_nodes hi) \<and>
     hi_count hi = card (used_nodes hi)"

text \<open>The abstract view: which node an id has.\<close>

definition slots :: "hashid \<Rightarrow> int \<rightharpoonup> nat" where
  "slots hi i =
     (if i = -1 then None else find (\<lambda>k. nd_id (hi_id hi ! k) = i) [0..<hi_cap hi])"

lemma slots_Some:
  assumes "hashid_ok hi"
  shows "slots hi i = Some k \<longleftrightarrow> k \<in> used_nodes hi \<and> nd_id (hi_id hi ! k) = i"
proof -
  have inj: "inj_on (\<lambda>k. nd_id (hi_id hi ! k)) (used_nodes hi)" using assms by (simp add: hashid_ok_def)
  show ?thesis
  proof
    assume "slots hi i = Some k"
    then show "k \<in> used_nodes hi \<and> nd_id (hi_id hi ! k) = i"
      by (auto simp: slots_def used_nodes_def find_Some_iff split: if_splits)
  next
    assume k: "k \<in> used_nodes hi \<and> nd_id (hi_id hi ! k) = i"
    then have "i \<noteq> -1" "k < hi_cap hi" by (auto simp: used_nodes_def)
    moreover have "nd_id (hi_id hi ! j) \<noteq> i" if "j < k" for j
    proof
      assume "nd_id (hi_id hi ! j) = i"
      then have "j \<in> used_nodes hi" "nd_id (hi_id hi ! j) = nd_id (hi_id hi ! k)"
        using k that \<open>k < hi_cap hi\<close> \<open>i \<noteq> -1\<close> by (auto simp: used_nodes_def)
      then have "j = k" using inj k by (metis inj_onD)
      then show False using that by simp
    qed
    ultimately show "slots hi i = Some k" using k by (auto simp: slots_def find_Some_iff intro!: exI [of _ k])
  qed
qed

lemma slots_None: "i \<noteq> -1 \<Longrightarrow> slots hi i = None \<longleftrightarrow> (\<forall>k < hi_cap hi. nd_id (hi_id hi ! k) \<noteq> i)"
  by (auto simp: slots_def find_None_iff)

lemma bucket_mem:
  "buckets hi L \<Longrightarrow> h < length (hi_hash hi) \<Longrightarrow> k \<in> set (L h) \<longleftrightarrow>
     k < hi_cap hi \<and> nd_id (hi_id hi ! k) \<noteq> -1 \<and> id_bucket hi (nd_id (hi_id hi ! k)) = h"
  by (simp add: buckets_def)

lemma bucket_less:
  assumes "hashid_ok hi"
  shows "id_bucket hi i < length (hi_hash hi)"
proof -
  obtain e where e: "length (hi_hash hi) = 2 ^ e" "hi_hashmod hi + 1 = 2 ^ e" using assms by (auto simp: hashid_ok_def)
  then have "int (hi_hashmod hi) = 2 ^ e - 1" by (metis add_diff_cancel_right' int_ops(2) of_nat_1 of_nat_add of_nat_numeral of_nat_power)
  then have "i AND int (hi_hashmod hi) = i mod 2 ^ e" by (simp add: mask_eq_exp_minus_1 [symmetric] take_bit_eq_mask [symmetric] take_bit_eq_mod)
  then show ?thesis using e(1) by (simp add: id_bucket_def nat_less_iff)
qed

section \<open>The operations on the abstract view\<close>

text \<open>The integer the C functions return for a slot.\<close>

definition slot_int :: "nat option \<Rightarrow> int" where
  "slot_int s = (case s of None \<Rightarrow> -1 | Some k \<Rightarrow> int k)"

lemma slot_int_simps [simp]: "slot_int None = -1" "slot_int (Some k) = int k"
  by (simp_all add: slot_int_def)

lemma slot_int_nonneg: "0 \<le> slot_int s \<longleftrightarrow> s \<noteq> None"
  by (cases s) auto

lemma lookup_loop_chain:
  "chain (hi_id hi) c ks \<Longrightarrow>
   lookup_loop hi i c = Some (Inr (slot_int (find (\<lambda>k. nd_id (hi_id hi ! k) = i) ks)))"
proof (induction ks arbitrary: c)
  case Nil
  then show ?case by (simp add: lookup_loop.simps)
next
  case (Cons k ks)
  then show ?case by (subst lookup_loop.simps) auto
qed

lemma find_bucket:
  assumes ok: "hashid_ok hi" and L: "buckets hi L"
  shows "find (\<lambda>k. nd_id (hi_id hi ! k) = i) (L (id_bucket hi i)) = slots hi i"
proof (rule option_eqI)
  fix k
  let ?P = "\<lambda>k. nd_id (hi_id hi ! k) = i"
  have mem: "j \<in> set (L (id_bucket hi i)) \<and> ?P j \<longleftrightarrow> j \<in> used_nodes hi \<and> ?P j" for j
    using L bucket_less [OF ok, of i] by (auto simp: buckets_def used_nodes_def)
  have "find ?P (L (id_bucket hi i)) = Some k \<longleftrightarrow> k \<in> used_nodes hi \<and> ?P k"
  proof
    assume "find ?P (L (id_bucket hi i)) = Some k"
    then have "k \<in> set (L (id_bucket hi i)) \<and> ?P k" by (auto simp: find_Some_iff)
    then show "k \<in> used_nodes hi \<and> ?P k" using mem by blast
  next
    assume k: "k \<in> used_nodes hi \<and> ?P k"
    then have "find ?P (L (id_bucket hi i)) \<noteq> None" using mem by (auto simp: find_None_iff)
    then obtain j where j: "find ?P (L (id_bucket hi i)) = Some j" by auto
    then have "j \<in> set (L (id_bucket hi i)) \<and> ?P j" by (auto simp: find_Some_iff)
    then have "j \<in> used_nodes hi \<and> ?P j" using mem by blast
    then have "j = k" using k ok slots_Some [OF ok] by (metis option.inject)
    then show "find ?P (L (id_bucket hi i)) = Some k" using j by simp
  qed
  then show "find ?P (L (id_bucket hi i)) = Some k \<longleftrightarrow> slots hi i = Some k"
    using slots_Some [OF ok] by simp
qed

lemma lookup_slots:
  assumes ok: "hashid_ok hi"
  shows "hashid_lookup hi i = Inr (slot_int (slots hi i))"
proof -
  obtain L where L: "buckets hi L" using ok by (auto simp: hashid_ok_def)
  have b: "id_bucket hi i < length (hi_hash hi)" using ok by (rule bucket_less)
  then have "chain (hi_id hi) (hi_hash hi ! id_bucket hi i) (L (id_bucket hi i))"
    using L by (simp add: buckets_def)
  then show ?thesis using b by (simp add: hashid_lookup_def lookup_loop_chain find_bucket [OF ok L])
qed

subsection \<open>Insertion\<close>

lemma free_node_total:
  assumes "0 \<le> i" "i + int (hi_cap hi) \<le> int INT_MAX + 1" "length (hi_id hi) = hi_cap hi"
    and "k \<le> j" "j < hi_cap hi" "nd_id (hi_id hi ! nat ((int j + i) mod int (hi_cap hi))) = -1"
  shows "\<exists>c < hi_cap hi. free_node hi i k = Inr (Some c) \<and> nd_id (hi_id hi ! c) = -1"
  using assms
proof (induction "hi_cap hi - k" arbitrary: k)
  case 0
  then show ?case by simp
next
  case (Suc d)
  let ?x = "nat ((int k + i) mod int (hi_cap hi))"
  have k: "k < hi_cap hi" using Suc.prems by simp
  have x: "?x < hi_cap hi" using k by (simp add: nat_less_iff)
  have s: "c_sint (int k + i) = Inr (int k + i)" "c_rem (int k + i) (int (hi_cap hi)) = (int k + i) mod int (hi_cap hi)"
    using k Suc.prems by (simp_all add: c_rem_nonneg)
  have pos: "0 \<le> (int k + i) mod int (hi_cap hi)" using k by simp
  have unfold: "free_node hi i k = (if nd_id (hi_id hi ! ?x) = -1 then Inr (Some ?x) else free_node hi i (k + 1))"
    using k x Suc.prems(3) pos by (subst free_node.simps) (simp add: s Let_def not_less [symmetric])
  show ?case
  proof (cases "nd_id (hi_id hi ! ?x) = -1")
    case True
    then show ?thesis using unfold x by auto
  next
    case False
    then have "k \<noteq> j" using Suc.prems by auto
    then have "k + 1 \<le> j" using Suc.prems by simp
    then show ?thesis using Suc.hyps(1) [of "k + 1"] Suc.hyps(2) Suc.prems unfold False by simp
  qed
qed

lemma free_exists:
  assumes ok: "hashid_ok hi" and nf: "\<not> hashid_full hi"
  obtains m where "m < hi_cap hi" "nd_id (hi_id hi ! m) = -1"
proof -
  have "used_nodes hi \<noteq> {..<hi_cap hi}"
    using ok nf by (auto simp: hashid_ok_def hashid_full_def)
  then show ?thesis using that by (auto simp: used_nodes_def)
qed

lemma free_node_ok:
  assumes ok: "hashid_ok hi" and nf: "\<not> hashid_full hi"
    and i: "0 \<le> i" "i + int (hi_cap hi) \<le> int INT_MAX + 1"
  obtains c where "c < hi_cap hi" "free_node hi i 0 = Inr (Some c)" "nd_id (hi_id hi ! c) = -1"
proof -
  obtain m where m: "m < hi_cap hi" "nd_id (hi_id hi ! m) = -1" using free_exists [OF ok nf] .
  define j where "j = nat ((int m - i) mod int (hi_cap hi))"
  have jm: "int j = (int m - i) mod int (hi_cap hi)" using m(1) by (simp add: j_def)
  have "j < hi_cap hi" using m(1) by (simp add: j_def nat_less_iff)
  moreover have "(int j + i) mod int (hi_cap hi) = int m" using m(1) by (simp add: jm mod_simps)
  ultimately show ?thesis
    using free_node_total [of i hi 0 j] i ok m that by (auto simp: hashid_ok_def)
qed

lemma insert_slots:
  assumes ok: "hashid_ok hi" and nf: "\<not> hashid_full hi"
    and i: "0 \<le> i" "i + int (hi_cap hi) \<le> int INT_MAX + 1" and fresh: "slots hi i = None"
  shows "\<exists>c hi'. hashid_insert i hi = Inr (int c, hi') \<and> hashid_ok hi' \<and> c < hi_cap hi \<and>
           c \<notin> ran (slots hi) \<and> slots hi' = (slots hi)(i \<mapsto> c) \<and> hi_cap hi' = hi_cap hi"
proof -
  obtain c where c: "c < hi_cap hi" "free_node hi i 0 = Inr (Some c)" "nd_id (hi_id hi ! c) = -1"
    using free_node_ok [OF ok nf i] .
  obtain L where L: "buckets hi L" using ok by (auto simp: hashid_ok_def)
  have len: "length (hi_id hi) = hi_cap hi" and nx: "nd_next (hi_id hi ! c) = None"
    using ok c by (auto simp: hashid_ok_def)
  let ?h = "id_bucket hi i"
  have h: "?h < length (hi_hash hi)" using ok by (rule bucket_less)
  define hi' where "hi' = hi\<lparr>hi_count := hi_count hi + 1,
      hi_id := (hi_id hi)[c := \<lparr>nd_id = i, nd_next = hi_hash hi ! ?h\<rparr>], hi_hash := (hi_hash hi)[?h := Some c]\<rparr>"
  have run: "hashid_insert i hi = Inr (int c, hi')"
    using c h len nx by (simp add: hashid_insert_def hi'_def Let_def)
  have i1: "i \<noteq> -1" using i(1) by simp
  have nid: "nd_id (hi_id hi' ! k) = (if k = c then i else nd_id (hi_id hi ! k))" if "k < hi_cap hi" for k
    using that len by (simp add: hi'_def)
  have used: "used_nodes hi' = insert c (used_nodes hi)"
    using c i1 nid by (auto simp: used_nodes_def hi'_def [THEN arg_cong [of _ _ hi_cap], simplified] split: if_splits)
  have cn: "c \<notin> used_nodes hi" using c by (simp add: used_nodes_def)
  have idb: "id_bucket hi' = id_bucket hi" by (simp add: fun_eq_iff id_bucket_def hi'_def)
  have cL: "c \<notin> set (L h')" if "h' < length (hi_hash hi)" for h'
    using L that c by (auto simp: buckets_def)
  have "buckets hi' (L(?h := c # L ?h))"
    unfolding buckets_def
  proof (intro conjI allI impI)
    fix h' assume h': "h' < length (hi_hash hi')"
    then have hl: "h' < length (hi_hash hi)" by (simp add: hi'_def)
    have ch: "chain (hi_id hi) (hi_hash hi ! h') (L h')" "distinct (L h')" using L hl by (auto simp: buckets_def)
    show "chain (hi_id hi') (hi_hash hi' ! h') ((L(?h := c # L ?h)) h')"
      using ch c(1) len cL [OF hl] h hl by (auto simp: hi'_def chain_upd)
    show "distinct ((L(?h := c # L ?h)) h')" using ch cL [OF hl] by auto
    fix k
    show "(k \<in> set ((L(?h := c # L ?h)) h')) =
        (k < hi_cap hi' \<and> nd_id (hi_id hi' ! k) \<noteq> -1 \<and> id_bucket hi' (nd_id (hi_id hi' ! k)) = h')"
    proof (cases "k = c")
      case True
      then show ?thesis using c(1) i1 nid cL [OF hl] by (simp add: idb) (auto simp: hi'_def)
    next
      case False
      then have "k \<in> set ((L(?h := c # L ?h)) h') \<longleftrightarrow> k \<in> set (L h')" by auto
      then show ?thesis using False nid by (auto simp: bucket_mem [OF L hl] idb) (auto simp: hi'_def)
    qed
  qed
  moreover have "inj_on (\<lambda>k. nd_id (hi_id hi' ! k)) (used_nodes hi')"
  proof -
    have "inj_on (\<lambda>k. nd_id (hi_id hi ! k)) (used_nodes hi)" using ok by (simp add: hashid_ok_def)
    moreover have "\<forall>k \<in> used_nodes hi. nd_id (hi_id hi ! k) \<noteq> i"
      using fresh i1 by (auto simp: slots_None used_nodes_def)
    moreover have "nd_id (hi_id hi' ! k) = nd_id (hi_id hi ! k)" if "k \<in> used_nodes hi" for k
      using that cn nid by (auto simp: used_nodes_def)
    ultimately show ?thesis using cn c nid by (simp add: used inj_on_def) metis
  qed
  moreover have "hi_count hi' = card (used_nodes hi')"
  proof -
    have "finite (used_nodes hi)" by (simp add: used_nodes_def)
    moreover have "hi_count hi' = hi_count hi + 1" by (simp add: hi'_def)
    ultimately show ?thesis using ok cn by (simp add: used hashid_ok_def)
  qed
  ultimately have ok': "hashid_ok hi'"
    using ok c len i1 unfolding hashid_ok_def by (auto simp: hi'_def nth_list_update)
  have "slots hi' j = ((slots hi)(i \<mapsto> c)) j" for j
  proof (rule option_eqI)
    fix k
    have ne: "i \<noteq> nd_id (hi_id hi ! k)" if "k \<in> used_nodes hi" using that fresh i1 by (auto simp: slots_None used_nodes_def)
    have "slots hi' j = Some k \<longleftrightarrow> k = c \<and> j = i \<or> k \<in> used_nodes hi \<and> nd_id (hi_id hi ! k) = j"
    proof (cases "k = c")
      case True
      then show ?thesis using slots_Some [OF ok', of j k] nid [OF c(1)] cn by (auto simp: used)
    next
      case False
      then have "k \<in> used_nodes hi' \<longleftrightarrow> k \<in> used_nodes hi" by (simp add: used)
      then show ?thesis using slots_Some [OF ok', of j k] nid [of k] False by (auto simp: used_nodes_def)
    qed
    then show "slots hi' j = Some k \<longleftrightarrow> ((slots hi)(i \<mapsto> c)) j = Some k"
      using ne slots_Some [OF ok, of j k] by auto
  qed
  moreover have "c \<notin> ran (slots hi)" using cn slots_Some [OF ok] by (auto simp: ran_def)
  ultimately show ?thesis using run ok' c by (auto simp: hi'_def)
qed

subsection \<open>Removal\<close>

text \<open>Where the second loop stops: at the neighbours \<open>p\<close>, \<open>t\<close> with \<open>t\<close> the node of the id.\<close>

lemma remove_loop_chain:
  "chain (hi_id hi) (Some c) (c # ks) \<Longrightarrow>
   (case find (\<lambda>k. nd_id (hi_id hi ! k) = i) ks of
      None \<Rightarrow> remove_loop hi i c = Some (Inr None)
    | Some t \<Rightarrow> \<exists>us p vs. c # ks = us @ p # t # vs \<and> remove_loop hi i c = Some (Inr (Some (p, t))))"
proof (induction ks arbitrary: c)
  case Nil
  then show ?case by (simp add: remove_loop.simps)
next
  case (Cons k ks)
  then have step: "remove_loop hi i c =
      (if nd_id (hi_id hi ! k) = i then Some (Inr (Some (c, k))) else remove_loop hi i k)"
    by (subst remove_loop.simps) auto
  have IH: "case find (\<lambda>k. nd_id (hi_id hi ! k) = i) ks of
      None \<Rightarrow> remove_loop hi i k = Some (Inr None)
    | Some t \<Rightarrow> \<exists>us p vs. k # ks = us @ p # t # vs \<and> remove_loop hi i k = Some (Inr (Some (p, t)))"
    using Cons by auto
  show ?case
  proof (cases "nd_id (hi_id hi ! k) = i")
    case True
    then show ?thesis using step by (auto intro: exI [of _ "[]"])
  next
    case False
    then show ?thesis using step IH by (auto split: option.splits) (metis append_Cons)
  qed
qed

text \<open>
  What both ways of unlinking have in common: the node of the id is cleared, the
  other nodes keep their ids, and the buckets lose just that node.
\<close>

lemma removed:
  assumes ok: "hashid_ok hi" and L: "buckets hi L" and s: "slots hi i = Some t"
    and frame: "hi_cap hi' = hi_cap hi" "hi_hashmod hi' = hi_hashmod hi"
      "length (hi_hash hi') = length (hi_hash hi)" "length (hi_id hi') = length (hi_id hi)"
      "hi_count hi' = hi_count hi - 1"
    and nid: "\<And>k. k < hi_cap hi \<Longrightarrow> nd_id (hi_id hi' ! k) = (if k = t then -1 else nd_id (hi_id hi ! k))"
    and nx: "\<And>k. k < hi_cap hi \<Longrightarrow> nd_id (hi_id hi' ! k) = -1 \<Longrightarrow> nd_next (hi_id hi' ! k) = None"
    and ch: "\<And>h. h < length (hi_hash hi) \<Longrightarrow>
      chain (hi_id hi') (hi_hash hi' ! h) (if h = id_bucket hi i then remove1 t (L h) else L h)"
  shows "hashid_ok hi' \<and> slots hi' = (slots hi)(i := None)"
proof -
  let ?L = "\<lambda>h. if h = id_bucket hi i then remove1 t (L h) else L h"
  have t: "t < hi_cap hi" "nd_id (hi_id hi ! t) = i" "t \<in> used_nodes hi" "i \<noteq> -1"
    using s slots_Some [OF ok] by (auto simp: used_nodes_def)
  have used: "used_nodes hi' = used_nodes hi - {t}"
    using nid by (auto simp: used_nodes_def frame split: if_splits)
  have idb: "id_bucket hi' = id_bucket hi" by (simp add: fun_eq_iff id_bucket_def frame)
  have keep: "nd_id (hi_id hi' ! k) = nd_id (hi_id hi ! k)" if "k \<in> used_nodes hi'" for k
    using that nid by (auto simp: used) (auto simp: used_nodes_def)
  have "buckets hi' ?L"
    unfolding buckets_def
  proof (intro conjI allI impI)
    fix h assume "h < length (hi_hash hi')"
    then have h: "h < length (hi_hash hi)" by (simp add: frame)
    show "chain (hi_id hi') (hi_hash hi' ! h) (?L h)" using ch h .
    show "distinct (?L h)" using L h by (simp add: buckets_def)
    fix k
    have "distinct (L h)" using L h by (simp add: buckets_def)
    then have "k \<in> set (?L h) \<longleftrightarrow> k \<in> set (L h) \<and> (h = id_bucket hi i \<longrightarrow> k \<noteq> t)" by auto
    also have "\<dots> \<longleftrightarrow> k \<in> used_nodes hi \<and> id_bucket hi (nd_id (hi_id hi ! k)) = h \<and> k \<noteq> t"
      using L h t(2) by (auto simp: buckets_def used_nodes_def)
    also have "\<dots> \<longleftrightarrow> k \<in> used_nodes hi' \<and> id_bucket hi' (nd_id (hi_id hi' ! k)) = h"
      using keep by (auto simp: used idb)
    finally show "k \<in> set (?L h) \<longleftrightarrow> k < hi_cap hi' \<and> nd_id (hi_id hi' ! k) \<noteq> -1 \<and>
        id_bucket hi' (nd_id (hi_id hi' ! k)) = h"
      by (auto simp: used_nodes_def)
  qed
  moreover have "inj_on (\<lambda>k. nd_id (hi_id hi' ! k)) (used_nodes hi')"
    using ok keep unfolding hashid_ok_def used inj_on_def by (metis DiffD1)
  moreover have "hi_count hi' = card (used_nodes hi')"
    using ok t(3) by (simp add: used frame hashid_ok_def card_Diff_singleton)
  moreover have "\<exists>e. length (hi_hash hi') = 2 ^ e \<and> hi_hashmod hi' + 1 = 2 ^ e"
    using ok by (simp add: hashid_ok_def frame)
  ultimately have ok': "hashid_ok hi'"
    using ok nx by (auto simp: hashid_ok_def frame)
  have "slots hi' j = ((slots hi)(i := None)) j" for j
  proof (rule option_eqI)
    fix k
    have "slots hi' j = Some k \<longleftrightarrow> k \<in> used_nodes hi' \<and> nd_id (hi_id hi ! k) = j"
      using slots_Some [OF ok'] keep by metis
    also have "\<dots> \<longleftrightarrow> k \<in> used_nodes hi \<and> nd_id (hi_id hi ! k) = j \<and> j \<noteq> i"
      using t(2,3) s slots_Some [OF ok] by (auto simp: used) (metis option.inject)
    also have "\<dots> \<longleftrightarrow> ((slots hi)(i := None)) j = Some k" using slots_Some [OF ok] by auto
    finally show "slots hi' j = Some k \<longleftrightarrow> ((slots hi)(i := None)) j = Some k" .
  qed
  then show ?thesis using ok' by auto
qed

lemma remove_slots:
  assumes ok: "hashid_ok hi"
  shows "\<exists>hi'. hashid_remove i hi = Inr (slot_int (slots hi i), hi') \<and> hashid_ok hi' \<and>
           slots hi' = (slots hi)(i := None) \<and> hi_cap hi' = hi_cap hi"
proof -
  obtain L where L: "buckets hi L" using ok by (auto simp: hashid_ok_def)
  let ?h = "id_bucket hi i"
  have h: "?h < length (hi_hash hi)" using ok by (rule bucket_less)
  have len: "length (hi_id hi) = hi_cap hi" using ok by (simp add: hashid_ok_def)
  have chs: "chain (hi_id hi) (hi_hash hi ! h') (L h')" "distinct (L h')" if "h' < length (hi_hash hi)" for h'
    using L that by (auto simp: buckets_def)
  have f: "find (\<lambda>k. nd_id (hi_id hi ! k) = i) (L ?h) = slots hi i" using find_bucket [OF ok L] .
  have same: "(slots hi)(i := None) = slots hi" if "slots hi i = None" using that by auto
  have free: "nd_next (hi_id hi ! k) = None" if "k < hi_cap hi" "nd_id (hi_id hi ! k) = -1" for k
    using ok that by (auto simp: hashid_ok_def)
  have disj: "t \<notin> set (L h')" if "t \<in> set (L ?h)" "h' < length (hi_hash hi)" "h' \<noteq> ?h" for t h'
    using L that h by (auto simp: buckets_def)
  show ?thesis
  proof (cases "L ?h")
    case Nil
    then have "hi_hash hi ! ?h = None" "slots hi i = None" using chs [OF h] f by auto
    then show ?thesis using h ok same by (simp add: hashid_remove_def Let_def)
  next
    case (Cons c ks)
    have c: "hi_hash hi ! ?h = Some c" "c < length (hi_id hi)" "chain (hi_id hi) (Some c) (c # ks)"
      "chain (hi_id hi) (nd_next (hi_id hi ! c)) ks"
      using chs(1) [OF h] Cons by auto
    have dist: "distinct (c # ks)" using chs(2) [OF h] Cons by simp
    show ?thesis
    proof (cases "nd_id (hi_id hi ! c) = i")
      case True
      then have s: "slots hi i = Some c" using f Cons by simp
      define hi' where "hi' = hi\<lparr>hi_hash := (hi_hash hi)[?h := nd_next (hi_id hi ! c)],
        hi_id := (hi_id hi)[c := \<lparr>nd_id = -1, nd_next = None\<rparr>], hi_count := hi_count hi - 1\<rparr>"
      have "hashid_remove i hi = Inr (int c, hi')"
        using h c True by (simp add: hashid_remove_def Let_def clear_node_def hi'_def)
      moreover have "hashid_ok hi' \<and> slots hi' = (slots hi)(i := None)"
      proof (rule removed [OF ok L s])
        fix h' assume h': "h' < length (hi_hash hi)"
        show "chain (hi_id hi') (hi_hash hi' ! h') (if h' = ?h then remove1 c (L h') else L h')"
          using c(2,4) dist Cons chs [OF h'] h' h disj [of c h']
          by (auto simp: hi'_def chain_upd nth_list_update)
      qed (use len c(2) free in \<open>auto simp: hi'_def nth_list_update\<close>)
      ultimately show ?thesis using s by (auto simp: hi'_def)
    next
      case False
      note loop = remove_loop_chain [OF c(3), of i]
      show ?thesis
      proof (cases "find (\<lambda>k. nd_id (hi_id hi ! k) = i) ks")
        case None
        then have "slots hi i = None" using f Cons False by simp
        then show ?thesis using loop None h c False ok same by (simp add: hashid_remove_def Let_def)
      next
        case (Some t)
        then have s: "slots hi i = Some t" using f Cons False by simp
        obtain us p vs where split: "c # ks = us @ p # t # vs" and run: "remove_loop hi i c = Some (Inr (Some (p, t)))"
          using loop Some by auto
        have pt: "p < length (hi_id hi)" "t < length (hi_id hi)" "p \<noteq> t" "p \<noteq> t"
          using split c(3) dist chain_bound [OF c(3)] by auto
        define ns where "ns = (hi_id hi)[p := (hi_id hi ! p)\<lparr>nd_next := nd_next (hi_id hi ! t)\<rparr>]"
        define hi' where "hi' = hi\<lparr>hi_id := ns[t := \<lparr>nd_id = -1, nd_next = None\<rparr>], hi_count := hi_count hi - 1\<rparr>"
        have "hashid_remove i hi = Inr (int t, hi')"
          using h c False run pt by (simp add: hashid_remove_def Let_def clear_node_def hi'_def ns_def)
        moreover have "hashid_ok hi' \<and> slots hi' = (slots hi)(i := None)"
        proof (rule removed [OF ok L s])
          fix h' assume h': "h' < length (hi_hash hi)"
          show "chain (hi_id hi') (hi_hash hi' ! h') (if h' = ?h then remove1 t (L h') else L h')"
          proof (cases "h' = ?h")
            case True
            have "remove1 t (L ?h) = us @ p # vs" using Cons split dist by (auto simp: remove1_append)
            moreover have "chain ns (hi_hash hi ! ?h) (us @ p # vs)"
              using chain_unlink [of "hi_id hi" "Some c" us p t vs] c(1,3) dist split by (simp add: ns_def)
            ultimately show ?thesis using True dist split by (auto simp: hi'_def chain_upd)
          next
            case False
            then have "p \<notin> set (L h')" "t \<notin> set (L h')" using disj [OF _ h' False] Cons split by auto
            then show ?thesis using chs [OF h'] False by (simp add: hi'_def ns_def chain_upd)
          qed
        next
          fix k assume "k < hi_cap hi" "nd_id (hi_id hi' ! k) = -1"
          moreover have "nd_id (hi_id hi ! p) \<noteq> -1" using bucket_mem [OF L h, of p] Cons split by simp
          ultimately show "nd_next (hi_id hi' ! k) = None"
            using free pt len by (auto simp: hi'_def ns_def nth_list_update split: if_splits)
        qed (use len pt in \<open>auto simp: hi'_def ns_def nth_list_update\<close>)
        ultimately show ?thesis using s by (auto simp: hi'_def)
      qed
    qed
  qed
qed

subsection \<open>Initialisation\<close>

lemma hash_cap_power:
  assumes "mx \<le> 2 ^ 30" "e \<le> 30"
  shows "\<exists>e'. hash_cap mx (2 ^ e) = Inr (2 ^ e')"
  using assms(2)
proof (induction "30 - e" arbitrary: e)
  case 0
  then have "\<not> (2 :: nat) ^ e < mx" using assms(1) by simp
  then show ?case by (subst hash_cap.simps) auto
next
  case (Suc d)
  have e: "e < 30" using Suc.hyps(2) by simp
  then have "(2 :: nat) ^ e * 2 \<le> 2 ^ 30" using power_increasing [of "Suc e" 30 "2 :: nat"] by simp
  then have "(2 :: nat) ^ e * 2 \<le> INT_MAX" by (simp add: INT_MAX_def)
  then have "hash_cap mx (2 ^ e) = (if 2 ^ e < mx then hash_cap mx (2 ^ Suc e) else Inr (2 ^ e))"
    by (subst hash_cap.simps) (simp add: mult.commute)
  moreover have "\<exists>e'. hash_cap mx (2 ^ Suc e) = Inr (2 ^ e')" using Suc.hyps(1) [of "Suc e"] Suc.hyps(2) e by simp
  ultimately show ?case by (auto simp del: power_Suc)
qed

lemma hashid_init_slots:
  assumes "mx \<le> 2 ^ 30"
  shows "\<exists>hi. hashid_init mx = Inr hi \<and> hashid_ok hi \<and> slots hi = Map.empty \<and> hi_cap hi = mx"
proof -
  obtain e where e: "hash_cap mx 16 = Inr (2 ^ e)"
    using hash_cap_power [OF assms, of 4] by auto
  let ?hi = "\<lparr>hi_hashmod = 2 ^ e - 1, hi_cap = mx, hi_count = 0,
      hi_id = replicate mx \<lparr>nd_id = -1, nd_next = None\<rparr>, hi_hash = replicate (2 ^ e) None\<rparr>"
  have "buckets ?hi (\<lambda>_. [])" by (simp add: buckets_def)
  moreover have "used_nodes ?hi = {}" by (auto simp: used_nodes_def)
  ultimately have "hashid_ok ?hi" by (auto simp: hashid_ok_def)
  moreover have "slots ?hi = Map.empty" by (auto simp: slots_def fun_eq_iff find_None_iff)
  ultimately show ?thesis by (simp add: hashid_init_def e)
qed

lemma slots_less: "slots hi i = Some k \<Longrightarrow> k < hi_cap hi"
  by (auto simp: slots_def find_Some_iff split: if_splits)

lemma slots_inj: "hashid_ok hi \<Longrightarrow> slots hi i = Some k \<Longrightarrow> slots hi j = Some k \<Longrightarrow> i = j"
  by (auto simp: slots_Some)

lemma full_iff: "hashid_ok hi \<Longrightarrow> hashid_full hi \<longleftrightarrow> ran (slots hi) = {..<hi_cap hi}"
proof -
  assume ok: "hashid_ok hi"
  have "ran (slots hi) = used_nodes hi" unfolding ran_def using slots_Some [OF ok] by blast
  moreover have sub: "used_nodes hi \<subseteq> {..<hi_cap hi}" by (auto simp: used_nodes_def)
  moreover have "card (used_nodes hi) = hi_cap hi \<longleftrightarrow> used_nodes hi = {..<hi_cap hi}"
    using card_subset_eq [OF _ sub] by (metis card_lessThan finite_lessThan)
  ultimately show ?thesis using ok by (simp add: hashid_full_def hashid_ok_def)
qed

section \<open>The interface of the gate\<close>

text \<open>A client opens and closes connections in any order: \<open>(i, True)\<close> opens \<open>i\<close> unless the table is full.\<close>

fun table_run :: "('t \<Rightarrow> bool) \<Rightarrow> (int \<Rightarrow> 't \<Rightarrow> (int \<times> 't) res) \<Rightarrow> (int \<Rightarrow> 't \<Rightarrow> (int \<times> 't) res) \<Rightarrow>
    (int \<times> bool) list \<Rightarrow> 't \<Rightarrow> 't res" where
  "table_run full ins del [] t = Inr t"
| "table_run full ins del ((i, b) # ops) t =
     (if b then (if full t then table_run full ins del ops t
                 else bindR (ins i t) (\<lambda>(_, t'). table_run full ins del ops t'))
      else bindR (del i t) (\<lambda>(_, t'). table_run full ins del ops t'))"

fun set_run :: "nat \<Rightarrow> (int \<times> bool) list \<Rightarrow> int set \<Rightarrow> int set" where
  "set_run n [] S = S"
| "set_run n ((i, b) # ops) S =
     set_run n ops (if b then (if card S = n then S else insert i S) else S - {i})"

fun fresh_ids :: "nat \<Rightarrow> (int \<times> bool) list \<Rightarrow> int set \<Rightarrow> bool" where
  "fresh_ids n [] S = True"
| "fresh_ids n ((i, b) # ops) S =
     ((b \<longrightarrow> i \<notin> S \<and> 0 \<le> i \<and> i + int n \<le> int INT_MAX + 1) \<and>
      fresh_ids n ops (if b then (if card S = n then S else insert i S) else S - {i}))"

text \<open>
  What the gate relies on: the table is a finite map from socket ids to distinct
  slots below a fixed capacity.
\<close>

locale slot_table =
  fixes ok :: "'t \<Rightarrow> bool" and view :: "'t \<Rightarrow> int \<rightharpoonup> nat" and cap :: "'t \<Rightarrow> nat"
    and lookup :: "'t \<Rightarrow> int \<Rightarrow> int res" and insert_id :: "int \<Rightarrow> 't \<Rightarrow> (int \<times> 't) res"
    and remove_id :: "int \<Rightarrow> 't \<Rightarrow> (int \<times> 't) res" and full :: "'t \<Rightarrow> bool"
  assumes lookup_law: "ok t \<Longrightarrow> lookup t i = Inr (slot_int (view t i))"
    and insert_law: "ok t \<Longrightarrow> \<not> full t \<Longrightarrow> 0 \<le> i \<Longrightarrow> i + int (cap t) \<le> int INT_MAX + 1 \<Longrightarrow>
      view t i = None \<Longrightarrow> \<exists>c t'. insert_id i t = Inr (int c, t') \<and> ok t' \<and> c < cap t \<and>
        c \<notin> ran (view t) \<and> view t' = (view t)(i \<mapsto> c) \<and> cap t' = cap t"
    and remove_law: "ok t \<Longrightarrow> \<exists>t'. remove_id i t = Inr (slot_int (view t i), t') \<and> ok t' \<and>
        view t' = (view t)(i := None) \<and> cap t' = cap t"
    and view_less: "ok t \<Longrightarrow> view t i = Some k \<Longrightarrow> k < cap t"
    and view_inj: "ok t \<Longrightarrow> view t i = Some k \<Longrightarrow> view t j = Some k \<Longrightarrow> i = j"
    and full_law: "ok t \<Longrightarrow> full t \<longleftrightarrow> ran (view t) = {..<cap t}"
begin

lemma dom_upd: "dom (\<lambda>a. if a = i then Some c else m a) = insert i (dom m)"
    "dom (\<lambda>a. if a = i then None else m a) = dom m - {i}"
  by (auto split: if_splits)

lemma dom_bound: "ok t \<Longrightarrow> finite (dom (view t)) \<and> card (dom (view t)) \<le> cap t"
proof -
  assume ok: "ok t"
  have inj: "inj_on (\<lambda>i. the (view t i)) (dom (view t))"
    using view_inj [OF ok] by (auto simp: inj_on_def)
  moreover have sub: "(\<lambda>i. the (view t i)) ` dom (view t) \<subseteq> {..<cap t}"
    using view_less [OF ok] by auto
  ultimately show ?thesis
    using card_inj_on_le [OF inj sub] inj_on_finite [OF inj sub] by simp
qed

lemma full_dom: "ok t \<Longrightarrow> full t \<longleftrightarrow> card (dom (view t)) = cap t"
proof -
  assume ok: "ok t"
  have inj: "inj_on (\<lambda>i. the (view t i)) (dom (view t))"
    using view_inj [OF ok] by (auto simp: inj_on_def)
  have img: "(\<lambda>i. the (view t i)) ` dom (view t) = ran (view t)" by (fastforce simp: ran_def image_def dom_def)
  have sub: "ran (view t) \<subseteq> {..<cap t}" using view_less [OF ok] by (auto simp: ran_def)
  have "card (dom (view t)) = card (ran (view t))" using card_image [OF inj] img by simp
  then show ?thesis using full_law [OF ok] card_subset_eq [OF _ sub] by (metis card_lessThan finite_lessThan)
qed

text \<open>
  Under any sequence of openings of ids that are not open and of closings, the
  table never fails, and afterwards an id has a slot exactly if its last
  operation opened it while there was room.
\<close>

lemma table_run_sim:
  "ok t \<Longrightarrow> fresh_ids (cap t) ops (dom (view t)) \<Longrightarrow>
   \<exists>t'. table_run full insert_id remove_id ops t = Inr t' \<and> ok t' \<and> cap t' = cap t \<and> dom (view t') = set_run (cap t) ops (dom (view t))"
proof (induction ops arbitrary: t)
  case Nil
  then show ?case by simp
next
  case (Cons op ops)
  obtain i b where op: "op = (i, b)" by (cases op)
  show ?case
  proof (cases b)
    case True
    show ?thesis
    proof (cases "full t")
      case full: True
      then show ?thesis using Cons True op full_dom [OF Cons.prems(1)] by simp
    next
      case notfull: False
      have "view t i = None" "0 \<le> i" "i + int (cap t) \<le> int INT_MAX + 1" using Cons.prems(2) op True by auto
      then obtain c t' where "insert_id i t = Inr (int c, t')" "ok t'" "view t' = (view t)(i \<mapsto> c)" "cap t' = cap t"
        using insert_law [OF Cons.prems(1) notfull] by metis
      then show ?thesis
        using Cons.IH [of t'] Cons.prems op True notfull full_dom [OF Cons.prems(1)] by (simp add: dom_upd)
    qed
  next
    case False
    obtain t' where "remove_id i t = Inr (slot_int (view t i), t')" "ok t'" "view t' = (view t)(i := None)" "cap t' = cap t"
      using remove_law [OF Cons.prems(1)] by metis
    then show ?thesis using Cons.IH [of t'] Cons.prems op False by (simp add: dom_upd)
  qed
qed

end

interpretation hid: slot_table hashid_ok slots hi_cap hashid_lookup hashid_insert hashid_remove hashid_full
  by unfold_locales
    (simp_all add: lookup_slots insert_slots remove_slots slots_less full_iff, blast dest: slots_inj)

text \<open>
  C20. The socket id table of the gate is a finite map: any sequence of openings (of
  non-negative ids that are not open, small enough that \<^verbatim>\<open>i+id\<close> does not
  overflow) and closings, from the freshly initialised table, runs without failure
  (no assertion, no access outside the arrays, every loop over a bucket ends);
  afterwards \<^verbatim>\<open>hashid_lookup\<close> returns a slot below the capacity exactly for the
  ids that were opened while there was room and not closed since, and distinct ids
  have distinct slots.
\<close>

theorem hashid_finite_map:
  assumes "hashid_init mx = Inr hi" "mx \<le> 2 ^ 30" "fresh_ids mx ops {}"
  shows "\<exists>hi'. table_run hashid_full hashid_insert hashid_remove ops hi = Inr hi' \<and>
    (\<forall>i. \<exists>s. hashid_lookup hi' i = Inr s \<and>
       (if i \<in> set_run mx ops {} then 0 \<le> s \<and> s < int mx \<and>
          (\<forall>j \<in> set_run mx ops {}. hashid_lookup hi' j = Inr s \<longrightarrow> j = i)
        else s = -1))"
proof -
  have hi: "hashid_ok hi" "slots hi = Map.empty" "hi_cap hi = mx" using hashid_init_slots [OF assms(2)] assms(1) by auto
  then obtain hi' where run: "table_run hashid_full hashid_insert hashid_remove ops hi = Inr hi'"
    and ok: "hashid_ok hi'" "hi_cap hi' = mx" and dom: "dom (slots hi') = set_run mx ops {}"
    using hid.table_run_sim [of hi ops] assms(3) by auto
  have "\<exists>s. hashid_lookup hi' i = Inr s \<and>
       (if i \<in> set_run mx ops {} then 0 \<le> s \<and> s < int mx \<and>
          (\<forall>j \<in> set_run mx ops {}. hashid_lookup hi' j = Inr s \<longrightarrow> j = i)
        else s = -1)" for i
  proof (cases "slots hi' i")
    case None
    then have "i \<notin> set_run mx ops {}" using dom by auto
    then show ?thesis using None by (simp add: lookup_slots [OF ok(1)])
  next
    case (Some k)
    then have mem: "i \<in> set_run mx ops {}" using dom by auto
    have uniq: "j = i" if j: "j \<in> set_run mx ops {}" "slot_int (slots hi' j) = int k" for j
    proof -
      obtain k' where "slots hi' j = Some k'" using j(1) dom by blast
      moreover from this have "k' = k" using j(2) by simp
      ultimately show "j = i" using slots_inj [OF ok(1)] Some by blast
    qed
    have "k < mx" using slots_less [OF Some] ok(2) by simp
    moreover have "\<forall>j \<in> set_run mx ops {}. hashid_lookup hi' j = Inr (int k) \<longrightarrow> j = i"
      using uniq by (metis lookup_slots [OF ok(1)] sum.inject(2))
    ultimately have "0 \<le> int k \<and> int k < int mx \<and>
        (\<forall>j \<in> set_run mx ops {}. hashid_lookup hi' j = Inr (int k) \<longrightarrow> j = i)" by (intro conjI) simp_all
    moreover have "hashid_lookup hi' i = Inr (int k)" using lookup_slots [OF ok(1), of i] Some by simp
    ultimately show ?thesis unfolding if_P [OF mem] by blast
  qed
  then show ?thesis using run by blast
qed

definition table_sample :: "(int \<times> bool) list" where
  "table_sample = [(5, True), (21, True), (5, False), (7, True)]"

theorem hashid_finite_map_witness:
  "\<exists>hi hi'. hashid_init 2 = Inr hi \<and>
     table_run hashid_full hashid_insert hashid_remove table_sample hi = Inr hi' \<and>
     (\<exists>s. hashid_lookup hi' 21 = Inr s \<and> 0 \<le> s) \<and> hashid_lookup hi' 5 = Inr (-1)"
proof -
  have set: "set_run 2 table_sample {} = {21, 7}" by (simp add: table_sample_def insert_commute)
  have fresh: "fresh_ids 2 table_sample {}" by (simp add: table_sample_def INT_MAX_def)
  obtain hi where hi: "hashid_init 2 = Inr hi" using hashid_init_slots [of 2] by auto
  obtain hi' where run: "table_run hashid_full hashid_insert hashid_remove table_sample hi = Inr hi'"
    and lk: "\<forall>i. \<exists>s. hashid_lookup hi' i = Inr s \<and>
       (if i \<in> set_run 2 table_sample {} then 0 \<le> s \<and> s < int 2 \<and>
          (\<forall>j \<in> set_run 2 table_sample {}. hashid_lookup hi' j = Inr s \<longrightarrow> j = i)
        else s = -1)"
    using hashid_finite_map [OF hi _ fresh] by auto
  have "\<exists>s. hashid_lookup hi' 21 = Inr s \<and> 0 \<le> s" using spec [OF lk, of 21] by (auto simp: set)
  moreover have "hashid_lookup hi' 5 = Inr (-1)" using spec [OF lk, of 5] by (auto simp: set)
  ultimately show ?thesis using hi run by blast
qed

end
