(* ===== verification/Databuffer.thy ===== *)
theory Databuffer
  imports Prelude
begin

text \<open>
  The input buffer of a connection (\<^verbatim>\<open>service-src/databuffer.h\<close>): the packets
  that arrived, in a linked list whose nodes come from a pool that all
  connections of a gate share.

  The list from \<^verbatim>\<open>head\<close> to \<^verbatim>\<open>tail\<close> is a list of packets: a node is its
  \<^verbatim>\<open>buffer\<close>, whose length is the node's \<^verbatim>\<open>size\<close>.  Of the pool it is kept how
  many blocks it has and how many nodes are on its free list.
\<close>

section \<open>Data and operations\<close>

definition MESSAGEPOOL :: nat where
  "MESSAGEPOOL = 1023"

type_synonym message = "u8 list"

record databuffer =
  db_header :: int
  db_offset :: nat
  db_size :: nat
  db_list :: "message list"

record messagepool =
  mp_pool :: nat
  mp_freelist :: nat

definition empty_databuffer :: databuffer where
  "empty_databuffer = \<lparr>db_header = 0, db_offset = 0, db_size = 0, db_list = []\<rparr>"

definition empty_messagepool :: messagepool where
  "empty_messagepool = \<lparr>mp_pool = 0, mp_freelist = 0\<rparr>"

definition messagepool_free :: "messagepool \<Rightarrow> messagepool" where
  "messagepool_free pool = empty_messagepool"

definition return_message :: "databuffer \<Rightarrow> messagepool \<Rightarrow> (databuffer \<times> messagepool) res" where
  "return_message db mp =
     (case db_list db of
        [] \<Rightarrow> Inl Bad_pointer
      | m # ms \<Rightarrow> Inr (db\<lparr>db_list := ms\<rparr>, mp\<lparr>mp_freelist := mp_freelist mp + 1\<rparr>))"

text \<open>The loop of \<^verbatim>\<open>databuffer_read\<close>; \<open>buf\<close> is what has been copied so far.\<close>

function read_loop :: "databuffer \<Rightarrow> messagepool \<Rightarrow> u8 list \<Rightarrow> nat \<Rightarrow> (u8 list \<times> databuffer \<times> messagepool) res" where
  "read_loop db mp buf sz =
     (case db_list db of
        [] \<Rightarrow> Inl Bad_pointer
      | m # _ \<Rightarrow>
          let bsz = length m - db_offset db; from = drop (db_offset db) m in
          if bsz > sz then Inr (buf @ take sz from, db\<lparr>db_offset := db_offset db + sz\<rparr>, mp)
          else if bsz = sz then
            bindR (return_message (db\<lparr>db_offset := 0\<rparr>) mp) (\<lambda>(db, mp). Inr (buf @ take sz from, db, mp))
          else
            bindR (return_message db mp) (\<lambda>(db, mp).
            read_loop (db\<lparr>db_offset := 0\<rparr>) mp (buf @ take bsz from) (sz - bsz)))"
  by pat_completeness auto
termination
  by (relation "measure (\<lambda>(db, mp, buf, sz). length (db_list db))") (auto simp: return_message_def)

declare read_loop.simps [simp del]

definition databuffer_read ::
  "databuffer \<Rightarrow> messagepool \<Rightarrow> nat \<Rightarrow> (u8 list \<times> databuffer \<times> messagepool) res" where
  "databuffer_read db mp sz =
     bindR (c_assert (sz \<le> db_size db)) (\<lambda>_.
     read_loop (db\<lparr>db_size := db_size db - sz\<rparr>) mp [] sz)"

text \<open>An empty free list is filled from a new block, whose first node is the one used.\<close>

definition databuffer_push :: "databuffer \<Rightarrow> messagepool \<Rightarrow> u8 list \<Rightarrow> (databuffer \<times> messagepool) res" where
  "databuffer_push db mp data =
     (let mp' = (if 0 < mp_freelist mp then mp\<lparr>mp_freelist := mp_freelist mp - 1\<rparr>
                 else \<lparr>mp_pool = mp_pool mp + 1, mp_freelist = MESSAGEPOOL - 1\<rparr>) in
      bindR (c_int (db_size db + length data)) (\<lambda>size.
      Inr (db\<lparr>db_size := size, db_list := db_list db @ [data]\<rparr>, mp')))"

text \<open>Big-endian; four bytes make a signed \<^verbatim>\<open>int\<close>, negative from \<^verbatim>\<open>0x80000000\<close> on.\<close>

fun header_value :: "u8 list \<Rightarrow> int" where
  "header_value [a, b] = int (unat a * 256 + unat b)"
| "header_value [a, b, c, d] =
     sint (word_of_nat (((unat a * 256 + unat b) * 256 + unat c) * 256 + unat d) :: 32 word)"
| "header_value _ = 0"

definition databuffer_readheader ::
  "databuffer \<Rightarrow> messagepool \<Rightarrow> nat \<Rightarrow> (int \<times> databuffer \<times> messagepool) res" where
  "databuffer_readheader db mp header_size =
     (let finish = (\<lambda>db mp. if int (db_size db) < db_header db then (-1, db, mp) else (db_header db, db, mp)) in
      if db_header db = 0 then
        (if db_size db < header_size then Inr (-1, db, mp)
         else
           bindR (databuffer_read db mp header_size) (\<lambda>(plen, db, mp).
           Inr (finish (db\<lparr>db_header := header_value plen\<rparr>) mp)))
      else Inr (finish db mp))"

definition databuffer_reset :: "databuffer \<Rightarrow> databuffer" where
  "databuffer_reset db = db\<lparr>db_header := 0\<rparr>"

definition databuffer_clear :: "databuffer \<Rightarrow> messagepool \<Rightarrow> databuffer \<times> messagepool" where
  "databuffer_clear db mp =
     (empty_databuffer, mp\<lparr>mp_freelist := mp_freelist mp + length (db_list db)\<rparr>)"

section \<open>A buffer is the sequence of bytes not yet read\<close>

definition db_content :: "databuffer \<Rightarrow> u8 list" where
  "db_content db = drop (db_offset db) (concat (db_list db))"

definition db_ok :: "databuffer \<Rightarrow> bool" where
  "db_ok db \<longleftrightarrow>
     db_size db = length (db_content db) \<and>
     (case db_list db of [] \<Rightarrow> db_offset db = 0 | m # _ \<Rightarrow> db_offset db \<le> length m)"

text \<open>Every node of the pool is free or in one of the lists, which use \<open>n\<close> of them.\<close>

definition mp_ok :: "messagepool \<Rightarrow> nat \<Rightarrow> bool" where
  "mp_ok mp n \<longleftrightarrow> mp_freelist mp + n = MESSAGEPOOL * mp_pool mp"

lemma empty_databuffer_ok [simp]:
  "db_ok empty_databuffer" "db_content empty_databuffer = []" "db_list empty_databuffer = []"
  "db_header empty_databuffer = 0"
  by (simp_all add: db_ok_def db_content_def empty_databuffer_def)

lemma db_header_upd [simp]:
  "db_content (db\<lparr>db_header := h\<rparr>) = db_content db" "db_ok (db\<lparr>db_header := h\<rparr>) = db_ok db"
  by (simp_all add: db_content_def db_ok_def split: list.splits)

lemma read_loop_ok:
  assumes "case db_list db of [] \<Rightarrow> db_offset db = 0 | m # _ \<Rightarrow> db_offset db \<le> length m"
    and "0 < sz" "sz \<le> length (db_content db)"
  shows "\<exists>db' mp'. read_loop db mp buf sz = Inr (buf @ take sz (db_content db), db', mp') \<and>
    db_content db' = drop sz (db_content db) \<and> db_size db' = db_size db \<and> db_header db' = db_header db \<and>
    (case db_list db' of [] \<Rightarrow> db_offset db' = 0 | m # _ \<Rightarrow> db_offset db' \<le> length m) \<and>
    mp_pool mp' = mp_pool mp \<and> mp_freelist mp' + length (db_list db') = mp_freelist mp + length (db_list db)"
  using assms
proof (induction "length (db_list db)" arbitrary: db mp buf sz)
  case 0
  then show ?case by (simp add: db_content_def)
next
  case (Suc n)
  then obtain m ms where ms: "db_list db = m # ms" by (cases "db_list db") auto
  let ?o = "db_offset db" and ?c = "db_content db"
  have o: "?o \<le> length m" using Suc.prems(1) ms by simp
  have c: "?c = drop ?o m @ concat ms" using ms o by (simp add: db_content_def)
  consider (more) "length m - ?o > sz" | (exact) "length m - ?o = sz" | (less) "length m - ?o < sz" by linarith
  then show ?case
  proof cases
    case more
    then show ?thesis
      using ms c by (subst read_loop.simps) (simp add: Let_def db_content_def add.commute)
  next
    case exact
    then show ?thesis
      using ms c o by (subst read_loop.simps) (auto simp: Let_def return_message_def db_content_def split: list.splits)
  next
    case less
    let ?db = "db\<lparr>db_list := ms, db_offset := 0\<rparr>" and ?mp = "mp\<lparr>mp_freelist := mp_freelist mp + 1\<rparr>"
    let ?sz = "sz - (length m - ?o)"
    have c': "db_content ?db = concat ms" by (simp add: db_content_def)
    have "read_loop db mp buf sz = read_loop ?db ?mp (buf @ drop ?o m) ?sz"
      using ms less by (subst read_loop.simps) (simp add: Let_def return_message_def)
    moreover have "take sz ?c = drop ?o m @ take ?sz (concat ms)" "drop sz ?c = drop ?sz (concat ms)"
      using less by (simp_all add: c)
    moreover have "\<exists>db' mp'. read_loop ?db ?mp (buf @ drop ?o m) ?sz =
          Inr ((buf @ drop ?o m) @ take ?sz (db_content ?db), db', mp') \<and>
        db_content db' = drop ?sz (db_content ?db) \<and> db_size db' = db_size ?db \<and> db_header db' = db_header ?db \<and>
        (case db_list db' of [] \<Rightarrow> db_offset db' = 0 | m # _ \<Rightarrow> db_offset db' \<le> length m) \<and>
        mp_pool mp' = mp_pool ?mp \<and> mp_freelist mp' + length (db_list db') = mp_freelist ?mp + length (db_list ?db)"
      by (rule Suc.hyps(1)) (use Suc.hyps(2) Suc.prems(3) ms less c c' in \<open>auto split: list.splits\<close>)
    ultimately show ?thesis using ms by (auto simp: c')
  qed
qed

lemma read_ok:
  assumes "db_ok db" "0 < sz" "sz \<le> db_size db"
  obtains db' mp' where
    "databuffer_read db mp sz = Inr (take sz (db_content db), db', mp')" "db_ok db'"
    "db_content db' = drop sz (db_content db)" "db_header db' = db_header db"
    "db_size db' = db_size db - sz"
    "mp_pool mp' = mp_pool mp"
    "mp_freelist mp' + length (db_list db') = mp_freelist mp + length (db_list db)"
proof -
  let ?db = "db\<lparr>db_size := db_size db - sz\<rparr>"
  have c: "db_content ?db = db_content db" by (simp add: db_content_def)
  have "\<exists>db' mp'. read_loop ?db mp [] sz = Inr ([] @ take sz (db_content ?db), db', mp') \<and>
    db_content db' = drop sz (db_content ?db) \<and> db_size db' = db_size ?db \<and> db_header db' = db_header ?db \<and>
    (case db_list db' of [] \<Rightarrow> db_offset db' = 0 | m # _ \<Rightarrow> db_offset db' \<le> length m) \<and>
    mp_pool mp' = mp_pool mp \<and> mp_freelist mp' + length (db_list db') = mp_freelist mp + length (db_list ?db)"
    by (rule read_loop_ok) (use assms in \<open>auto simp: db_content_def db_ok_def split: list.splits\<close>)
  then obtain db' mp' where "read_loop ?db mp [] sz = Inr (take sz (db_content db), db', mp')"
      "db_content db' = drop sz (db_content db)" "db_size db' = db_size db - sz" "db_header db' = db_header db"
      "case db_list db' of [] \<Rightarrow> db_offset db' = 0 | m # _ \<Rightarrow> db_offset db' \<le> length m"
      "mp_pool mp' = mp_pool mp" "mp_freelist mp' + length (db_list db') = mp_freelist mp + length (db_list db)"
    by (auto simp: c)
  then show ?thesis
    using that [of db' mp'] assms by (auto simp: databuffer_read_def db_ok_def)
qed

lemma push_ok:
  assumes "db_ok db" "db_size db + length data \<le> INT_MAX" "mp_ok mp (n + length (db_list db))"
  obtains db' mp' where
    "databuffer_push db mp data = Inr (db', mp')" "db_ok db'" "db_content db' = db_content db @ data"
    "db_header db' = db_header db" "db_size db' = db_size db + length data" "mp_ok mp' (n + length (db_list db'))"
proof -
  let ?mp = "if 0 < mp_freelist mp then mp\<lparr>mp_freelist := mp_freelist mp - 1\<rparr>
             else \<lparr>mp_pool = mp_pool mp + 1, mp_freelist = MESSAGEPOOL - 1\<rparr>"
  let ?db = "db\<lparr>db_size := db_size db + length data, db_list := db_list db @ [data]\<rparr>"
  have "db_offset db \<le> length (concat (db_list db))"
    using assms(1) by (cases "db_list db") (auto simp: db_ok_def)
  then have c: "db_content ?db = db_content db @ data" by (simp add: db_content_def)
  moreover have "db_ok ?db" using assms(1) c by (auto simp: db_ok_def split: list.splits)
  moreover have "mp_ok ?mp (n + length (db_list ?db))"
    using assms(3) by (auto simp: mp_ok_def MESSAGEPOOL_def)
  ultimately show ?thesis using that assms(2) by (auto simp: databuffer_push_def Let_def)
qed

lemma clear_ok:
  "databuffer_clear db mp = (db', mp') \<Longrightarrow> mp_ok mp (n + length (db_list db)) \<Longrightarrow> db' = empty_databuffer \<and> mp_ok mp' n"
  by (auto simp: databuffer_clear_def mp_ok_def)

end
