(* ===== verification/Gate.thy ===== *)
theory Gate
  imports Hashid Databuffer Cstring
begin

text \<open>
  The gate service (\<^verbatim>\<open>service-src/service_gate.c\<close>): it accepts connections on one
  port, cuts the byte stream of each into frames and forwards them to a broker, to
  the agent of the connection or to the watchdog.

  A handler maps the gate to the new gate and the calls it makes, in order
  (\<open>gate_act\<close>).  The two calls whose result the gate uses, \<^verbatim>\<open>skynet_queryname\<close> and
  \<^verbatim>\<open>skynet_socket_listen\<close>, are functions of an environment.
\<close>

section \<open>Data\<close>

definition BACKLOG :: int where
  "BACKLOG = 32"

record connection =
  c_id :: int
  c_agent :: u32
  c_client :: u32
  c_remote_name :: cstring
  c_buffer :: databuffer

record gate =
  g_listen_id :: int
  g_watchdog :: u32
  g_broker :: u32
  g_client_tag :: int
  g_header_size :: nat
  g_max_connection :: nat
  g_hash :: hashid
  g_conn :: "connection list"
  g_mp :: messagepool

datatype gate_act =
    Send u32 u32 int int "u8 list"      \<comment> \<open>\<^verbatim>\<open>skynet_send\<close>: source, destination, type, session, data\<close>
  | Socket_close int
  | Socket_start int
  | Socket_send int "u8 list"
  | Skynet_error cstring
  | Set_callback
  | Free_buffer "u8 list"

record gate_env =
  ge_queryname :: "cstring \<Rightarrow> u32"
  ge_listen :: "cstring \<Rightarrow> int \<Rightarrow> int \<Rightarrow> int"

type_synonym gate_step = "(gate \<times> gate_act list) res"

text \<open>The types of \<^verbatim>\<open>skynet.h\<close> as the gate passes them, an \<^verbatim>\<open>int\<close>.\<close>

definition P_TEXT :: int where "P_TEXT = 0"
definition P_CLIENT :: int where "P_CLIENT = 3"
definition P_TAG_DONTCOPY :: int where "P_TAG_DONTCOPY = 0x10000"

datatype socket_type =
    SKYNET_SOCKET_TYPE_DATA
  | SKYNET_SOCKET_TYPE_CONNECT
  | SKYNET_SOCKET_TYPE_CLOSE
  | SKYNET_SOCKET_TYPE_ACCEPT
  | SKYNET_SOCKET_TYPE_ERROR
  | SKYNET_SOCKET_TYPE_UDP
  | SKYNET_SOCKET_TYPE_WARNING

text \<open>
  A message of the socket thread: for data the packet, of \<^verbatim>\<open>ud\<close> bytes; after the
  structure the name of the peer may follow.
\<close>

record skynet_socket_message =
  sk_type :: socket_type
  sk_id :: int
  sk_ud :: int
  sk_buffer :: "u8 list"
  sk_tail :: "u8 list"

definition closed_connection :: connection where
  "closed_connection = \<lparr>c_id = -1, c_agent = 0, c_client = 0, c_remote_name = [], c_buffer = empty_databuffer\<rparr>"

definition gate_create :: gate where
  "gate_create =
     \<lparr>g_listen_id = -1, g_watchdog = 0, g_broker = 0, g_client_tag = 0, g_header_size = 0, g_max_connection = 0,
      g_hash = \<lparr>hi_hashmod = 0, hi_cap = 0, hi_count = 0, hi_id = [], hi_hash = []\<rparr>, g_conn = [],
      g_mp = empty_messagepool\<rparr>"

definition gate_release :: "gate \<Rightarrow> gate_act list" where
  "gate_release g =
     map (\<lambda>c. Socket_close (c_id c)) (filter (\<lambda>c. 0 \<le> c_id c) (take (g_max_connection g) (g_conn g))) @
     (if 0 \<le> g_listen_id g then [Socket_close (g_listen_id g)] else [])"

section \<open>Control commands\<close>

text \<open>
  The array \<^verbatim>\<open>tmp\<close> after \<^verbatim>\<open>_parm\<close>: the parameter, its final zero and what is left of
  the command behind it.  A pointer into the array is the rest of the array.
\<close>

definition gate_parm :: "u8 list \<Rightarrow> nat \<Rightarrow> u8 list" where
  "gate_parm msg command_sz =
     (let p = dropWhile (\<lambda>c. c = 32) (drop command_sz msg) in p @ [0] @ drop (length p + 1) (msg @ [0]))"

definition c_string :: "u8 list \<Rightarrow> cstring res" where
  "c_string s = (if 0 \<in> set s then Inr (takeWhile (\<lambda>c. c \<noteq> 0) s) else Inl Out_of_bounds)"

text \<open>\<^verbatim>\<open>strsep\<close> with a space: the token and, unless the string ends with it, the rest.\<close>

definition strsep :: "u8 list \<Rightarrow> cstring \<times> u8 list option" where
  "strsep s =
     (let t = takeWhile (\<lambda>c. c \<noteq> 0 \<and> c \<noteq> 32) s; r = drop (length t) s in
      (t, if r \<noteq> [] \<and> hd r = 32 then Some (tl r) else None))"

text \<open>\<^verbatim>\<open>memcmp(command, lit, i) == 0\<close>: the literal has its final zero and nothing after it.\<close>

definition memcmp_eq :: "u8 list \<Rightarrow> cstring \<Rightarrow> nat \<Rightarrow> bool res" where
  "memcmp_eq command lit i =
     (if i \<le> length lit + 1 then Inr (take i command = take i (lit @ [0]))
      else if take (length lit + 1) command = lit @ [0] then Inl Out_of_bounds
      else Inr False)"

definition forward_agent :: "int \<Rightarrow> u32 \<Rightarrow> u32 \<Rightarrow> gate \<Rightarrow> gate res" where
  "forward_agent fd agentaddr clientaddr g =
     bindR (hashid_lookup (g_hash g) fd) (\<lambda>i.
     if 0 \<le> i then
       bindR (aget (g_conn g) (nat i)) (\<lambda>c.
       bindR (aset (g_conn g) (nat i) (c\<lparr>c_agent := agentaddr, c_client := clientaddr\<rparr>)) (\<lambda>cs.
       Inr (g\<lparr>g_conn := cs\<rparr>)))
     else Inr g)"

text \<open>
  The text after the first character of a token: where the token is empty,
  \<^verbatim>\<open>p+1\<close> is the text behind its final zero.
\<close>

definition after_colon :: "cstring \<Rightarrow> u8 list \<Rightarrow> cstring res" where
  "after_colon t rest = (if t = [] then c_string rest else Inr (tl t))"

definition ctrl_forward :: "u8 list \<Rightarrow> gate \<Rightarrow> gate res" where
  "ctrl_forward tmp g =
     (case strsep tmp of
        (_, None) \<Rightarrow> Inr g
      | (idstr, Some client) \<Rightarrow>
          (case strsep client of
             (_, None) \<Rightarrow> Inr g
           | (agent, Some client) \<Rightarrow>
               bindR (c_string client) (\<lambda>cl.
               bindR (after_colon agent client) (\<lambda>a.
               bindR (after_colon cl (tl client)) (\<lambda>b.
               forward_agent (to_int (strtol 10 idstr)) (ucast (strtoul 16 a)) (ucast (strtoul 16 b)) g)))))"

definition ctrl_socket :: "(int \<Rightarrow> gate_act) \<Rightarrow> u8 list \<Rightarrow> gate \<Rightarrow> gate_step" where
  "ctrl_socket act tmp g =
     bindR (c_string tmp) (\<lambda>command.
     let uid = to_int (strtol 10 command) in
     bindR (hashid_lookup (g_hash g) uid) (\<lambda>i.
     Inr (g, if 0 \<le> i then [act uid] else [])))"

definition gate_ctrl :: "gate_env \<Rightarrow> u8 list \<Rightarrow> gate \<Rightarrow> gate_step" where
  "gate_ctrl E msg g =
     (if msg = [] then Inr (g, [])
      else
        let i = length (takeWhile (\<lambda>c. c \<noteq> 32) msg); tmp = gate_parm msg i in
        bindR (memcmp_eq msg (cstr ''kick'') i) (\<lambda>b. if b then ctrl_socket Socket_close tmp g else
        bindR (memcmp_eq msg (cstr ''forward'') i) (\<lambda>b. if b then bindR (ctrl_forward tmp g) (\<lambda>g. Inr (g, [])) else
        bindR (memcmp_eq msg (cstr ''broker'') i) (\<lambda>b. if b then
          bindR (c_string tmp) (\<lambda>command. Inr (g\<lparr>g_broker := ge_queryname E command\<rparr>, [])) else
        bindR (memcmp_eq msg (cstr ''start'') i) (\<lambda>b. if b then ctrl_socket Socket_start tmp g else
        bindR (memcmp_eq msg (cstr ''close'') i) (\<lambda>b. if b then
          (if 0 \<le> g_listen_id g then Inr (g\<lparr>g_listen_id := -1\<rparr>, [Socket_close (g_listen_id g)]) else Inr (g, []))
        else
          Inr (g, [Skynet_error (cstr ''[gate] Unkown command : '' @ takeWhile (\<lambda>c. c \<noteq> 0) msg)])))))))"

section \<open>Socket messages\<close>

text \<open>The text is written into 1024 bytes, and as many bytes of it are sent as it is long.\<close>

definition gate_report :: "cstring \<Rightarrow> gate \<Rightarrow> gate_act list res" where
  "gate_report data g =
     (if g_watchdog g = 0 then Inr []
      else if 1024 < length data then Inl Out_of_bounds
      else Inr [Send 0 (g_watchdog g) P_TEXT 0 (if length data = 1024 then take 1023 data @ [0] else data)])"

text \<open>The connection \<open>k\<close> reads from its buffer; the pool is the gate's.\<close>

definition conn_read :: "nat \<Rightarrow> nat \<Rightarrow> gate \<Rightarrow> (u8 list \<times> gate) res" where
  "conn_read k sz g =
     bindR (aget (g_conn g) k) (\<lambda>c.
     bindR (databuffer_read (c_buffer c) (g_mp g) sz) (\<lambda>(temp, db, mp).
     bindR (aset (g_conn g) k (c\<lparr>c_buffer := db\<rparr>)) (\<lambda>cs.
     Inr (temp, g\<lparr>g_conn := cs, g_mp := mp\<rparr>))))"

definition gate_forward :: "nat \<Rightarrow> nat \<Rightarrow> gate \<Rightarrow> gate_step" where
  "gate_forward k sz g =
     bindR (aget (g_conn g) k) (\<lambda>c.
     if g_broker g \<noteq> 0 then
       bindR (conn_read k sz g) (\<lambda>(temp, g').
       Inr (g', [Send 0 (g_broker g) (g_client_tag g OR P_TAG_DONTCOPY) 1 temp]))
     else if c_agent c \<noteq> 0 then
       bindR (conn_read k sz g) (\<lambda>(temp, g').
       Inr (g', [Send (c_client c) (c_agent c) (g_client_tag g OR P_TAG_DONTCOPY) 1 temp]))
     else if g_watchdog g \<noteq> 0 then
       bindR (conn_read k sz g) (\<lambda>(temp, g').
       Inr (g', [Send 0 (g_watchdog g) (P_TEXT OR P_TAG_DONTCOPY) 1 (print_d (c_id c) @ cstr '' data '' @ temp)]))
     else Inr (g, []))"

definition MAX_MESSAGE :: int where
  "MAX_MESSAGE = 0x1000000"

partial_function (option) gate_loop :: "nat \<Rightarrow> int \<Rightarrow> gate \<Rightarrow> gate_act list \<Rightarrow> gate_step option" where
  "gate_loop k i g acts =
     (case aget (g_conn g) k of
        Inl e \<Rightarrow> Some (Inl e)
      | Inr c \<Rightarrow>
          (case databuffer_readheader (c_buffer c) (g_mp g) (g_header_size g) of
             Inl e \<Rightarrow> Some (Inl e)
           | Inr (sz, db, mp) \<Rightarrow>
               let g = g\<lparr>g_conn := (g_conn g)[k := c\<lparr>c_buffer := db\<rparr>], g_mp := mp\<rparr> in
               if sz < 0 then Some (Inr (g, acts))
               else if sz = 0 then gate_loop k i g acts
               else if MAX_MESSAGE \<le> sz then
                 (case databuffer_clear db mp of
                    (db, mp) \<Rightarrow>
                      Some (Inr (g\<lparr>g_conn := (g_conn g)[k := c\<lparr>c_buffer := db\<rparr>], g_mp := mp\<rparr>,
                        acts @ [Socket_close i, Skynet_error (cstr ''Recv socket message > 16M'')])))
               else
                 (case gate_forward k (nat sz) g of
                    Inl e \<Rightarrow> Some (Inl e)
                  | Inr (g, out) \<Rightarrow>
                      (case aget (g_conn g) k of
                         Inl e \<Rightarrow> Some (Inl e)
                       | Inr c \<Rightarrow>
                           gate_loop k i (g\<lparr>g_conn := (g_conn g)[k := c\<lparr>c_buffer := databuffer_reset (c_buffer c)\<rparr>]\<rparr>)
                             (acts @ out)))))"

declare gate_loop.simps [code]

definition gate_dispatch_message :: "nat \<Rightarrow> int \<Rightarrow> u8 list \<Rightarrow> gate \<Rightarrow> gate_step" where
  "gate_dispatch_message k i data g =
     bindR (aget (g_conn g) k) (\<lambda>c.
     bindR (databuffer_push (c_buffer c) (g_mp g) data) (\<lambda>(db, mp).
     bindR (aset (g_conn g) k (c\<lparr>c_buffer := db\<rparr>)) (\<lambda>cs.
     run_loop (gate_loop k i (g\<lparr>g_conn := cs, g_mp := mp\<rparr>) []))))"

definition socket_data :: "skynet_socket_message \<Rightarrow> gate \<Rightarrow> gate_step" where
  "socket_data m g =
     bindR (hashid_lookup (g_hash g) (sk_id m)) (\<lambda>i.
     if 0 \<le> i then gate_dispatch_message (nat i) (sk_id m) (sk_buffer m) g
     else Inr (g, [Skynet_error (cstr ''Drop unknown connection '' @ print_d (sk_id m) @ cstr '' message''),
                   Socket_close (sk_id m), Free_buffer (sk_buffer m)]))"

definition socket_connect :: "skynet_socket_message \<Rightarrow> gate \<Rightarrow> gate_step" where
  "socket_connect m g =
     (if sk_id m = g_listen_id g then Inr (g, [])
      else
        bindR (hashid_lookup (g_hash g) (sk_id m)) (\<lambda>i.
        Inr (g, if i < 0 then [Skynet_error (cstr ''Close unknown connection '' @ print_d (sk_id m)), Socket_close (sk_id m)]
                else [])))"

definition socket_closed :: "skynet_socket_message \<Rightarrow> gate \<Rightarrow> gate_step" where
  "socket_closed m g =
     bindR (hashid_remove (sk_id m) (g_hash g)) (\<lambda>(i, hash).
     let g = g\<lparr>g_hash := hash\<rparr> in
     if 0 \<le> i then
       bindR (aget (g_conn g) (nat i)) (\<lambda>c.
       case databuffer_clear (c_buffer c) (g_mp g) of
         (_, mp) \<Rightarrow>
           bindR (aset (g_conn g) (nat i) closed_connection) (\<lambda>cs.
           bindR (gate_report (print_d (sk_id m) @ cstr '' close'') g) (\<lambda>acts.
           Inr (g\<lparr>g_conn := cs, g_mp := mp\<rparr>, acts))))
     else Inr (g, []))"

definition REMOTE_NAME :: nat where
  "REMOTE_NAME = 32"

definition open_text :: "int \<Rightarrow> cstring \<Rightarrow> cstring" where
  "open_text i name = print_d i @ cstr '' open '' @ print_d i @ [32] @ name @ cstr '':0''"

definition socket_accept :: "skynet_socket_message \<Rightarrow> gate \<Rightarrow> gate_step" where
  "socket_accept m g =
     bindR (c_assert (g_listen_id g = sk_id m)) (\<lambda>_.
     if hashid_full (g_hash g) then Inr (g, [Socket_close (sk_ud m)])
     else
       bindR (hashid_insert (sk_ud m) (g_hash g)) (\<lambda>(i, hash).
       bindR (aget (g_conn g) (nat i)) (\<lambda>c.
       let sz = (if REMOTE_NAME \<le> length (sk_tail m) then REMOTE_NAME - 1 else length (sk_tail m));
           name = takeWhile (\<lambda>c. c \<noteq> 0) (take sz (sk_tail m)) in
       bindR (aset (g_conn g) (nat i) (c\<lparr>c_id := sk_ud m, c_remote_name := name\<rparr>)) (\<lambda>cs.
       bindR (gate_report (open_text (sk_ud m) name) g) (\<lambda>acts.
       Inr (g\<lparr>g_hash := hash, g_conn := cs\<rparr>,
            acts @ [Skynet_error (cstr ''socket open: '' @ print_x (word_of_int (sk_ud m)))]))))))"

definition dispatch_socket_message :: "skynet_socket_message \<Rightarrow> gate \<Rightarrow> gate_step" where
  "dispatch_socket_message m g =
     (case sk_type m of
        SKYNET_SOCKET_TYPE_DATA \<Rightarrow> socket_data m g
      | SKYNET_SOCKET_TYPE_CONNECT \<Rightarrow> socket_connect m g
      | SKYNET_SOCKET_TYPE_CLOSE \<Rightarrow> socket_closed m g
      | SKYNET_SOCKET_TYPE_ERROR \<Rightarrow> socket_closed m g
      | SKYNET_SOCKET_TYPE_ACCEPT \<Rightarrow> socket_accept m g
      | SKYNET_SOCKET_TYPE_WARNING \<Rightarrow>
          Inr (g, [Skynet_error (cstr ''fd ('' @ print_d (sk_id m) @ cstr '') send buffer ('' @ print_d (sk_ud m) @ cstr '')K'')])
      | SKYNET_SOCKET_TYPE_UDP \<Rightarrow> Inr (g, []))"

section \<open>The callback\<close>

text \<open>The message of the callback, by its type; the result says whether the message is kept.\<close>

datatype gate_msg = Text_msg "u8 list" | Client_msg "u8 list" | Socket_msg skynet_socket_message | Other_msg int

definition client_uid :: "u8 list \<Rightarrow> u32" where
  "client_uid msg =
     (let b = drop (length msg - 4) msg in
      word_of_nat (unat (b ! 0) + 256 * (unat (b ! 1) + 256 * (unat (b ! 2) + 256 * unat (b ! 3)))))"

definition gate_client :: "u32 \<Rightarrow> u8 list \<Rightarrow> gate \<Rightarrow> (nat \<times> gate_act list) res" where
  "gate_client source msg g =
     (if length msg \<le> 4 then Inr (0, [Skynet_error (cstr ''Invalid client message from '' @ print_x source)])
      else
        let uid = client_uid msg in
        bindR (hashid_lookup (g_hash g) (sint uid)) (\<lambda>i.
        if 0 \<le> i then Inr (1, [Socket_send (sint uid) (take (length msg - 4) msg)])
        else Inr (0, [Skynet_error (cstr ''Invalid client id '' @ print_d (sint uid) @ cstr '' from '' @ print_x source)])))"

definition gate_cb :: "gate_env \<Rightarrow> u32 \<Rightarrow> gate_msg \<Rightarrow> gate \<Rightarrow> (nat \<times> gate \<times> gate_act list) res" where
  "gate_cb E source msg g =
     (case msg of
        Text_msg m \<Rightarrow> bindR (gate_ctrl E m g) (\<lambda>(g, acts). Inr (0, g, acts))
      | Client_msg m \<Rightarrow> bindR (gate_client source m g) (\<lambda>(r, acts). Inr (r, g, acts))
      | Socket_msg m \<Rightarrow> bindR (dispatch_socket_message m g) (\<lambda>(g, acts). Inr (0, g, acts))
      | Other_msg _ \<Rightarrow> Inr (0, g, []))"

section \<open>Initialisation\<close>

definition start_listen :: "gate_env \<Rightarrow> cstring \<Rightarrow> gate \<Rightarrow> (nat \<times> gate \<times> gate_act list)" where
  "start_listen E listen_addr g =
     (let host = takeWhile (\<lambda>c. c \<noteq> 58) listen_addr;
          colon = (58 \<in> set listen_addr);
          portstr = (if colon then tl (drop (length host) listen_addr) else listen_addr);
          port = to_int (strtol 10 portstr) in
      if port \<le> 0 then (1, g, [Skynet_error (cstr ''Invalid gate address '' @ listen_addr)])
      else
        let l = ge_listen E (if colon then host else []) port BACKLOG;
            g = g\<lparr>g_listen_id := l\<rparr> in
        if l < 0 then (1, g, []) else (0, g, [Socket_start l]))"

text \<open>\<^verbatim>\<open>sscanf(parm, "%c %s %s %d %d", ...)\<close>: the conversions that succeeded, in order.\<close>

definition scan_s :: "cstring \<Rightarrow> (cstring \<times> cstring) option" where
  "scan_s s =
     (let s = dropWhile is_space s; t = takeWhile (\<lambda>c. \<not> is_space c) s in
      if t = [] then None else Some (t, drop (length t) s))"

definition scan_d :: "cstring \<Rightarrow> (int \<times> cstring) option" where
  "scan_d s =
     (let s = dropWhile is_space s;
          r = (if s \<noteq> [] \<and> (hd s = 45 \<or> hd s = 43) then tl s else s);
          d = takeWhile (is_digit 10) r in
      if d = [] then None else Some (to_int (strtol 10 s), drop (length d) r))"

record gate_parms =
  gp_n :: nat
  gp_header :: u8
  gp_watchdog :: cstring
  gp_binding :: cstring
  gp_client_tag :: int
  gp_max :: int

definition scan_parm :: "cstring \<Rightarrow> gate_parms" where
  "scan_parm parm =
     (let p0 = \<lparr>gp_n = 0, gp_header = 0, gp_watchdog = [], gp_binding = [], gp_client_tag = 0, gp_max = 0\<rparr> in
      case parm of
        [] \<Rightarrow> p0
      | header # s \<Rightarrow>
          let p1 = p0\<lparr>gp_n := 1, gp_header := header\<rparr> in
          case scan_s s of
            None \<Rightarrow> p1
          | Some (w, s) \<Rightarrow>
              let p2 = p1\<lparr>gp_n := 2, gp_watchdog := w\<rparr> in
              case scan_s s of
                None \<Rightarrow> p2
              | Some (b, s) \<Rightarrow>
                  let p3 = p2\<lparr>gp_n := 3, gp_binding := b\<rparr> in
                  case scan_d s of
                    None \<Rightarrow> p3
                  | Some (tag, s) \<Rightarrow>
                      let p4 = p3\<lparr>gp_n := 4, gp_client_tag := tag\<rparr> in
                      case scan_d s of
                        None \<Rightarrow> p4
                      | Some (m, _) \<Rightarrow> p4\<lparr>gp_n := 5, gp_max := m\<rparr>)"

definition gate_setup :: "gate_env \<Rightarrow> gate_parms \<Rightarrow> u32 \<Rightarrow> gate \<Rightarrow> (nat \<times> gate \<times> gate_act list) res" where
  "gate_setup E p watchdog g =
     (let mx = nat (gp_max p) in
      bindR (hashid_init mx) (\<lambda>hash.
      let g = g\<lparr>g_watchdog := watchdog, g_hash := hash, g_conn := replicate mx closed_connection,
                g_max_connection := mx,
                g_client_tag := (if gp_client_tag p = 0 then P_CLIENT else gp_client_tag p),
                g_header_size := (if gp_header p = 83 then 2 else 4)\<rparr> in
      case start_listen E (gp_binding p) g of (r, g, acts) \<Rightarrow> Inr (r, g, Set_callback # acts)))"

definition gate_init :: "gate_env \<Rightarrow> cstring option \<Rightarrow> gate \<Rightarrow> (nat \<times> gate \<times> gate_act list) res" where
  "gate_init E parm g =
     (case parm of
        None \<Rightarrow> Inr (1, g, [])
      | Some parm \<Rightarrow>
          let p = scan_parm parm in
          if gp_n p < 4 then Inr (1, g, [Skynet_error (cstr ''Invalid gate parm '' @ parm)])
          else if gp_max p \<le> 0 then Inr (1, g, [Skynet_error (cstr ''Need max connection'')])
          else if gp_header p \<noteq> 83 \<and> gp_header p \<noteq> 76 then Inr (1, g, [Skynet_error (cstr ''Invalid data header style'')])
          else if hd (gp_watchdog p) = 33 then gate_setup E p 0 g
          else
            let w = ge_queryname E (gp_watchdog p) in
            if w = 0 then Inr (1, g\<lparr>g_watchdog := 0\<rparr>, [Skynet_error (cstr ''Invalid watchdog '' @ gp_watchdog p)])
            else gate_setup E p w g)"

end
