(* ===== verification/Gate_Stream.thy ===== *)
theory Gate_Stream
  imports Gate
begin

text \<open>
  What the gate does with the byte stream of a connection: a reference parser
  \<open>deframe\<close> on plain byte lists, its independence of how the stream is cut into
  packets, and the proof that the loop of \<^verbatim>\<open>dispatch_message\<close> implements it.
\<close>

section \<open>Reference parser\<close>

text \<open>
  The state of the stream is the length \<open>h\<close> announced by a header that has been
  read (0: none) and the bytes not consumed.  \<open>r\<close> tells whether somebody takes
  the frames; if not, the payload of a frame is not consumed.  The result is the
  list of frames and the new state, or \<open>None\<close> after a frame of 16M or more.
\<close>

function deframe :: "bool \<Rightarrow> nat \<Rightarrow> int \<Rightarrow> u8 list \<Rightarrow> u8 list list \<times> (int \<times> u8 list) option" where
  "deframe r hs h bs =
     (if h = 0 then
        (if length bs < hs \<or> hs = 0 then ([], Some (0, bs))
         else deframe r hs (header_value (take hs bs)) (drop hs bs))
      else if h < 0 \<or> int (length bs) < h then ([], Some (h, bs))
      else if MAX_MESSAGE \<le> h then ([], None)
      else if r then (case deframe r hs 0 (drop (nat h) bs) of (fs, s) \<Rightarrow> (take (nat h) bs # fs, s))
      else deframe r hs 0 bs)"
  by pat_completeness auto
termination
  by (relation "measure (\<lambda>(r, hs, h, bs). 2 * length bs + (if h = 0 then 0 else 1))") auto

declare deframe.simps [simp del]

lemma deframe_step:
  "length bs < hs \<Longrightarrow> deframe r hs 0 bs = ([], Some (0, bs))"
  "hs \<le> length bs \<Longrightarrow> 0 < hs \<Longrightarrow> deframe r hs 0 bs = deframe r hs (header_value (take hs bs)) (drop hs bs)"
  "h < 0 \<or> h \<noteq> 0 \<and> int (length bs) < h \<Longrightarrow> deframe r hs h bs = ([], Some (h, bs))"
  "MAX_MESSAGE \<le> h \<Longrightarrow> h \<le> int (length bs) \<Longrightarrow> deframe r hs h bs = ([], None)"
  "0 < h \<Longrightarrow> h \<le> int (length bs) \<Longrightarrow> h < MAX_MESSAGE \<Longrightarrow>
     deframe True hs h bs = (case deframe True hs 0 (drop (nat h) bs) of (fs, s) \<Rightarrow> (take (nat h) bs # fs, s))"
  "0 < h \<Longrightarrow> h \<le> int (length bs) \<Longrightarrow> h < MAX_MESSAGE \<Longrightarrow> deframe False hs h bs = deframe False hs 0 bs"
  by (subst deframe.simps; auto simp: MAX_MESSAGE_def split: prod.splits)+

text \<open>Two packets in a row are parsed as their concatenation.\<close>

definition deframe_more :: "bool \<Rightarrow> nat \<Rightarrow> u8 list list \<times> (int \<times> u8 list) option \<Rightarrow> u8 list \<Rightarrow>
    u8 list list \<times> (int \<times> u8 list) option" where
  "deframe_more r hs p ys =
     (case p of
        (fs, None) \<Rightarrow> (fs, None)
      | (fs, Some (h, bs)) \<Rightarrow> (case deframe r hs h (bs @ ys) of (gs, s) \<Rightarrow> (fs @ gs, s)))"

lemma deframe_append:
  "0 < hs \<Longrightarrow> deframe r hs h (xs @ ys) = deframe_more r hs (deframe r hs h xs) ys"
proof (induction r hs h xs rule: deframe.induct)
  case (1 r hs h bs)
  consider (wait0) "h = 0" "length bs < hs" | (header) "h = 0" "hs \<le> length bs"
    | (wait) "h \<noteq> 0" "h < 0 \<or> int (length bs) < h"
    | (over) "h \<noteq> 0" "0 \<le> h" "h \<le> int (length bs)" "MAX_MESSAGE \<le> h"
    | (frame) "h \<noteq> 0" "0 \<le> h" "h \<le> int (length bs)" "h < MAX_MESSAGE" r
    | (drop) "h \<noteq> 0" "0 \<le> h" "h \<le> int (length bs)" "h < MAX_MESSAGE" "\<not> r" by linarith
  then show ?case
  proof cases
    case wait0
    then show ?thesis by (simp add: deframe_step deframe_more_def)
  next
    case header
    then show ?thesis using "1.IH"(1) "1.prems" by (simp add: deframe_step)
  next
    case wait
    then show ?thesis by (simp add: deframe_step deframe_more_def)
  next
    case over
    then show ?thesis by (simp add: deframe_step deframe_more_def)
  next
    case frame
    then have "deframe True hs 0 (drop (nat h) bs @ ys) = deframe_more True hs (deframe True hs 0 (drop (nat h) bs)) ys"
      using "1.IH"(2) "1.prems" by simp
    then show ?thesis
      using frame by (auto simp: deframe_step deframe_more_def split: prod.splits option.splits)
  next
    case drop
    then show ?thesis using "1.IH"(3) "1.prems" by (simp add: deframe_step)
  qed
qed

lemma deframe_rest: "deframe r hs h xs = (fs, Some (h', bs)) \<Longrightarrow> length bs \<le> length xs"
proof (induction r hs h xs arbitrary: fs rule: deframe.induct)
  case (1 r hs h xs)
  show ?case
    using "1.prems" "1.IH" by (subst (asm) deframe.simps) (fastforce split: if_splits prod.splits)
qed

text \<open>Parsing what is left again changes nothing.\<close>

lemma deframe_idle:
  assumes "0 < hs" "deframe r hs h xs = (fs, Some (h', bs))"
  shows "deframe r hs h' bs = ([], Some (h', bs))"
  using deframe_append [OF assms(1), of r h xs "[]"] assms(2)
  by (auto simp: deframe_more_def split: prod.splits)

section \<open>The loop implements the parser\<close>

definition has_receiver :: "gate \<Rightarrow> connection \<Rightarrow> bool" where
  "has_receiver g c \<longleftrightarrow> g_broker g \<noteq> 0 \<or> c_agent c \<noteq> 0 \<or> g_watchdog g \<noteq> 0"

text \<open>The message a frame becomes.\<close>

definition frame_act :: "gate \<Rightarrow> connection \<Rightarrow> u8 list \<Rightarrow> gate_act" where
  "frame_act g c data =
     (if g_broker g \<noteq> 0 then Send 0 (g_broker g) (g_client_tag g OR P_TAG_DONTCOPY) 1 data
      else if c_agent c \<noteq> 0 then Send (c_client c) (c_agent c) (g_client_tag g OR P_TAG_DONTCOPY) 1 data
      else Send 0 (g_watchdog g) (P_TEXT OR P_TAG_DONTCOPY) 1 (print_d (c_id c) @ cstr '' data '' @ data))"

definition overflow_acts :: "int \<Rightarrow> (int \<times> u8 list) option \<Rightarrow> gate_act list" where
  "overflow_acts i s =
     (case s of None \<Rightarrow> [Socket_close i, Skynet_error (cstr ''Recv socket message > 16M'')] | Some _ \<Rightarrow> [])"

abbreviation with_buffer :: "gate \<Rightarrow> nat \<Rightarrow> connection \<Rightarrow> databuffer \<Rightarrow> messagepool \<Rightarrow> gate" where
  "with_buffer g k c db mp \<equiv> g\<lparr>g_conn := (g_conn g)[k := c\<lparr>c_buffer := db\<rparr>], g_mp := mp\<rparr>"

lemma with_commute: "(g :: gate)\<lparr>g_mp := mp, g_conn := cs\<rparr> = g\<lparr>g_conn := cs, g_mp := mp\<rparr>"
  by simp

lemma with_same: "g_conn g ! k = c \<Longrightarrow> with_buffer g k c (c_buffer c) (g_mp g) = g"
  by (drule sym) simp

text \<open>The state of the stream a buffer holds.\<close>

definition holds :: "databuffer \<Rightarrow> messagepool \<Rightarrow> nat \<Rightarrow> (int \<times> u8 list) option \<Rightarrow> bool" where
  "holds db mp n s \<longleftrightarrow> db_ok db \<and> mp_ok mp (n + length (db_list db)) \<and>
     (case s of None \<Rightarrow> db = empty_databuffer | Some (h, bs) \<Rightarrow> db_header db = h \<and> db_content db = bs)"

lemma readheader_ready:
  assumes "db_header db \<noteq> 0"
  shows "databuffer_readheader db mp hs =
    Inr (if int (db_size db) < db_header db then -1 else db_header db, db, mp)"
  using assms by (simp add: databuffer_readheader_def)

text \<open>Reading the header first does not change what the loop does.\<close>

lemma gate_loop_header:
  assumes k: "k < length (g_conn g)" "g_conn g ! k = c" and h0: "db_header (c_buffer c) = 0"
    and hs: "g_header_size g = hs" "0 < hs" "hs \<le> db_size (c_buffer c)"
    and ok: "holds (c_buffer c) (g_mp g) n (Some (0, bs))"
  obtains db mp where "gate_loop k i g acts = gate_loop k i (with_buffer g k c db mp) acts"
    "holds db mp n (Some (header_value (take hs bs), drop hs bs))"
proof -
  have dbok: "db_ok (c_buffer c)" and bs: "db_content (c_buffer c) = bs" using ok by (auto simp: holds_def)
  obtain db mp where read: "databuffer_read (c_buffer c) (g_mp g) hs = Inr (take hs bs, db, mp)"
    and db: "db_ok db" "db_content db = drop hs bs" "db_header db = 0"
      "mp_pool mp = mp_pool (g_mp g)" "mp_freelist mp + length (db_list db) = mp_freelist (g_mp g) + length (db_list (c_buffer c))"
    using read_ok [OF dbok hs(2,3), of "g_mp g"] bs h0 by metis
  let ?db = "db\<lparr>db_header := header_value (take hs bs)\<rparr>"
  have hold: "holds ?db mp n (Some (header_value (take hs bs), drop hs bs))"
    using db ok by (auto simp: holds_def mp_ok_def)
  have rh: "databuffer_readheader (c_buffer c) (g_mp g) hs =
      Inr (if int (db_size db) < header_value (take hs bs) then -1 else header_value (take hs bs), ?db, mp)"
    using read h0 hs(3) by (auto simp: databuffer_readheader_def Let_def)
  have "gate_loop k i g acts = gate_loop k i (with_buffer g k c ?db mp) acts"
  proof (cases "header_value (take hs bs) = 0")
    case True
    then show ?thesis using k rh hs(1) by (subst gate_loop.simps) (simp add: Let_def)
  next
    case False
    then show ?thesis
      using k rh hs(1)
      by (subst (1 2) gate_loop.simps) (simp add: Let_def readheader_ready)
  qed
  then show ?thesis using hold by (rule that)
qed

lemma conn_read_ok:
  assumes k: "k < length (g_conn g)" "g_conn g ! k = c" and ok: "holds (c_buffer c) (g_mp g) n (Some (h, bs))"
    and sz: "0 < sz" "sz \<le> length bs"
  obtains db mp where "conn_read k sz g = Inr (take sz bs, with_buffer g k c db mp)"
    "holds db mp n (Some (h, drop sz bs))"
proof -
  have dbok: "db_ok (c_buffer c)" and bs: "db_content (c_buffer c) = bs" and le: "sz \<le> db_size (c_buffer c)"
    using ok sz by (auto simp: holds_def db_ok_def)
  obtain db mp where read: "databuffer_read (c_buffer c) (g_mp g) sz = Inr (take sz bs, db, mp)"
    and db: "db_ok db" "db_content db = drop sz bs" "db_header db = db_header (c_buffer c)"
      "mp_pool mp = mp_pool (g_mp g)" "mp_freelist mp + length (db_list db) = mp_freelist (g_mp g) + length (db_list (c_buffer c))"
    using read_ok [OF dbok sz(1) le, of "g_mp g"] bs by metis
  then have "holds db mp n (Some (h, drop sz bs))" using ok by (auto simp: holds_def mp_ok_def)
  moreover have "conn_read k sz g = Inr (take sz bs, with_buffer g k c db mp)"
    using read k by (simp add: conn_read_def)
  ultimately show ?thesis using that by blast
qed

lemma holds_reset:
  "holds db mp n (Some (h, bs)) \<Longrightarrow> holds (databuffer_reset db) mp n (Some (0, bs))"
  by (simp add: holds_def databuffer_reset_def)

lemma forward_ok:
  assumes k: "k < length (g_conn g)" "g_conn g ! k = c" and ok: "holds (c_buffer c) (g_mp g) n (Some (h, bs))"
    and sz: "0 < sz" "sz \<le> length bs"
  obtains db mp where
    "gate_forward k sz g = Inr (with_buffer g k c db mp, if has_receiver g c then [frame_act g c (take sz bs)] else [])"
    "holds db mp n (Some (h, if has_receiver g c then drop sz bs else bs))"
proof (cases "has_receiver g c")
  case True
  obtain db mp where "conn_read k sz g = Inr (take sz bs, with_buffer g k c db mp)" "holds db mp n (Some (h, drop sz bs))"
    using conn_read_ok [OF k ok sz] .
  then show ?thesis using that [of mp db] True k by (auto simp: gate_forward_def has_receiver_def frame_act_def)
next
  case False
  then show ?thesis using that [of "g_mp g" "c_buffer c"] with_same [OF k(2)] k ok
    by (auto simp: gate_forward_def has_receiver_def)
qed

text \<open>One iteration with a complete frame of a legal length.\<close>

lemma gate_loop_frame:
  assumes k: "k < length (g_conn g)" "g_conn g ! k = c" and ok: "holds (c_buffer c) (g_mp g) n (Some (h, bs))"
    and h: "0 < h" "h \<le> int (length bs)" "h < MAX_MESSAGE"
  obtains db mp where
    "gate_loop k i g acts = gate_loop k i (with_buffer g k c db mp)
       (acts @ (if has_receiver g c then [frame_act g c (take (nat h) bs)] else []))"
    "holds db mp n (Some (0, if has_receiver g c then drop (nat h) bs else bs))"
proof -
  have hd: "db_header (c_buffer c) = h" "db_size (c_buffer c) = length bs" using ok by (auto simp: holds_def db_ok_def)
  have n: "0 < nat h" "nat h \<le> length bs" using h by auto
  obtain db mp where fw: "gate_forward k (nat h) g =
      Inr (with_buffer g k c db mp, if has_receiver g c then [frame_act g c (take (nat h) bs)] else [])"
    and hold: "holds db mp n (Some (h, if has_receiver g c then drop (nat h) bs else bs))"
    using forward_ok [OF k ok n] .
  have "gate_loop k i g acts = gate_loop k i (with_buffer g k c (databuffer_reset db) mp)
      (acts @ (if has_receiver g c then [frame_act g c (take (nat h) bs)] else []))"
    using k fw hd h with_same [OF k(2)] by (subst gate_loop.simps) (simp add: readheader_ready Let_def with_commute)
  then show ?thesis using holds_reset [OF hold] that by blast
qed

lemma has_receiver_with [simp]: "has_receiver (with_buffer g k c db mp) (c\<lparr>c_buffer := db'\<rparr>) = has_receiver g c"
  by (simp add: has_receiver_def)

lemma frame_act_with [simp]: "frame_act (with_buffer g k c db mp) (c\<lparr>c_buffer := db'\<rparr>) = frame_act g c"
  by (simp add: fun_eq_iff frame_act_def)

text \<open>The result of the loop, and that it ends.\<close>

definition loop_result :: "nat \<Rightarrow> int \<Rightarrow> gate \<Rightarrow> connection \<Rightarrow> nat \<Rightarrow> gate_act list \<Rightarrow>
    u8 list list \<times> (int \<times> u8 list) option \<Rightarrow> bool" where
  "loop_result k i g c n acts p \<longleftrightarrow>
     (\<exists>db mp. gate_loop k i g acts = Some (Inr (with_buffer g k c db mp,
         acts @ map (frame_act g c) (fst p) @ overflow_acts i (snd p))) \<and> holds db mp n (snd p))"

lemma loop_result_with:
  assumes "loop_result k i (with_buffer g k c db mp) (c\<lparr>c_buffer := db\<rparr>) n (acts @ map (frame_act g c) fs) p"
    and "gate_loop k i g acts = gate_loop k i (with_buffer g k c db mp) (acts @ map (frame_act g c) fs)"
  shows "loop_result k i g c n acts (fs @ fst p, snd p)"
proof -
  from assms obtain db' mp' where "gate_loop k i g acts = Some (Inr (with_buffer g k c db' mp',
      acts @ map (frame_act g c) (fs @ fst p) @ overflow_acts i (snd p)))" "holds db' mp' n (snd p)"
    unfolding loop_result_def by auto
  then show ?thesis unfolding loop_result_def by auto
qed

lemma gate_loop_deframe:
  assumes "k < length (g_conn g)" "g_conn g ! k = c" "holds (c_buffer c) (g_mp g) n (Some (h, bs))"
    and "g_header_size g = hs" "0 < hs" "has_receiver g c = r"
  shows "loop_result k i g c n acts (deframe r hs h bs)"
  using assms
proof (induction r hs h bs arbitrary: g c acts rule: deframe.induct)
  case (1 r hs h bs)
  note k = "1.prems"(1,2) and ok = "1.prems"(3)
  have hd: "db_header (c_buffer c) = h" "db_size (c_buffer c) = length bs" "db_content (c_buffer c) = bs"
    using ok by (auto simp: holds_def db_ok_def)
  have same: "with_buffer g k c (c_buffer c) (g_mp g) = g" using with_same [OF k(2)] .
  have stop: "loop_result k i g c n acts ([], Some (h, bs))"
    if "databuffer_readheader (c_buffer c) (g_mp g) hs = Inr (m, c_buffer c, g_mp g)" "m < 0" for m
  proof -
    have "gate_loop k i g acts = Some (Inr (g, acts))"
      using k same that "1.prems"(4) by (subst gate_loop.simps) (simp add: Let_def)
    then show ?thesis using same ok unfolding loop_result_def overflow_acts_def
      by (intro exI [of _ "c_buffer c"] exI [of _ "g_mp g"]) simp
  qed
  consider (wait0) "h = 0" "length bs < hs" | (header) "h = 0" "hs \<le> length bs"
    | (wait) "h \<noteq> 0" "h < 0 \<or> int (length bs) < h"
    | (over) "0 < h" "h \<le> int (length bs)" "MAX_MESSAGE \<le> h"
    | (frame) "0 < h" "h \<le> int (length bs)" "h < MAX_MESSAGE" by linarith
  then show ?case
  proof cases
    case wait0
    then show ?thesis using stop [of "-1"] hd by (simp add: deframe_step databuffer_readheader_def)
  next
    case header
    obtain db mp where step: "gate_loop k i g acts = gate_loop k i (with_buffer g k c db mp) acts"
      and hold: "holds db mp n (Some (header_value (take hs bs), drop hs bs))"
      using gate_loop_header [OF k hd(1) [unfolded header(1)] "1.prems"(4,5) _ ok [unfolded header(1)]] hd(2) header(2)
      by metis
    have "loop_result k i (with_buffer g k c db mp) (c\<lparr>c_buffer := db\<rparr>) n acts
        (deframe r hs (header_value (take hs bs)) (drop hs bs))"
      by (rule "1.IH"(1)) (use header "1.prems" hold in \<open>auto simp: has_receiver_def\<close>)
    then show ?thesis
      using loop_result_with [where fs = "[]" and acts = acts] step header "1.prems"(5) by (simp add: deframe_step)
  next
    case wait
    then show ?thesis using stop [of "if int (length bs) < h then -1 else h"] hd
      by (cases "int (length bs) < h") (auto simp: deframe_step readheader_ready)
  next
    case over
    have "databuffer_readheader (c_buffer c) (g_mp g) hs = Inr (h, c_buffer c, g_mp g)"
      using over hd by (simp add: readheader_ready)
    moreover obtain db mp where cl: "databuffer_clear (c_buffer c) (g_mp g) = (db, mp)" by (metis surj_pair)
    ultimately have "gate_loop k i g acts = Some (Inr (with_buffer g k c db mp,
        acts @ [Socket_close i, Skynet_error (cstr ''Recv socket message > 16M'')]))"
      using over k "1.prems"(4) by (subst gate_loop.simps) (simp add: Let_def)
    moreover have "db = empty_databuffer \<and> mp_ok mp n" using clear_ok [OF cl, of n] ok by (simp add: holds_def)
    then have "holds db mp n None" by (simp add: holds_def)
    ultimately show ?thesis unfolding loop_result_def deframe_step(4) [OF over(3,2)]
      by (auto simp: overflow_acts_def)
  next
    case frame
    obtain db mp where step: "gate_loop k i g acts = gate_loop k i (with_buffer g k c db mp)
       (acts @ (if has_receiver g c then [frame_act g c (take (nat h) bs)] else []))"
      and hold: "holds db mp n (Some (0, if has_receiver g c then drop (nat h) bs else bs))"
      using gate_loop_frame [OF k ok frame] .
    show ?thesis
    proof (cases r)
      case True
      have "loop_result k i (with_buffer g k c db mp) (c\<lparr>c_buffer := db\<rparr>) n
          (acts @ [frame_act g c (take (nat h) bs)]) (deframe r hs 0 (drop (nat h) bs))"
        by (rule "1.IH"(2)) (use frame "1.prems" hold True in \<open>auto simp: has_receiver_def\<close>)
      then show ?thesis
        using loop_result_with [where fs = "[take (nat h) bs]" and acts = acts]
          step frame True "1.prems"(6) by (simp add: deframe_step case_prod_unfold)
    next
      case False
      have "loop_result k i (with_buffer g k c db mp) (c\<lparr>c_buffer := db\<rparr>) n acts (deframe r hs 0 bs)"
        by (rule "1.IH"(3)) (use frame "1.prems" hold False in \<open>auto simp: has_receiver_def\<close>)
      then show ?thesis
        using loop_result_with [where fs = "[]" and acts = acts] step frame False "1.prems"(6)
        by (simp add: deframe_step)
    qed
  qed
qed

section \<open>Invariant of the gate\<close>

definition conn_ok :: "gate \<Rightarrow> nat \<Rightarrow> bool" where
  "conn_ok g k \<longleftrightarrow>
     (let c = g_conn g ! k in
      db_ok (c_buffer c) \<and>
      (if c_id c = -1 then c = closed_connection \<and> k \<notin> ran (slots (g_hash g))
       else 0 \<le> c_id c \<and> slots (g_hash g) (c_id c) = Some k))"

definition gate_ok :: "gate \<Rightarrow> bool" where
  "gate_ok g \<longleftrightarrow>
     hashid_ok (g_hash g) \<and> hi_cap (g_hash g) = g_max_connection g \<and> length (g_conn g) = g_max_connection g \<and>
     (g_header_size g = 2 \<or> g_header_size g = 4) \<and> (\<forall>k < g_max_connection g. conn_ok g k) \<and>
     mp_ok (g_mp g) (sum_list (map (\<lambda>c. length (db_list (c_buffer c))) (g_conn g)))"

lemma gate_slot:
  assumes "gate_ok g" "slots (g_hash g) i = Some k"
  shows "k < length (g_conn g)" "c_id (g_conn g ! k) = i" "db_ok (c_buffer (g_conn g ! k))" "0 \<le> i"
proof -
  have k: "k < g_max_connection g" using assms slots_less [OF assms(2)] by (simp add: gate_ok_def)
  then show "k < length (g_conn g)" using assms(1) by (simp add: gate_ok_def)
  have c: "conn_ok g k" using assms(1) k by (simp add: gate_ok_def)
  then show "db_ok (c_buffer (g_conn g ! k))" by (simp add: conn_ok_def Let_def)
  have "c_id (g_conn g ! k) \<noteq> -1" using c assms(2) by (auto simp: conn_ok_def Let_def ran_def)
  then have "slots (g_hash g) (c_id (g_conn g ! k)) = Some k" "0 \<le> c_id (g_conn g ! k)"
    using c by (auto simp: conn_ok_def Let_def)
  moreover have "hashid_ok (g_hash g)" using assms(1) by (simp add: gate_ok_def)
  ultimately show "c_id (g_conn g ! k) = i" "0 \<le> i" using slots_inj assms(2) by blast+
qed

text \<open>Replacing one connection: the nodes the other connections use stay the same.\<close>

definition other_nodes :: "gate \<Rightarrow> nat \<Rightarrow> nat" where
  "other_nodes g k = sum_list (map (\<lambda>c. length (db_list (c_buffer c))) ((g_conn g)[k := closed_connection]))"

lemma sum_list_update:
  "k < length xs \<Longrightarrow> sum_list (xs[k := x]) + xs ! k = sum_list xs + (x :: nat)"
  by (induction xs arbitrary: k) (auto split: nat.splits)

lemma nodes_update:
  assumes "k < length (g_conn g)"
  shows "sum_list (map (\<lambda>c. length (db_list (c_buffer c))) ((g_conn g)[k := c])) =
    other_nodes g k + length (db_list (c_buffer c))"
  using assms
    sum_list_update [of k "map (\<lambda>c. length (db_list (c_buffer c))) (g_conn g)" "length (db_list (c_buffer c))"]
    sum_list_update [of k "map (\<lambda>c. length (db_list (c_buffer c))) (g_conn g)" 0]
  by (simp add: other_nodes_def map_update closed_connection_def)

lemma nodes_split:
  assumes "k < length (g_conn g)"
  shows "sum_list (map (\<lambda>c. length (db_list (c_buffer c))) (g_conn g)) =
    other_nodes g k + length (db_list (c_buffer (g_conn g ! k)))"
  using nodes_update [OF assms, of "g_conn g ! k"] by simp

lemma gate_ok_with_buffer:
  assumes ok: "gate_ok g" and k: "slots (g_hash g) i = Some k" and hold: "holds db mp (other_nodes g k) s"
  shows "gate_ok (with_buffer g k (g_conn g ! k) db mp)"
proof -
  note sl = gate_slot [OF ok k]
  have "conn_ok (with_buffer g k (g_conn g ! k) db mp) j" if "j < g_max_connection g" for j
  proof -
    have "conn_ok g j" using ok that by (simp add: gate_ok_def)
    then show ?thesis using sl k hold by (cases "j = k") (auto simp: conn_ok_def Let_def holds_def)
  qed
  moreover have "mp_ok mp (other_nodes g k + length (db_list db))" using hold by (simp add: holds_def)
  ultimately show ?thesis using ok sl(1) by (simp add: gate_ok_def nodes_update)
qed

lemma dispatch_ok:
  assumes ok: "gate_ok g" and k: "slots (g_hash g) i = Some k" and c: "c = g_conn g ! k"
    and sz: "db_size (c_buffer c) + length data \<le> INT_MAX"
    and p: "p = deframe (has_receiver g c) (g_header_size g) (db_header (c_buffer c)) (db_content (c_buffer c) @ data)"
  shows "\<exists>db mp. gate_dispatch_message k i data g = Inr (with_buffer g k c db mp,
      map (frame_act g c) (fst p) @ overflow_acts i (snd p)) \<and> holds db mp (other_nodes g k) (snd p)"
proof -
  note sl = gate_slot [OF ok k]
  have mp: "mp_ok (g_mp g) (other_nodes g k + length (db_list (c_buffer c)))"
    using ok nodes_split [OF sl(1)] by (simp add: gate_ok_def c)
  have dbok: "db_ok (c_buffer c)" using sl(3) c by simp
  obtain db mp where push: "databuffer_push (c_buffer c) (g_mp g) data = Inr (db, mp)"
    and db: "db_ok db" "db_content db = db_content (c_buffer c) @ data" "db_header db = db_header (c_buffer c)"
      "mp_ok mp (other_nodes g k + length (db_list db))"
    using push_ok [OF dbok sz mp] by metis
  have "loop_result k i (with_buffer g k c db mp) (c\<lparr>c_buffer := db\<rparr>) (other_nodes g k) [] p"
    unfolding p by (rule gate_loop_deframe)
      (use ok sl db in \<open>auto simp: holds_def gate_ok_def c has_receiver_def\<close>)
  then obtain db' mp' where "gate_loop k i (with_buffer g k c db mp) [] =
      Some (Inr (with_buffer g k c db' mp', map (frame_act g c) (fst p) @ overflow_acts i (snd p)))"
    and hold: "holds db' mp' (other_nodes g k) (snd p)"
    by (auto simp: loop_result_def)
  then have "gate_dispatch_message k i data g = Inr (with_buffer g k c db' mp',
      map (frame_act g c) (fst p) @ overflow_acts i (snd p))"
    using push sl(1) by (simp add: gate_dispatch_message_def c [symmetric])
  then show ?thesis using hold by blast
qed

section \<open>Frames survive any fragmentation\<close>

text \<open>What a client writes: every frame after its length, big-endian.\<close>

definition frame_header :: "nat \<Rightarrow> nat \<Rightarrow> u8 list" where
  "frame_header hs n =
     (if hs = 2 then [of_nat (n div 256), of_nat n]
      else [of_nat (n div 16777216), of_nat (n div 65536), of_nat (n div 256), of_nat n])"

definition frame_fits :: "nat \<Rightarrow> u8 list \<Rightarrow> bool" where
  "frame_fits hs f \<longleftrightarrow> f \<noteq> [] \<and> length f < (if hs = 2 then 65536 else 16777216)"

definition encode_frames :: "nat \<Rightarrow> u8 list list \<Rightarrow> u8 list" where
  "encode_frames hs fs = concat (map (\<lambda>f. frame_header hs (length f) @ f) fs)"

lemma frame_header_value:
  assumes "hs = 2 \<and> n < 65536 \<or> hs = 4 \<and> n < 16777216"
  shows "header_value (frame_header hs n) = int n" "length (frame_header hs n) = hs"
proof -
  have byte: "unat (of_nat m :: u8) = m mod 256" for m by (simp add: unat_of_nat)
  have "header_value (frame_header 4 n) = int n" if n: "n < 16777216"
  proof -
    have "n div 65536 mod 256 = n div 256 div 256"
      using n by (simp add: div_mult2_eq [symmetric] less_mult_imp_div_less)
    then have "((n div 16777216 mod 256 * 256 + n div 65536 mod 256) * 256 + n div 256 mod 256) * 256 + n mod 256 = n"
      using n div_mult_mod_eq [of "n div 256" 256] div_mult_mod_eq [of n 256] by simp
    moreover have "sint (word_of_nat n :: 32 word) = int n" using n by (simp add: signed_of_nat signed_take_bit_int_eq_self)
    moreover have "header_value (frame_header 4 n) = sint (word_of_nat (((n div 16777216 mod 256 * 256 +
        n div 65536 mod 256) * 256 + n div 256 mod 256) * 256 + n mod 256) :: 32 word)"
      by (simp add: frame_header_def byte del: of_nat_add of_nat_mult)
    ultimately show ?thesis by metis
  qed
  moreover have "header_value (frame_header 2 n) = int n" if n: "n < 65536"
  proof -
    have "n div 256 mod 256 = n div 256" using n by (simp add: less_mult_imp_div_less)
    then have "n div 256 mod 256 * 256 + n mod 256 = n" by simp
    then show ?thesis by (simp add: frame_header_def byte del: of_nat_add of_nat_mult)
  qed
  ultimately show "header_value (frame_header hs n) = int n" using assms by auto
  show "length (frame_header hs n) = hs" using assms by (auto simp: frame_header_def)
qed

lemma deframe_encode:
  assumes "hs = 2 \<or> hs = 4" "\<forall>f \<in> set fs. frame_fits hs f"
  shows "deframe True hs 0 (encode_frames hs fs) = (fs, Some (0, []))"
  using assms(2)
proof (induction fs)
  case Nil
  then show ?case using assms(1) by (auto simp: encode_frames_def deframe_step)
next
  case (Cons f fs)
  have f: "f \<noteq> []" "hs = 2 \<and> length f < 65536 \<or> hs = 4 \<and> length f < 16777216"
    using Cons.prems assms(1) by (auto simp: frame_fits_def split: if_splits)
  note fh = frame_header_value [OF f(2)]
  have e: "encode_frames hs (f # fs) = frame_header hs (length f) @ f @ encode_frames hs fs"
    by (simp add: encode_frames_def)
  have "deframe True hs 0 (encode_frames hs (f # fs)) = deframe True hs (int (length f)) (f @ encode_frames hs fs)"
    using assms(1) fh by (auto simp: e deframe_step)
  also have "\<dots> = (case deframe True hs 0 (encode_frames hs fs) of (gs, s) \<Rightarrow> (f # gs, s))"
    using f by (subst deframe_step) (auto simp: MAX_MESSAGE_def)
  finally show ?case using Cons by simp
qed

text \<open>The packets of one connection, one callback each.\<close>

definition data_msg :: "int \<Rightarrow> u8 list \<Rightarrow> gate_msg" where
  "data_msg i p = Socket_msg \<lparr>sk_type = SKYNET_SOCKET_TYPE_DATA, sk_id = i, sk_ud = int (length p), sk_buffer = p, sk_tail = []\<rparr>"

fun gate_run :: "gate_env \<Rightarrow> (u32 \<times> gate_msg) list \<Rightarrow> gate \<Rightarrow> gate_step" where
  "gate_run E [] g = Inr (g, [])"
| "gate_run E ((source, m) # ms) g =
     bindR (gate_cb E source m g) (\<lambda>(_, g, acts).
     bindR (gate_run E ms g) (\<lambda>(g, acts'). Inr (g, acts @ acts')))"

lemma data_cb:
  assumes ok: "gate_ok g" and k: "slots (g_hash g) i = Some k"
  shows "gate_cb E source (data_msg i p) g = bindR (gate_dispatch_message k i p g) (\<lambda>(g, acts). Inr (0, g, acts))"
proof -
  have "hashid_ok (g_hash g)" using ok by (simp add: gate_ok_def)
  then show ?thesis using k by (simp add: gate_cb_def data_msg_def dispatch_socket_message_def socket_data_def lookup_slots)
qed

lemma gate_run_data:
  assumes "gate_ok g" "slots (g_hash g) i = Some k" "c = g_conn g ! k"
    and "db_size (c_buffer c) + length (concat ps) \<le> INT_MAX"
    and "deframe (has_receiver g c) (g_header_size g) (db_header (c_buffer c)) (db_content (c_buffer c) @ concat ps) = (fs, Some s)"
    and "0 < length ps"
  shows "\<exists>db mp. gate_run E (map (\<lambda>p. (source, data_msg i p)) ps) g = Inr (with_buffer g k c db mp, map (frame_act g c) fs) \<and>
    gate_ok (with_buffer g k c db mp) \<and> holds db mp (other_nodes g k) (Some s)"
  using assms
proof (induction ps arbitrary: g c fs)
  case Nil
  then show ?case by simp
next
  case (Cons p ps)
  let ?hs = "g_header_size g" and ?r = "has_receiver g c"
  have hs: "0 < ?hs" using Cons.prems(1) by (auto simp: gate_ok_def)
  define q where "q = deframe ?r ?hs (db_header (c_buffer c)) (db_content (c_buffer c) @ p)"
  have tot: "deframe_more ?r ?hs q (concat ps) = (fs, Some s)"
    using Cons.prems(5) deframe_append [OF hs, of ?r "db_header (c_buffer c)" "db_content (c_buffer c) @ p" "concat ps"]
    by (simp add: q_def)
  then obtain f1 h bs f2 where q: "q = (f1, Some (h, bs))" and f2: "deframe ?r ?hs h (bs @ concat ps) = (f2, Some s)" and fs: "fs = f1 @ f2"
    by (cases q) (auto simp: deframe_more_def split: option.splits prod.splits)
  have "db_size (c_buffer c) + length p \<le> INT_MAX" using Cons.prems(4) by simp
  then obtain db mp where run: "gate_dispatch_message k i p g = Inr (with_buffer g k c db mp, map (frame_act g c) f1)"
    and hold: "holds db mp (other_nodes g k) (Some (h, bs))"
    using dispatch_ok [OF Cons.prems(1-3) _ q_def] q by (auto simp: overflow_acts_def)
  let ?g = "with_buffer g k c db mp" and ?c = "c\<lparr>c_buffer := db\<rparr>"
  have ok: "gate_ok ?g" using gate_ok_with_buffer [OF Cons.prems(1,2) hold] Cons.prems(3) by simp
  note sl = gate_slot [OF Cons.prems(1,2)]
  have cb: "gate_cb E source (data_msg i p) g = Inr (0, ?g, map (frame_act g c) f1)"
    using data_cb [OF Cons.prems(1,2)] run by simp
  show ?case
  proof (cases "ps = []")
    case True
    have "deframe ?r ?hs h bs = ([], Some (h, bs))"
      using deframe_idle [OF hs] q unfolding q_def by blast
    then have "f2 = []" "s = (h, bs)" using f2 True by auto
    then show ?thesis using True cb ok hold fs by auto
  next
    case False
    have "length bs \<le> length (db_content (c_buffer c) @ p)"
      using deframe_rest q unfolding q_def by blast
    moreover have "db_size db = length bs" "db_size (c_buffer c) = length (db_content (c_buffer c))"
      using hold sl(3) Cons.prems(3) by (auto simp: holds_def db_ok_def)
    ultimately have sz: "db_size db + length (concat ps) \<le> INT_MAX" using Cons.prems(4) by simp
    have "db_header db = h" "db_content db = bs" using hold by (simp_all add: holds_def)
    then obtain db' mp' where "gate_run E (map (\<lambda>p. (source, data_msg i p)) ps) ?g =
          Inr (with_buffer ?g k ?c db' mp', map (frame_act ?g ?c) f2)"
        "gate_ok (with_buffer ?g k ?c db' mp')" "holds db' mp' (other_nodes ?g k) (Some s)"
      using Cons.IH [of ?g ?c f2] ok Cons.prems(2) sl(1) sz f2 False by (auto simp: has_receiver_def)
    then have "gate_run E (map (\<lambda>p. (source, data_msg i p)) (p # ps)) g = Inr (with_buffer g k c db' mp', map (frame_act g c) fs)"
        "gate_ok (with_buffer g k c db' mp')" "holds db' mp' (other_nodes g k) (Some s)"
      using cb fs by (simp_all add: other_nodes_def)
    then show ?thesis by blast
  qed
qed

end
