(* ===== verification/Gate_Safety.thy ===== *)
theory Gate_Safety
  imports Gate_Stream
begin

text \<open>
  No input that the socket thread can deliver makes the gate fail, and its
  invariant is kept: the handlers one by one, then runs from initialisation.
\<close>

section \<open>Texts\<close>

lemma length_print_nat: "n < 10 ^ m \<Longrightarrow> 0 < m \<Longrightarrow> length (print_nat 10 n) \<le> m"
proof (induction m arbitrary: n)
  case 0
  then show ?case by simp
next
  case (Suc m)
  show ?case
  proof (cases "n < 10")
    case True
    then show ?thesis by (subst print_nat.simps) simp
  next
    case False
    then have "0 < m" using Suc.prems by (cases m) auto
    moreover have "n div 10 < 10 ^ m" using Suc.prems by (simp add: less_mult_imp_div_less mult.commute)
    ultimately show ?thesis using Suc.IH [of "n div 10"] False by (subst print_nat.simps) simp
  qed
qed

lemma length_print_d: "\<bar>i\<bar> < 10 ^ 10 \<Longrightarrow> length (print_d i) \<le> 11"
  using length_print_nat [of "nat \<bar>i\<bar>" 10] by (auto simp: print_d_def nat_less_iff)

lemma report_ok:
  "length data < 1024 \<Longrightarrow>
   gate_report data g = Inr (if g_watchdog g = 0 then [] else [Send 0 (g_watchdog g) P_TEXT 0 data])"
  by (simp add: gate_report_def)

section \<open>Control commands\<close>

lemma memcmp_ok:
  assumes "0 \<notin> set m" "i \<le> length m" "0 \<notin> set lit"
  shows "memcmp_eq m lit i = Inr (i \<le> length lit \<and> take i m = take i lit)"
proof -
  have ne: "take (length lit + 1) m \<noteq> lit @ [0]"
    using assms(1) in_set_takeD [of 0 "length lit + 1" m] by auto
  consider "i \<le> length lit" | "i = length lit + 1" | "length lit + 1 < i" by linarith
  then show ?thesis
  proof cases
    case 2
    then show ?thesis using ne by (simp add: memcmp_eq_def)
  qed (use ne in \<open>auto simp: memcmp_eq_def\<close>)
qed

lemma cstr_nonzero: "\<forall>c \<in> set s. of_char c \<noteq> (0 :: u8) \<Longrightarrow> 0 \<notin> set (cstr s)"
  by (auto simp: cstr_def)

lemma command_names_nonzero [simp]:
  "0 \<notin> set (cstr ''kick'')" "0 \<notin> set (cstr ''forward'')" "0 \<notin> set (cstr ''broker'')"
  "0 \<notin> set (cstr ''start'')" "0 \<notin> set (cstr ''close'')"
  by (auto simp: cstr_def)

lemma parm_zero: "0 \<in> set (gate_parm m i)"
  by (simp add: gate_parm_def Let_def)

lemma c_string_ok: "0 \<in> set s \<Longrightarrow> c_string s = Inr (takeWhile (\<lambda>c. c \<noteq> 0) s)"
  by (simp add: c_string_def)

lemma forward_agent_ok:
  assumes "gate_ok g"
  shows "\<exists>g'. forward_agent fd a b g = Inr g' \<and> gate_ok g'"
proof -
  have h: "hashid_ok (g_hash g)" using assms by (simp add: gate_ok_def)
  show ?thesis
  proof (cases "slots (g_hash g) fd")
    case None
    then show ?thesis using assms h by (simp add: forward_agent_def lookup_slots)
  next
    case (Some k)
    note sl = gate_slot [OF assms Some]
    let ?c = "g_conn g ! k"
    let ?g = "g\<lparr>g_conn := (g_conn g)[k := ?c\<lparr>c_agent := a, c_client := b\<rparr>]\<rparr>"
    have "conn_ok ?g j" if "j < g_max_connection g" for j
    proof -
      have "conn_ok g j" using assms that by (simp add: gate_ok_def)
      then show ?thesis using sl Some by (cases "j = k") (auto simp: conn_ok_def Let_def)
    qed
    moreover have "mp_ok (g_mp g) (sum_list (map (\<lambda>c. length (db_list (c_buffer c))) (g_conn ?g)))"
      using assms sl(1) nodes_split [OF sl(1)] by (simp add: gate_ok_def nodes_update)
    ultimately have "gate_ok ?g" using assms by (simp add: gate_ok_def)
    then show ?thesis using h Some sl(1) by (simp add: forward_agent_def lookup_slots)
  qed
qed

text \<open>The text after the command is one character shorter than the message at least.\<close>

lemma parm_tail:
  assumes "0 < i" "i \<le> length m" "0 \<notin> set m"
  shows "\<exists>p u. gate_parm m i = p @ [0] @ u @ [0] \<and> 0 \<notin> set p"
proof -
  let ?p = "dropWhile (\<lambda>c. c = 32) (drop i m)"
  have "length ?p < length m"
    using length_dropWhile_le [of "\<lambda>c. c = 32" "drop i m"] assms by simp
  then have "drop (length ?p + 1) (m @ [0]) = drop (length ?p + 1) m @ [0]" by simp
  moreover have "0 \<notin> set ?p" using assms(3) set_dropWhileD in_set_dropD by metis
  ultimately show ?thesis unfolding gate_parm_def Let_def by auto
qed

lemma in_set_tlD: "x \<in> set (tl xs) \<Longrightarrow> x \<in> set xs"
  by (cases xs) auto

lemma strsep_rest:
  assumes "strsep s = (t, Some r)" "s = p @ [0] @ u @ [0]" "0 \<notin> set p"
  obtains p' where "r = p' @ [0] @ u @ [0]" "0 \<notin> set p'"
proof -
  let ?t = "takeWhile (\<lambda>c. c \<noteq> 0 \<and> c \<noteq> 32) s" and ?tp = "takeWhile (\<lambda>c. c \<noteq> 0 \<and> c \<noteq> 32) p"
  have r: "r = tl (drop (length ?t) s)" "hd (drop (length ?t) s) = 32" "drop (length ?t) s \<noteq> []"
    using assms(1) by (auto simp: strsep_def Let_def split: if_splits)
  have "?t = ?tp" using assms(2) by (simp add: takeWhile_tail)
  then have d: "drop (length ?t) s = drop (length ?tp) p @ [0] @ u @ [0]"
    using assms(2) length_takeWhile_le [of _ p] by simp
  then have "drop (length ?tp) p \<noteq> []" using r(2) by (cases "drop (length ?tp) p") auto
  then have "r = tl (drop (length ?tp) p) @ [0] @ u @ [0]" using r(1) d by simp
  moreover have "0 \<notin> set (tl (drop (length ?tp) p))"
    using assms(3) by (auto simp: tl_drop dest!: in_set_dropD in_set_tlD)
  ultimately show ?thesis using that by blast
qed

lemma ctrl_forward_ok:
  assumes "gate_ok g" "tmp = p @ [0] @ u @ [0]" "0 \<notin> set p"
  shows "\<exists>g'. ctrl_forward tmp g = Inr g' \<and> gate_ok g'"
proof -
  obtain idstr o1 where s1: "strsep tmp = (idstr, o1)" by (cases "strsep tmp")
  show ?thesis
  proof (cases o1)
    case None
    then show ?thesis using s1 assms(1) by (simp add: ctrl_forward_def)
  next
    case (Some r1)
    obtain p1 where r1: "r1 = p1 @ [0] @ u @ [0]" "0 \<notin> set p1"
      using strsep_rest [of tmp idstr r1 p u] s1 Some assms by auto
    obtain agent o2 where s2: "strsep r1 = (agent, o2)" by (cases "strsep r1")
    show ?thesis
    proof (cases o2)
      case None
      then show ?thesis using s1 s2 Some assms(1) by (simp add: ctrl_forward_def)
    next
      case o2: (Some r2)
      obtain p2 where r2: "r2 = p2 @ [0] @ u @ [0]"
        using strsep_rest [of r1 agent r2 p1 u] s2 o2 r1 by auto
      have z: "0 \<in> set r2" "0 \<in> set (tl r2)" using r2 by (cases p2; auto)+
      have "\<exists>a. after_colon agent r2 = Inr a" "\<exists>b. after_colon (takeWhile (\<lambda>c. c \<noteq> 0) r2) (tl r2) = Inr b"
        using z by (auto simp: after_colon_def c_string_def)
      then show ?thesis
        using forward_agent_ok [OF assms(1)] s1 s2 Some o2 z by (auto simp: ctrl_forward_def c_string_ok)
    qed
  qed
qed

lemma ctrl_socket_ok: "gate_ok g \<Longrightarrow> 0 \<in> set tmp \<Longrightarrow> \<exists>acts. ctrl_socket act tmp g = Inr (g, acts)"
  by (simp add: ctrl_socket_def c_string_ok lookup_slots gate_ok_def Let_def)

lemma gate_ok_fields [simp]:
  "gate_ok (g\<lparr>g_broker := b\<rparr>) = gate_ok g" "gate_ok (g\<lparr>g_listen_id := l\<rparr>) = gate_ok g"
  by (simp_all add: gate_ok_def conn_ok_def Let_def)

lemma gate_ctrl_ok:
  assumes ok: "gate_ok g" and m: "0 \<notin> set m"
  shows "\<exists>g' acts. gate_ctrl E m g = Inr (g', acts) \<and> gate_ok g'"
proof (cases "m = []")
  case True
  then show ?thesis using ok by (simp add: gate_ctrl_def)
next
  case False
  let ?i = "length (takeWhile (\<lambda>c. c \<noteq> 32) m)"
  have i: "?i \<le> length m" by (rule length_takeWhile_le)
  note mc = memcmp_ok [OF m i]
  have fw: "\<exists>g'. ctrl_forward (gate_parm m ?i) g = Inr g' \<and> gate_ok g'" if "0 < ?i"
    using parm_tail [OF that i m] ctrl_forward_ok [OF ok] by blast
  have z: "0 \<in> set (gate_parm m ?i)" by (rule parm_zero)
  show ?thesis
  proof (cases "?i = 0")
    case True
    moreover have "memcmp_eq m lit 0 = Inr True" for lit by (simp add: memcmp_eq_def)
    ultimately show ?thesis using False ctrl_socket_ok [OF ok z, of Socket_close] ok by (auto simp: gate_ctrl_def Let_def)
  next
    case i0: False
    then obtain g1 where g1: "ctrl_forward (gate_parm m ?i) g = Inr g1" "gate_ok g1" using fw by auto
    obtain a1 a2 where a: "ctrl_socket Socket_close (gate_parm m ?i) g = Inr (g, a1)"
        "ctrl_socket Socket_start (gate_parm m ?i) g = Inr (g, a2)"
      using ctrl_socket_ok [OF ok z] by metis
    show ?thesis using False ok g1 a z by (simp add: gate_ctrl_def mc Let_def c_string_ok)
  qed
qed

section \<open>Socket messages\<close>

text \<open>
  What the socket thread delivers: new connections only on the listening socket and
  with an id that is not open and in the range of ids the sockets have; never more
  than \<^verbatim>\<open>INT_MAX\<close> bytes waiting on one connection.  Text commands have no zero byte.
\<close>

definition input_ok :: "gate \<Rightarrow> gate_msg \<Rightarrow> bool" where
  "input_ok g msg =
     (case msg of
        Text_msg m \<Rightarrow> 0 \<notin> set m
      | Client_msg m \<Rightarrow> True
      | Other_msg _ \<Rightarrow> True
      | Socket_msg m \<Rightarrow>
          \<bar>sk_id m\<bar> \<le> int INT_MAX \<and>
          (case sk_type m of
             SKYNET_SOCKET_TYPE_DATA \<Rightarrow>
               (case slots (g_hash g) (sk_id m) of
                  None \<Rightarrow> True
                | Some k \<Rightarrow> db_size (c_buffer (g_conn g ! k)) + length (sk_buffer m) \<le> INT_MAX)
           | SKYNET_SOCKET_TYPE_ACCEPT \<Rightarrow>
               sk_id m = g_listen_id g \<and> 0 \<le> sk_ud m \<and>
               sk_ud m + int (g_max_connection g) \<le> int INT_MAX + 1 \<and> slots (g_hash g) (sk_ud m) = None
           | _ \<Rightarrow> True))"

lemma print_int_bound: "\<bar>i\<bar> \<le> int INT_MAX \<Longrightarrow> length (print_d i) \<le> 11"
  by (rule length_print_d) (simp add: INT_MAX_def)

lemma socket_data_ok:
  assumes "gate_ok g" "input_ok g (Socket_msg m)" "sk_type m = SKYNET_SOCKET_TYPE_DATA"
  shows "\<exists>g' acts. socket_data m g = Inr (g', acts) \<and> gate_ok g'"
proof -
  have h: "hashid_ok (g_hash g)" using assms(1) by (simp add: gate_ok_def)
  show ?thesis
  proof (cases "slots (g_hash g) (sk_id m)")
    case None
    then show ?thesis using assms(1) h by (simp add: socket_data_def lookup_slots)
  next
    case (Some k)
    have sz: "db_size (c_buffer (g_conn g ! k)) + length (sk_buffer m) \<le> INT_MAX"
      using assms(2,3) Some by (simp add: input_ok_def)
    obtain db mp acts s where "gate_dispatch_message k (sk_id m) (sk_buffer m) g = Inr (with_buffer g k (g_conn g ! k) db mp, acts)"
      "holds db mp (other_nodes g k) s"
      using dispatch_ok [OF assms(1) Some refl sz refl] by blast
    then show ?thesis using gate_ok_with_buffer [OF assms(1) Some] Some h by (auto simp: socket_data_def lookup_slots)
  qed
qed

lemma socket_closed_ok:
  assumes ok: "gate_ok g" and b: "\<bar>sk_id m\<bar> \<le> int INT_MAX"
  shows "\<exists>g' acts. socket_closed m g = Inr (g', acts) \<and> gate_ok g'"
proof -
  have h: "hashid_ok (g_hash g)" using ok by (simp add: gate_ok_def)
  obtain hash where rm: "hashid_remove (sk_id m) (g_hash g) = Inr (slot_int (slots (g_hash g) (sk_id m)), hash)"
    and hash: "hashid_ok hash" "slots hash = (slots (g_hash g))(sk_id m := None)" "hi_cap hash = hi_cap (g_hash g)"
    using hid.remove_law [OF h] by metis
  show ?thesis
  proof (cases "slots (g_hash g) (sk_id m)")
    case None
    then have "slots hash = slots (g_hash g)" using hash(2) by auto
    then have "gate_ok (g\<lparr>g_hash := hash\<rparr>)" using ok hash by (simp add: gate_ok_def conn_ok_def Let_def)
    then show ?thesis using None rm by (simp add: socket_closed_def)
  next
    case (Some k)
    note sl = gate_slot [OF ok Some]
    obtain db mp where cl: "databuffer_clear (c_buffer (g_conn g ! k)) (g_mp g) = (db, mp)" by (metis surj_pair)
    let ?g = "g\<lparr>g_hash := hash, g_conn := (g_conn g)[k := closed_connection], g_mp := mp\<rparr>"
    have "length (print_d (sk_id m) @ cstr '' close'') < 1024" using print_int_bound [OF b] by (simp add: cstr_def)
    then have run: "\<exists>acts. socket_closed m g = Inr (?g, acts)"
      using Some rm sl(1) cl by (simp add: socket_closed_def report_ok Let_def)
    have "conn_ok ?g j" if j: "j < g_max_connection g" for j
    proof (cases "j = k")
      case True
      have "k \<notin> ran (slots hash)" using slots_inj [OF h Some] by (auto simp: hash(2) ran_def split: if_splits)
      then show ?thesis using True sl(1) by (simp add: conn_ok_def Let_def closed_connection_def)
    next
      case False
      have c: "conn_ok g j" using ok j by (simp add: gate_ok_def)
      moreover have "c_id (g_conn g ! j) \<noteq> sk_id m" if "c_id (g_conn g ! j) \<noteq> -1"
        using c that Some False by (auto simp: conn_ok_def Let_def)
      ultimately show ?thesis using False by (auto simp: conn_ok_def Let_def hash(2) ran_def split: if_splits)
    qed
    moreover have "mp_ok mp (other_nodes g k)"
      using clear_ok [OF cl, of "other_nodes g k"] ok nodes_split [OF sl(1)] by (simp add: gate_ok_def)
    ultimately have "gate_ok ?g"
      using ok hash(1,3) sl(1) nodes_update [OF sl(1), of closed_connection]
      by (simp add: gate_ok_def) (simp add: closed_connection_def)
    then show ?thesis using run by blast
  qed
qed

lemma socket_accept_ok:
  assumes ok: "gate_ok g" and inp: "input_ok g (Socket_msg m)" and ty: "sk_type m = SKYNET_SOCKET_TYPE_ACCEPT"
  shows "\<exists>g' acts. socket_accept m g = Inr (g', acts) \<and> gate_ok g'"
proof -
  have h: "hashid_ok (g_hash g)" and cap: "hi_cap (g_hash g) = g_max_connection g" using ok by (simp_all add: gate_ok_def)
  have i: "sk_id m = g_listen_id g" "0 \<le> sk_ud m" "sk_ud m + int (g_max_connection g) \<le> int INT_MAX + 1"
    "slots (g_hash g) (sk_ud m) = None"
    using inp ty by (simp_all add: input_ok_def)
  show ?thesis
  proof (cases "hashid_full (g_hash g)")
    case True
    then show ?thesis using ok i(1) by (simp add: socket_accept_def)
  next
    case False
    obtain k hash where ins: "hashid_insert (sk_ud m) (g_hash g) = Inr (int k, hash)"
      and hash: "hashid_ok hash" "k < g_max_connection g" "k \<notin> ran (slots (g_hash g))"
        "slots hash = (slots (g_hash g))(sk_ud m \<mapsto> k)" "hi_cap hash = g_max_connection g"
      using hid.insert_law [OF h False i(2) _ i(4)] i(3) cap by metis
    have k: "k < length (g_conn g)" using ok hash(2) by (simp add: gate_ok_def)
    define sz where "sz = (if REMOTE_NAME \<le> length (sk_tail m) then REMOTE_NAME - 1 else length (sk_tail m))"
    define nm where "nm = takeWhile (\<lambda>c. c \<noteq> 0) (take sz (sk_tail m))"
    have "length nm \<le> sz" unfolding nm_def by (rule order_trans [OF length_takeWhile_le]) simp
    moreover have "sz \<le> 31" by (simp add: sz_def REMOTE_NAME_def)
    moreover have "length (print_d (sk_ud m)) \<le> 11" using i(2,3) hash(2) by (intro print_int_bound) linarith
    ultimately have tl: "length (open_text (sk_ud m) nm) < 1024" by (simp add: open_text_def cstr_def)
    let ?c = "g_conn g ! k"
    let ?g = "g\<lparr>g_hash := hash, g_conn := (g_conn g)[k := ?c\<lparr>c_id := sk_ud m, c_remote_name := nm\<rparr>]\<rparr>"
    have run: "\<exists>acts. socket_accept m g = Inr (?g, acts)"
      using False i(1) ins k tl by (simp add: socket_accept_def Let_def report_ok sz_def [symmetric] nm_def [symmetric])
    have ck: "conn_ok g k" using ok hash(2) by (simp add: gate_ok_def)
    have "conn_ok ?g j" if j: "j < g_max_connection g" for j
    proof (cases "j = k")
      case True
      then show ?thesis using ck k i(2) hash(4) by (simp add: conn_ok_def Let_def)
    next
      case False
      have "conn_ok g j" using ok j by (simp add: gate_ok_def)
      moreover have "c_id (g_conn g ! j) \<noteq> sk_ud m" if "slots (g_hash g) (c_id (g_conn g ! j)) = Some j"
        using that i(4) by auto
      ultimately show ?thesis using False by (auto simp: conn_ok_def Let_def hash(4) ran_def split: if_splits)
    qed
    moreover have "mp_ok (g_mp g) (sum_list (map (\<lambda>c. length (db_list (c_buffer c))) (g_conn ?g)))"
      using ok k nodes_split [OF k] by (simp add: gate_ok_def nodes_update)
    ultimately have "gate_ok ?g" using ok hash(1,5) by (simp add: gate_ok_def)
    then show ?thesis using run by blast
  qed
qed

lemma gate_cb_ok:
  assumes ok: "gate_ok g" and inp: "input_ok g msg"
  shows "\<exists>r g' acts. gate_cb E source msg g = Inr (r, g', acts) \<and> gate_ok g'"
proof (cases msg)
  case (Text_msg m)
  then show ?thesis using gate_ctrl_ok [OF ok, of m E] inp by (auto simp: gate_cb_def input_ok_def)
next
  case (Client_msg m)
  have h: "hashid_ok (g_hash g)" using ok by (simp add: gate_ok_def)
  have "\<exists>r acts. gate_client source m g = Inr (r, acts)" by (auto simp: gate_client_def Let_def lookup_slots [OF h])
  then show ?thesis using ok Client_msg by (auto simp: gate_cb_def)
next
  case (Other_msg t)
  then show ?thesis using ok by (simp add: gate_cb_def)
next
  case (Socket_msg m)
  have h: "hashid_ok (g_hash g)" and b: "\<bar>sk_id m\<bar> \<le> int INT_MAX"
    using ok inp Socket_msg by (auto simp: gate_ok_def input_ok_def)
  have "\<exists>g' acts. dispatch_socket_message m g = Inr (g', acts) \<and> gate_ok g'"
  proof (cases "sk_type m")
    case SKYNET_SOCKET_TYPE_DATA
    then show ?thesis using socket_data_ok [OF ok] inp Socket_msg by (simp add: dispatch_socket_message_def)
  next
    case SKYNET_SOCKET_TYPE_ACCEPT
    then show ?thesis using socket_accept_ok [OF ok] inp Socket_msg by (simp add: dispatch_socket_message_def)
  qed (use socket_closed_ok [OF ok b] ok h in \<open>simp_all add: dispatch_socket_message_def socket_connect_def lookup_slots\<close>)
  then show ?thesis using Socket_msg by (auto simp: gate_cb_def)
qed

section \<open>Runs\<close>

lemma gate_init_ok:
  assumes "gate_init E parm gate_create = Inr (0, g, acts)" "\<forall>p. parm = Some p \<longrightarrow> gp_max (scan_parm p) \<le> 2 ^ 30"
  shows "gate_ok g"
proof -
  obtain p w where su: "gate_setup E p w gate_create = Inr (0, g, acts)" and mx: "0 < gp_max p" "gp_max p \<le> 2 ^ 30"
    using assms by (auto simp: gate_init_def Let_def split: option.splits if_splits)
  let ?mx = "nat (gp_max p)"
  have "?mx \<le> 2 ^ 30" using mx(2) by simp
  then obtain hash where hash: "hashid_init ?mx = Inr hash" "hashid_ok hash" "slots hash = Map.empty" "hi_cap hash = ?mx"
    using hashid_init_slots by blast
  define g0 where "g0 = gate_create\<lparr>g_watchdog := w, g_hash := hash, g_conn := replicate ?mx closed_connection,
      g_max_connection := ?mx, g_client_tag := (if gp_client_tag p = 0 then P_CLIENT else gp_client_tag p),
      g_header_size := (if gp_header p = 83 then 2 else 4)\<rparr>"
  have "gate_ok g0"
    using hash by (auto simp: g0_def gate_ok_def gate_create_def conn_ok_def closed_connection_def mp_ok_def
        empty_messagepool_def sum_list_replicate)
  moreover have "\<exists>l. g = g0 \<or> g = g0\<lparr>g_listen_id := l\<rparr>"
    using su by (auto simp: gate_setup_def hash(1) g0_def [symmetric] start_listen_def Let_def split: if_splits)
  ultimately show ?thesis by auto
qed

fun admissible :: "gate_env \<Rightarrow> (u32 \<times> gate_msg) list \<Rightarrow> gate \<Rightarrow> bool" where
  "admissible E [] g = True"
| "admissible E ((source, m) # ms) g =
     (input_ok g m \<and> (case gate_cb E source m g of Inl _ \<Rightarrow> True | Inr (_, g', _) \<Rightarrow> admissible E ms g'))"

lemma gate_run_ok: "gate_ok g \<Longrightarrow> admissible E ms g \<Longrightarrow> \<exists>g' acts. gate_run E ms g = Inr (g', acts) \<and> gate_ok g'"
proof (induction ms arbitrary: g)
  case Nil
  then show ?case by simp
next
  case (Cons m ms)
  obtain source msg where m: "m = (source, msg)" by (cases m)
  obtain r g1 acts where "gate_cb E source msg g = Inr (r, g1, acts)" "gate_ok g1"
    using gate_cb_ok [OF Cons.prems(1), of msg E source] Cons.prems(2) m by auto
  then show ?case using Cons.IH [of g1] Cons.prems(2) m by auto
qed


definition sample_env :: gate_env where
  "sample_env = \<lparr>ge_queryname = (\<lambda>_. 9), ge_listen = (\<lambda>_ _ _. 7)\<rparr>"

text \<open>\<^verbatim>\<open>"L w :80 0 2"\<close>\<close>

definition sample_parm :: cstring where
  "sample_parm = [76, 32, 119, 32, 58, 56, 48, 32, 48, 32, 50]"

definition sample_accept :: gate_msg where
  "sample_accept = Socket_msg \<lparr>sk_type = SKYNET_SOCKET_TYPE_ACCEPT, sk_id = 7, sk_ud = 5, sk_buffer = [], sk_tail = [49]\<rparr>"

definition sample_run :: "(u32 \<times> gate_msg) list" where
  "sample_run = [(0, sample_accept), (0, data_msg 5 [0, 0, 0]), (0, data_msg 5 [1, 65, 0]), (2, Text_msg [107, 32, 53])]"

definition sample_start :: "gate \<times> gate_act list" where
  "sample_start = (case gate_init sample_env (Some sample_parm) gate_create of Inr (_, g, acts) \<Rightarrow> (g, acts) | Inl _ \<Rightarrow> (gate_create, []))"


section \<open>Streams\<close>

lemma lookup_slot: "hashid_ok hi \<Longrightarrow> hashid_lookup hi i = Inr (int k) \<Longrightarrow> slots hi i = Some k"
  by (cases "slots hi i") (auto simp: lookup_slots)

definition fresh_connection :: "gate \<Rightarrow> int \<Rightarrow> nat \<Rightarrow> bool" where
  "fresh_connection g i k \<longleftrightarrow>
     hashid_lookup (g_hash g) i = Inr (int k) \<and> db_header (c_buffer (g_conn g ! k)) = 0 \<and>
     db_content (c_buffer (g_conn g ! k)) = []"

lemma fresh_run:
  assumes ok: "gate_ok g" and fr: "fresh_connection g i k" and sz: "length (concat ps) \<le> INT_MAX"
    and d: "deframe (has_receiver g (g_conn g ! k)) (g_header_size g) 0 (concat ps) = (fs, Some s)"
  shows "\<exists>g'. gate_run E (map (\<lambda>p. (source, data_msg i p)) ps) g = Inr (g', map (frame_act g (g_conn g ! k)) fs) \<and>
    gate_ok g' \<and> g_hash g' = g_hash g \<and> db_header (c_buffer (g_conn g' ! k)) = fst s \<and>
    db_content (c_buffer (g_conn g' ! k)) = snd s"
proof -
  let ?c = "g_conn g ! k"
  have h: "hashid_ok (g_hash g)" using ok by (simp add: gate_ok_def)
  have k: "slots (g_hash g) i = Some k" using fr lookup_slot [OF h] by (simp add: fresh_connection_def)
  have c: "db_header (c_buffer ?c) = 0" "db_content (c_buffer ?c) = []" using fr by (simp_all add: fresh_connection_def)
  have hs: "0 < g_header_size g" using ok by (auto simp: gate_ok_def)
  have "db_size (c_buffer ?c) = 0" using gate_slot(3) [OF ok k] c(2) by (simp add: db_ok_def)
  then have sz': "db_size (c_buffer ?c) + length (concat ps) \<le> INT_MAX" using sz by simp
  show ?thesis
  proof (cases ps)
    case Nil
    then show ?thesis using d hs ok c by (auto simp: deframe_step)
  next
    case (Cons p ps')
    have "0 < length ps" using Cons by simp
    then obtain db mp where "gate_run E (map (\<lambda>p. (source, data_msg i p)) ps) g =
        Inr (with_buffer g k ?c db mp, map (frame_act g ?c) fs)" "gate_ok (with_buffer g k ?c db mp)"
        "holds db mp (other_nodes g k) (Some s)"
      using gate_run_data [OF ok k refl sz', of fs s E source] c d by auto
    then show ?thesis using gate_slot(1) [OF ok k] by (auto simp: holds_def split: prod.splits)
  qed
qed

text \<open>
  C21. Frames survive any fragmentation: when a peer writes frames, each after its
  length in the header format of the gate (two bytes, or four with at most 16M-1
  bytes of payload), and the network delivers the stream cut into packets anyhow,
  the gate sends exactly those frames, in order and nothing else, to the broker,
  the agent of the connection or the watchdog, whichever it forwards to.
\<close>

theorem gate_stream_roundtrip:
  assumes "gate_ok g" "fresh_connection g i k" "has_receiver g (g_conn g ! k)"
    and "\<forall>f \<in> set fs. frame_fits (g_header_size g) f"
    and "concat ps = encode_frames (g_header_size g) fs" "length (concat ps) \<le> INT_MAX"
  shows "\<exists>g'. gate_run E (map (\<lambda>p. (source, data_msg i p)) ps) g = Inr (g', map (frame_act g (g_conn g ! k)) fs) \<and>
    gate_ok g' \<and> fresh_connection g' i k"
proof -
  have hs: "g_header_size g = 2 \<or> g_header_size g = 4" using assms(1) by (simp add: gate_ok_def)
  have "deframe (has_receiver g (g_conn g ! k)) (g_header_size g) 0 (concat ps) = (fs, Some (0, []))"
    using deframe_encode [OF hs assms(4)] assms(3,5) by simp
  from fresh_run [OF assms(1,2,6) this]
  show ?thesis using assms(2) by (fastforce simp: fresh_connection_def)
qed

text \<open>A gate with a watchdog that has accepted the connection 5.\<close>

definition sample_open :: gate where
  "sample_open = (case gate_run sample_env [(0, sample_accept)] (fst sample_start) of Inr (g, _) \<Rightarrow> g | Inl _ \<Rightarrow> gate_create)"

lemma sample_open_ok: "gate_ok sample_open"
proof -
  have "case gate_init sample_env (Some sample_parm) gate_create of Inr (r, _) \<Rightarrow> r = 0 | Inl _ \<Rightarrow> False" by code_simp
  then have init: "gate_init sample_env (Some sample_parm) gate_create = Inr (0, fst sample_start, snd sample_start)"
    by (auto simp: sample_start_def split: sum.splits)
  have "gp_max (scan_parm sample_parm) \<le> 2 ^ 30" by code_simp
  then have ok: "gate_ok (fst sample_start)" using gate_init_ok [OF init] by simp
  have "admissible sample_env [(0, sample_accept)] (fst sample_start)" by code_simp
  from gate_run_ok [OF ok this] show ?thesis by (auto simp: sample_open_def)
qed

lemma sample_open_fresh: "fresh_connection sample_open 5 1" "g_header_size sample_open = 4"
    "has_receiver sample_open (g_conn sample_open ! 1)"
  by code_simp+

theorem gate_stream_roundtrip_witness:
  "\<exists>g'. gate_run sample_env (map (\<lambda>p. (0, data_msg 5 p)) [[0, 0], [0, 1, 65, 0], [0, 0, 2, 66], [67]]) sample_open =
     Inr (g', map (frame_act sample_open (g_conn sample_open ! 1)) [[65], [66, 67]]) \<and>
     gate_ok g' \<and> fresh_connection g' 5 1"
proof (rule gate_stream_roundtrip [OF sample_open_ok sample_open_fresh(1,3)])
  show "\<forall>f \<in> set [[65], [66, 67]]. frame_fits (g_header_size sample_open) f"
    by (simp add: sample_open_fresh frame_fits_def)
  show "concat [[0, 0], [0, 1, 65, 0], [0, 0, 2, 66], [67]] = encode_frames (g_header_size sample_open) [[65], [66, 67]]"
    by (simp add: sample_open_fresh encode_frames_def frame_header_def)
  show "length (concat [[0, 0], [0, 1, 65, 0], [0, 0, 2, 66], [67 :: u8]]) \<le> INT_MAX" by (simp add: INT_MAX_def)
qed

lemma header_negative:
  assumes "128 \<le> unat a"
  shows "header_value [a, b, c, d] < 0"
proof -
  let ?n = "((unat a * 256 + unat b) * 256 + unat c) * 256 + unat d"
  have lt: "unat a < 256" "unat b < 256" "unat c < 256" "unat d < 256" using unsigned_less [of a] unsigned_less [of b] unsigned_less [of c] unsigned_less [of d] by auto
  have n: "2147483648 \<le> ?n" "?n < 4294967296" using assms lt by auto
  have "?n div 2 ^ 31 = 1" using n by (simp add: div_nat_eqI)
  then have "odd (?n div 2 ^ 31)" by (metis odd_one)
  then have "bit ?n 31" by (metis bit_iff_odd)
  then have "bit (int ?n) 31" by (metis bit_of_nat_iff_bit)
  moreover have "sint (word_of_nat ?n :: 32 word) = signed_take_bit 31 (int ?n)"
    by (simp only: signed_of_nat of_int_eq_id id_apply) simp
  ultimately have "sint (word_of_nat ?n :: 32 word) < 0" by (simp only: signed_take_bit_negative_iff)
  then show ?thesis by simp
qed

text \<open>
  A peer can silence its connection for good: with four-byte headers, a first
  byte of 128 or more makes the announced length a negative \<^verbatim>\<open>int\<close>, which the reading
  loop takes for an incomplete frame.  Whatever arrives afterwards is buffered, no
  frame is ever forwarded, and the limit of 16M, which a frame of that length
  exceeds, is not applied: the connection is not closed.
\<close>

theorem negative_header_stuck:
  assumes "gate_ok g" "fresh_connection g i k" "g_header_size g = 4"
    and "concat ps = a # b # c # d # rest" "128 \<le> unat a" "length (concat ps) \<le> INT_MAX"
  shows "\<exists>g'. gate_run E (map (\<lambda>p. (source, data_msg i p)) ps) g = Inr (g', []) \<and> gate_ok g' \<and>
    hashid_lookup (g_hash g') i = Inr (int k) \<and> db_content (c_buffer (g_conn g' ! k)) = rest"
proof -
  have "deframe r 4 0 (concat ps) = ([], Some (header_value [a, b, c, d], rest))" for r
    using header_negative [OF assms(5), of b c d] by (simp add: assms(4) deframe_step)
  from fresh_run [OF assms(1,2,6) this [folded assms(3)], of E source]
  show ?thesis using assms(2) by (auto simp: fresh_connection_def)
qed

theorem negative_header_stuck_witness:
  "\<exists>g'. gate_run sample_env (map (\<lambda>p. (0, data_msg 5 p)) [[128, 0, 0], [0, 65, 66]]) sample_open = Inr (g', []) \<and>
     gate_ok g' \<and> hashid_lookup (g_hash g') 5 = Inr (int 1) \<and> db_content (c_buffer (g_conn g' ! 1)) = [65, 66]"
  by (rule negative_header_stuck [OF sample_open_ok sample_open_fresh(1,2)]) (auto simp: INT_MAX_def)

text \<open>
  Without broker, agent and watchdog (a gate started with the watchdog
  \<^verbatim>\<open>!\<close>) the payload of a complete frame is not taken from the buffer although its
  header is forgotten: the gate goes on reading the payload itself as the next
  header, exactly as if the header in front of it had never been sent.
\<close>

theorem unclaimed_frame_desync:
  assumes "gate_ok g" "fresh_connection g i k" "\<not> has_receiver g (g_conn g ! k)" "frame_fits (g_header_size g) f"
    and "deframe False (g_header_size g) 0 f = (fs, Some s)"
    and "length (frame_header (g_header_size g) (length f) @ f) \<le> INT_MAX"
  shows "\<exists>g'. gate_run E [(source, data_msg i (frame_header (g_header_size g) (length f) @ f))] g = Inr (g', map (frame_act g (g_conn g ! k)) fs) \<and>
    db_header (c_buffer (g_conn g' ! k)) = fst s \<and> db_content (c_buffer (g_conn g' ! k)) = snd s"
proof -
  let ?hs = "g_header_size g"
  have f: "f \<noteq> []" "?hs = 2 \<and> length f < 65536 \<or> ?hs = 4 \<and> length f < 16777216"
    using assms(1,4) by (auto simp: gate_ok_def frame_fits_def split: if_splits)
  note fh = frame_header_value [OF f(2)]
  have "deframe False ?hs 0 (frame_header ?hs (length f) @ f) = deframe False ?hs (int (length f)) f"
    using fh f(2) by (auto simp: deframe_step)
  also have "\<dots> = deframe False ?hs 0 f" using f by (subst deframe_step) (auto simp: MAX_MESSAGE_def)
  finally have "deframe (has_receiver g (g_conn g ! k)) ?hs 0 (concat [frame_header ?hs (length f) @ f]) = (fs, Some s)"
    using assms(3,5) by simp
  from fresh_run [OF assms(1,2) _ this, of E source] assms(6) show ?thesis by auto
qed

text \<open>The same gate without a watchdog.\<close>

lemma sample_mute:
  "gate_ok (sample_open\<lparr>g_watchdog := 0\<rparr>)" "fresh_connection (sample_open\<lparr>g_watchdog := 0\<rparr>) 5 1"
  "\<not> has_receiver (sample_open\<lparr>g_watchdog := 0\<rparr>) (g_conn (sample_open\<lparr>g_watchdog := 0\<rparr>) ! 1)"
proof -
  show "gate_ok (sample_open\<lparr>g_watchdog := 0\<rparr>)"
    using sample_open_ok by (simp add: gate_ok_def conn_ok_def Let_def)
  show "fresh_connection (sample_open\<lparr>g_watchdog := 0\<rparr>) 5 1"
    using sample_open_fresh(1) by (simp add: fresh_connection_def)
  show "\<not> has_receiver (sample_open\<lparr>g_watchdog := 0\<rparr>) (g_conn (sample_open\<lparr>g_watchdog := 0\<rparr>) ! 1)" by code_simp
qed

theorem unclaimed_frame_desync_witness:
  "\<exists>g'. gate_run sample_env [(0, data_msg 5 [0, 0, 0, 5, 0, 0, 0, 9, 1])] (sample_open\<lparr>g_watchdog := 0\<rparr>) =
       Inr (g', []) \<and>
     db_header (c_buffer (g_conn g' ! 1)) = 9 \<and> db_content (c_buffer (g_conn g' ! 1)) = [1]"
proof -
  let ?g = "sample_open\<lparr>g_watchdog := 0\<rparr>"
  have hs: "g_header_size ?g = 4" using sample_open_fresh(2) by simp
  have hd: "frame_header (g_header_size ?g) (length [0, 0, 0, 9, 1 :: u8]) @ [0, 0, 0, 9, 1] = [0, 0, 0, 5, 0, 0, 0, 9, 1]"
    by (simp add: hs frame_header_def)
  have "deframe False (g_header_size ?g) 0 [0, 0, 0, 9, 1] = ([], Some (9, [1]))"
    by (simp add: hs deframe_step)
  from unclaimed_frame_desync [OF sample_mute _ this, of sample_env 0] show ?thesis
    unfolding hd by (simp add: frame_fits_def INT_MAX_def)
qed

end
