(* ===== verification/Stdmap.thy ===== *)
theory Stdmap
  imports Prelude "HOL-Library.List_Lexorder" "HOL-Library.Char_ord"
begin

text \<open>
  \<^verbatim>\<open>std::map\<close> as the game logic uses it: an association list ordered by key, which
  is the order in which a range loop visits it.
\<close>

type_synonym ('k, 'v) std_map = "('k \<times> 'v) list"

definition map_exists :: "('k, 'v) std_map \<Rightarrow> 'k \<Rightarrow> bool" where
  "map_exists m k \<longleftrightarrow> map_of m k \<noteq> None"

text \<open>Reading with \<^verbatim>\<open>m[k]\<close> gives 0 for a key that is not there\<dots>\<close>

definition map_get :: "('k, int) std_map \<Rightarrow> 'k \<Rightarrow> int" where
  "map_get m k = (case map_of m k of None \<Rightarrow> 0 | Some v \<Rightarrow> v)"

fun map_put :: "'k::linorder \<Rightarrow> 'v \<Rightarrow> ('k, 'v) std_map \<Rightarrow> ('k, 'v) std_map" where
  "map_put k v [] = [(k, v)]"
| "map_put k v ((k', v') # m) =
     (if k = k' then (k, v) # m else if k < k' then (k, v) # (k', v') # m else (k', v') # map_put k v m)"

text \<open>\<dots> and inserts it.\<close>

definition map_touch :: "'k::linorder \<Rightarrow> ('k, int) std_map \<Rightarrow> ('k, int) std_map" where
  "map_touch k m = (if map_exists m k then m else map_put k 0 m)"

definition map_erase :: "'k \<Rightarrow> ('k, 'v) std_map \<Rightarrow> ('k, 'v) std_map" where
  "map_erase k m = filter (\<lambda>p. fst p \<noteq> k) m"

definition map_ok :: "('k::linorder, 'v) std_map \<Rightarrow> bool" where
  "map_ok m \<longleftrightarrow> sorted_wrt (<) (map fst m)"

lemma map_of_put [simp]: "map_of (map_put k v m) = (map_of m)(k \<mapsto> v)"
  by (induction k v m rule: map_put.induct) auto

lemma map_get_put [simp]: "map_get (map_put k v m) j = (if j = k then v else map_get m j)"
  by (simp add: map_get_def)

lemma map_get_touch [simp]: "map_get (map_touch k m) j = map_get m j"
  by (auto simp: map_touch_def map_get_def map_exists_def)

lemma map_get_positive: "0 < map_get m k \<Longrightarrow> map_exists m k"
  by (auto simp: map_get_def map_exists_def split: option.splits)

lemma map_keys_put: "fst ` set (map_put k v m) = insert k (fst ` set m)"
  by (induction k v m rule: map_put.induct) auto

lemma map_ok_put: "map_ok m \<Longrightarrow> map_ok (map_put k v m)"
proof (induction k v m rule: map_put.induct)
  case (2 k v k' v' m)
  have tail: "map_ok m" "\<forall>x \<in> fst ` set m. k' < x" using "2.prems" by (auto simp: map_ok_def)
  show ?case
    using 2 tail map_keys_put [of k v m] by (fastforce simp: map_ok_def)
qed (simp add: map_ok_def)

lemma map_ok_touch: "map_ok m \<Longrightarrow> map_ok (map_touch k m)"
  by (simp add: map_touch_def map_ok_put)

lemma map_ok_distinct: "map_ok m \<Longrightarrow> distinct (map fst m)"
  by (simp add: map_ok_def strict_sorted_iff)

lemma map_ok_mem: "map_ok m \<Longrightarrow> (k, v) \<in> set m \<longleftrightarrow> map_of m k = Some v"
  using map_ok_distinct by (metis map_of_eq_Some_iff)

lemma map_ok_get: "map_ok m \<Longrightarrow> (k, v) \<in> set m \<Longrightarrow> map_get m k = v"
  by (simp add: map_ok_mem map_get_def)

end
