(* ===== verification/Majiang.thy ===== *)
theory Majiang
  imports Stdmap
begin

text \<open>
  The rules of the mahjong game (\<^verbatim>\<open>3rd/majiang/majiang.cpp\<close>): whether a hand is
  complete, of which kind it is and what it is worth.

  A tile is a number of two digits, suit (1 to 3) and rank (1 to 9); a hand maps
  tiles to counts.  Counts and sums stay far below the range of \<^verbatim>\<open>int\<close>.
\<close>

section \<open>Data\<close>

type_synonym MJ_PAI = int
type_synonym PAI_MAP = "(MJ_PAI, int) std_map"
type_synonym PG_MAP = "(MJ_PAI, string) std_map"
type_synonym KAI_GUAN = "(string, bool) std_map"
type_synonym MULTI_TYPES = "(string, int) std_map"

text \<open>A set: a pair (type 1), a triplet (2) or a run starting at the tile (3).\<close>

record PaiItem =
  pi_type :: int
  pi_pai_type :: MJ_PAI

record HuPaiData =
  hpd_jiang_num :: int
  hpd_list_pos :: nat
  hpd_list :: "PaiItem list"

record HuPaiInfo =
  hu_type_info :: MULTI_TYPES
  hu_mul :: int
  hu_geng_num :: int

record TingPaiInfo =
  ting_pai :: MJ_PAI
  ting_hu_type_info :: HuPaiInfo

text \<open>
  \<^verbatim>\<open>ensure_pai_list\<close> with the assignment through the reference it returns: the
  list is filled up to the index with unset items, then the item is written.
\<close>

definition unset_item :: PaiItem where
  "unset_item = \<lparr>pi_type = 0, pi_pai_type = 0\<rparr>"

definition ensure_pai_list :: "PaiItem list \<Rightarrow> nat \<Rightarrow> PaiItem \<Rightarrow> PaiItem list" where
  "ensure_pai_list list index item =
     (list @ replicate (index + 1 - length list) unset_item)[index := item]"

definition check_kg :: "KAI_GUAN \<Rightarrow> string \<Rightarrow> bool" where
  "check_kg kg name = (case map_of kg name of None \<Rightarrow> False | Some b \<Rightarrow> b)"

section \<open>Taking a hand apart\<close>

text \<open>The loop to the first tile from \<open>s\<close> on of which the hand has one.\<close>

function next_pai :: "PAI_MAP \<Rightarrow> MJ_PAI \<Rightarrow> MJ_PAI option" where
  "next_pai pai_map s =
     (if s \<le> 39 then
        (if map_exists pai_map s \<and> 0 < map_get pai_map s then Some s else next_pai pai_map (s + 1))
      else None)"
  by pat_completeness auto
termination
  by (relation "measure (\<lambda>(m, s). nat (40 - s))") auto

declare next_pai.simps [simp del]

text \<open>
  The search works on the hand in place: it takes a set away, searches on and puts
  the set back.  The value of a call is the hand, the list of sets and the list of
  results it leaves behind.  Every one of the three attempts may leave the function
  early, which the flag in front of its result says.
\<close>

type_synonym nor_state = "PAI_MAP \<times> PaiItem list \<times> HuPaiData list"

definition after_take :: "PAI_MAP \<Rightarrow> MJ_PAI \<Rightarrow> MJ_PAI" where
  "after_take pai_map s = (if map_get pai_map s = 0 then s + 1 else s)"

definition is_run :: "PAI_MAP \<Rightarrow> MJ_PAI \<Rightarrow> bool" where
  "is_run pai_map s \<longleftrightarrow>
     s + 2 \<le> 39 \<and> map_exists pai_map s \<and> map_get pai_map (s + 1) \<noteq> 0 \<and> map_exists pai_map (s + 2) \<and>
     0 < map_get pai_map (s + 1) \<and> 0 < map_get pai_map (s + 2)"

definition add_run :: "int \<Rightarrow> MJ_PAI \<Rightarrow> PAI_MAP \<Rightarrow> PAI_MAP" where
  "add_run d s pai_map =
     (let m = map_put s (map_get pai_map s + d) pai_map;
          m = map_put (s + 1) (map_get m (s + 1) + d) m
      in map_put (s + 2) (map_get m (s + 2) + d) m)"

definition add_same :: "int \<Rightarrow> MJ_PAI \<Rightarrow> PAI_MAP \<Rightarrow> PAI_MAP" where
  "add_same d s pai_map = map_put s (map_get pai_map s + d) pai_map"

definition finished :: "int \<Rightarrow> nat \<Rightarrow> PaiItem list \<Rightarrow> HuPaiData" where
  "finished jiang_num list_pos list = \<lparr>hpd_jiang_num = jiang_num, hpd_list_pos = list_pos, hpd_list = list\<rparr>"

partial_function (option) compute_nor_hupai_info ::
  "PAI_MAP \<Rightarrow> MJ_PAI \<Rightarrow> int \<Rightarrow> int \<Rightarrow> PaiItem list \<Rightarrow> nat \<Rightarrow> HuPaiData list \<Rightarrow> nor_state option" where
  "compute_nor_hupai_info pai_map s0 all_num jiang_num list list_pos info =
     (case next_pai pai_map s0 of
        None \<Rightarrow> Some (pai_map, list, info)
      | Some s \<Rightarrow>
          Option.bind
            (if 2 < map_get pai_map s then
               let list = ensure_pai_list list list_pos \<lparr>pi_type = 2, pi_pai_type = s\<rparr> in
               if all_num - 3 = 0 then
                 Some (True, pai_map, list, if jiang_num = 1 then info @ [finished jiang_num list_pos list] else info)
               else
                 let m = add_same (- 3) s pai_map in
                 Option.bind (compute_nor_hupai_info m (after_take m s) (all_num - 3) jiang_num list (list_pos + 1) info)
                   (\<lambda>(m, list, info). Some (False, add_same 3 s m, list, info))
             else Some (False, pai_map, list, info))
          (\<lambda>(ret, pai_map, list, info). if ret then Some (pai_map, list, info) else
          Option.bind
            (let pai_map = (if s + 2 \<le> 39 \<and> map_exists pai_map s then map_touch (s + 1) pai_map else pai_map) in
             if is_run pai_map s then
               let list = ensure_pai_list list list_pos \<lparr>pi_type = 3, pi_pai_type = s\<rparr> in
               if all_num - 3 = 0 then
                 Some (True, pai_map, list, if jiang_num = 1 then info @ [finished jiang_num list_pos list] else info)
               else
                 let m = add_run (- 1) s pai_map in
                 Option.bind (compute_nor_hupai_info m (after_take m s) (all_num - 3) jiang_num list (list_pos + 1) info)
                   (\<lambda>(m, list, info). Some (False, add_run 1 s m, list, info))
             else Some (False, pai_map, list, info))
          (\<lambda>(ret, pai_map, list, info). if ret then Some (pai_map, list, info) else
          if map_exists pai_map s \<and> 1 < map_get pai_map s \<and> jiang_num = 0 then
            let list = ensure_pai_list list list_pos \<lparr>pi_type = 1, pi_pai_type = s\<rparr> in
            if all_num - 2 = 0 then Some (pai_map, list, info @ [finished jiang_num list_pos list])
            else
              let m = add_same (- 2) s pai_map in
              Option.bind (compute_nor_hupai_info m (after_take m s) (all_num - 2) (jiang_num + 1) list (list_pos + 1) info)
                (\<lambda>(m, list, info). Some (add_same 2 s m, list, info))
          else Some (pai_map, list, info))))"

declare compute_nor_hupai_info.simps [code]

section \<open>Kinds of complete hands\<close>

definition rank :: "MJ_PAI \<Rightarrow> int" where
  "rank pai = c_rem pai 10"

definition get_geng_num :: "PAI_MAP \<Rightarrow> PG_MAP \<Rightarrow> int" where
  "get_geng_num pai_map pg_map =
     sum_list (map (\<lambda>(pai, n). if n = 4 then 1 else if n = 1 \<and> map_of pg_map pai = Some ''peng'' then 1 else 0) pai_map) +
     sum_list (map (\<lambda>(pai, pg). if pg = ''wg'' \<or> pg = ''zg'' \<or> pg = ''ag'' then 1 else 0) pg_map)"

definition check_is_daduizi :: "PaiItem list \<Rightarrow> KAI_GUAN \<Rightarrow> bool" where
  "check_is_daduizi list kaiguan \<longleftrightarrow>
     check_kg kaiguan ''da_dui_zi'' \<and> list_all (\<lambda>v. pi_type v = 1 \<or> pi_type v = 2) list"

definition is_258 :: "MJ_PAI \<Rightarrow> bool" where
  "is_258 pai \<longleftrightarrow> rank pai = 2 \<or> rank pai = 5 \<or> rank pai = 8"

definition check_is_jiangdui :: "PaiItem list \<Rightarrow> PAI_MAP \<Rightarrow> PG_MAP \<Rightarrow> KAI_GUAN \<Rightarrow> bool" where
  "check_is_jiangdui list pai_map pg_map kaiguan \<longleftrightarrow>
     check_kg kaiguan ''jiang_dui'' \<and> list_all (\<lambda>v. pi_type v = 1 \<or> pi_type v = 2) list \<and>
     list_all (\<lambda>(pai, n). 0 < n \<longrightarrow> is_258 pai) pai_map \<and> list_all (\<lambda>(pai, _). is_258 pai) pg_map"

definition check_is_yaojiu :: "PaiItem list \<Rightarrow> PG_MAP \<Rightarrow> KAI_GUAN \<Rightarrow> bool" where
  "check_is_yaojiu list pg_map kaiguan \<longleftrightarrow>
     check_kg kaiguan ''yao_jiu'' \<and>
     list_all (\<lambda>v. let p = rank (pi_pai_type v) in if pi_type v = 3 then p = 1 \<or> p = 7 else p = 1 \<or> p = 9) list \<and>
     list_all (\<lambda>(pai, _). rank pai = 1 \<or> rank pai = 9) pg_map"

definition check_7d_hupai_info :: "PAI_MAP \<Rightarrow> int \<Rightarrow> KAI_GUAN \<Rightarrow> int \<Rightarrow> bool" where
  "check_7d_hupai_info pai_map all_num kaiguan maxShouPaiNum \<longleftrightarrow>
     check_kg kaiguan ''qi_dui'' \<and> all_num = maxShouPaiNum \<and>
     list_all (\<lambda>(_, n). \<not> (0 < n \<and> n \<noteq> 2 \<and> n \<noteq> 4)) pai_map"

definition check_is_menqing :: "PG_MAP \<Rightarrow> KAI_GUAN \<Rightarrow> bool" where
  "check_is_menqing pg_map kaiguan \<longleftrightarrow>
     check_kg kaiguan ''men_qing'' \<and> list_all (\<lambda>(_, pg). pg = ''ag'') pg_map"

definition check_is_zhongzhang :: "PAI_MAP \<Rightarrow> PG_MAP \<Rightarrow> KAI_GUAN \<Rightarrow> bool" where
  "check_is_zhongzhang pai_map pg_map kaiguan \<longleftrightarrow>
     check_kg kaiguan ''zhong_zhang'' \<and>
     list_all (\<lambda>(pai, n). 0 < n \<longrightarrow> \<not> (rank pai = 1 \<or> rank pai = 9)) pai_map \<and>
     list_all (\<lambda>(pai, _). \<not> (rank pai = 1 \<or> rank pai = 9)) pg_map"

fun count_two :: "(MJ_PAI \<times> int) list \<Rightarrow> int \<Rightarrow> bool" where
  "count_two [] count \<longleftrightarrow> count = 2"
| "count_two ((_, n) # m) count \<longleftrightarrow> (if 2 < count + n then False else count_two m (count + n))"

definition check_is_jingoudiao :: "PAI_MAP \<Rightarrow> KAI_GUAN \<Rightarrow> bool" where
  "check_is_jingoudiao pai_map kaiguan \<longleftrightarrow> check_kg kaiguan ''jin_gou_diao'' \<and> count_two pai_map 0"

text \<open>The best kind over the ways to take the hand apart: 1 plain, 2 triplets, 4 ends, 5 ranks 2, 5, 8.\<close>

definition better_type :: "PAI_MAP \<Rightarrow> PG_MAP \<Rightarrow> KAI_GUAN \<Rightarrow> HuPaiData \<Rightarrow> int \<Rightarrow> int" where
  "better_type pai_map pg_map kaiguan hpd t =
     (let t = (if t < 2 \<and> check_is_daduizi (hpd_list hpd) kaiguan then 2 else t);
          t = (if t < 5 \<and> check_is_jiangdui (hpd_list hpd) pai_map pg_map kaiguan then 5 else t)
      in if t < 4 \<and> check_is_yaojiu (hpd_list hpd) pg_map kaiguan then 4 else t)"

definition hupai_type :: "PAI_MAP \<Rightarrow> PG_MAP \<Rightarrow> int \<Rightarrow> KAI_GUAN \<Rightarrow> int \<Rightarrow> HuPaiData list \<Rightarrow> int" where
  "hupai_type pai_map pg_map all_num kaiguan maxShouPaiNum info =
     (let t = (if info = [] then 0 else fold (better_type pai_map pg_map kaiguan) info 1)
      in if check_7d_hupai_info pai_map all_num kaiguan maxShouPaiNum \<and> t < 3 then 3 else t)"

text \<open>
  \<^verbatim>\<open>res["..."]=multi_types["..."]\<close>; a kind missing in \<^verbatim>\<open>multi_types\<close> counts 0 (and is
  entered there with 0, which later readings give as well).
\<close>

definition set_type :: "string \<Rightarrow> MULTI_TYPES \<Rightarrow> MULTI_TYPES \<Rightarrow> MULTI_TYPES" where
  "set_type name multi_types res = map_put name (map_get multi_types name) res"

definition hupai_value ::
  "PAI_MAP \<Rightarrow> PG_MAP \<Rightarrow> int \<Rightarrow> KAI_GUAN \<Rightarrow> MULTI_TYPES \<Rightarrow> int \<Rightarrow> HuPaiInfo \<Rightarrow> HuPaiInfo" where
  "hupai_value pai_map pg_map huaSe_count kaiguan multi_types t out =
     (let geng = get_geng_num pai_map pg_map;
          res = hu_type_info out;
          (geng, res) =
            (if t = 3 then
               (if 0 < geng then (geng - 1, set_type ''long_qi_dui'' multi_types res)
                else (geng, set_type ''qi_dui'' multi_types res))
             else if t = 2 then (geng, set_type ''da_dui_zi'' multi_types res)
             else if t = 5 then (geng, set_type ''jiang_dui'' multi_types res)
             else if t = 4 then (geng, set_type ''yao_jiu'' multi_types res)
             else (geng, res));
          res = (if 0 < geng then map_put ''dai_geng'' geng res else res);
          res = (if huaSe_count = 1 \<and> check_kg kaiguan ''qing_yi_se'' then set_type ''qing_yi_se'' multi_types res else res);
          res = (if check_is_zhongzhang pai_map pg_map kaiguan then set_type ''zhong_zhang'' multi_types res else res);
          res = (if check_is_menqing pg_map kaiguan then set_type ''men_qing'' multi_types res else res);
          res = (if check_is_jingoudiao pai_map kaiguan then set_type ''jin_gou_diao'' multi_types res else res)
      in \<lparr>hu_type_info = res, hu_mul = hu_mul out + sum_list (map snd res), hu_geng_num = geng\<rparr>)"

definition compute_hupai_info ::
  "PAI_MAP \<Rightarrow> PG_MAP \<Rightarrow> int \<Rightarrow> int \<Rightarrow> KAI_GUAN \<Rightarrow> MULTI_TYPES \<Rightarrow> int \<Rightarrow> HuPaiInfo \<Rightarrow> (bool \<times> HuPaiInfo) option" where
  "compute_hupai_info pai_map pg_map all_num huaSe_count kaiguan multi_types maxShouPaiNum out =
     (let out = out\<lparr>hu_mul := 0, hu_geng_num := 0\<rparr> in
      Option.bind (compute_nor_hupai_info pai_map 11 all_num 0 [] 0 []) (\<lambda>(_, _, info).
      let t = hupai_type pai_map pg_map all_num kaiguan maxShouPaiNum info in
      Some (if t \<noteq> 0 then (True, hupai_value pai_map pg_map huaSe_count kaiguan multi_types t out) else (False, out))))"

section \<open>The functions called by the game\<close>

definition suit :: "MJ_PAI \<Rightarrow> int" where
  "suit pai = c_quot pai 10"

type_synonym hua_se = "(int, int) std_map"

definition tongji_pai_info :: "PAI_MAP \<Rightarrow> hua_se \<Rightarrow> int \<times> hua_se" where
  "tongji_pai_info pai_map huaSe =
     fold (\<lambda>(pai, n) (count, h). if 0 < n then (count + n, map_put (suit pai) 1 h) else (count, h)) pai_map (0, huaSe)"

definition tongji_penggang_info :: "PG_MAP \<Rightarrow> hua_se \<Rightarrow> int \<times> hua_se" where
  "tongji_penggang_info pg_map huaSe =
     fold (\<lambda>(pai, _) (count, h). (count + 3, map_put (suit pai) 1 h)) pg_map (0, huaSe)"

definition hua_se_map :: hua_se where
  "hua_se_map = [(1, 0), (2, 0), (3, 0)]"

definition hand_suits :: "PAI_MAP \<Rightarrow> PG_MAP \<Rightarrow> int \<times> int \<times> hua_se" where
  "hand_suits pai_map pg_map =
     (case tongji_pai_info pai_map hua_se_map of (count1, h) \<Rightarrow>
      case tongji_penggang_info pg_map h of (count2, h) \<Rightarrow> (count1, count2, h))"

text \<open>The tests in front of both functions: the number of tiles, at most two suits, not the suit given up.\<close>

definition hand_rejected :: "int \<Rightarrow> MJ_PAI \<Rightarrow> int \<times> int \<times> hua_se \<Rightarrow> bool" where
  "hand_rejected maxShouPaiNum must_que s =
     (case s of (count1, count2, h) \<Rightarrow>
        count1 + count2 \<noteq> maxShouPaiNum \<or> 2 < map_get h 1 + map_get h 2 + map_get h 3 \<or>
        must_que \<noteq> 0 \<and> map_get h must_que \<noteq> 0 \<and> 0 < map_get h must_que)"

definition get_hupai_info ::
  "PAI_MAP \<Rightarrow> PG_MAP \<Rightarrow> MJ_PAI \<Rightarrow> KAI_GUAN \<Rightarrow> MULTI_TYPES \<Rightarrow> int \<Rightarrow> HuPaiInfo \<Rightarrow> (bool \<times> HuPaiInfo) option" where
  "get_hupai_info pai_map pg_map must_que kaiguan multi_types maxShouPaiNum out =
     (let s = hand_suits pai_map pg_map in
      if hand_rejected maxShouPaiNum must_que s then Some (False, out)
      else
        case s of (count1, _, h) \<Rightarrow>
          compute_hupai_info pai_map pg_map count1 (map_get h 1 + map_get h 2 + map_get h 3) kaiguan multi_types
            maxShouPaiNum out)"

definition check_have_lianzi :: "PAI_MAP \<Rightarrow> MJ_PAI \<Rightarrow> bool" where
  "check_have_lianzi pm s \<longleftrightarrow>
     s + 2 < 40 \<and> 0 < map_get pm s \<and> 0 < map_get pm (s + 1) \<and> 0 < map_get pm (s + 2) \<or>
     10 < s - 1 \<and> s + 1 < 40 \<and> 0 < map_get pm s \<and> 0 < map_get pm (s + 1) \<and> 0 < map_get pm (s - 1) \<or>
     10 < s - 2 \<and> 0 < map_get pm s \<and> 0 < map_get pm (s - 1) \<and> 0 < map_get pm (s - 2)"

definition new_hupai_info :: HuPaiInfo where
  "new_hupai_info = \<lparr>hu_type_info = [], hu_mul = 0, hu_geng_num = 0\<rparr>"

text \<open>
  One round of the loop over the tiles.  In C++ \<^verbatim>\<open>x or 0\<close> is a truth value, so the
  count of the tile becomes 0 or 1 before one is added; and the hand that is judged
  is the new variable \<^verbatim>\<open>pai_map_copy_tmp\<close>, which is empty.  The keys that reading
  with \<^verbatim>\<open>[]\<close> enters have the count 0 and change nothing here.
\<close>

definition ting_round ::
  "PG_MAP \<Rightarrow> int \<Rightarrow> KAI_GUAN \<Rightarrow> MULTI_TYPES \<Rightarrow> int \<Rightarrow> MJ_PAI \<Rightarrow> PAI_MAP \<times> TingPaiInfo list \<Rightarrow> (PAI_MAP \<times> TingPaiInfo list) option" where
  "ting_round pg_map huaSe_count kaiguan multi_types maxShouPaiNum s st =
     (case st of (copy, out) \<Rightarrow>
      if c_rem s 10 \<noteq> 0 then
        let copy = map_put s (if map_get copy s \<noteq> 0 then 1 else 0) copy;
            copy = map_put s (map_get copy s + 1) copy in
        Option.bind
          (if 1 < map_get copy s \<or> check_have_lianzi copy s then
             Option.bind
               (compute_hupai_info [] pg_map (fst (tongji_pai_info copy [])) huaSe_count kaiguan multi_types
                 maxShouPaiNum new_hupai_info)
               (\<lambda>(hu, h). Some (if hu then out @ [\<lparr>ting_pai = s, ting_hu_type_info = h\<rparr>] else out))
           else Some out)
          (\<lambda>out. let copy = map_put s (map_get copy s - 1) copy in
             Some (if map_get copy s = 0 then map_erase s copy else copy, out))
      else Some (copy, out))"

fun ting_loop ::
  "PG_MAP \<Rightarrow> int \<Rightarrow> KAI_GUAN \<Rightarrow> MULTI_TYPES \<Rightarrow> int \<Rightarrow> MJ_PAI list \<Rightarrow> PAI_MAP \<times> TingPaiInfo list \<Rightarrow> (PAI_MAP \<times> TingPaiInfo list) option" where
  "ting_loop pg_map huaSe_count kaiguan multi_types maxShouPaiNum [] st = Some st"
| "ting_loop pg_map huaSe_count kaiguan multi_types maxShouPaiNum (s # ss) st =
     Option.bind (ting_round pg_map huaSe_count kaiguan multi_types maxShouPaiNum s st)
       (ting_loop pg_map huaSe_count kaiguan multi_types maxShouPaiNum ss)"

definition get_ting_info ::
  "PAI_MAP \<Rightarrow> PG_MAP \<Rightarrow> MJ_PAI \<Rightarrow> KAI_GUAN \<Rightarrow> MULTI_TYPES \<Rightarrow> int \<Rightarrow> TingPaiInfo list \<Rightarrow> (bool \<times> TingPaiInfo list) option" where
  "get_ting_info pai_map pg_map must_que kaiguan multi_types maxShouPaiNum out =
     (let s = hand_suits pai_map pg_map in
      if hand_rejected maxShouPaiNum must_que s then Some (False, out)
      else
        case s of (_, _, h) \<Rightarrow>
          Option.bind
            (ting_loop pg_map (map_get h 1 + map_get h 2 + map_get h 3) kaiguan multi_types maxShouPaiNum [11..39] (pai_map, out))
            (\<lambda>(_, out). Some (True, out)))"

end
