(* ===== verification/Majiang_Hands.thy ===== *)
theory Majiang_Hands
  imports Majiang "HOL-Library.Multiset"
begin

text \<open>
  What a complete hand is, as a multiset of sets, and the proof that the search of
  \<^verbatim>\<open>compute_nor_hupai_info\<close> finds exactly the ways to take a hand apart.
\<close>

section \<open>Decompositions\<close>

definition item_count :: "PaiItem \<Rightarrow> MJ_PAI \<Rightarrow> int" where
  "item_count v t =
     (if pi_type v = 1 then (if t = pi_pai_type v then 2 else 0)
      else if pi_type v = 2 then (if t = pi_pai_type v then 3 else 0)
      else if pi_pai_type v \<le> t \<and> t \<le> pi_pai_type v + 2 then 1 else 0)"

definition item_ok :: "PaiItem \<Rightarrow> bool" where
  "item_ok v \<longleftrightarrow> pi_type v = 1 \<or> pi_type v = 2 \<or> pi_type v = 3"

text \<open>\<open>D\<close> uses up the hand \<open>f\<close> and has \<open>j\<close> pairs.\<close>

definition splits :: "PaiItem multiset \<Rightarrow> (MJ_PAI \<Rightarrow> int) \<Rightarrow> nat \<Rightarrow> bool" where
  "splits D f j \<longleftrightarrow>
     (\<forall>v \<in># D. item_ok v) \<and> (\<forall>t. (\<Sum>v \<in># D. item_count v t) = f t) \<and>
     size (filter_mset (\<lambda>v. pi_type v = 1) D) = j"

text \<open>A complete hand: sets of three and one pair.\<close>

definition complete_hand :: "(MJ_PAI \<Rightarrow> int) \<Rightarrow> PaiItem multiset \<Rightarrow> bool" where
  "complete_hand f D \<longleftrightarrow> splits D f 1"

abbreviation pairs_of :: "PaiItem \<Rightarrow> nat" where
  "pairs_of v \<equiv> (if pi_type v = 1 then 1 else 0)"

lemma item_count_nonneg [simp]: "0 \<le> item_count v t"
  by (simp add: item_count_def)

lemma splits_add:
  "item_ok v \<Longrightarrow> splits (add_mset v D) f (j + pairs_of v) \<longleftrightarrow> splits D (\<lambda>t. f t - item_count v t) j"
  by (auto simp: splits_def algebra_simps)

lemma splits_remove:
  assumes "splits D f j" "v \<in># D"
  shows "splits (D - {#v#}) (\<lambda>t. f t - item_count v t) (j - pairs_of v)" "pairs_of v \<le> j"
proof -
  obtain E where D: "D = add_mset v E" using assms(2) by (metis mset_add)
  have v: "item_ok v" using assms by (auto simp: splits_def)
  show le: "pairs_of v \<le> j" using assms(1) D by (auto simp: splits_def)
  then have "splits (add_mset v E) f ((j - pairs_of v) + pairs_of v)" using assms(1) D by simp
  then show "splits (D - {#v#}) (\<lambda>t. f t - item_count v t) (j - pairs_of v)"
    using splits_add [OF v] D by simp
qed

lemma splits_le:
  assumes "splits D f j" "v \<in># D"
  shows "item_count v t \<le> f t"
proof -
  obtain E where D: "D = add_mset v E" using assms(2) by (metis mset_add)
  have "0 \<le> (\<Sum>v \<in># E. item_count v t)" by (induction E) auto
  then show ?thesis using assms(1) D by (auto simp: splits_def dest!: spec [of _ t])
qed

lemma splits_empty: "splits {#} f j \<longleftrightarrow> f = (\<lambda>_. 0) \<and> j = 0"
  by (auto simp: splits_def)

text \<open>The number of tiles tells the number of sets.\<close>

definition tiles :: "(MJ_PAI \<Rightarrow> int) \<Rightarrow> int" where
  "tiles f = (\<Sum>t \<in> {11..39}. f t)"

definition in_range :: "MJ_PAI \<Rightarrow> (MJ_PAI \<Rightarrow> int) \<Rightarrow> bool" where
  "in_range s f \<longleftrightarrow> 11 \<le> s \<and> (\<forall>t. 0 \<le> f t) \<and> (\<forall>t. f t \<noteq> 0 \<longrightarrow> s \<le> t \<and> t \<le> 39)"

lemma in_rangeD:
  "in_range s f \<Longrightarrow> f t \<noteq> 0 \<Longrightarrow> 11 \<le> t \<and> s \<le> t \<and> t \<le> 39" "in_range s f \<Longrightarrow> 0 \<le> f t"
  unfolding in_range_def by (meson order_trans)+

lemma item_sum:
  assumes "item_ok v" "finite A" "\<And>t. item_count v t \<noteq> 0 \<Longrightarrow> t \<in> A"
  shows "(\<Sum>t \<in> A. item_count v t) = 3 - int (pairs_of v)"
proof -
  let ?p = "pi_pai_type v"
  show ?thesis
  proof (cases "pi_type v = 3")
    case True
    then have c: "item_count v t = (if ?p \<le> t \<and> t \<le> ?p + 2 then 1 else 0)" for t
      by (simp add: item_count_def)
    have "{?p, ?p + 1, ?p + 2} \<subseteq> A" using assms(3) by (auto simp: c)
    then have "(\<Sum>t \<in> A. item_count v t) = (\<Sum>t \<in> {?p, ?p + 1, ?p + 2}. item_count v t)"
      using assms(2) by (intro sum.mono_neutral_right) (auto simp: c)
    then have "(\<Sum>t \<in> A. item_count v t) = 3" by (simp add: c)
    then show ?thesis using True by simp
  next
    case False
    then have c: "item_count v = (\<lambda>t. if t = ?p then 3 - int (pairs_of v) else 0)"
      using assms(1) by (auto simp: item_count_def item_ok_def fun_eq_iff)
    moreover have "?p \<in> A" using assms(3) [of ?p] False by (simp add: c)
    ultimately show ?thesis using assms(2) by simp
  qed
qed

lemma tiles_item:
  assumes "item_ok v" "\<And>t. item_count v t \<noteq> 0 \<Longrightarrow> 11 \<le> t \<and> t \<le> 39"
  shows "tiles (item_count v) = 3 - int (pairs_of v)"
  unfolding tiles_def by (rule item_sum [OF assms(1)]) (use assms(2) in auto)

lemma tiles_splits:
  "splits D f j \<Longrightarrow> in_range s f \<Longrightarrow> tiles f = 3 * int (size D) - int j"
proof (induction D arbitrary: f j)
  case empty
  then show ?case by (simp add: splits_empty tiles_def)
next
  case (add v D)
  let ?f = "\<lambda>t. f t - item_count v t"
  have v: "item_ok v" using add.prems(1) by (simp add: splits_def)
  have le: "item_count v t \<le> f t" for t using splits_le [OF add.prems(1)] by simp
  have sp: "splits D ?f (j - pairs_of v)" "pairs_of v \<le> j" using splits_remove [OF add.prems(1), of v] by auto
  have r: "in_range s ?f"
    using add.prems(2) le item_count_nonneg [of v] unfolding in_range_def by (metis diff_ge_0_iff_ge diff_self order_antisym)
  have "item_count v t \<noteq> 0 \<Longrightarrow> 11 \<le> t \<and> t \<le> 39" for t
    using in_rangeD(1) [OF add.prems(2), of t] le [of t] item_count_nonneg [of v t] by linarith
  then have "tiles (item_count v) = 3 - int (pairs_of v)" using tiles_item [OF v] by blast
  moreover have "tiles f = tiles ?f + tiles (item_count v)" by (simp add: tiles_def sum_subtractf)
  ultimately show ?case using add.IH [OF sp(1) r] sp(2) by (auto simp: of_nat_diff)
qed

lemma tiles_positive:
  assumes "in_range s f" "0 < tiles f"
  shows "\<exists>t. s \<le> t \<and> t \<le> 39 \<and> 0 < f t"
proof (rule ccontr)
  assume "\<not> ?thesis"
  then have "f t = 0" for t using assms(1) by (metis in_range_def order_le_less)
  then show False using assms(2) by (simp add: tiles_def)
qed

lemma next_pai_first:
  assumes "in_range s f" "map_get m = f" "0 < tiles f"
  shows "\<exists>p. next_pai m s = Some p \<and> 0 < f p \<and> in_range p f"
  using assms
proof (induction "nat (40 - s)" arbitrary: s)
  case 0
  then show ?case using tiles_positive [of s f] by auto
next
  case (Suc n)
  obtain t where t: "s \<le> t" "t \<le> 39" "0 < f t" using tiles_positive [OF Suc.prems(1,3)] by blast
  show ?case
  proof (cases "0 < f s")
    case True
    then show ?thesis using t Suc.prems map_get_positive [of m s] by (subst next_pai.simps) auto
  next
    case False
    then have z: "f s = 0" using in_rangeD(2) [OF Suc.prems(1), of s] by simp
    have "s + 1 \<le> u" if "f u \<noteq> 0" for u
      using in_rangeD(1) [OF Suc.prems(1) that] that z by (cases "u = s") auto
    then have "in_range (s + 1) f" using Suc.prems(1) by (simp add: in_range_def)
    moreover have "next_pai m s = next_pai m (s + 1)" using t z Suc.prems(2) by (subst next_pai.simps) auto
    ultimately show ?thesis using Suc.hyps(1) [of "s + 1"] Suc.hyps(2) Suc.prems by auto
  qed
qed

section \<open>The search\<close>

text \<open>
  Only with these numbers of tiles can the search finish; then the list never has
  more items than the final decomposition, so that no item of an earlier attempt
  is left behind it.
\<close>

definition fits :: "int \<Rightarrow> int \<Rightarrow> bool" where
  "fits all_num jn \<longleftrightarrow> jn = 0 \<and> all_num mod 3 = 2 \<or> jn = 1 \<and> all_num mod 3 = 0"

definition items_left :: "int \<Rightarrow> nat" where
  "items_left all_num = nat ((all_num + 2) div 3)"

definition list_inv :: "PaiItem list \<Rightarrow> int \<Rightarrow> int \<Rightarrow> PaiItem list \<Rightarrow> bool" where
  "list_inv P all_num jn list \<longleftrightarrow>
     (\<exists>R. list = P @ R \<and> (fits all_num jn \<longrightarrow> length R \<le> items_left all_num))"

definition found :: "PaiItem list \<Rightarrow> (MJ_PAI \<Rightarrow> int) \<Rightarrow> nat \<Rightarrow> HuPaiData list \<Rightarrow> bool" where
  "found P f j new \<longleftrightarrow> (\<forall>h \<in> set new. \<exists>L. hpd_list h = P @ L \<and> splits (mset L) f j)"

definition covers :: "PaiItem list \<Rightarrow> HuPaiData list \<Rightarrow> PaiItem multiset \<Rightarrow> bool" where
  "covers P new D \<longleftrightarrow> (\<exists>h \<in> set new. \<exists>L. hpd_list h = P @ L \<and> mset L = D)"

lemma ensure_at_end:
  "ensure_pai_list (P @ R) (length P) v = P @ v # drop 1 R"
  by (cases R) (simp_all add: ensure_pai_list_def)

lemma list_inv_put:
  assumes "list_inv P a jn list" "0 < items_left a"
  shows "list_inv P a jn (ensure_pai_list list (length P) v)"
proof -
  obtain R where R: "list = P @ R" "fits a jn \<longrightarrow> length R \<le> items_left a" using assms(1) by (auto simp: list_inv_def)
  then have "fits a jn \<longrightarrow> Suc (length R - 1) \<le> items_left a" using assms(2) by (cases R) auto
  then show ?thesis using R(1) by (simp add: list_inv_def ensure_at_end)
qed

lemma fits_step: "fits (a - 3) jn = fits a jn" "fits (a - 2) 1 \<longleftrightarrow> fits a 0"
  unfolding fits_def by presburger+

lemma items_step:
  "items_left (a - 3) = items_left a - 1"
  "fits a 0 \<Longrightarrow> items_left (a - 2) = items_left a - 1"
proof -
  have "(a - 3 + 2) div 3 = (a + 2) div 3 - 1" by presburger
  then show "items_left (a - 3) = items_left a - 1" by (simp add: items_left_def nat_diff_distrib')
  assume "fits a 0"
  then have "(a - 2 + 2) div 3 = (a + 2) div 3 - 1" unfolding fits_def by presburger
  then show "items_left (a - 2) = items_left a - 1" by (simp add: items_left_def nat_diff_distrib')
qed

lemma items_positive: "0 < a \<Longrightarrow> 0 < items_left a"
  by (simp add: items_left_def pos_imp_zdiv_pos_iff)

text \<open>Entering the recursion after taking \<open>v\<close>, and leaving it.\<close>

definition take_step :: "int \<Rightarrow> int \<Rightarrow> int \<Rightarrow> int \<Rightarrow> bool" where
  "take_step a jn a' jn' \<longleftrightarrow> (fits a' jn' \<longleftrightarrow> fits a jn) \<and> (fits a jn \<longrightarrow> items_left a' = items_left a - 1)"

lemma take_step_simps [simp]: "take_step a jn (a - 3) jn" "take_step a 0 (a - 2) 1"
  by (simp_all add: take_step_def fits_step items_step)

lemma list_inv_enter:
  assumes "list_inv P a jn list" "take_step a jn a' jn'"
  shows "list_inv (P @ [v]) a' jn' (ensure_pai_list list (length P) v)"
proof -
  obtain R where R: "list = P @ R" "fits a jn \<longrightarrow> length R \<le> items_left a" using assms(1) by (auto simp: list_inv_def)
  then have "fits a' jn' \<longrightarrow> length (drop 1 R) \<le> items_left a'" using assms(2) by (auto simp: take_step_def)
  then show ?thesis using R(1) by (simp add: list_inv_def ensure_at_end)
qed

lemma list_inv_leave:
  assumes "list_inv (P @ [v]) a' jn' list" "take_step a jn a' jn'" "0 < a"
  shows "list_inv P a jn list"
  using assms items_positive [OF assms(3)] by (auto simp: list_inv_def take_step_def)

text \<open>Taking the last set.\<close>

lemma list_inv_last:
  assumes "list_inv P a jn list" "fits a jn" "items_left a = 1"
  shows "ensure_pai_list list (length P) v = P @ [v]"
  using assms by (auto simp: list_inv_def ensure_at_end)

text \<open>The sets the search takes at the lowest tile \<open>s\<close>.\<close>

definition item :: "int \<Rightarrow> MJ_PAI \<Rightarrow> PaiItem" where
  "item ty s = \<lparr>pi_type = ty, pi_pai_type = s\<rparr>"

lemma item_sel [simp]: "pi_type (item ty s) = ty" "pi_pai_type (item ty s) = s"
  by (simp_all add: item_def)

lemma lowest_item:
  assumes sp: "splits D f j" and r: "in_range s f" and s: "0 < f s"
  obtains v where "v \<in># D" "v = item 1 s \<or> v = item 2 s \<or> v = item 3 s"
proof -
  have "\<exists>v \<in># D. item_count v s \<noteq> 0"
  proof (rule ccontr)
    assume "\<not> ?thesis"
    then have "(\<Sum>v \<in># D. item_count v s) = 0" by (induction D) auto
    then show False using sp s by (auto simp: splits_def)
  qed
  then obtain v where v: "v \<in># D" "item_count v s \<noteq> 0" by blast
  have ok: "item_ok v" using sp v(1) by (simp add: splits_def)
  have "pi_pai_type v \<le> s" using v(2) ok by (auto simp: item_count_def split: if_splits)
  moreover have "item_count v (pi_pai_type v) \<noteq> 0" by (simp add: item_count_def)
  then have "f (pi_pai_type v) \<noteq> 0" using splits_le [OF sp v(1), of "pi_pai_type v"] item_count_nonneg [of v "pi_pai_type v"] by linarith
  then have "s \<le> pi_pai_type v" using in_rangeD(1) [OF r] by blast
  ultimately have "v = item (pi_type v) s" by (simp add: item_def)
  then show ?thesis using that v(1) ok unfolding item_ok_def by metis
qed

lemma in_range_take:
  assumes "in_range s f" "\<And>t. item_count v t \<le> f t" "s' = (if f s - item_count v s = 0 then s + 1 else s)"
  shows "in_range s' (\<lambda>t. f t - item_count v t)"
  unfolding in_range_def
proof (intro conjI allI impI)
  show "11 \<le> s'" using assms(1,3) by (simp add: in_range_def)
  fix t
  show "0 \<le> f t - item_count v t" using assms(2) by simp
  assume nz: "f t - item_count v t \<noteq> 0"
  then have "f t \<noteq> 0" using assms(2) [of t] item_count_nonneg [of v t] by linarith
  then have "s \<le> t" "t \<le> 39" using in_rangeD(1) [OF assms(1)] by auto
  then show "s' \<le> t" "t \<le> 39" using nz assms(3) by (cases "t = s"; auto)+
qed

lemma tiles_take:
  assumes "in_range s f" "\<And>t. item_count v t \<le> f t" "item_ok v"
  shows "tiles (\<lambda>t. f t - item_count v t) = tiles f - (3 - int (pairs_of v))"
proof -
  have "item_count v t \<noteq> 0 \<Longrightarrow> 11 \<le> t \<and> t \<le> 39" for t
    using in_rangeD(1) [OF assms(1), of t] assms(2) [of t] item_count_nonneg [of v t] by linarith
  then have "tiles (item_count v) = 3 - int (pairs_of v)" using tiles_item [OF assms(3)] by blast
  then show ?thesis by (simp add: tiles_def sum_subtractf)
qed

lemma tiles_nonneg: "in_range s f \<Longrightarrow> 0 \<le> tiles f"
  unfolding tiles_def by (rule sum_nonneg) (simp add: in_rangeD)

lemma tiles_zero:
  assumes "in_range s f" "tiles f = 0"
  shows "f = (\<lambda>_. 0)"
proof
  fix t
  have "\<forall>t \<in> {11..39}. f t = 0"
    using assms(2) sum_nonneg_eq_0_iff [of "{11..39}" f] in_rangeD(2) [OF assms(1)] unfolding tiles_def by blast
  then show "f t = 0" using in_rangeD(1) [OF assms(1), of t] by (meson atLeastAtMost_iff)
qed

text \<open>Each of the three attempts, as written in the body of the function.\<close>

abbreviation triplet_stage :: "PAI_MAP \<Rightarrow> MJ_PAI \<Rightarrow> int \<Rightarrow> int \<Rightarrow> PaiItem list \<Rightarrow> nat \<Rightarrow> HuPaiData list \<Rightarrow> (bool \<times> nor_state) option" where
  "triplet_stage m s a jn list pos info \<equiv>
     (if 2 < map_get m s then
        let list = ensure_pai_list list pos \<lparr>pi_type = 2, pi_pai_type = s\<rparr> in
        if a - 3 = 0 then Some (True, m, list, if jn = 1 then info @ [finished jn pos list] else info)
        else
          let m = add_same (- 3) s m in
          Option.bind (compute_nor_hupai_info m (after_take m s) (a - 3) jn list (pos + 1) info)
            (\<lambda>(m, list, info). Some (False, add_same 3 s m, list, info))
      else Some (False, m, list, info))"

abbreviation run_body :: "PAI_MAP \<Rightarrow> MJ_PAI \<Rightarrow> int \<Rightarrow> int \<Rightarrow> PaiItem list \<Rightarrow> nat \<Rightarrow> HuPaiData list \<Rightarrow> (bool \<times> nor_state) option" where
  "run_body m s a jn list pos info \<equiv>
     (if is_run m s then
        let list = ensure_pai_list list pos \<lparr>pi_type = 3, pi_pai_type = s\<rparr> in
        if a - 3 = 0 then Some (True, m, list, if jn = 1 then info @ [finished jn pos list] else info)
        else
          let m = add_run (- 1) s m in
          Option.bind (compute_nor_hupai_info m (after_take m s) (a - 3) jn list (pos + 1) info)
            (\<lambda>(m, list, info). Some (False, add_run 1 s m, list, info))
      else Some (False, m, list, info))"

abbreviation run_stage :: "PAI_MAP \<Rightarrow> MJ_PAI \<Rightarrow> int \<Rightarrow> int \<Rightarrow> PaiItem list \<Rightarrow> nat \<Rightarrow> HuPaiData list \<Rightarrow> (bool \<times> nor_state) option" where
  "run_stage m s a jn list pos info \<equiv>
     (let m = (if s + 2 \<le> 39 \<and> map_exists m s then map_touch (s + 1) m else m) in run_body m s a jn list pos info)"

abbreviation pair_stage :: "PAI_MAP \<Rightarrow> MJ_PAI \<Rightarrow> int \<Rightarrow> int \<Rightarrow> PaiItem list \<Rightarrow> nat \<Rightarrow> HuPaiData list \<Rightarrow> nor_state option" where
  "pair_stage m s a jn list pos info \<equiv>
     (if map_exists m s \<and> 1 < map_get m s \<and> jn = 0 then
        let list = ensure_pai_list list pos \<lparr>pi_type = 1, pi_pai_type = s\<rparr> in
        if a - 2 = 0 then Some (m, list, info @ [finished jn pos list])
        else
          let m = add_same (- 2) s m in
          Option.bind (compute_nor_hupai_info m (after_take m s) (a - 2) (jn + 1) list (pos + 1) info)
            (\<lambda>(m, list, info). Some (add_same 2 s m, list, info))
      else Some (m, list, info))"

lemma nor_unfold:
  "next_pai m s0 = Some s \<Longrightarrow>
   compute_nor_hupai_info m s0 a jn list pos info =
     Option.bind (triplet_stage m s a jn list pos info) (\<lambda>(ret, m, list, info). if ret then Some (m, list, info) else
     Option.bind (run_stage m s a jn list pos info) (\<lambda>(ret, m, list, info). if ret then Some (m, list, info) else
     pair_stage m s a jn list pos info))"
  by (subst compute_nor_hupai_info.simps) simp

text \<open>What a call achieves: the hand and the list are as before, the results are the decompositions.\<close>

definition nor_post :: "PaiItem list \<Rightarrow> (MJ_PAI \<Rightarrow> int) \<Rightarrow> int \<Rightarrow> int \<Rightarrow> HuPaiData list \<Rightarrow>
    (PaiItem multiset \<Rightarrow> bool) \<Rightarrow> nor_state \<Rightarrow> bool" where
  "nor_post P f a jn info S r \<longleftrightarrow>
     (case r of (m, list, info') \<Rightarrow>
        map_get m = f \<and> list_inv P a jn list \<and>
        (\<exists>new. info' = info @ new \<and> found P f (nat (1 - jn)) new \<and>
           (\<forall>D. splits D f (nat (1 - jn)) \<longrightarrow> S D \<longrightarrow> covers P new D)))"

definition nor_correct :: "int \<Rightarrow> bool" where
  "nor_correct a \<longleftrightarrow>
     (\<forall>m s f jn list P info. map_get m = f \<longrightarrow> in_range s f \<longrightarrow> tiles f = a \<longrightarrow> 0 < a \<longrightarrow> (jn = 0 \<or> jn = 1) \<longrightarrow>
        list_inv P a jn list \<longrightarrow>
        (\<exists>r. compute_nor_hupai_info m s a jn list (length P) info = Some r \<and> nor_post P f a jn info (\<lambda>_. True) r))"

lemma found_append: "found P f j (xs @ ys) \<longleftrightarrow> found P f j xs \<and> found P f j ys"
  by (auto simp: found_def)

lemma covers_append: "covers P (xs @ ys) D \<longleftrightarrow> covers P xs D \<or> covers P ys D"
  by (auto simp: covers_def)

lemma nor_post_trans:
  assumes "nor_post P f a jn info S (m, list, info1)" "nor_post P f a jn info1 T r"
  shows "nor_post P f a jn info (\<lambda>D. S D \<or> T D) r"
  using assms unfolding nor_post_def by (auto simp: found_append covers_append split: prod.splits)

text \<open>The recursive call after taking a set \<open>v\<close> from the hand.\<close>

lemma recurse:
  assumes IH: "nor_correct a'" and f: "map_get m' = (\<lambda>t. f t - item_count v t)" and r: "in_range s f"
    and le: "\<And>t. item_count v t \<le> f t" and v: "item_ok v" and pv: "pi_type v = 1 \<longrightarrow> jn = 0"
    and a: "tiles f = a" "a' = a - (3 - int (pairs_of v))" "0 < a'" and jn: "jn = 0 \<or> jn = 1" "jn' = jn + int (pairs_of v)"
    and li: "list_inv P a jn list" and v_pai: "pi_pai_type v = s"
  obtains m2 list2 info2 where
    "compute_nor_hupai_info m' (after_take m' s) a' jn' (ensure_pai_list list (length P) v) (length P + 1) info = Some (m2, list2, info2)"
    "map_get m2 = (\<lambda>t. f t - item_count v t)"
    "\<And>m3. map_get m3 = f \<Longrightarrow> nor_post P f a jn info (\<lambda>D. v \<in># D) (m3, list2, info2)"
proof -
  let ?f = "\<lambda>t. f t - item_count v t" and ?s = "after_take m' s"
  have rr: "in_range ?s ?f" using in_range_take [OF r le] f by (simp add: after_take_def)
  have tt: "tiles ?f = a'" using tiles_take [OF r le v] a by simp
  have step: "take_step a jn a' jn'" using a(2) jn pv by (auto simp: split: if_splits)
  have jn': "jn' = 0 \<or> jn' = 1" using jn pv by auto
  have li': "list_inv (P @ [v]) a' jn' (ensure_pai_list list (length P) v)" using list_inv_enter [OF li step] .
  obtain m2 list2 info2 where run: "compute_nor_hupai_info m' ?s a' jn' (ensure_pai_list list (length P) v) (length (P @ [v])) info = Some (m2, list2, info2)"
    and post: "nor_post (P @ [v]) ?f a' jn' info (\<lambda>_. True) (m2, list2, info2)"
    using IH [unfolded nor_correct_def, rule_format, OF f rr tt a(3) jn' li', of info] by auto
  have a0: "0 < a" using a(2,3) by (auto split: if_splits)
  have pairs: "nat (1 - jn) = nat (1 - jn') + pairs_of v" using jn pv by auto
  obtain new where new: "info2 = info @ new" "found (P @ [v]) ?f (nat (1 - jn')) new"
      "\<forall>D. splits D ?f (nat (1 - jn')) \<longrightarrow> covers (P @ [v]) new D" and m2: "map_get m2 = ?f" "list_inv (P @ [v]) a' jn' list2"
    using post by (auto simp: nor_post_def)
  have "list_inv P a jn list2" using list_inv_leave [OF m2(2) step a0] .
  moreover have "found P f (nat (1 - jn)) new"
    unfolding found_def
  proof
    fix h assume "h \<in> set new"
    then obtain L where L: "hpd_list h = (P @ [v]) @ L" "splits (mset L) ?f (nat (1 - jn'))" using new(2) by (auto simp: found_def)
    then have "splits (mset (v # L)) f (nat (1 - jn))" using splits_add [OF v, of "mset L" f "nat (1 - jn')"] pairs by simp
    then show "\<exists>L. hpd_list h = P @ L \<and> splits (mset L) f (nat (1 - jn))" using L(1) by (intro exI [of _ "v # L"]) simp
  qed
  moreover have "covers P new D" if D: "splits D f (nat (1 - jn))" "v \<in># D" for D
  proof -
    have "splits (D - {#v#}) ?f (nat (1 - jn'))" using splits_remove(1) [OF D] pairs by simp
    then obtain h L where "h \<in> set new" "hpd_list h = (P @ [v]) @ L" "mset L = D - {#v#}"
      using new(3) by (auto simp: covers_def)
    then show ?thesis using D(2) unfolding covers_def by (intro bexI [of _ h] exI [of _ "v # L"]) auto
  qed
  ultimately have "nor_post P f a jn info (\<lambda>D. v \<in># D) (m3, list2, info2)" if "map_get m3 = f" for m3
    using that new(1) by (auto simp: nor_post_def)
  then show ?thesis using that [OF _ m2(1)] run by simp
qed

text \<open>A hand of three tiles, or of two, is one set.\<close>

lemma last_item:
  assumes sp: "splits D f j" and r: "in_range s f" and s: "0 < f s" and j: "j = 0 \<and> tiles f = 3 \<or> j = 1 \<and> tiles f = 2"
  shows "D = {#item 1 s#} \<and> j = 1 \<or> D = {#item 2 s#} \<or> D = {#item 3 s#}"
proof -
  have "size D = 1" using tiles_splits [OF sp r] j by auto
  then obtain w where w: "D = {#w#}" by (metis size_1_singleton_mset)
  obtain v where "v \<in># D" "v = item 1 s \<or> v = item 2 s \<or> v = item 3 s" using lowest_item [OF sp r s] .
  then show ?thesis using w sp by (auto simp: splits_def)
qed

lemma finish_last:
  assumes le: "\<And>t. item_count v t \<le> f t" and r: "in_range s f" and v: "item_ok v"
    and a: "tiles f = 3 - int (pairs_of v)" and li: "list_inv P (tiles f) jn list" and jn: "jn = 1 - int (pairs_of v)"
  shows "splits {#v#} f (nat (1 - jn))" "ensure_pai_list list (length P) v = P @ [v]"
proof -
  have "tiles (\<lambda>t. f t - item_count v t) = 0" using tiles_take [OF r le v] a by simp
  moreover have "in_range s (\<lambda>t. f t - item_count v t)"
    using r le item_count_nonneg [of v] unfolding in_range_def by (metis diff_ge_0_iff_ge diff_self order_antisym)
  ultimately have "(\<lambda>t. f t - item_count v t) = (\<lambda>_. 0)" using tiles_zero by blast
  then show "splits {#v#} f (nat (1 - jn))" using splits_add [OF v, of "{#}" f 0] jn by (simp add: splits_empty)
  show "ensure_pai_list list (length P) v = P @ [v]"
    by (rule list_inv_last [OF li]) (auto simp: a jn fits_def items_left_def)
qed

text \<open>The three attempts one by one.\<close>

lemma triplet_count: "2 < f s \<Longrightarrow> (\<And>t. 0 \<le> f t) \<Longrightarrow> item_count (item 2 s) t \<le> f t"
  by (auto simp: item_count_def)

lemma run_count: "0 < f s \<Longrightarrow> 0 < f (s + 1) \<Longrightarrow> 0 < f (s + 2) \<Longrightarrow> (\<And>t. 0 \<le> f t) \<Longrightarrow> item_count (item 3 s) t \<le> f t"
proof -
  assume f: "0 < f s" "0 < f (s + 1)" "0 < f (s + 2)" "\<And>t. 0 \<le> f t"
  show ?thesis
  proof (cases "s \<le> t \<and> t \<le> s + 2")
    case True
    then have "t = s \<or> t = s + 1 \<or> t = s + 2" by auto
    then show ?thesis using f(1-3) by (auto simp: item_count_def)
  qed (use f(4) in \<open>auto simp: item_count_def\<close>)
qed

lemma post_none:
  assumes "map_get m = f" "list_inv P a jn list" "\<And>D. splits D f (nat (1 - jn)) \<Longrightarrow> \<not> S D"
  shows "nor_post P f a jn info S (m, list, info)"
  using assms unfolding nor_post_def by (simp add: found_def)

lemma post_last:
  assumes "map_get m = f" "list_inv P a jn (P @ [v])" "splits {#v#} f (nat (1 - jn))"
    and "\<And>D. splits D f (nat (1 - jn)) \<Longrightarrow> S D \<Longrightarrow> D = {#v#}"
  shows "nor_post P f a jn info S (m, P @ [v], info @ [finished jn (length P) (P @ [v])])"
proof -
  have "found P f (nat (1 - jn)) [finished jn (length P) (P @ [v])]"
    using assms(3) unfolding found_def by (auto simp: finished_def)
  moreover have "covers P [finished jn (length P) (P @ [v])] D" if "splits D f (nat (1 - jn))" "S D" for D
    using assms(4) [OF that] unfolding covers_def by (auto simp: finished_def)
  ultimately show ?thesis using assms(1,2) unfolding nor_post_def by blast
qed

lemma stageI:
  assumes "e = Some (ret, r)" "nor_post P f a jn info S r" "\<And>D. Q D \<or> ret \<Longrightarrow> S D"
  shows "\<exists>ret r. e = Some (ret, r) \<and> nor_post P f a jn info (\<lambda>D. Q D \<or> ret) r"
proof -
  have "nor_post P f a jn info (\<lambda>D. Q D \<or> ret) r"
    using assms(2,3) unfolding nor_post_def by (auto split: prod.splits)
  then show ?thesis using assms(1) by blast
qed

text \<open>
  An attempt that takes a triplet or a run \<open>v\<close>: when it uses up the hand, and when
  the search goes on with the smaller hand \<open>m'\<close> and puts \<open>v\<close> back by \<open>putb\<close>.
\<close>

lemma three_ok:
  assumes IH: "3 < a \<Longrightarrow> nor_correct (a - 3)" and f: "map_get m = f" and r: "in_range s f" and s: "0 < f s"
    and a: "tiles f = a" and jn: "jn = 0 \<or> jn = 1" and li: "list_inv P a jn list"
    and v: "v = item ty s" "ty = 2 \<or> ty = 3" and le: "\<And>t. item_count v t \<le> f t"
    and uniq: "\<And>D. splits D f 0 \<Longrightarrow> tiles f = 3 \<Longrightarrow> D = {#v#}"
    and m': "map_get m' = (\<lambda>t. f t - item_count v t)"
    and bk: "\<And>m2. map_get m2 = (\<lambda>t. f t - item_count v t) \<Longrightarrow> map_get (putb m2) = f"
    and e: "e = (let list = ensure_pai_list list (length P) v in
        if a - 3 = 0 then Some (True, m, list, if jn = 1 then info @ [finished jn (length P) list] else info)
        else Option.bind (compute_nor_hupai_info m' (after_take m' s) (a - 3) jn list (length P + 1) info)
            (\<lambda>(m, list, info). Some (False, putb m, list, info)))"
  shows "\<exists>ret r. e = Some (ret, r) \<and> nor_post P f a jn info (\<lambda>D. v \<in># D \<or> ret) r"
proof -
  have ok: "item_ok v" and ty: "pi_type v \<noteq> 1" "pi_pai_type v = s" using v by (auto simp: item_ok_def)
  have a0: "3 \<le> a" using tiles_nonneg [OF in_range_take [OF r le refl]] tiles_take [OF r le ok] a ty by simp
  have li': "list_inv P a jn (ensure_pai_list list (length P) v)" using list_inv_put [OF li items_positive] a0 by simp
  show ?thesis
  proof (cases "a = 3")
    case a3: True
    show ?thesis
    proof (cases "jn = 1")
      case jn1: True
      have last: "splits {#v#} f (nat (1 - jn))" "ensure_pai_list list (length P) v = P @ [v]"
        using finish_last [OF le r ok] a a3 jn1 li ty by auto
      have "nor_post P f a jn info (\<lambda>D. True) (m, P @ [v], info @ [finished jn (length P) (P @ [v])])"
      proof (rule post_last [OF f _ last(1)])
        show "list_inv P a jn (P @ [v])" using li' last(2) by simp
        fix D assume "splits D f (nat (1 - jn))"
        then show "D = {#v#}" using uniq [of D] a a3 jn1 by simp
      qed
      moreover have "e = Some (True, m, P @ [v], info @ [finished jn (length P) (P @ [v])])"
        using e a3 jn1 last(2) by (simp add: Let_def)
      ultimately show ?thesis by (intro stageI) auto
    next
      case False
      have none: "\<not> splits D f 1" for D
      proof
        assume "splits D f 1"
        from tiles_splits [OF this r] have "3 * int (size D) = 4" using a a3 by simp
        then show False by presburger
      qed
      have "nor_post P f a jn info (\<lambda>D. True) (m, ensure_pai_list list (length P) v, info)"
        by (rule post_none [OF f li']) (use none jn False in auto)
      moreover have "e = Some (True, m, ensure_pai_list list (length P) v, info)" using e a3 False by (simp add: Let_def)
      ultimately show ?thesis by (intro stageI) auto
    qed
  next
    case False
    then have a': "0 < a - 3" using a0 by simp
    then have IH': "nor_correct (a - 3)" using IH by simp
    obtain m2 list2 info2 where run: "compute_nor_hupai_info m' (after_take m' s) (a - 3) jn
          (ensure_pai_list list (length P) v) (length P + 1) info = Some (m2, list2, info2)"
      and m2: "map_get m2 = (\<lambda>t. f t - item_count v t)"
      and post: "\<And>m3. map_get m3 = f \<Longrightarrow> nor_post P f a jn info (\<lambda>D. v \<in># D) (m3, list2, info2)"
      using recurse [OF IH' m' r le ok _ a _ a' jn _ li ty(2), of jn info] ty by auto
    have "e = Some (False, putb m2, list2, info2)" using e False run by (simp add: Let_def)
    then show ?thesis using post [OF bk [OF m2]] by (rule stageI) simp
  qed
qed

lemma triplet_ok:
  assumes IH: "3 < a \<Longrightarrow> nor_correct (a - 3)" and f: "map_get m = f" and r: "in_range s f" and s: "0 < f s"
    and a: "tiles f = a" and jn: "jn = 0 \<or> jn = 1" and li: "list_inv P a jn list"
  shows "\<exists>ret r. triplet_stage m s a jn list (length P) info = Some (ret, r) \<and>
    nor_post P f a jn info (\<lambda>D. item 2 s \<in># D \<or> ret) r"
proof (cases "2 < f s")
  case False
  have "item 2 s \<notin># D" if "splits D f j" for D j
    using splits_le [OF that, of "item 2 s" s] False by (auto simp: item_count_def)
  then have post: "nor_post P f a jn info (\<lambda>D. item 2 s \<in># D) (m, list, info)" by (intro post_none [OF f li])
  have "triplet_stage m s a jn list (length P) info = Some (False, m, list, info)" using False f by simp
  then show ?thesis using post by (rule stageI) simp
next
  case True
  let ?v = "item 2 s"
  have le: "item_count ?v t \<le> f t" for t using triplet_count [of f s] True in_rangeD(2) [OF r] by blast
  have uniq: "D = {#?v#}" if D: "splits D f 0" "tiles f = 3" for D
  proof -
    have "D \<noteq> {#item 3 s#}" using D(1) True by (auto simp: splits_def item_count_def dest!: spec [of _ s])
    then show ?thesis using last_item [OF D(1) r s] D(2) by auto
  qed
  show ?thesis
    by (rule three_ok [OF IH f r s a jn li refl _ le uniq, where m' = "add_same (- 3) s m" and putb = "add_same 3 s" and info = info])
       (use True f in \<open>auto simp: add_same_def item_count_def fun_eq_iff item_def Let_def\<close>)
qed

lemma is_run_iff:
  assumes "map_get m = f" "in_range s f" "0 < f s"
  shows "is_run m s \<longleftrightarrow> 0 < f (s + 1) \<and> 0 < f (s + 2)"
proof -
  have "s + 2 \<le> 39" if "0 < f (s + 2)" using in_rangeD(1) [OF assms(2), of "s + 2"] that by simp
  then show ?thesis using assms(1,3) map_get_positive [of m] by (auto simp: is_run_def)
qed

lemma run_body_ok:
  assumes IH: "3 < a \<Longrightarrow> nor_correct (a - 3)" and f: "map_get m = f" and r: "in_range s f" and s: "0 < f s"
    and a: "tiles f = a" and jn: "jn = 0 \<or> jn = 1" and li: "list_inv P a jn list"
  shows "\<exists>ret r. run_body m s a jn list (length P) info = Some (ret, r) \<and>
    nor_post P f a jn info (\<lambda>D. item 3 s \<in># D \<or> ret) r"
proof -
  let ?v = "item 3 s"
  note ir = is_run_iff [OF f r s]
  show ?thesis
  proof (cases "is_run m s")
    case False
    have "?v \<notin># D" if "splits D f j" for D j
      using splits_le [OF that, of ?v "s + 1"] splits_le [OF that, of ?v "s + 2"] False ir by (auto simp: item_count_def)
    then have post: "nor_post P f a jn info (\<lambda>D. ?v \<in># D) (m, list, info)" by (intro post_none [OF f li])
    have "run_body m s a jn list (length P) info = Some (False, m, list, info)" using False by simp
    then show ?thesis using post by (rule stageI) simp
  next
    case True
    then have f12: "0 < f (s + 1)" "0 < f (s + 2)" using ir by auto
    have le: "item_count ?v t \<le> f t" for t using run_count [of f s] s f12 in_rangeD(2) [OF r] by blast
    have uniq: "D = {#?v#}" if D: "splits D f 0" "tiles f = 3" for D
    proof -
      have "D \<noteq> {#item 2 s#}" using D(1) f12 by (auto simp: splits_def item_count_def dest!: spec [of _ "s + 1"])
      then show ?thesis using last_item [OF D(1) r s] D(2) by auto
    qed
    show ?thesis
      by (rule three_ok [OF IH f r s a jn li refl _ le uniq, where m' = "add_run (- 1) s m" and putb = "add_run 1 s" and info = info])
         (use True f in \<open>auto simp: add_run_def item_count_def fun_eq_iff item_def Let_def\<close>)
  qed
qed

lemma run_ok:
  assumes "3 < a \<Longrightarrow> nor_correct (a - 3)" "map_get m = f" "in_range s f" "0 < f s"
    and "tiles f = a" "jn = 0 \<or> jn = 1" "list_inv P a jn list"
  shows "\<exists>ret r. run_stage m s a jn list (length P) info = Some (ret, r) \<and>
    nor_post P f a jn info (\<lambda>D. item 3 s \<in># D \<or> ret) r"
proof -
  have "map_get (if s + 2 \<le> 39 \<and> map_exists m s then map_touch (s + 1) m else m) = f"
    using assms(2) by (auto simp: fun_eq_iff)
  from run_body_ok [OF assms(1) this assms(3-7)] show ?thesis unfolding Let_def [of "if _ then _ else _"] .
qed

lemma pair_ok:
  assumes IH: "2 < a \<Longrightarrow> nor_correct (a - 2)" and f: "map_get m = f" and r: "in_range s f" and s: "0 < f s"
    and a: "tiles f = a" and jn: "jn = 0 \<or> jn = 1" and li: "list_inv P a jn list"
  shows "\<exists>r. pair_stage m s a jn list (length P) info = Some r \<and> nor_post P f a jn info (\<lambda>D. item 1 s \<in># D) r"
proof -
  let ?v = "item 1 s"
  have ex: "map_exists m s" using s f by (intro map_get_positive) simp
  show ?thesis
  proof (cases "1 < f s \<and> jn = 0")
    case False
    have "?v \<notin># D" if "splits D f (nat (1 - jn))" for D
    proof
      assume v: "?v \<in># D"
      then have "1 < f s" using splits_le [OF that v, of s] by (simp add: item_count_def)
      moreover have "1 \<le> nat (1 - jn)" using splits_remove(2) [OF that v] by simp
      ultimately show False using False jn by auto
    qed
    then have "nor_post P f a jn info (\<lambda>D. ?v \<in># D) (m, list, info)" by (rule post_none [OF f li])
    moreover have "pair_stage m s a jn list (length P) info = Some (m, list, info)" using False f by auto
    ultimately show ?thesis by blast
  next
    case True
    then have jn0: "jn = 0" and fs: "1 < f s" by auto
    have le: "item_count ?v t \<le> f t" for t using fs in_rangeD(2) [OF r] by (auto simp: item_count_def)
    have ok: "item_ok ?v" by (simp add: item_ok_def)
    have a0: "2 \<le> a" using tiles_nonneg [OF in_range_take [OF r le refl]] tiles_take [OF r le ok] a by simp
    show ?thesis
    proof (cases "a = 2")
      case a2: True
      have li': "list_inv P a jn (ensure_pai_list list (length P) ?v)" using list_inv_put [OF li items_positive] a0 by simp
      have last: "splits {#?v#} f (nat (1 - jn))" "ensure_pai_list list (length P) ?v = P @ [?v]"
        using finish_last [OF le r ok] a a2 jn0 li by auto
      have "nor_post P f a jn info (\<lambda>D. ?v \<in># D) (m, P @ [?v], info @ [finished jn (length P) (P @ [?v])])"
      proof (rule post_last [OF f _ last(1)])
        show "list_inv P a jn (P @ [?v])" using li' last(2) by simp
        fix D assume D: "splits D f (nat (1 - jn))" "?v \<in># D"
        then have "size D = 1" using tiles_splits [OF D(1) r] a a2 jn0 by simp
        then obtain w where "D = {#w#}" by (metis size_1_singleton_mset)
        then show "D = {#?v#}" using D(2) by simp
      qed
      moreover have "pair_stage m s a jn list (length P) info = Some (m, P @ [?v], info @ [finished jn (length P) (P @ [?v])])"
        using ex fs f a2 jn0 last(2) by (simp add: item_def Let_def)
      ultimately show ?thesis by blast
    next
      case False
      then have a': "0 < a - 2" using a0 by simp
      then have IH': "nor_correct (a - 2)" using IH by simp
      have g: "map_get (add_same (- 2) s m) = (\<lambda>t. f t - item_count ?v t)"
        by (auto simp: add_same_def f item_count_def fun_eq_iff)
      obtain m2 list2 info2 where run: "compute_nor_hupai_info (add_same (- 2) s m) (after_take (add_same (- 2) s m) s) (a - 2) (jn + 1)
            (ensure_pai_list list (length P) ?v) (length P + 1) info = Some (m2, list2, info2)"
        and m2: "map_get m2 = (\<lambda>t. f t - item_count ?v t)"
        and post: "\<And>m3. map_get m3 = f \<Longrightarrow> nor_post P f a jn info (\<lambda>D. ?v \<in># D) (m3, list2, info2)"
        using recurse [OF IH' g r le ok _ a _ a' jn _ li, of "jn + 1" info] jn0 by auto
      have "map_get (add_same 2 s m2) = f" by (auto simp: add_same_def m2 item_count_def fun_eq_iff)
      moreover have "pair_stage m s a jn list (length P) info = Some (add_same 2 s m2, list2, info2)"
        using ex fs f jn0 False run by (simp add: item_def Let_def)
      ultimately show ?thesis using post by blast
    qed
  qed
qed

lemma nor_correct_all: "nor_correct a"
proof (induction "nat a" arbitrary: a rule: less_induct)
  case less
  have IH: "nor_correct b" if "b < a" "0 < a" for b using less that by simp
  show ?case
    unfolding nor_correct_def
  proof (intro allI impI)
    fix m s f jn list P info
    assume f: "map_get m = f" and r0: "in_range s f" and a: "tiles f = a" "0 < a" and jn: "jn = 0 \<or> jn = 1"
      and li: "list_inv P a jn list"
    obtain p where p: "next_pai m s = Some p" "0 < f p" and r: "in_range p f" using next_pai_first [OF r0 f] a by auto
    obtain ret m1 list1 info1 where t1: "triplet_stage m p a jn list (length P) info = Some (ret, m1, list1, info1)"
      and p1: "nor_post P f a jn info (\<lambda>D. item 2 p \<in># D \<or> ret) (m1, list1, info1)"
      using triplet_ok [OF IH f r p(2) a(1) jn li, of info] a(2) by auto
    show "\<exists>r. compute_nor_hupai_info m s a jn list (length P) info = Some r \<and> nor_post P f a jn info (\<lambda>_. True) r"
    proof (cases ret)
      case True
      then show ?thesis using nor_unfold [OF p(1)] t1 p1 by simp
    next
      case False
      have s1: "map_get m1 = f" "list_inv P a jn list1" using p1 by (auto simp: nor_post_def)
      obtain ret2 m2 list2 info2 where t2: "run_stage m1 p a jn list1 (length P) info1 = Some (ret2, m2, list2, info2)"
        and p2: "nor_post P f a jn info1 (\<lambda>D. item 3 p \<in># D \<or> ret2) (m2, list2, info2)"
        using run_ok [OF IH s1(1) r p(2) a(1) jn s1(2), of info1] a(2) by auto
      have p12: "nor_post P f a jn info (\<lambda>D. (item 2 p \<in># D \<or> ret) \<or> (item 3 p \<in># D \<or> ret2)) (m2, list2, info2)"
        using nor_post_trans [OF p1 p2] .
      show ?thesis
      proof (cases ret2)
        case True
        then show ?thesis using nor_unfold [OF p(1)] t1 t2 p12 False by simp
      next
        case False2: False
        have s2: "map_get m2 = f" "list_inv P a jn list2" using p2 by (auto simp: nor_post_def)
        obtain r3 where t3: "pair_stage m2 p a jn list2 (length P) info2 = Some r3"
          and p3: "nor_post P f a jn info2 (\<lambda>D. item 1 p \<in># D) r3"
          using pair_ok [OF IH s2(1) r p(2) a(1) jn s2(2), of info2] a(2) by auto
        have p123: "nor_post P f a jn info (\<lambda>D. ((item 2 p \<in># D \<or> ret) \<or> (item 3 p \<in># D \<or> ret2)) \<or> item 1 p \<in># D) r3"
          using nor_post_trans [OF p12 p3] .
        have "((item 2 p \<in># D \<or> ret) \<or> (item 3 p \<in># D \<or> ret2)) \<or> item 1 p \<in># D" if "splits D f j" for D j
          using lowest_item [OF that r p(2)] by metis
        then have "nor_post P f a jn info (\<lambda>_. True) r3" using p123 unfolding nor_post_def by (auto split: prod.splits)
        then show ?thesis using nor_unfold [OF p(1)] t1 t2 t3 False False2 by simp
      qed
    qed
  qed
qed

end
