(* ===== verification/Majiang_Rules.thy ===== *)
theory Majiang_Rules
  imports Majiang_Hands
begin

text \<open>
  The properties of the mahjong rules: the search finds all ways to take a hand
  apart, a hand wins exactly if it is complete, the kind reported is the best one;
  and what the function for waiting tiles really computes.
\<close>

section \<open>Hands\<close>

definition hand_ok :: "PAI_MAP \<Rightarrow> bool" where
  "hand_ok m \<longleftrightarrow> map_ok m \<and> list_all (\<lambda>(t, n). 11 \<le> t \<and> t \<le> 39 \<and> t mod 10 \<noteq> 0 \<and> 0 \<le> n) m"

definition hand_size :: "PAI_MAP \<Rightarrow> int" where
  "hand_size m = sum_list (map snd m)"

lemma map_get_notin: "t \<notin> fst ` set m \<Longrightarrow> map_get m t = 0"
  by (auto simp: map_get_def split: option.splits dest: map_of_SomeD) (force dest: map_of_SomeD)

lemma hand_nonzero:
  assumes "hand_ok m" "map_get m t \<noteq> 0"
  shows "11 \<le> t \<and> t \<le> 39 \<and> t mod 10 \<noteq> 0 \<and> 0 < map_get m t \<and> (t, map_get m t) \<in> set m"
proof -
  obtain n where "map_of m t = Some n" "n \<noteq> 0" using assms(2) by (auto simp: map_get_def split: option.splits)
  then show ?thesis using assms(1) map_of_SomeD [of m t n] by (auto simp: hand_ok_def list_all_iff map_get_def)
qed

lemma hand_range: "hand_ok m \<Longrightarrow> in_range 11 (map_get m)"
  unfolding in_range_def by (metis hand_nonzero order.strict_implies_order order_refl)

lemma hand_tiles:
  assumes "hand_ok m"
  shows "tiles (map_get m) = hand_size m"
proof -
  have d: "distinct (map fst m)" and k: "fst ` set m \<subseteq> {11..39}"
    using assms map_ok_distinct by (auto simp: hand_ok_def list_all_iff)
  have "hand_size m = sum_list (map (\<lambda>p. map_get m (fst p)) m)"
  proof -
    have "map snd m = map (\<lambda>p. map_get m (fst p)) m"
      using assms by (auto simp: hand_ok_def map_ok_get)
    then show ?thesis unfolding hand_size_def by (rule arg_cong)
  qed
  also have "\<dots> = sum_list (map (map_get m) (map fst m))" by (simp add: comp_def)
  also have "\<dots> = (\<Sum>t \<in> fst ` set m. map_get m t)" using sum_list_distinct_conv_sum_set [OF d, of "map_get m"] by simp
  also have "\<dots> = tiles (map_get m)"
    unfolding tiles_def using k by (intro sum.mono_neutral_left) (auto simp: map_get_notin)
  finally show ?thesis by simp
qed

lemma search_none:
  assumes "hand_ok m" "hand_size m = 0"
  shows "compute_nor_hupai_info m 11 a jn list pos info = Some (m, list, info)"
proof -
  have "map_get m = (\<lambda>_. 0)" using tiles_zero [OF hand_range [OF assms(1)]] hand_tiles [OF assms(1)] assms(2) by simp
  then have "next_pai m s = None" for s
    by (induction m s rule: next_pai.induct) (subst next_pai.simps, auto)
  then show ?thesis by (subst compute_nor_hupai_info.simps) simp
qed

lemma search:
  assumes "hand_ok m"
  shows "\<exists>m' list' info. compute_nor_hupai_info m 11 (hand_size m) 0 [] 0 [] = Some (m', list', info) \<and> map_get m' = map_get m \<and>
    (\<forall>h \<in> set info. complete_hand (map_get m) (mset (hpd_list h))) \<and>
    (\<forall>D. complete_hand (map_get m) D \<longrightarrow> (\<exists>h \<in> set info. mset (hpd_list h) = D))"
proof (cases "hand_size m = 0")
  case True
  have "\<not> complete_hand (map_get m) D" for D
    unfolding complete_hand_def
  proof
    assume "splits D (map_get m) 1"
    from tiles_splits [OF this hand_range [OF assms]] have "3 * int (size D) = 1" using hand_tiles [OF assms] True by simp
    then show False by presburger
  qed
  then show ?thesis using search_none [OF assms True] by simp
next
  case False
  have pos: "0 < hand_size m" using tiles_nonneg [OF hand_range [OF assms]] hand_tiles [OF assms] False by simp
  have li: "list_inv [] (hand_size m) 0 []" by (simp add: list_inv_def)
  obtain r where run: "compute_nor_hupai_info m 11 (hand_size m) 0 [] 0 [] = Some r"
    and post: "nor_post [] (map_get m) (hand_size m) 0 [] (\<lambda>_. True) r"
    using nor_correct_all [of "hand_size m", unfolded nor_correct_def, rule_format,
        OF refl hand_range [OF assms] hand_tiles [OF assms] pos _ li, of "[]"] by auto
  obtain m' list' info where r: "r = (m', list', info)" by (metis surj_pair)
  have "\<forall>h \<in> set info. complete_hand (map_get m) (mset (hpd_list h))"
    using post by (simp add: r nor_post_def found_def complete_hand_def)
  moreover have "\<forall>D. complete_hand (map_get m) D \<longrightarrow> (\<exists>h \<in> set info. mset (hpd_list h) = D)"
    using post by (simp add: r nor_post_def covers_def complete_hand_def)
  moreover have "map_get m' = map_get m" using post by (simp add: r nor_post_def)
  ultimately show ?thesis using run r by blast
qed

text \<open>
  C23. The search for winning hands is correct and complete and ends: for every hand of
  tiles, \<^verbatim>\<open>compute_nor_hupai_info\<close> returns, leaves the hand as it was, and its list of
  results contains exactly the ways to take the whole hand apart into triplets, runs
  and one pair (each as a multiset of sets, with no set of an abandoned attempt left
  in it); the runs stay within one suit.
\<close>

theorem nor_hupai_complete:
  assumes "hand_ok pai_map"
  shows "\<exists>m' list' info. compute_nor_hupai_info pai_map 11 (hand_size pai_map) 0 [] 0 [] = Some (m', list', info) \<and>
    map_get m' = map_get pai_map \<and>
    (\<forall>h \<in> set info. complete_hand (map_get pai_map) (mset (hpd_list h)) \<and>
       (\<forall>v \<in> set (hpd_list h). pi_type v = 3 \<longrightarrow> rank (pi_pai_type v) \<le> 7)) \<and>
    (\<forall>D. complete_hand (map_get pai_map) D \<longrightarrow> (\<exists>h \<in> set info. mset (hpd_list h) = D))"
proof -
  have "rank (pi_pai_type v) \<le> 7" if v: "complete_hand (map_get pai_map) (mset L)" "v \<in> set L" "pi_type v = 3" for L v
  proof -
    let ?p = "pi_pai_type v"
    have "0 < map_get pai_map t" if "t \<in> {?p, ?p + 1, ?p + 2}" for t
    proof -
      have "item_count v t = 1" using that v(3) by (auto simp: item_count_def)
      moreover have "item_count v t \<le> map_get pai_map t"
        using splits_le [OF v(1) [unfolded complete_hand_def]] v(2) by simp
      ultimately show ?thesis by simp
    qed
    then have "t mod 10 \<noteq> 0 \<and> 11 \<le> t" if "t \<in> {?p, ?p + 1, ?p + 2}" for t
      using hand_nonzero [OF assms, of t] that by (metis less_irrefl)
    then have "?p mod 10 \<noteq> 0" "(?p + 1) mod 10 \<noteq> 0" "(?p + 2) mod 10 \<noteq> 0" "11 \<le> ?p" by simp_all
    then have "?p mod 10 \<le> 7" by presburger
    then show ?thesis using \<open>11 \<le> ?p\<close> by (simp add: rank_def c_rem_nonneg)
  qed
  then have run: "\<forall>v \<in> set L. pi_type v = 3 \<longrightarrow> rank (pi_pai_type v) \<le> 7" if "complete_hand (map_get pai_map) (mset L)" for L
    using that by blast
  obtain m' list' info where "compute_nor_hupai_info pai_map 11 (hand_size pai_map) 0 [] 0 [] = Some (m', list', info)"
    "map_get m' = map_get pai_map" "\<forall>h \<in> set info. complete_hand (map_get pai_map) (mset (hpd_list h))"
    "\<forall>D. complete_hand (map_get pai_map) D \<longrightarrow> (\<exists>h \<in> set info. mset (hpd_list h) = D)"
    using search [OF assms] by metis
  moreover from this(3) have "\<forall>h \<in> set info. \<forall>v \<in> set (hpd_list h). pi_type v = 3 \<longrightarrow> rank (pi_pai_type v) \<le> 7"
    using run by blast
  ultimately show ?thesis by (intro exI [of _ m'] exI [of _ list'] exI [of _ info]) simp
qed

text \<open>Four tiles of one kind with their neighbours: two ways to take the hand apart.\<close>

definition sample_hand :: PAI_MAP where
  "sample_hand = [(11, 3), (12, 3), (13, 3), (25, 2)]"

lemma sample_hand_ok: "hand_ok sample_hand" "hand_size sample_hand = 11"
  by (simp_all add: sample_hand_def hand_ok_def map_ok_def hand_size_def)

theorem nor_hupai_complete_witness:
  "\<exists>m' list' info. compute_nor_hupai_info sample_hand 11 11 0 [] 0 [] = Some (m', list', info) \<and>
    map_get m' = map_get sample_hand \<and>
    (\<forall>h \<in> set info. complete_hand (map_get sample_hand) (mset (hpd_list h)) \<and>
       (\<forall>v \<in> set (hpd_list h). pi_type v = 3 \<longrightarrow> rank (pi_pai_type v) \<le> 7)) \<and>
    (\<forall>D. complete_hand (map_get sample_hand) D \<longrightarrow> (\<exists>h \<in> set info. mset (hpd_list h) = D))"
  using nor_hupai_complete [OF sample_hand_ok(1)] sample_hand_ok(2) by simp

section \<open>Which hands win\<close>

text \<open>The suits of a hand and its exposed sets.\<close>

definition suits_used :: "PAI_MAP \<Rightarrow> PG_MAP \<Rightarrow> int set" where
  "suits_used pai_map pg_map = {suit t |t. 0 < map_get pai_map t} \<union> suit ` fst ` set pg_map"

lemma tongji_fold:
  "fold (\<lambda>(pai, n) (count, h). if 0 < n then (count + n, map_put (suit pai) 1 h) else (count, h)) m (c :: int, h) = (c', h') \<Longrightarrow>
   c' = c + sum_list (map (\<lambda>p. max 0 (snd p)) m) \<and>
   (\<forall>k. map_get h' k = (if \<exists>p \<in> set m. 0 < snd p \<and> suit (fst p) = k then 1 else map_get h k))"
proof (induction m arbitrary: c h)
  case (Cons p m)
  obtain t n where p: "p = (t, n)" by (cases p)
  show ?case
  proof (cases "0 < n")
    case True
    from Cons.IH [of "c + n" "map_put (suit t) 1 h"] Cons.prems p True show ?thesis by (auto simp: max_absorb2 add.assoc)
  next
    case False
    from Cons.IH [of c h] Cons.prems p False show ?thesis by (auto simp: max_def)
  qed
qed simp

lemma pg_fold:
  "fold (\<lambda>(pai, _) (count, h). (count + 3, map_put (suit pai) 1 h)) m (c :: int, h) = (c', h') \<Longrightarrow>
   c' = c + 3 * int (length m) \<and> (\<forall>k. map_get h' k = (if k \<in> suit ` fst ` set m then 1 else map_get h k))"
proof (induction m arbitrary: c h)
  case (Cons p m)
  obtain t n where p: "p = (t, n)" by (cases p)
  from Cons.IH [of "c + 3" "map_put (suit t) 1 h"] Cons.prems p show ?case by auto
qed simp

lemma hand_suits_eq:
  assumes "hand_ok m"
  obtains h where "hand_suits m pg = (hand_size m, 3 * int (length pg), h)"
    "\<And>k. map_get h k = (if k \<in> suits_used m pg then 1 else 0)"
proof -
  obtain c1 h1 where t1: "tongji_pai_info m hua_se_map = (c1, h1)" by (metis surj_pair)
  obtain c2 h2 where t2: "tongji_penggang_info pg h1 = (c2, h2)" by (metis surj_pair)
  have ok: "map_ok m" and nn: "\<forall>p \<in> set m. 0 \<le> snd p" using assms by (auto simp: hand_ok_def list_all_iff)
  note f1 = tongji_fold [OF t1 [unfolded tongji_pai_info_def]] and f2 = pg_fold [OF t2 [unfolded tongji_penggang_info_def]]
  have "map (\<lambda>p. max 0 (snd p)) m = map snd m" using nn by auto
  then have "sum_list (map (\<lambda>p. max 0 (snd p)) m) = hand_size m" unfolding hand_size_def by (rule arg_cong)
  then have c1: "c1 = hand_size m" using f1 by simp
  have c2: "c2 = 3 * int (length pg)" using f2 by simp
  have ex: "(\<exists>p \<in> set m. 0 < snd p \<and> suit (fst p) = k) \<longleftrightarrow> k \<in> {suit t |t. 0 < map_get m t}" for k
  proof
    assume "\<exists>p \<in> set m. 0 < snd p \<and> suit (fst p) = k"
    then show "k \<in> {suit t |t. 0 < map_get m t}" using map_ok_get [OF ok] by force
  next
    assume "k \<in> {suit t |t. 0 < map_get m t}"
    then obtain t where t: "0 < map_get m t" "k = suit t" by blast
    then have "(t, map_get m t) \<in> set m" using hand_nonzero [OF assms, of t] by simp
    then show "\<exists>p \<in> set m. 0 < snd p \<and> suit (fst p) = k" using t by force
  qed
  have init: "map_get hua_se_map k = 0" for k by (simp add: hua_se_map_def map_get_def)
  have "map_get h2 k = (if k \<in> suits_used m pg then 1 else 0)" for k
    using f1 f2 ex [of k] init [of k] by (simp add: suits_used_def)
  moreover have "hand_suits m pg = (c1, c2, h2)" using t1 t2 by (simp add: hand_suits_def)
  ultimately show ?thesis using that c1 c2 by blast
qed

text \<open>The kind of one decomposition, and of seven pairs.\<close>

definition kind :: "PAI_MAP \<Rightarrow> PG_MAP \<Rightarrow> KAI_GUAN \<Rightarrow> PaiItem list \<Rightarrow> int" where
  "kind pai_map pg_map kaiguan L =
     (if check_is_jiangdui L pai_map pg_map kaiguan then 5
      else if check_is_yaojiu L pg_map kaiguan then 4
      else if check_is_daduizi L kaiguan then 2 else 1)"

lemma better_type_max: "1 \<le> t \<Longrightarrow> better_type m pg kg h t = max t (kind m pg kg (hpd_list h))"
  by (simp add: better_type_def kind_def Let_def)

lemma fold_better:
  assumes "1 \<le> t" "t' = fold (better_type m pg kg) info t"
  shows "t \<le> t' \<and> (\<forall>h \<in> set info. kind m pg kg (hpd_list h) \<le> t') \<and>
    (t' = t \<or> (\<exists>h \<in> set info. kind m pg kg (hpd_list h) = t'))"
  using assms
proof (induction info arbitrary: t)
  case (Cons h info)
  let ?u = "max t (kind m pg kg (hpd_list h))"
  have "1 \<le> ?u" "t' = fold (better_type m pg kg) info ?u" using Cons.prems by (simp_all add: better_type_max)
  from Cons.IH [OF this] show ?case by (auto simp: max_def split: if_splits)
qed simp

lemma kind_positive: "1 \<le> kind m pg kg L"
  by (simp add: kind_def)

lemma kind_mset: "mset L = mset L' \<Longrightarrow> kind m pg kg L = kind m pg kg L'"
  using mset_eq_setD [of L L']
  by (simp add: kind_def check_is_jiangdui_def check_is_yaojiu_def check_is_daduizi_def list_all_iff)

definition seven_pairs :: "PAI_MAP \<Rightarrow> KAI_GUAN \<Rightarrow> int \<Rightarrow> bool" where
  "seven_pairs pai_map kaiguan mx \<longleftrightarrow>
     check_kg kaiguan ''qi_dui'' \<and> hand_size pai_map = mx \<and> (\<forall>t. map_get pai_map t \<in> {0, 2, 4})"

lemma check_7d_iff:
  assumes "hand_ok m"
  shows "check_7d_hupai_info m (hand_size m) kg mx \<longleftrightarrow> seven_pairs m kg mx"
proof -
  have ok: "map_ok m" using assms by (simp add: hand_ok_def)
  have "list_all (\<lambda>(_, n). \<not> (0 < n \<and> n \<noteq> 2 \<and> n \<noteq> 4)) m \<longleftrightarrow> (\<forall>t. map_get m t \<in> {0, 2, 4})"
  proof
    assume l: "list_all (\<lambda>(_, n). \<not> (0 < n \<and> n \<noteq> 2 \<and> n \<noteq> 4)) m"
    show "\<forall>t. map_get m t \<in> {0, 2, 4}"
    proof
      fix t
      show "map_get m t \<in> {0, 2, 4}"
        using l hand_nonzero [OF assms, of t] by (cases "map_get m t = 0") (auto simp: list_all_iff)
    qed
  next
    assume t: "\<forall>t. map_get m t \<in> {0, 2, 4}"
    show "list_all (\<lambda>(_, n). \<not> (0 < n \<and> n \<noteq> 2 \<and> n \<noteq> 4)) m"
      unfolding list_all_iff
    proof (clarify, goal_cases)
      case (1 k n)
      have "map_get m k \<in> {0, 2, 4}" using t by blast
      then show ?case using 1 map_ok_get [OF ok, of k n] by auto
    qed
  qed
  then show ?thesis by (auto simp: check_7d_hupai_info_def seven_pairs_def)
qed

text \<open>The best kind among all decompositions and seven pairs; 0 if there is none.\<close>

definition best_kind :: "PAI_MAP \<Rightarrow> PG_MAP \<Rightarrow> KAI_GUAN \<Rightarrow> int \<Rightarrow> int \<Rightarrow> bool" where
  "best_kind m pg kg mx t \<longleftrightarrow>
     (\<forall>L. complete_hand (map_get m) (mset L) \<longrightarrow> kind m pg kg L \<le> t) \<and> (seven_pairs m kg mx \<longrightarrow> 3 \<le> t) \<and>
     (t = 0 \<and> (\<nexists>L. complete_hand (map_get m) (mset L)) \<and> \<not> seven_pairs m kg mx \<or>
      (\<exists>L. complete_hand (map_get m) (mset L) \<and> kind m pg kg L = t) \<or> seven_pairs m kg mx \<and> t = 3)"

lemma hupai_type_best:
  assumes ok: "hand_ok m"
    and sound: "\<forall>h \<in> set info. complete_hand (map_get m) (mset (hpd_list h))"
    and comp: "\<forall>D. complete_hand (map_get m) D \<longrightarrow> (\<exists>h \<in> set info. mset (hpd_list h) = D)"
  shows "best_kind m pg kg mx (hupai_type m pg (hand_size m) kg mx info)"
proof (cases "info = []")
  case True
  then have none: "\<not> complete_hand (map_get m) D" for D using comp by auto
  show ?thesis using True none by (auto simp: best_kind_def hupai_type_def Let_def check_7d_iff [OF ok])
next
  case False
  define t where "t = fold (better_type m pg kg) info 1"
  note fb = fold_better [OF order_refl t_def]
  have ex: "\<exists>h \<in> set info. kind m pg kg (hpd_list h) = t"
  proof (cases "t = 1")
    case True
    obtain h where h: "h \<in> set info" using False by (cases info) auto
    then have "kind m pg kg (hpd_list h) = 1" using fb True kind_positive [of m pg kg "hpd_list h"] by (simp add: order_antisym)
    then show ?thesis using h True by auto
  qed (use fb in auto)
  have up: "kind m pg kg L \<le> t" if L: "complete_hand (map_get m) (mset L)" for L
  proof -
    obtain h where h: "h \<in> set info" "mset (hpd_list h) = mset L" using comp L by blast
    then show ?thesis using fb kind_mset [OF h(2), of m pg kg] by auto
  qed
  have t: "hupai_type m pg (hand_size m) kg mx info = (if seven_pairs m kg mx \<and> t < 3 then 3 else t)"
    using False by (simp add: hupai_type_def t_def Let_def check_7d_iff [OF ok])
  obtain L where L: "complete_hand (map_get m) (mset L)" "kind m pg kg L = t" using ex sound by blast
  show ?thesis
  proof (cases "seven_pairs m kg mx \<and> t < 3")
    case True
    then show ?thesis using t up by (force simp: best_kind_def)
  next
    case False
    then show ?thesis using t up L unfolding best_kind_def by auto
  qed
qed

definition suit_count :: "PAI_MAP \<Rightarrow> PG_MAP \<Rightarrow> int" where
  "suit_count m pg = int (card (suits_used m pg \<inter> {1, 2, 3}))"

lemma card_three: "int (card (S \<inter> {1, 2, 3})) = (if (1 :: int) \<in> S then 1 else 0) + (if 2 \<in> S then 1 else 0) + (if 3 \<in> S then 1 else 0)"
  by (auto simp: Int_insert_right)

lemma get_hupai_cases:
  assumes ok: "hand_ok m"
  obtains t where "best_kind m pg kg mx t"
    "get_hupai_info m pg must_que kg mt mx out =
       Some (if hand_size m + 3 * int (length pg) \<noteq> mx \<or> 2 < suit_count m pg \<or> must_que \<noteq> 0 \<and> must_que \<in> suits_used m pg
             then (False, out)
             else if t \<noteq> 0 then (True, hupai_value m pg (suit_count m pg) kg mt t (out\<lparr>hu_mul := 0, hu_geng_num := 0\<rparr>))
             else (False, out\<lparr>hu_mul := 0, hu_geng_num := 0\<rparr>))"
proof -
  obtain h where hs: "hand_suits m pg = (hand_size m, 3 * int (length pg), h)"
    and h: "\<And>k. map_get h k = (if k \<in> suits_used m pg then 1 else 0)" using hand_suits_eq [OF ok, of pg] by metis
  have sc: "map_get h 1 + map_get h 2 + map_get h 3 = suit_count m pg" by (simp only: suit_count_def card_three h)
  obtain m' list' info where run: "compute_nor_hupai_info m 11 (hand_size m) 0 [] 0 [] = Some (m', list', info)"
    and info: "\<forall>h \<in> set info. complete_hand (map_get m) (mset (hpd_list h))"
      "\<forall>D. complete_hand (map_get m) D \<longrightarrow> (\<exists>h \<in> set info. mset (hpd_list h) = D)"
    using search [OF ok] by metis
  let ?t = "hupai_type m pg (hand_size m) kg mx info"
  have "best_kind m pg kg mx ?t" using hupai_type_best [OF ok info] .
  moreover have "hand_rejected mx must_que (hand_size m, 3 * int (length pg), h) \<longleftrightarrow>
      hand_size m + 3 * int (length pg) \<noteq> mx \<or> 2 < suit_count m pg \<or> must_que \<noteq> 0 \<and> must_que \<in> suits_used m pg"
    unfolding hand_rejected_def sc [symmetric] by (auto simp: h)
  ultimately show ?thesis
    using that [of ?t] run by (simp add: get_hupai_info_def compute_hupai_info_def hs sc Let_def)
qed

text \<open>
  C24. Which hands win: \<^verbatim>\<open>get_hupai_info\<close> answers for every hand, and answers yes exactly
  if the hand with its exposed sets has the full number of tiles and at most two
  suits, does not contain the suit the player gave up, and can be taken apart into
  triplets, runs and one pair, or is a closed hand of pairs (where the switch for
  seven pairs is on; four equal tiles are two pairs).
\<close>

theorem get_hupai_wins:
  assumes "hand_ok pai_map"
  shows "\<exists>b out'. get_hupai_info pai_map pg_map must_que kaiguan multi_types mx out = Some (b, out') \<and>
    (b \<longleftrightarrow> hand_size pai_map + 3 * int (length pg_map) = mx \<and> suit_count pai_map pg_map \<le> 2 \<and>
       \<not> (must_que \<noteq> 0 \<and> must_que \<in> suits_used pai_map pg_map) \<and>
       ((\<exists>D. complete_hand (map_get pai_map) D) \<or> seven_pairs pai_map kaiguan mx))"
proof -
  obtain t where bk: "best_kind pai_map pg_map kaiguan mx t" and run: "get_hupai_info pai_map pg_map must_que kaiguan multi_types mx out =
       Some (if hand_size pai_map + 3 * int (length pg_map) \<noteq> mx \<or> 2 < suit_count pai_map pg_map \<or> must_que \<noteq> 0 \<and> must_que \<in> suits_used pai_map pg_map
             then (False, out)
             else if t \<noteq> 0 then (True, hupai_value pai_map pg_map (suit_count pai_map pg_map) kaiguan multi_types t (out\<lparr>hu_mul := 0, hu_geng_num := 0\<rparr>))
             else (False, out\<lparr>hu_mul := 0, hu_geng_num := 0\<rparr>))"
    using get_hupai_cases [OF assms, of pg_map kaiguan mx must_que multi_types out] .
  have "t \<noteq> 0 \<longleftrightarrow> (\<exists>L. complete_hand (map_get pai_map) (mset L)) \<or> seven_pairs pai_map kaiguan mx"
  proof -
    have "kind pai_map pg_map kaiguan L \<noteq> 0" for L using kind_positive [of pai_map pg_map kaiguan L] by simp
    moreover have "\<not> kind pai_map pg_map kaiguan L \<le> 0" for L using kind_positive [of pai_map pg_map kaiguan L] by simp
    ultimately show ?thesis using bk unfolding best_kind_def by auto
  qed
  moreover have "(\<exists>L. complete_hand (map_get pai_map) (mset L)) \<longleftrightarrow> (\<exists>D. complete_hand (map_get pai_map) D)" by (metis ex_mset)
  ultimately have t: "t \<noteq> 0 \<longleftrightarrow> (\<exists>D. complete_hand (map_get pai_map) D) \<or> seven_pairs pai_map kaiguan mx" by simp
  show ?thesis unfolding run using t by (auto simp: not_less)
qed

theorem get_hupai_wins_witness:
  "\<exists>b out'. get_hupai_info sample_hand [(27, ''peng'')] 3 [] [] 14 new_hupai_info = Some (b, out') \<and>
    (b \<longleftrightarrow> hand_size sample_hand + 3 * int (length [(27 :: int, ''peng'')]) = 14 \<and> suit_count sample_hand [(27, ''peng'')] \<le> 2 \<and>
       \<not> (3 \<noteq> (0 :: int) \<and> 3 \<in> suits_used sample_hand [(27, ''peng'')]) \<and>
       ((\<exists>D. complete_hand (map_get sample_hand) D) \<or> seven_pairs sample_hand [] 14))"
  by (rule get_hupai_wins [OF sample_hand_ok(1)])

text \<open>
  C25. The best kind counts: when \<^verbatim>\<open>get_hupai_info\<close> says that a hand wins, what it
  reports is the value of the best kind among all ways to take the hand apart and
  seven pairs (plain, only triplets, seven pairs, only end tiles, only the ranks 2, 5
  and 8, in this order), not that of the first way found.
\<close>

theorem get_hupai_best:
  assumes "hand_ok pai_map" "get_hupai_info pai_map pg_map must_que kaiguan multi_types mx out = Some (True, out')"
  shows "\<exists>t. best_kind pai_map pg_map kaiguan mx t \<and> t \<noteq> 0 \<and>
    out' = hupai_value pai_map pg_map (suit_count pai_map pg_map) kaiguan multi_types t (out\<lparr>hu_mul := 0, hu_geng_num := 0\<rparr>)"
proof -
  obtain t where bk: "best_kind pai_map pg_map kaiguan mx t" and run: "get_hupai_info pai_map pg_map must_que kaiguan multi_types mx out =
       Some (if hand_size pai_map + 3 * int (length pg_map) \<noteq> mx \<or> 2 < suit_count pai_map pg_map \<or> must_que \<noteq> 0 \<and> must_que \<in> suits_used pai_map pg_map
             then (False, out)
             else if t \<noteq> 0 then (True, hupai_value pai_map pg_map (suit_count pai_map pg_map) kaiguan multi_types t (out\<lparr>hu_mul := 0, hu_geng_num := 0\<rparr>))
             else (False, out\<lparr>hu_mul := 0, hu_geng_num := 0\<rparr>))"
    using get_hupai_cases [OF assms(1), of pg_map kaiguan mx must_que multi_types out] .
  then show ?thesis using assms(2) by (intro exI [of _ t]) (simp split: if_splits)
qed

text \<open>The hand 111 222 333 with a pair is both three runs and three triplets; with the switch on it counts as triplets.\<close>

definition sample_switches :: KAI_GUAN where
  "sample_switches = [(''da_dui_zi'', True)]"

theorem get_hupai_best_witness:
  "\<exists>out' t. get_hupai_info sample_hand [(27, ''peng'')] 3 sample_switches [(''da_dui_zi'', 2)] 14 new_hupai_info = Some (True, out') \<and>
     best_kind sample_hand [(27, ''peng'')] sample_switches 14 t \<and>
     out' = hupai_value sample_hand [(27, ''peng'')] (suit_count sample_hand [(27, ''peng'')]) sample_switches [(''da_dui_zi'', 2)] t
       (new_hupai_info\<lparr>hu_mul := 0, hu_geng_num := 0\<rparr>) \<and> hu_mul out' = 2"
proof -
  let ?c = "get_hupai_info sample_hand [(27, ''peng'')] 3 sample_switches [(''da_dui_zi'', 2)] 14 new_hupai_info"
  have "case ?c of Some (b, out) \<Rightarrow> b \<and> hu_mul out = 2 | None \<Rightarrow> False" by code_simp
  then obtain out' where out: "?c = Some (True, out')" "hu_mul out' = 2" by (auto split: option.splits)
  from get_hupai_best [OF sample_hand_ok(1) out(1)] show ?thesis using out by blast
qed

section \<open>Waiting tiles\<close>

lemma empty_hand:
  "compute_hupai_info [] pg a n kg mt mx out =
     Some (if check_7d_hupai_info [] a kg mx then (True, hupai_value [] pg n kg mt 3 (out\<lparr>hu_mul := 0, hu_geng_num := 0\<rparr>))
           else (False, out\<lparr>hu_mul := 0, hu_geng_num := 0\<rparr>))"
proof -
  have "hand_ok []" "hand_size [] = 0" by (simp_all add: hand_ok_def map_ok_def hand_size_def)
  then show ?thesis by (simp add: compute_hupai_info_def search_none hupai_type_def Let_def)
qed

lemma ting_loop_none:
  assumes "\<not> check_kg kg ''qi_dui''"
  shows "\<exists>copy'. ting_loop pg n kg mt mx ss (copy, out) = Some (copy', out)"
proof (induction ss arbitrary: copy)
  case (Cons s ss)
  have "\<not> check_7d_hupai_info [] a kg mx" for a using assms by (simp add: check_7d_hupai_info_def)
  then have "\<exists>copy1. ting_round pg n kg mt mx s (copy, out) = Some (copy1, out)"
    by (simp add: ting_round_def empty_hand Let_def)
  then show ?case using Cons.IH by auto
qed simp

text \<open>
  C26. \<^verbatim>\<open>get_ting_info\<close> finds nothing: the hand it passes on to be judged, \<^verbatim>\<open>pai_map_copy_tmp\<close>,
  is a new empty map and not the hand with the tile added.  Unless the switch for
  seven pairs is on, it never reports a tile the player waits for, whatever the hand.
\<close>

theorem ting_reports_nothing:
  assumes "\<not> check_kg kaiguan ''qi_dui''"
  shows "\<exists>b. get_ting_info pai_map pg_map must_que kaiguan multi_types mx out = Some (b, out)"
proof (cases "hand_rejected mx must_que (hand_suits pai_map pg_map)")
  case True
  then show ?thesis by (intro exI [of _ False]) (simp add: get_ting_info_def Let_def)
next
  case False
  obtain c1 c2 h where h: "hand_suits pai_map pg_map = (c1, c2, h)" by (metis surj_pair)
  obtain copy where loop: "ting_loop pg_map (map_get h 1 + map_get h 2 + map_get h 3) kaiguan multi_types mx [11..39] (pai_map, out) = Some (copy, out)"
    using ting_loop_none [OF assms] by blast
  have "get_ting_info pai_map pg_map must_que kaiguan multi_types mx out = Some (True, out)"
    using False unfolding get_ting_info_def Let_def h by (simp only: if_False prod.case loop bind.bind_lunit)
  then show ?thesis by blast
qed

text \<open>The hand 123 456 789 and 111 22 waits for several tiles; with all counts right and no switch, none is reported.\<close>

theorem ting_reports_nothing_witness:
  "\<not> check_kg [(''qi_dui'', False)] ''qi_dui'' \<and>
   (\<exists>b. get_ting_info [(11, 4), (12, 3), (13, 1), (14, 1), (15, 1), (16, 1), (17, 1), (18, 1)] [] 3 [(''qi_dui'', False)] [] 13 [] = Some (b, []))"
proof -
  have sw: "\<not> check_kg [(''qi_dui'', False)] ''qi_dui''" by (simp add: check_kg_def)
  from ting_reports_nothing [OF sw] show ?thesis using sw by blast
qed

text \<open>
  With the switch for seven pairs on, \<^verbatim>\<open>get_ting_info\<close> reports a wrong tile: in C++
  \<^verbatim>\<open>pai_map_copy[s] or 0\<close> is a truth value, so a pair becomes one tile before one is
  added; from then on the hand is one tile short, the tile on trial makes the number
  right, and the empty hand passes for seven pairs.  A hand of one pair and twelve
  single tiles is reported to complete seven pairs with each of sixteen tiles.
\<close>

theorem ting_reports_wrong:
  "map_option (\<lambda>(b, out). (b, map ting_pai out, list_all (\<lambda>t. map fst (hu_type_info (ting_hu_type_info t)) = [''qi_dui'']) out))
     (get_ting_info [(11, 2), (12, 1), (13, 1), (14, 1), (15, 1), (16, 1), (17, 1), (18, 1), (19, 1), (21, 1), (23, 1), (25, 1), (27, 1)]
        [] 3 [(''qi_dui'', True)] [(''qi_dui'', 4)] 14 []) =
   Some (True, [11, 12, 13, 14, 15, 16, 17, 18, 19, 21, 22, 23, 24, 25, 26, 27], True)"
  by code_simp

end
