(* ===== verification/Mj_Table.thy ===== *)
theory Mj_Table
  imports Majiang_Hands
begin

text \<open>
  The tables of winning combinations of one suit
  (\<^verbatim>\<open>3rd/majiang/mj_hupai_typ_compute.cpp\<close>): a combination is an array of the
  counts of the ranks 1 to 9 (entry 0 is not used), written as a decimal number with
  one digit for each rank.  The numbers have at most nine digits up to 4, far below
  the range of \<^verbatim>\<open>int\<close>.
\<close>

section \<open>Combinations as numbers\<close>

type_synonym pai_array = "int list"

fun hash_loop :: "pai_array \<Rightarrow> nat \<Rightarrow> int \<Rightarrow> int \<Rightarrow> int" where
  "hash_loop pai_map 0 v hash_v = hash_v"
| "hash_loop pai_map (Suc i) v hash_v =
     hash_loop pai_map i (v * 10) (if pai_map ! Suc i \<noteq> 0 then hash_v + pai_map ! Suc i * v else hash_v)"

definition get_pai_hash_value :: "pai_array \<Rightarrow> int" where
  "get_pai_hash_value pai_map = hash_loop pai_map 9 1 0"

fun color_loop :: "PAI_MAP \<Rightarrow> int \<Rightarrow> nat \<Rightarrow> int \<Rightarrow> int \<Rightarrow> int" where
  "color_loop pai_map s 0 v hash_v = hash_v"
| "color_loop pai_map s (Suc n) v hash_v =
     color_loop pai_map s n (v * 10)
       (case map_of pai_map (s + int (Suc n)) of None \<Rightarrow> hash_v | Some c \<Rightarrow> hash_v + c * v)"

definition get_pai_hash_value_by_color :: "PAI_MAP \<Rightarrow> int \<Rightarrow> int" where
  "get_pai_hash_value_by_color pai_map color = color_loop pai_map (color * 10) 9 1 0"

fun num_loop :: "nat \<Rightarrow> pai_array \<Rightarrow> int \<Rightarrow> int \<Rightarrow> int \<times> pai_array" where
  "num_loop 0 pai_map num cnt = (cnt, pai_map)"
| "num_loop (Suc i) pai_map num cnt =
     (let d = c_rem num 10; pai_map = pai_map[Suc i := d]; num = c_quot num 10 in
      if num = 0 then (cnt + d, pai_map) else num_loop i pai_map num (cnt + d))"

definition get_pai_value_by_num :: "pai_array \<Rightarrow> int \<Rightarrow> int \<times> pai_array" where
  "get_pai_value_by_num pai_map num = num_loop 9 pai_map num 0"

fun pai_map_loop :: "PAI_MAP \<Rightarrow> int \<Rightarrow> nat \<Rightarrow> pai_array \<Rightarrow> int \<Rightarrow> int \<times> pai_array" where
  "pai_map_loop re_pai_hash color 0 pai_map cnt = (cnt, pai_map)"
| "pai_map_loop re_pai_hash color (Suc i) pai_map cnt =
     (case map_of re_pai_hash (color * 10 + int (Suc i)) of
        Some c \<Rightarrow> pai_map_loop re_pai_hash color i (pai_map[Suc i := c]) (cnt + c)
      | None \<Rightarrow> pai_map_loop re_pai_hash color i (pai_map[Suc i := 0]) cnt)"

definition get_pai_value_by_pai_map :: "pai_array \<Rightarrow> PAI_MAP \<Rightarrow> int \<Rightarrow> int \<times> pai_array" where
  "get_pai_value_by_pai_map pai_map re_pai_hash color = pai_map_loop re_pai_hash color 9 pai_map 0"

section \<open>Building up combinations\<close>

text \<open>The number of tiles and the counts; an addition may be refused.\<close>

type_synonym pai_state = "int \<times> pai_array"

definition add_jiang :: "nat \<Rightarrow> pai_state \<Rightarrow> pai_state option" where
  "add_jiang pai_no st =
     (case st of (pai_count, pai_map) \<Rightarrow>
        if pai_count + 2 < 15 \<and> pai_map ! pai_no + 2 < 5
        then Some (pai_count + 2, pai_map[pai_no := pai_map ! pai_no + 2]) else None)"

definition bump :: "int \<Rightarrow> nat \<Rightarrow> pai_array \<Rightarrow> pai_array" where
  "bump d pai_no pai_map =
     (let m = pai_map[pai_no := pai_map ! pai_no + d];
          m = m[pai_no + 1 := m ! (pai_no + 1) + d]
      in m[pai_no + 2 := m ! (pai_no + 2) + d])"

definition add_shunzi :: "nat \<Rightarrow> pai_state \<Rightarrow> pai_state option" where
  "add_shunzi pai_no st =
     (case st of (pai_count, pai_map) \<Rightarrow>
        if pai_no < 8 \<and> pai_count + 3 < 15 \<and> pai_map ! pai_no + 1 < 5 \<and> pai_map ! (pai_no + 1) + 1 < 5 \<and>
           pai_map ! (pai_no + 2) + 1 < 5
        then Some (pai_count + 3, bump 1 pai_no pai_map) else None)"

definition add_duizi :: "nat \<Rightarrow> pai_state \<Rightarrow> pai_state option" where
  "add_duizi pai_no st =
     (case st of (pai_count, pai_map) \<Rightarrow>
        if pai_count + 3 < 15 \<and> pai_map ! pai_no + 3 < 5
        then Some (pai_count + 3, pai_map[pai_no := pai_map ! pai_no + 3]) else None)"

definition reduce_jiang :: "nat \<Rightarrow> pai_state \<Rightarrow> pai_state" where
  "reduce_jiang pai_no st = (case st of (pai_count, pai_map) \<Rightarrow> (pai_count - 2, pai_map[pai_no := pai_map ! pai_no - 2]))"

definition reduce_shunzi :: "nat \<Rightarrow> pai_state \<Rightarrow> pai_state" where
  "reduce_shunzi pai_no st = (case st of (pai_count, pai_map) \<Rightarrow> (pai_count - 3, bump (- 1) pai_no pai_map))"

definition reduce_duizi :: "nat \<Rightarrow> pai_state \<Rightarrow> pai_state" where
  "reduce_duizi pai_no st = (case st of (pai_count, pai_map) \<Rightarrow> (pai_count - 3, pai_map[pai_no := pai_map ! pai_no - 3]))"

text \<open>The rounds of the three loops of \<^verbatim>\<open>get_hp_type_count\<close>, one after the other.\<close>

datatype round = Jiang nat | Shunzi nat | Duizi nat

definition rounds :: "bool \<Rightarrow> round list" where
  "rounds is_jiang = (if is_jiang then [] else map Jiang [1..<10]) @ map Shunzi [0..<10] @ map Duizi [0..<10]"

definition add_round :: "round \<Rightarrow> pai_state \<Rightarrow> pai_state option" where
  "add_round r st =
     (case r of
        Jiang i \<Rightarrow> add_jiang i st
      | Shunzi i \<Rightarrow> if 0 < i then add_shunzi i st else None
      | Duizi i \<Rightarrow> if 0 < i then add_duizi i st else None)"

definition reduce_round :: "round \<Rightarrow> pai_state \<Rightarrow> pai_state" where
  "reduce_round r st =
     (case r of Jiang i \<Rightarrow> reduce_jiang i st | Shunzi i \<Rightarrow> reduce_shunzi i st | Duizi i \<Rightarrow> reduce_duizi i st)"

record hp_lists =
  hp_count :: int
  hp_list :: "int list"
  hp_jiang_list :: "int list"

definition record_hash :: "bool \<Rightarrow> int \<Rightarrow> hp_lists \<Rightarrow> hp_lists" where
  "record_hash is_jiang h out =
     (if is_jiang then out\<lparr>hp_count := hp_count out + 1, hp_jiang_list := hp_jiang_list out @ [h]\<rparr>
      else out\<lparr>hp_count := hp_count out + 1, hp_list := hp_list out @ [h]\<rparr>)"

definition is_pair :: "round \<Rightarrow> bool" where
  "is_pair r = (case r of Jiang _ \<Rightarrow> True | _ \<Rightarrow> False)"

text \<open>The remaining rounds \<open>rs\<close> of one call; a round that adds a set makes a call of its own.\<close>

partial_function (option) hp_rounds ::
  "bool \<Rightarrow> round list \<Rightarrow> pai_state \<Rightarrow> hp_lists \<Rightarrow> (pai_state \<times> hp_lists) option" where
  "hp_rounds is_jiang rs st out =
     (case rs of
        [] \<Rightarrow> Some (st, out)
      | r # rs \<Rightarrow>
          (case add_round r st of
             None \<Rightarrow> hp_rounds is_jiang rs st out
           | Some st' \<Rightarrow>
               let j = (is_jiang \<or> is_pair r) in
               Option.bind (hp_rounds j (rounds j) st' (record_hash j (get_pai_hash_value (snd st')) out))
                 (\<lambda>(st', out). hp_rounds is_jiang rs (reduce_round r st') out)))"

declare hp_rounds.simps [code]

definition get_hp_type_count :: "bool \<Rightarrow> pai_state \<Rightarrow> hp_lists \<Rightarrow> (pai_state \<times> hp_lists) option" where
  "get_hp_type_count is_jiang st out = hp_rounds is_jiang (rounds is_jiang) st out"

section \<open>Combinations that lack some tiles\<close>

text \<open>The combinations of the current and of the next level, and for each number those with one tile more.\<close>

definition my_dp_limit :: nat where
  "my_dp_limit = 5"

record dp_state =
  dp_hu_type_map :: "(int, bool) std_map \<times> (int, bool) std_map"
  hu_type_father :: "(int, int list) std_map"

definition dp_get :: "nat \<Rightarrow> dp_state \<Rightarrow> (int, bool) std_map" where
  "dp_get pos dp = (if pos = 0 then fst (dp_hu_type_map dp) else snd (dp_hu_type_map dp))"

definition dp_set :: "nat \<Rightarrow> (int, bool) std_map \<Rightarrow> dp_state \<Rightarrow> dp_state" where
  "dp_set pos m dp =
     dp\<lparr>dp_hu_type_map := (if pos = 0 then (m, snd (dp_hu_type_map dp)) else (fst (dp_hu_type_map dp), m))\<rparr>"

definition push_father :: "int \<Rightarrow> int \<Rightarrow> (int, int list) std_map \<Rightarrow> (int, int list) std_map" where
  "push_father v num fathers = map_put v ((case map_of fathers v of None \<Rightarrow> [] | Some ns \<Rightarrow> ns) @ [num]) fathers"

definition next_level :: "nat \<Rightarrow> int \<Rightarrow> pai_array \<Rightarrow> nat \<Rightarrow> dp_state \<Rightarrow> dp_state" where
  "next_level pos num pai_map i dp =
     (if 0 < pai_map ! i then
        let v = get_pai_hash_value (pai_map[i := pai_map ! i - 1]);
            dp = dp_set pos (map_put v True (dp_get pos dp)) dp
        in dp\<lparr>hu_type_father := push_father v num (hu_type_father dp)\<rparr>
      else dp)"

definition jisuan_next_level_type :: "nat \<Rightarrow> int \<Rightarrow> dp_state \<Rightarrow> dp_state" where
  "jisuan_next_level_type pos num dp =
     (let pai_map = snd (get_pai_value_by_num (replicate 10 0) num)
      in fold (next_level pos num pai_map) [1..<10] dp)"

function get_paixing_hp_relation_by_dp :: "nat \<Rightarrow> dp_state \<Rightarrow> dp_state" where
  "get_paixing_hp_relation_by_dp r_count dp =
     (if my_dp_limit < r_count then dp
      else
        let pos = (r_count + 1) mod 2;
            next_pos = (if pos + 1 > 1 then 0 else pos + 1);
            dp = fold (jisuan_next_level_type next_pos) (map fst (dp_get pos dp)) dp
        in get_paixing_hp_relation_by_dp (r_count + 1) (dp_set pos [] dp))"
  by pat_completeness auto
termination
  by (relation "measure (\<lambda>(r, dp). my_dp_limit + 1 - r)") auto

declare get_paixing_hp_relation_by_dp.simps [simp del]

definition get_paixing_hp_relation :: "int list \<Rightarrow> dp_state \<Rightarrow> dp_state" where
  "get_paixing_hp_relation hps dp =
     (let dp = fold (\<lambda>h dp. (dp_set 0 (map_put h True (dp_get 0 dp)) dp)\<lparr>hu_type_father := map_put h [] (hu_type_father dp)\<rparr>) hps dp
      in get_paixing_hp_relation_by_dp 1 dp)"

text \<open>
  The two tables \<^verbatim>\<open>no_jiang_nor_mj_hp_relation_map\<close> and \<^verbatim>\<open>jiang_nor_mj_hp_relation_map\<close>.
  The globals are empty when the program starts, which is when it is called.  The arrays
  for the lists have room for two million numbers each, of which 48,553 and 1,611,192
  are used.
\<close>

definition create_hu_relation_hash :: "((int, int list) std_map \<times> (int, int list) std_map) option" where
  "create_hu_relation_hash =
     Option.bind (get_hp_type_count False (0, replicate 10 0) \<lparr>hp_count = 0, hp_list = [], hp_jiang_list = []\<rparr>) (\<lambda>(_, out).
     let empty_dp = \<lparr>dp_hu_type_map = ([], []), hu_type_father = []\<rparr> in
     Some (hu_type_father (get_paixing_hp_relation (hp_list out) empty_dp),
           hu_type_father (get_paixing_hp_relation (hp_jiang_list out) empty_dp)))"

section \<open>Numbers and counts\<close>

definition digits_ok :: "pai_array \<Rightarrow> bool" where
  "digits_ok m \<longleftrightarrow> length m = 10 \<and> m ! 0 = 0 \<and> (\<forall>i \<in> {1..9}. 0 \<le> m ! i \<and> m ! i \<le> 9)"

lemma hash_loop_sum:
  "hash_loop m n v h = h + (\<Sum>i \<in> {1..n}. m ! i * (v * 10 ^ (n - i)))"
proof (induction n arbitrary: v h)
  case (Suc n)
  have "(\<Sum>i \<in> {1..n}. m ! i * (v * 10 * 10 ^ (n - i))) = (\<Sum>i \<in> {1..n}. m ! i * (v * 10 ^ (Suc n - i)))"
    by (rule sum.cong) (auto simp: Suc_diff_le)
  then show ?case by (auto simp: Suc)
qed simp

lemma hash_step: "hash_loop m (Suc n) 1 0 = m ! Suc n + 10 * hash_loop m n 1 0"
proof -
  have "(\<Sum>i \<in> {1..n}. m ! i * 10 ^ (Suc n - i)) = 10 * (\<Sum>i \<in> {1..n}. m ! i * 10 ^ (n - i))"
    unfolding sum_distrib_left by (rule sum.cong) (auto simp: Suc_diff_le)
  then show ?thesis by (simp add: hash_loop_sum)
qed

lemma hash_nonneg: "(\<forall>i \<in> {1..n}. 0 \<le> m ! i) \<Longrightarrow> 0 \<le> hash_loop m n 1 0"
  by (auto simp: hash_loop_sum intro!: sum_nonneg)

lemma hash_zero:
  assumes "\<forall>i \<in> {1..n}. 0 \<le> m ! i" "hash_loop m n 1 0 = 0" "i \<in> {1..n}"
  shows "m ! i = 0"
proof -
  have "(\<Sum>i \<in> {1..n}. m ! i * 10 ^ (n - i)) = 0" using assms(2) by (simp add: hash_loop_sum)
  then have "\<forall>i \<in> {1..n}. m ! i * 10 ^ (n - i) = 0"
    using assms(1) by (subst (asm) sum_nonneg_eq_0_iff) auto
  then show ?thesis using assms(3) by auto
qed

text \<open>Reading a number back gives the counts.\<close>

lemma num_loop_hash:
  assumes "length acc = 10" "length m = 10" "n \<le> 9" "\<forall>i \<in> {1..n}. 0 \<le> m ! i \<and> m ! i \<le> 9"
    and "\<forall>i < 10. n < i \<longrightarrow> acc ! i = m ! i" "\<forall>i \<le> n. acc ! i = 0" "m ! 0 = 0"
  shows "num_loop n acc (hash_loop m n 1 0) c = (c + (\<Sum>i \<in> {1..n}. m ! i), m)"
  using assms
proof (induction n arbitrary: acc c)
  case 0
  have "acc = m"
  proof (rule nth_equalityI)
    fix i assume "i < length acc"
    then show "acc ! i = m ! i" using 0 by (cases "i = 0") auto
  qed (use 0 in simp)
  then show ?case by simp
next
  case (Suc n)
  let ?h = "hash_loop m n 1 0" and ?d = "m ! Suc n"
  have d: "0 \<le> ?d" "?d \<le> 9" and nn: "\<forall>i \<in> {1..n}. 0 \<le> m ! i" using Suc.prems(4) by auto
  have h: "0 \<le> ?h" using hash_nonneg [OF nn] .
  have num: "c_rem (?d + 10 * ?h) 10 = ?d" "c_quot (?d + 10 * ?h) 10 = ?h"
    using d h by (simp_all add: c_rem_nonneg c_quot_nonneg)
  let ?acc = "acc[Suc n := ?d]"
  show ?case
  proof (cases "?h = 0")
    case True
    then have z: "m ! i = 0" if "i \<in> {1..n}" for i using hash_zero [OF nn True] that by blast
    have "?acc = m"
    proof (rule nth_equalityI)
      fix i assume "i < length ?acc"
      then show "?acc ! i = m ! i" using Suc.prems z by (cases "i = 0"; cases "i \<le> n"; cases "i = Suc n") auto
    qed (use Suc.prems in simp)
    moreover have "(\<Sum>i \<in> {1..n}. m ! i) = 0" using z by simp
    ultimately show ?thesis using True num [unfolded True] by (simp add: hash_step Let_def del: hash_loop.simps)
  next
    case False
    have "num_loop n ?acc ?h (c + ?d) = (c + ?d + (\<Sum>i \<in> {1..n}. m ! i), m)"
      by (rule Suc.IH) (use Suc.prems in \<open>auto simp: nth_list_update\<close>)
    then show ?thesis using False by (simp add: hash_step num Let_def del: hash_loop.simps)
  qed
qed

lemma digits_length: "digits_ok m \<Longrightarrow> length m = 10"
  by (simp add: digits_ok_def)

text \<open>
  Numbers of combinations read back: for counts of at most 9 each (a suit has 4
  of each tile), \<^verbatim>\<open>get_pai_value_by_num\<close> on a cleared array restores exactly the counts
  that \<^verbatim>\<open>get_pai_hash_value\<close> packed into the number, and returns how many tiles they are.
\<close>

theorem pai_hash_roundtrip:
  assumes "digits_ok m"
  shows "get_pai_value_by_num (replicate 10 0) (get_pai_hash_value m) = ((\<Sum>i \<in> {1..9}. m ! i), m)"
proof -
  have "num_loop 9 (replicate 10 0) (hash_loop m 9 1 0) 0 = (0 + (\<Sum>i \<in> {1..9}. m ! i), m)"
    by (rule num_loop_hash) (use assms in \<open>auto simp: digits_ok_def\<close>)
  then show ?thesis by (simp only: get_pai_value_by_num_def get_pai_hash_value_def add_0)
qed

theorem pai_hash_roundtrip_witness:
  "get_pai_value_by_num (replicate 10 0) (get_pai_hash_value [0, 3, 0, 1, 1, 1, 0, 4, 0, 2]) =
     ((\<Sum>i \<in> {1..9}. [0, 3, 0, 1, 1, 1, 0, 4, 0, 2] ! i), [0, 3, 0, 1, 1, 1, 0, 4, 0, 2])"
  by (rule pai_hash_roundtrip) (simp add: digits_ok_def atLeastAtMostSuc_conv numeral_eq_Suc)

section \<open>The lists of combinations\<close>

text \<open>The counts of a suit as a function on ranks, and the states the search goes through.\<close>

definition arr_fun :: "pai_array \<Rightarrow> int \<Rightarrow> int" where
  "arr_fun m t = (if 1 \<le> t \<and> t \<le> 9 then m ! nat t else 0)"

definition legal :: "pai_array \<Rightarrow> bool" where
  "legal m \<longleftrightarrow> length m = 10 \<and> m ! 0 = 0 \<and> (\<forall>i \<in> {1..9}. 0 \<le> m ! i \<and> m ! i \<le> 4) \<and> (\<Sum>i \<in> {1..9}. m ! i) \<le> 14"

definition arr_size :: "pai_array \<Rightarrow> int" where
  "arr_size m = (\<Sum>i \<in> {1..9}. m ! i)"

definition round_item :: "round \<Rightarrow> PaiItem" where
  "round_item r = (case r of Jiang i \<Rightarrow> item 1 (int i) | Shunzi i \<Rightarrow> item 3 (int i) | Duizi i \<Rightarrow> item 2 (int i))"

definition round_ok :: "round \<Rightarrow> bool" where
  "round_ok r \<longleftrightarrow> (case r of Jiang i \<Rightarrow> 1 \<le> i \<and> i \<le> 9 | Shunzi i \<Rightarrow> i \<le> 9 | Duizi i \<Rightarrow> i \<le> 9)"

lemma rounds_ok: "r \<in> set (rounds j) \<Longrightarrow> round_ok r"
  by (auto simp: rounds_def round_ok_def split: if_splits)

lemma legal_eqI:
  assumes "legal m" "legal m'" "arr_fun m = arr_fun m'"
  shows "m = m'"
proof (rule nth_equalityI)
  show "length m = length m'" using assms by (simp add: legal_def)
  fix i assume "i < length m"
  then have "i < 10" using assms(1) by (simp add: legal_def)
  then show "m ! i = m' ! i"
    using fun_cong [OF assms(3), of "int i"] assms(1,2) by (cases "i = 0") (auto simp: arr_fun_def legal_def)
qed

lemma arr_size_fun: "length m = 10 \<Longrightarrow> arr_size m = (\<Sum>t \<in> {1..9}. arr_fun m t)"
proof -
  have "(\<Sum>t \<in> {1..9 :: int}. arr_fun m t) = (\<Sum>i \<in> {1..9 :: nat}. arr_fun m (int i))"
    by (rule sum.reindex_bij_witness [of _ int nat]) auto
  then show ?thesis by (simp add: arr_size_def arr_fun_def)
qed

text \<open>A round adds its set, unless more than four equal tiles or more than 14 would result.\<close>

lemma arr_fun_update:
  assumes "length m = 10" "1 \<le> i" "i \<le> 9"
  shows "arr_fun (m[i := x]) t = (if t = int i then x else arr_fun m t)"
  using assms by (auto simp: arr_fun_def nth_list_update nat_eq_iff)

lemma arr_fun_bump:
  assumes "length m = 10" "1 \<le> i" "i < 8"
  shows "arr_fun (bump d i m) t = (if int i \<le> t \<and> t \<le> int i + 2 then arr_fun m t + d else arr_fun m t)"
    "length (bump d i m) = 10" "bump d i m ! 0 = m ! 0"
proof -
  show "length (bump d i m) = 10" "bump d i m ! 0 = m ! 0" using assms by (simp_all add: bump_def Let_def)
  show "arr_fun (bump d i m) t = (if int i \<le> t \<and> t \<le> int i + 2 then arr_fun m t + d else arr_fun m t)"
  proof (cases "1 \<le> t \<and> t \<le> 9")
    case True
    then have "bump d i m ! nat t = (if i \<le> nat t \<and> nat t \<le> i + 2 then m ! nat t + d else m ! nat t)"
      using assms by (simp add: bump_def Let_def nth_list_update)
    moreover have "i \<le> nat t \<and> nat t \<le> i + 2 \<longleftrightarrow> int i \<le> t \<and> t \<le> int i + 2" using True by linarith
    ultimately show ?thesis using True by (simp add: arr_fun_def)
  next
    case False
    then show ?thesis using assms by (auto simp: arr_fun_def)
  qed
qed

lemma legal_fun:
  assumes "length m = 10" "m ! 0 = 0"
  shows "legal m \<longleftrightarrow> (\<forall>t. 0 \<le> arr_fun m t \<and> arr_fun m t \<le> 4) \<and> arr_size m \<le> 14"
proof -
  have "(\<forall>i \<in> {1..9}. 0 \<le> m ! i \<and> m ! i \<le> 4) \<longleftrightarrow> (\<forall>t. 0 \<le> arr_fun m t \<and> arr_fun m t \<le> 4)"
  proof
    assume "\<forall>t. 0 \<le> arr_fun m t \<and> arr_fun m t \<le> 4"
    moreover have "arr_fun m (int i) = m ! i" if "i \<in> {1..9}" for i using that by (simp add: arr_fun_def)
    ultimately show "\<forall>i \<in> {1..9}. 0 \<le> m ! i \<and> m ! i \<le> 4" by metis
  next
    assume r: "\<forall>i \<in> {1..9}. 0 \<le> m ! i \<and> m ! i \<le> 4"
    have "0 \<le> arr_fun m t \<and> arr_fun m t \<le> 4" for t
      using r [rule_format, of "nat t"] by (cases "1 \<le> t \<and> t \<le> 9") (auto simp: arr_fun_def nat_le_iff)
    then show "\<forall>t. 0 \<le> arr_fun m t \<and> arr_fun m t \<le> 4" by blast
  qed
  then show ?thesis using assms by (simp add: legal_def arr_size_def)
qed

text \<open>What adding the set \<open>v\<close> to the counts \<open>m\<close> gives.\<close>

definition grows :: "PaiItem \<Rightarrow> pai_array \<Rightarrow> pai_array \<Rightarrow> bool" where
  "grows v m m' \<longleftrightarrow> length m' = 10 \<and> m' ! 0 = 0 \<and> arr_fun m' = (\<lambda>t. arr_fun m t + item_count v t)"

lemma grows_size:
  assumes "grows v m m'" "length m = 10" "item_ok v"
  shows "arr_size m' = arr_size m + (3 - int (pairs_of v))"
proof -
  have eq: "arr_fun m' t = arr_fun m t + item_count v t" for t using assms(1) by (simp add: grows_def)
  have "item_count v t = 0" if "t \<notin> {1..9}" for t using eq [of t] that by (auto simp: arr_fun_def)
  then have "(\<Sum>t \<in> {1..9}. item_count v t) = 3 - int (pairs_of v)" using item_sum [OF assms(3), of "{1..9}"] by blast
  moreover have "length m' = 10" using assms(1) by (simp add: grows_def)
  ultimately show ?thesis using assms(2) by (simp only: arr_size_fun eq sum.distrib)
qed

text \<open>No legal counts are above \<open>m\<close> with \<open>v\<close> added.\<close>

definition too_much :: "PaiItem \<Rightarrow> pai_array \<Rightarrow> bool" where
  "too_much v m \<longleftrightarrow> (\<forall>m'. legal m' \<longrightarrow> \<not> (\<forall>t. arr_fun m t + item_count v t \<le> arr_fun m' t))"

lemma too_muchI:
  assumes "item_ok v" "legal m"
    and "4 < arr_fun m t + item_count v t \<or> 14 < arr_size m + (3 - int (pairs_of v)) \<or> item_count v t \<noteq> 0 \<and> t \<notin> {1..9}"
  shows "too_much v m"
  unfolding too_much_def
proof (intro allI impI notI)
  fix m' assume m': "legal m'" and le: "\<forall>t. arr_fun m t + item_count v t \<le> arr_fun m' t"
  have f': "\<And>t. arr_fun m' t \<le> 4" "arr_size m' \<le> 14"
    using m' legal_fun [of m'] by (auto simp: legal_def)
  have out: "item_count v u = 0" if "u \<notin> {1..9}" for u
  proof -
    have "arr_fun m u = 0" "arr_fun m' u = 0" using that by (auto simp: arr_fun_def)
    then have "item_count v u \<le> 0" using le [rule_format, of u] by simp
    then show ?thesis by (metis item_count_nonneg order_antisym)
  qed
  then have "(\<Sum>t \<in> {1..9}. item_count v t) = 3 - int (pairs_of v)" using item_sum [OF assms(1), of "{1..9}"] by blast
  moreover have "(\<Sum>t \<in> {1..9}. arr_fun m t + item_count v t) \<le> (\<Sum>t \<in> {1..9}. arr_fun m' t)" using le by (intro sum_mono) blast
  moreover have "length m = 10" "length m' = 10" using assms(2) m' by (simp_all add: legal_def)
  ultimately have "arr_size m + (3 - int (pairs_of v)) \<le> arr_size m'" by (simp only: arr_size_fun sum.distrib)
  then show False using assms(3) f'(1) [of t] f'(2) le [rule_format, of t] out [of t] by linarith
qed

lemma add_round_spec:
  assumes m: "legal m" and c: "c = arr_size m" and r: "round_ok r"
  shows "case add_round r (c, m) of
     None \<Rightarrow> too_much (round_item r) m
   | Some (c', m') \<Rightarrow> grows (round_item r) m m' \<and> legal m' \<and> c' = arr_size m' \<and> reduce_round r (c', m') = (c, m)"
proof -
  let ?v = "round_item r"
  have len: "length m = 10" "m ! 0 = 0" using m by (simp_all add: legal_def)
  have v: "item_ok ?v" by (simp add: round_item_def item_ok_def split: round.splits)
  have bound: "0 \<le> arr_fun m t" "arr_fun m t \<le> 4" "arr_size m \<le> 14" for t using m legal_fun [OF len] by auto
  have fin: "grows ?v m m' \<and> legal m' \<and> c' = arr_size m'"
    if g: "grows ?v m m'" and small: "\<And>t. item_count ?v t \<noteq> 0 \<Longrightarrow> arr_fun m t + item_count ?v t \<le> 4"
      and c': "c' = c + (3 - int (pairs_of ?v))" "c' < 15" for m' c'
  proof -
    have sz: "arr_size m' = c'" using grows_size [OF g len(1) v] c c' by simp
    have "0 \<le> arr_fun m' t \<and> arr_fun m' t \<le> 4" for t
      using g small [of t] bound(1,2) [of t] item_count_nonneg [of ?v t]
      by (cases "item_count ?v t = 0") (auto simp: grows_def)
    then have "legal m'" using legal_fun [of m'] g sz c'(2) by (simp add: grows_def)
    then show ?thesis using g sz by simp
  qed
  show ?thesis
  proof (cases r)
    case (Jiang i)
    then have i: "1 \<le> i" "i \<le> 9" using r by (auto simp: round_ok_def)
    have mi: "arr_fun m (int i) = m ! i" using i by (simp add: arr_fun_def)
    show ?thesis
    proof (cases "c + 2 < 15 \<and> m ! i + 2 < 5")
      case True
      let ?m = "m[i := m ! i + 2]"
      have "grows ?v m ?m" using i len Jiang mi
        by (auto simp: grows_def round_item_def arr_fun_update item_count_def fun_eq_iff)
      then have "grows ?v m ?m \<and> legal ?m \<and> c + 2 = arr_size ?m"
        by (rule fin) (use True Jiang mi in \<open>auto simp: round_item_def item_count_def split: if_splits\<close>)
      then show ?thesis using True Jiang i len by (simp add: add_round_def add_jiang_def reduce_round_def reduce_jiang_def)
    next
      case False
      have "too_much ?v m" by (rule too_muchI [OF v m, of "int i"]) (use False c mi Jiang in \<open>auto simp: round_item_def item_count_def\<close>)
      then show ?thesis using False Jiang by (auto simp: add_round_def add_jiang_def)
    qed
  next
    case (Duizi i)
    then have i: "i \<le> 9" using r by (auto simp: round_ok_def)
    show ?thesis
    proof (cases "0 < i \<and> c + 3 < 15 \<and> m ! i + 3 < 5")
      case True
      let ?m = "m[i := m ! i + 3]"
      have mi: "arr_fun m (int i) = m ! i" using i True by (simp add: arr_fun_def)
      have "grows ?v m ?m" using i len Duizi mi True
        by (auto simp: grows_def round_item_def arr_fun_update item_count_def fun_eq_iff)
      then have "grows ?v m ?m \<and> legal ?m \<and> c + 3 = arr_size ?m"
        by (rule fin) (use True Duizi mi in \<open>auto simp: round_item_def item_count_def split: if_splits\<close>)
      then show ?thesis using True Duizi i len by (simp add: add_round_def add_duizi_def reduce_round_def reduce_duizi_def)
    next
      case False
      have "too_much ?v m"
        by (rule too_muchI [OF v m, of "int i"])
           (use False c Duizi i in \<open>auto simp: round_item_def item_count_def arr_fun_def\<close>)
      then show ?thesis using False Duizi by (auto simp: add_round_def add_duizi_def)
    qed
  next
    case (Shunzi i)
    then have i: "i \<le> 9" using r by (auto simp: round_ok_def)
    show ?thesis
    proof (cases "0 < i \<and> i < 8 \<and> c + 3 < 15 \<and> m ! i + 1 < 5 \<and> m ! (i + 1) + 1 < 5 \<and> m ! (i + 2) + 1 < 5")
      case True
      let ?m = "bump 1 i m"
      have i': "1 \<le> i" "i < 8" using True by auto
      note fb = arr_fun_bump [OF len(1) i', of 1]
      have "grows ?v m ?m" using fb len Shunzi by (auto simp: grows_def round_item_def item_count_def fun_eq_iff)
      moreover have "arr_fun m t + item_count ?v t \<le> 4" if "item_count ?v t \<noteq> 0" for t
      proof -
        have "int i \<le> t \<and> t \<le> int i + 2" using that Shunzi by (simp add: round_item_def item_count_def split: if_splits)
        then have "t = int i \<or> t = int (i + 1) \<or> t = int (i + 2)" by auto
        then show ?thesis using True Shunzi by (auto simp: round_item_def item_count_def arr_fun_def nat_add_distrib)
      qed
      ultimately have "grows ?v m ?m \<and> legal ?m \<and> c + 3 = arr_size ?m"
        by (rule fin) (use True Shunzi in \<open>auto simp: round_item_def\<close>)
      moreover have "bump (- 1) i (bump 1 i m) = m"
      proof (rule nth_equalityI)
        fix k assume "k < length (bump (- 1) i (bump 1 i m))"
        then show "bump (- 1) i (bump 1 i m) ! k = m ! k" using i' len by (simp add: bump_def Let_def nth_list_update)
      qed (simp add: bump_def Let_def)
      ultimately show ?thesis using True Shunzi by (simp add: add_round_def add_shunzi_def reduce_round_def reduce_shunzi_def)
    next
      case False
      have "\<exists>t. 4 < arr_fun m t + item_count ?v t \<or> 14 < arr_size m + (3 - int (pairs_of ?v)) \<or> item_count ?v t \<noteq> 0 \<and> t \<notin> {1..9}"
      proof -
        consider "i = 0" | "8 \<le> i" | "0 < i" "i < 8" "15 \<le> c + 3" | "0 < i" "i < 8" "5 \<le> m ! i + 1"
          | "0 < i" "i < 8" "5 \<le> m ! (i + 1) + 1" | "0 < i" "i < 8" "5 \<le> m ! (i + 2) + 1" using False by linarith
        then show ?thesis
        proof cases
          case 1
          then show ?thesis using Shunzi by (intro exI [of _ 0]) (simp add: round_item_def item_count_def)
        next
          case 2
          then show ?thesis using Shunzi by (intro exI [of _ "int i + 2"]) (simp add: round_item_def item_count_def)
        next
          case 3
          then show ?thesis using Shunzi c by (intro exI [of _ 0]) (simp add: round_item_def)
        next
          case 4
          then show ?thesis using Shunzi by (intro exI [of _ "int i"]) (simp add: round_item_def item_count_def arr_fun_def)
        next
          case 5
          then show ?thesis using Shunzi
            by (intro exI [of _ "int (i + 1)"]) (simp add: round_item_def item_count_def arr_fun_def nat_add_distrib)
        next
          case 6
          then show ?thesis using Shunzi
            by (intro exI [of _ "int (i + 2)"]) (simp add: round_item_def item_count_def arr_fun_def nat_add_distrib)
        qed
      qed
      then have "too_much ?v m" using too_muchI [OF v m] by blast
      then show ?thesis using False Shunzi by (auto simp: add_round_def add_shunzi_def)
    qed
  qed
qed

text \<open>
  The combinations \<open>m'\<close> that are \<open>m\<close> with the sets \<open>D\<close> added, at most one pair in all;
  \<open>j\<close> and \<open>j'\<close> tell whether there is one.
\<close>

definition adds :: "bool \<Rightarrow> pai_array \<Rightarrow> PaiItem multiset \<Rightarrow> bool \<Rightarrow> pai_array \<Rightarrow> bool" where
  "adds j m D j' m' \<longleftrightarrow>
     legal m' \<and> (\<forall>v \<in># D. item_ok v) \<and> (\<forall>t. arr_fun m' t = arr_fun m t + (\<Sum>v \<in># D. item_count v t)) \<and>
     size (filter_mset (\<lambda>v. pi_type v = 1) D) + (if j then 1 else 0) = (if j' then 1 else 0)"

definition grown :: "bool \<Rightarrow> round list \<Rightarrow> pai_array \<Rightarrow> bool \<Rightarrow> pai_array set" where
  "grown j rs m j' = {m'. \<exists>D r. r \<in> set rs \<and> round_item r \<in># D \<and> adds j m D j' m'}"

lemma round_item_pair: "pi_type (round_item r) = 1 \<longleftrightarrow> is_pair r"
  by (simp add: round_item_def is_pair_def split: round.splits)

lemma item_sum_nonneg: "0 \<le> (\<Sum>v \<in># D. item_count v t)"
  by (induction D) auto

lemma adds_grows:
  assumes "grows v m m1" "item_ok v" "j1 = (j \<or> pi_type v = 1)" "\<not> (j \<and> pi_type v = 1)"
  shows "adds j m (add_mset v D) j' m' \<longleftrightarrow> adds j1 m1 D j' m'"
  using assms by (auto simp: adds_def grows_def algebra_simps)

text \<open>Every set that can be added belongs to a round.\<close>

lemma item_round:
  assumes "adds j m D j' m'" "v \<in># D" "legal m"
  shows "\<exists>r \<in> set (rounds j). round_item r = v"
proof -
  obtain E where D: "D = add_mset v E" using assms(2) by (metis mset_add)
  have ok: "item_ok v" using assms(1,2) by (simp add: adds_def)
  have m: "0 \<le> arr_fun m t" for t using assms(3) legal_fun [of m] by (auto simp: legal_def)
  have "1 \<le> pi_pai_type v \<and> pi_pai_type v \<le> 9"
  proof (rule ccontr)
    let ?p = "pi_pai_type v"
    assume "\<not> ?thesis"
    then have "arr_fun m' ?p = 0" by (auto simp: arr_fun_def)
    then have "0 = arr_fun m ?p + (item_count v ?p + (\<Sum>v \<in># E. item_count v ?p))" using assms(1) D by (simp add: adds_def)
    moreover have "0 < item_count v ?p" by (simp add: item_count_def)
    ultimately show False using m [of ?p] item_sum_nonneg [where D = E and t = ?p] by linarith
  qed
  then have i: "pi_pai_type v = int (nat (pi_pai_type v))" "1 \<le> nat (pi_pai_type v)" "nat (pi_pai_type v) \<le> 9" by linarith+
  define i where "i = nat (pi_pai_type v)"
  note i = i [folded i_def]
  have j: "\<not> j" if "pi_type v = 1" using assms(1) D that by (auto simp: adds_def split: if_splits)
  have v: "v = item (pi_type v) (int i)" using i(1) by (simp add: item_def)
  from ok consider "pi_type v = 1" | "pi_type v = 2" | "pi_type v = 3" by (auto simp: item_ok_def)
  then show ?thesis
  proof cases
    case 1
    then have "Jiang i \<in> set (rounds j)" using j i by (auto simp: rounds_def)
    then show ?thesis using v 1 by (intro bexI [of _ "Jiang i"]) (simp_all add: round_item_def)
  next
    case 2
    have "Duizi i \<in> set (rounds j)" using i by (auto simp: rounds_def)
    then show ?thesis using v 2 by (intro bexI [of _ "Duizi i"]) (simp_all add: round_item_def)
  next
    case 3
    have "Shunzi i \<in> set (rounds j)" using i by (auto simp: rounds_def)
    then show ?thesis using v 3 by (intro bexI [of _ "Shunzi i"]) (simp_all add: round_item_def)
  qed
qed

lemma grown_rounds:
  assumes "legal m"
  shows "m' \<in> grown j (rounds j) m j' \<longleftrightarrow> (\<exists>D. D \<noteq> {#} \<and> adds j m D j' m')"
proof
  assume "\<exists>D. D \<noteq> {#} \<and> adds j m D j' m'"
  then obtain D v where "adds j m D j' m'" "v \<in># D" by (metis multiset_nonemptyE)
  then show "m' \<in> grown j (rounds j) m j'" using item_round [OF _ _ assms] unfolding grown_def by blast
next
  assume "m' \<in> grown j (rounds j) m j'"
  then obtain D r where "round_item r \<in># D" "adds j m D j' m'" by (auto simp: grown_def)
  then show "\<exists>D. D \<noteq> {#} \<and> adds j m D j' m'" by (intro exI [of _ D]) auto
qed

lemma grown_Cons: "grown j (r # rs) m j' = grown j [r] m j' \<union> grown j rs m j'"
  by (auto simp: grown_def)

lemma grown_refused:
  assumes "too_much (round_item r) m" "legal m"
  shows "grown j [r] m j' = {}"
proof -
  have False if ad: "adds j m D j' m'" "round_item r \<in># D" for D m'
  proof -
    obtain E where D: "D = add_mset (round_item r) E" using ad(2) by (metis mset_add)
    have "arr_fun m t + item_count (round_item r) t \<le> arr_fun m' t" for t
      using ad(1) D item_sum_nonneg [where D = E and t = t] by (simp add: adds_def)
    then show False using assms(1) ad(1) by (auto simp: too_much_def adds_def)
  qed
  then show ?thesis by (auto simp: grown_def)
qed

lemma grown_taken:
  assumes g: "grows (round_item r) m m1" and m: "legal m1" and j1: "j1 = (j \<or> is_pair r)" and jr: "\<not> (j \<and> is_pair r)"
  shows "grown j [r] m j' = (if j' = j1 then {m1} else {}) \<union> grown j1 (rounds j1) m1 j'"
proof -
  have v: "item_ok (round_item r)" by (simp add: round_item_def item_ok_def split: round.splits)
  have e1: "m' \<in> grown j [r] m j' \<longleftrightarrow> (\<exists>E. adds j m (add_mset (round_item r) E) j' m')" for m'
  proof
    assume "m' \<in> grown j [r] m j'"
    then obtain D where "round_item r \<in># D" "adds j m D j' m'" by (auto simp: grown_def)
    then show "\<exists>E. adds j m (add_mset (round_item r) E) j' m'" by (metis mset_add)
  next
    assume "\<exists>E. adds j m (add_mset (round_item r) E) j' m'"
    then obtain E where "adds j m (add_mset (round_item r) E) j' m'" by blast
    then show "m' \<in> grown j [r] m j'" unfolding grown_def
      by (intro CollectI exI [of _ "add_mset (round_item r) E"] exI [of _ r]) simp
  qed
  have e2: "adds j m (add_mset (round_item r) E) j' m' \<longleftrightarrow> adds j1 m1 E j' m'" for E m'
    using adds_grows [OF g v, of j1 j E j' m'] j1 jr round_item_pair [of r] by simp
  have e3: "(\<exists>E. adds j1 m1 E j' m') \<longleftrightarrow> adds j1 m1 {#} j' m' \<or> m' \<in> grown j1 (rounds j1) m1 j'" for m'
    unfolding grown_rounds [OF m] by metis
  have e4: "adds j1 m1 {#} j' m' \<longleftrightarrow> j' = j1 \<and> m' = m1" for m'
    using m legal_eqI [of m' m1] by (auto simp: adds_def fun_eq_iff split: if_splits)
  have "m' \<in> grown j [r] m j' \<longleftrightarrow> j' = j1 \<and> m' = m1 \<or> m' \<in> grown j1 (rounds j1) m1 j'" for m'
    by (simp only: e1 e2 e3 e4)
  then show ?thesis by (cases "j' = j1") auto
qed

text \<open>What the rounds of a call leave behind.\<close>

definition hp_post :: "bool \<Rightarrow> round list \<Rightarrow> pai_array \<Rightarrow> hp_lists \<Rightarrow> hp_lists \<Rightarrow> bool" where
  "hp_post j rs m out out' \<longleftrightarrow>
     (\<exists>nl nj. hp_list out' = hp_list out @ nl \<and> hp_jiang_list out' = hp_jiang_list out @ nj \<and>
        hp_count out' = hp_count out + int (length nl + length nj) \<and>
        set nl = get_pai_hash_value ` grown j rs m False \<and> set nj = get_pai_hash_value ` grown j rs m True)"

lemma hp_rounds_ok:
  assumes "legal m" "c = arr_size m" "set rs \<subseteq> set (rounds j)"
  shows "\<exists>out'. hp_rounds j rs (c, m) out = Some ((c, m), out') \<and> hp_post j rs m out out'"
  using assms
proof (induction "nat (15 - c)" arbitrary: c m rs j out rule: less_induct)
  case less
  note outer = less.hyps and m = less.prems(1) and c = less.prems(2)
  show ?case
    using less.prems(3)
  proof (induction rs arbitrary: out)
    case Nil
    then show ?case by (subst hp_rounds.simps) (simp add: hp_post_def grown_def)
  next
    case (Cons r rs)
    have r: "round_ok r" "r \<in> set (rounds j)" using Cons.prems rounds_ok by auto
    have rest: "set rs \<subseteq> set (rounds j)" using Cons.prems by simp
    note spec = add_round_spec [OF m c r(1)]
    show ?case
    proof (cases "add_round r (c, m)")
      case None
      then have "grown j [r] m j' = {}" for j' using spec grown_refused m by simp
      then have "hp_post j (r # rs) m out out' = hp_post j rs m out out'" for out'
        by (simp add: hp_post_def grown_Cons [of j r rs])
      moreover have "hp_rounds j (r # rs) (c, m) out = hp_rounds j rs (c, m) out"
        using None by (subst hp_rounds.simps) simp
      ultimately show ?thesis using Cons.IH [OF rest] by simp
    next
      case (Some st')
      obtain c1 m1 where st': "st' = (c1, m1)" by (cases st')
      have s: "grows (round_item r) m m1" "legal m1" "c1 = arr_size m1" "reduce_round r (c1, m1) = (c, m)"
        using spec Some st' by auto
      have v: "item_ok (round_item r)" by (simp add: round_item_def item_ok_def split: round.splits)
      have "c < c1" using grows_size [OF s(1) _ v] m c s(3) by (simp add: legal_def split: if_splits)
      moreover have "c1 \<le> 14" using s(2,3) by (simp add: legal_def arr_size_def)
      ultimately have lt: "nat (15 - c1) < nat (15 - c)" by simp
      define j1 where "j1 = (j \<or> is_pair r)"
      have jr: "\<not> (j \<and> is_pair r)" using r(2) by (auto simp: rounds_def is_pair_def)
      define out1 where "out1 = record_hash j1 (get_pai_hash_value m1) out"
      obtain out2 where run2: "hp_rounds j1 (rounds j1) (c1, m1) out1 = Some ((c1, m1), out2)"
        and p2: "hp_post j1 (rounds j1) m1 out1 out2"
        using outer [OF lt s(2,3) order_refl] by blast
      obtain out3 where run3: "hp_rounds j rs (c, m) out2 = Some ((c, m), out3)" and p3: "hp_post j rs m out2 out3"
        using Cons.IH [OF rest] by blast
      have run: "hp_rounds j (r # rs) (c, m) out = Some ((c, m), out3)"
        using Some st' run2 run3 s(4) by (subst hp_rounds.simps) (simp add: j1_def out1_def Let_def)
      note gt = grown_taken [OF s(1,2) j1_def jr]
      have "hp_post j (r # rs) m out out3"
        using p2 p3 unfolding hp_post_def grown_Cons [of j r rs] gt out1_def record_hash_def
        by (cases j1) (auto simp: image_Un)
      then show ?thesis using run by blast
    qed
  qed
qed

text \<open>
  C27. The lists of winning combinations are right: \<^verbatim>\<open>get_hp_type_count\<close>, started on the
  empty suit, ends and restores the suit; the list without a pair contains exactly the
  numbers of the suits of at most 14 tiles, at most four of each, that consist of one or
  more triplets and runs, and the list with a pair exactly those with one pair besides;
  the counter is the total length of both.
\<close>

theorem hp_type_lists:
  "\<exists>out. get_hp_type_count False (0, replicate 10 0) \<lparr>hp_count = 0, hp_list = [], hp_jiang_list = []\<rparr> =
       Some ((0, replicate 10 0), out) \<and>
     set (hp_list out) = {get_pai_hash_value m |m. legal m \<and> m \<noteq> replicate 10 0 \<and> (\<exists>D. splits D (arr_fun m) 0)} \<and>
     set (hp_jiang_list out) = {get_pai_hash_value m |m. legal m \<and> (\<exists>D. splits D (arr_fun m) 1)} \<and>
     hp_count out = int (length (hp_list out) + length (hp_jiang_list out))"
proof -
  let ?z = "replicate 10 0 :: pai_array" and ?o = "\<lparr>hp_count = 0, hp_list = [], hp_jiang_list = []\<rparr>"
  have z: "legal ?z" "arr_size ?z = 0" by (simp_all add: legal_def arr_size_def)
  have fz: "arr_fun ?z t = 0" for t by (auto simp: arr_fun_def nat_less_iff intro!: nth_replicate)
  obtain out where run: "hp_rounds False (rounds False) (0, ?z) ?o = Some ((0, ?z), out)"
    and post: "hp_post False (rounds False) ?z ?o out"
    using hp_rounds_ok [OF z(1) z(2) [symmetric] order_refl] by blast
  have adds: "adds False ?z D j' m \<longleftrightarrow> legal m \<and> splits D (arr_fun m) (if j' then 1 else 0)" for D j' m
    by (auto simp: adds_def splits_def fz)
  have "D = {#} \<longleftrightarrow> m = ?z" if "legal m" "splits D (arr_fun m) 0" for D m
  proof
    assume "D = {#}"
    then have "arr_fun m = arr_fun ?z" using that(2) fz by (auto simp: splits_empty)
    then show "m = ?z" using legal_eqI [OF that(1) z(1)] by blast
  next
    assume "m = ?z"
    then have "item_count v (pi_pai_type v) \<le> 0" if "v \<in># D" for v
      using splits_le [OF \<open>splits D (arr_fun m) 0\<close> that, of "pi_pai_type v"] fz by simp
    moreover have "0 < item_count v (pi_pai_type v)" for v by (simp add: item_count_def)
    ultimately have "v \<notin># D" for v by (metis not_less)
    then show "D = {#}" by (meson multiset_nonemptyE)
  qed
  then have g0: "grown False (rounds False) ?z False = {m. legal m \<and> m \<noteq> ?z \<and> (\<exists>D. splits D (arr_fun m) 0)}"
    using grown_rounds [OF z(1), of _ False False] adds [of _ False] by auto
  have "D \<noteq> {#}" if "splits D f 1" for D f using that by (auto simp: splits_empty)
  then have g1: "grown False (rounds False) ?z True = {m. legal m \<and> (\<exists>D. splits D (arr_fun m) 1)}"
    using grown_rounds [OF z(1), of _ False True] adds [of _ True] by auto
  show ?thesis
    using run post unfolding get_hp_type_count_def hp_post_def g0 g1 by (auto simp: image_def)
qed

section \<open>The tables of near combinations\<close>

text \<open>\<open>v\<close> is the combination \<open>num\<close> with one tile less.\<close>

definition lacks_one :: "int \<Rightarrow> int \<Rightarrow> bool" where
  "lacks_one v num \<longleftrightarrow>
     (\<exists>m i. digits_ok m \<and> i \<in> {1..9} \<and> 0 < m ! i \<and> num = get_pai_hash_value m \<and>
        v = get_pai_hash_value (m[i := m ! i - 1]))"

definition is_combination :: "int \<Rightarrow> bool" where
  "is_combination h \<longleftrightarrow> (\<exists>m. digits_ok m \<and> h = get_pai_hash_value m)"

definition near_sound :: "(int, int list) std_map \<Rightarrow> bool" where
  "near_sound t \<longleftrightarrow> (\<forall>v ns. map_of t v = Some ns \<longrightarrow> (\<forall>n \<in> set ns. lacks_one v n))"

lemma near_soundD: "near_sound t \<Longrightarrow> map_of t v = Some ns \<Longrightarrow> n \<in> set ns \<Longrightarrow> lacks_one v n"
  unfolding near_sound_def by blast

lemma near_sound_put:
  assumes "near_sound t" "\<And>n. n \<in> set ns \<Longrightarrow> lacks_one v n"
  shows "near_sound (map_put v ns t)"
  using assms by (auto simp: near_sound_def split: if_splits)

definition dp_ok :: "dp_state \<Rightarrow> bool" where
  "dp_ok dp \<longleftrightarrow>
     (\<forall>pos. \<forall>h \<in> fst ` set (dp_get pos dp). is_combination h) \<and>
     near_sound (hu_type_father dp)"

lemma dp_okD: "dp_ok dp \<Longrightarrow> h \<in> fst ` set (dp_get pos dp) \<Longrightarrow> is_combination h"
  unfolding dp_ok_def by blast

lemma dp_get_set: "dp_get p (dp_set q m dp) = (if (p = 0) = (q = 0) then m else dp_get p dp)"
  by (simp add: dp_get_def dp_set_def)

lemma dp_frame [simp]:
  "dp_get p (dp\<lparr>hu_type_father := x\<rparr>) = dp_get p dp" "hu_type_father (dp_set q m dp) = hu_type_father dp"
  by (simp_all add: dp_get_def dp_set_def)

lemma dp_ok_put:
  assumes "dp_ok dp" "is_combination h"
  shows "dp_ok (dp_set q (map_put h b (dp_get q dp)) dp)"
proof -
  have "is_combination k" if k: "k \<in> fst ` set (dp_get p (dp_set q (map_put h b (dp_get q dp)) dp))" for p k
  proof (cases "(p = 0) = (q = 0)")
    case True
    then have "k \<in> insert h (fst ` set (dp_get q dp))" using k by (simp add: dp_get_set map_keys_put)
    then show ?thesis using assms(2) dp_okD [OF assms(1)] by blast
  next
    case False
    then have "k \<in> fst ` set (dp_get p dp)" using k by (simp only: dp_get_set if_False)
    then show ?thesis by (rule dp_okD [OF assms(1)])
  qed
  then show ?thesis using assms(1) unfolding dp_ok_def by simp
qed

lemma dp_ok_father:
  assumes "dp_ok dp" "\<And>n. n \<in> set ns \<Longrightarrow> lacks_one v n"
  shows "dp_ok (dp\<lparr>hu_type_father := map_put v ns (hu_type_father dp)\<rparr>)"
  using assms near_sound_put unfolding dp_ok_def by simp

lemma digits_less:
  assumes "digits_ok m" "i \<in> {1..9}" "0 < m ! i"
  shows "digits_ok (m[i := m ! i - 1])"
proof -
  have "m[i := m ! i - 1] ! j \<in> {0..9}" if j: "j \<in> {1..9}" for j
  proof -
    have "0 \<le> m ! j" "m ! j \<le> 9" "i < length m" using assms(1,2) j unfolding digits_ok_def by auto
    then show ?thesis using assms(3) by (cases "j = i") auto
  qed
  then show ?thesis using assms by (auto simp: digits_ok_def)
qed

lemma next_level_ok:
  assumes "dp_ok dp" "digits_ok m" "num = get_pai_hash_value m" "i \<in> {1..9}"
  shows "dp_ok (next_level pos num m i dp)"
proof (cases "0 < m ! i")
  case True
  let ?v = "get_pai_hash_value (m[i := m ! i - 1])"
  let ?dp = "dp_set pos (map_put ?v True (dp_get pos dp)) dp"
  have v: "is_combination ?v" "lacks_one ?v num"
    using digits_less [OF assms(2,4) True] assms True by (auto simp: is_combination_def lacks_one_def)
  have ok: "dp_ok ?dp" using dp_ok_put [OF assms(1) v(1)] .
  have old: "lacks_one ?v n" if "map_of (hu_type_father dp) ?v = Some ns" "n \<in> set ns" for n ns
    using assms(1) that near_soundD unfolding dp_ok_def by blast
  define fs where "fs = (case map_of (hu_type_father dp) ?v of None \<Rightarrow> [] | Some ns \<Rightarrow> ns) @ [num]"
  have fs: "lacks_one ?v n" if "n \<in> set fs" for n
    using that v(2) old by (cases "map_of (hu_type_father dp) ?v") (auto simp: fs_def)
  have "dp_ok (?dp\<lparr>hu_type_father := map_put ?v fs (hu_type_father ?dp)\<rparr>)" by (rule dp_ok_father [OF ok fs])
  then show ?thesis
    using True by (simp add: next_level_def push_father_def Let_def fs_def split: option.splits)
qed (use assms in \<open>simp add: next_level_def\<close>)

lemma fold_inv: "(\<And>x s. x \<in> set xs \<Longrightarrow> P s \<Longrightarrow> P (f x s)) \<Longrightarrow> P s \<Longrightarrow> P (fold f xs s)"
  by (induction xs arbitrary: s) auto

lemma num_digits:
  assumes "digits_ok m"
  shows "snd (get_pai_value_by_num (replicate 10 0) (get_pai_hash_value m)) = m"
proof -
  have "num_loop 9 (replicate 10 0) (hash_loop m 9 1 0) 0 = (0 + (\<Sum>i \<in> {1..9}. m ! i), m)"
    by (rule num_loop_hash) (use assms in \<open>auto simp: digits_ok_def\<close>)
  then show ?thesis by (simp only: get_pai_value_by_num_def get_pai_hash_value_def snd_conv)
qed

lemma jisuan_ok:
  assumes "dp_ok dp" "is_combination num"
  shows "dp_ok (jisuan_next_level_type pos num dp)"
proof -
  obtain m where m: "digits_ok m" "num = get_pai_hash_value m" using assms(2) by (auto simp: is_combination_def)
  have "snd (get_pai_value_by_num (replicate 10 0) num) = m" using num_digits [OF m(1)] m(2) by simp
  moreover have "dp_ok (fold (next_level pos num m) [1..<10] dp)"
    by (rule fold_inv [where P = dp_ok]) (use assms(1) next_level_ok m in auto)
  ultimately show ?thesis by (simp only: jisuan_next_level_type_def Let_def)
qed

lemma by_dp_ok: "dp_ok dp \<Longrightarrow> dp_ok (get_paixing_hp_relation_by_dp r dp)"
proof (induction r dp rule: get_paixing_hp_relation_by_dp.induct)
  case (1 r dp)
  show ?case
  proof (cases "my_dp_limit < r")
    case True
    then show ?thesis using 1 by (subst get_paixing_hp_relation_by_dp.simps) simp
  next
    case False
    define pos where "pos = (r + 1) mod 2"
    define np where "np = (if pos + 1 > 1 then 0 else pos + 1)"
    define dp1 where "dp1 = fold (jisuan_next_level_type np) (map fst (dp_get pos dp)) dp"
    have keys: "is_combination h" if "h \<in> set (map fst (dp_get pos dp))" for h
      using dp_okD [OF 1(2)] that by simp
    have "dp_ok dp1" unfolding dp1_def by (rule fold_inv [where P = dp_ok]) (use 1(2) keys jisuan_ok in auto)
    then have "dp_ok (dp_set pos [] dp1)" by (simp add: dp_ok_def dp_get_set)
    then have "dp_ok (get_paixing_hp_relation_by_dp (r + 1) (dp_set pos [] dp1))"
      using "1.IH" [OF False pos_def np_def dp1_def] by simp
    then show ?thesis
      using False by (subst get_paixing_hp_relation_by_dp.simps)
        (simp only: Let_def if_False pos_def [symmetric] np_def [symmetric] dp1_def [symmetric])
  qed
qed

lemma relation_ok:
  assumes "\<forall>h \<in> set hps. is_combination h"
  shows "dp_ok (get_paixing_hp_relation hps \<lparr>dp_hu_type_map = ([], []), hu_type_father = []\<rparr>)"
proof -
  let ?f = "\<lambda>h dp. (dp_set 0 (map_put h True (dp_get 0 dp)) dp)\<lparr>hu_type_father := map_put h [] (hu_type_father dp)\<rparr>"
  have step: "dp_ok (?f h dp)" if "h \<in> set hps" "dp_ok dp" for h dp
    using dp_ok_father [OF dp_ok_put [OF that(2), of h 0 True], of "[]" h] assms that by simp
  have "dp_ok \<lparr>dp_hu_type_map = ([], []), hu_type_father = []\<rparr>" by (simp add: dp_ok_def dp_get_def near_sound_def)
  then have "dp_ok (fold ?f hps \<lparr>dp_hu_type_map = ([], []), hu_type_father = []\<rparr>)"
    using fold_inv [where P = dp_ok and f = ?f] step by blast
  then show ?thesis using by_dp_ok unfolding get_paixing_hp_relation_def Let_def by blast
qed

lemma legal_digits: "legal m \<Longrightarrow> digits_ok m"
  by (force simp: legal_def digits_ok_def)

text \<open>
  C28. The tables of near combinations are sound: \<^verbatim>\<open>create_hu_relation_hash\<close> ends, and
  whatever number \<^verbatim>\<open>num\<close> it lists under a combination \<^verbatim>\<open>v\<close>, in the table without and in
  the table with a pair, \<^verbatim>\<open>v\<close> is the combination \<^verbatim>\<open>num\<close> with exactly one tile taken away.
\<close>

theorem relation_tables_sound:
  "\<exists>a b. create_hu_relation_hash = Some (a, b) \<and> near_sound a \<and> near_sound b"
proof -
  let ?z = "replicate 10 0 :: pai_array" and ?o = "\<lparr>hp_count = 0, hp_list = [], hp_jiang_list = []\<rparr>"
  have z: "legal ?z" "0 = arr_size ?z" by (simp_all add: legal_def arr_size_def)
  obtain out where run: "get_hp_type_count False (0, ?z) ?o = Some ((0, ?z), out)" and post: "hp_post False (rounds False) ?z ?o out"
    using hp_rounds_ok [OF z order_refl] unfolding get_hp_type_count_def by blast
  have "is_combination h" if "h \<in> get_pai_hash_value ` grown False (rounds False) ?z j" for h j
    using that legal_digits by (auto simp: is_combination_def grown_def adds_def)
  then have "\<forall>h \<in> set (hp_list out). is_combination h" "\<forall>h \<in> set (hp_jiang_list out). is_combination h"
    using post by (auto simp: hp_post_def)
  from relation_ok [OF this(1)] relation_ok [OF this(2)]
  show ?thesis unfolding create_hu_relation_hash_def run by (simp add: Let_def dp_ok_def)
qed

end
