(* ===== verification/Land_Cards.thy ===== *)
theory Land_Cards
  imports Prelude "HOL-Library.Multiset"
begin

text \<open>
  The cards of the land game (\<^verbatim>\<open>3rd/land/GameLogic.cpp\<close>): their values, sorting a hand,
  taking cards out of a hand, grouping a hand by value, shuffling the deck.

  A card is a byte, the colour in the high half and the value in the low half; it is an
  integer here, and an array with its count is the list of its cards.  The program is built
  with assertions and without \<^verbatim>\<open>LYX_DEBUG\<close>.
\<close>

section \<open>Cards\<close>

type_synonym card = int

definition MAX_COUNT :: nat where "MAX_COUNT = 20"
definition FULL_COUNT :: nat where "FULL_COUNT = 54"
definition NORMAL_COUNT :: nat where "NORMAL_COUNT = 17"
definition GAME_PLAYER :: nat where "GAME_PLAYER = 3"

definition MASK_COLOR :: int where "MASK_COLOR = 0xF0"
definition MASK_VALUE :: int where "MASK_VALUE = 0x0F"

definition m_cbCardData :: "card list" where
  "m_cbCardData =
    [0x01, 0x02, 0x03, 0x04, 0x05, 0x06, 0x07, 0x08, 0x09, 0x0A, 0x0B, 0x0C, 0x0D,
     0x11, 0x12, 0x13, 0x14, 0x15, 0x16, 0x17, 0x18, 0x19, 0x1A, 0x1B, 0x1C, 0x1D,
     0x21, 0x22, 0x23, 0x24, 0x25, 0x26, 0x27, 0x28, 0x29, 0x2A, 0x2B, 0x2C, 0x2D,
     0x31, 0x32, 0x33, 0x34, 0x35, 0x36, 0x37, 0x38, 0x39, 0x3A, 0x3B, 0x3C, 0x3D,
     0x41, 0x42]"

definition GetCardValue :: "card \<Rightarrow> int" where
  "GetCardValue cbCardData = cbCardData AND MASK_VALUE"

definition GetCardColor :: "card \<Rightarrow> int" where
  "GetCardColor cbCardData = cbCardData AND MASK_COLOR"

definition IsValidCard :: "card \<Rightarrow> bool" where
  "IsValidCard cbCardData =
     (let cbCardColor = GetCardColor cbCardData; cbCardValue = GetCardValue cbCardData in
      if cbCardData = 0x41 \<or> cbCardData = 0x42 then True
      else if cbCardColor \<le> 0x30 \<and> cbCardValue \<ge> 0x01 \<and> cbCardValue \<le> 0x0D then True
      else False)"

definition GetCardLogicValue :: "card \<Rightarrow> int" where
  "GetCardLogicValue cbCardData =
     (if cbCardData = 0 then 0
      else
        let cbCardColor = GetCardColor cbCardData; cbCardValue = GetCardValue cbCardData in
        if cbCardColor = 0x40 then cbCardValue + 15
        else if cbCardValue \<le> 2 then cbCardValue + 13 else cbCardValue)"

definition MakeCardData :: "int \<Rightarrow> int \<Rightarrow> card" where
  "MakeCardData cbValueIndex cbColorIndex = (push_bit 4 cbColorIndex OR (cbValueIndex + 1)) mod 256"

section \<open>Sorting\<close>

text \<open>The cards and the array of their values \<^verbatim>\<open>cbSortValue\<close> are exchanged together.\<close>

type_synonym sort_state = "card list \<times> int list \<times> bool"

definition swap :: "nat \<Rightarrow> nat \<Rightarrow> 'a list \<Rightarrow> 'a list" where
  "swap i j xs = xs[i := xs ! j, j := xs ! i]"

function sort_pass :: "nat \<Rightarrow> nat \<Rightarrow> sort_state \<Rightarrow> sort_state" where
  "sort_pass i cbLast st =
     (if i < cbLast then
        sort_pass (i + 1) cbLast
          (case st of (d, v, bSorted) \<Rightarrow>
             if v ! i < v ! (i + 1) \<or> v ! i = v ! (i + 1) \<and> d ! i < d ! (i + 1)
             then (swap i (i + 1) d, swap i (i + 1) v, False)
             else (d, v, bSorted))
      else st)"
  by pat_completeness auto
termination
  by (relation "measure (\<lambda>(i, l, st). l - i)") auto

declare sort_pass.simps [simp del]

lemma sort_pass_0 [simp]: "sort_pass 0 0 st = st"
  by (subst sort_pass.simps) simp

text \<open>
  The loop goes on only after an exchange, and then \<^verbatim>\<open>cbLast\<close> was not 0: it does not wrap
  around.
\<close>

function sort_loop :: "nat \<Rightarrow> card list \<Rightarrow> int list \<Rightarrow> card list \<times> int list" where
  "sort_loop cbLast d v =
     (case sort_pass 0 cbLast (d, v, True) of (d', v', bSorted) \<Rightarrow>
        if bSorted then (d', v') else sort_loop (cbLast - 1) d' v')"
  by pat_completeness auto
termination
proof (relation "measure (\<lambda>(l, d, v). l)"; clarsimp)
  fix l d v x a
  assume "(x, a, False) = sort_pass 0 l (d, v, True)"
  then show "l - Suc 0 < l" by (cases "l = 0") auto
qed

declare sort_loop.simps [simp del]

section \<open>Grouping by value\<close>

text \<open>
  For each size 1 to 4 the number of groups of that many cards of one value, and their
  cards one after the other.  The array of the cards of one size has room for 40.
\<close>

record tagAnalyseResult =
  cbBlockCount :: "nat list"
  ar_cbCardData :: "card list list"
  ar_cbCardType :: nat
  ar_cbLogicValue :: int

definition empty_result :: tagAnalyseResult where
  "empty_result = \<lparr>cbBlockCount = [0, 0, 0, 0], ar_cbCardData = [[], [], [], []], ar_cbCardType = 0, ar_cbLogicValue = 0\<rparr>"

fun same_loop :: "int \<Rightarrow> nat \<Rightarrow> card list \<Rightarrow> nat" where
  "same_loop cbLogicValue cbSameCount [] = cbSameCount"
| "same_loop cbLogicValue cbSameCount (c # cs) =
     (if GetCardLogicValue c \<noteq> cbLogicValue then cbSameCount
      else if 4 < cbSameCount + 1 then 4
      else same_loop cbLogicValue (cbSameCount + 1) cs)"

definition add_block :: "card list \<Rightarrow> tagAnalyseResult \<Rightarrow> tagAnalyseResult res" where
  "add_block block r =
     (let k = length block - 1; cards = ar_cbCardData r ! k @ block in
      if length cards \<le> MAX_COUNT * 2
      then Inr (r\<lparr>cbBlockCount := (cbBlockCount r)[k := cbBlockCount r ! k + 1],
                  ar_cbCardData := (ar_cbCardData r)[k := cards]\<rparr>)
      else Inl Out_of_bounds)"

function analyse_loop :: "card list \<Rightarrow> tagAnalyseResult \<Rightarrow> tagAnalyseResult res" where
  "analyse_loop cards r =
     (case cards of
        [] \<Rightarrow> Inr r
      | c # cs \<Rightarrow>
          if GetCardLogicValue c = 0 then Inr r
          else
            let cbSameCount = same_loop (GetCardLogicValue c) 1 cs in
            bindR (add_block (take cbSameCount cards) r) (analyse_loop (drop (cbSameCount - 1) cs)))"
  by pat_completeness auto
termination
  by (relation "measure (\<lambda>(cs, r). length cs)") auto

declare analyse_loop.simps [simp del]

definition AnalysebCardData :: "card list \<Rightarrow> tagAnalyseResult res" where
  "AnalysebCardData cards = analyse_loop cards empty_result"

definition ST_ORDER :: nat where "ST_ORDER = 0"
definition ST_COUNT :: nat where "ST_COUNT = 1"
definition ST_CUSTOM :: nat where "ST_CUSTOM = 2"

text \<open>
  Sorting by number puts the groups of four first and then those of three, two and one.
  The groups overwrite the array from its start; cards that are in no group stay behind.
\<close>

definition SortCardList :: "card list \<Rightarrow> nat \<Rightarrow> card list res" where
  "SortCardList cards cbSortType =
     (if length cards = 0 then Inr cards
      else if cbSortType = ST_CUSTOM then Inr cards
      else if FULL_COUNT < length cards then Inl Throws
      else
        let d = fst (sort_loop (length cards - 1) cards (map GetCardLogicValue cards)) in
        if cbSortType = ST_COUNT then
          bindR (AnalysebCardData d) (\<lambda>r.
          let grouped = concat (rev (ar_cbCardData r)) in
          Inr (grouped @ drop (length grouped) d))
        else Inr d)"

section \<open>Taking cards out of a hand\<close>

text \<open>
  The cards to be removed are overwritten with 0 one after the other in a copy of the hand,
  and what is left is moved to the front; the rest of the hand becomes 0.
\<close>

fun remove_one :: "card \<Rightarrow> card list \<Rightarrow> card list option" where
  "remove_one r [] = None"
| "remove_one r (t # ts) = (if r = t then Some (0 # ts) else map_option (Cons t) (remove_one r ts))"

fun remove_step :: "card \<Rightarrow> card list \<times> nat \<Rightarrow> card list \<times> nat" where
  "remove_step r (temp, cbDeleteCount) =
     (case remove_one r temp of None \<Rightarrow> (temp, cbDeleteCount) | Some temp \<Rightarrow> (temp, cbDeleteCount + 1))"

definition RemoveCard :: "card list \<Rightarrow> card list \<Rightarrow> bool \<times> card list" where
  "RemoveCard cbRemoveCard cards =
     (if length cards < length cbRemoveCard then (True, cards)
      else if FULL_COUNT < length cards then (False, cards)
      else
        case fold remove_step cbRemoveCard (cards, 0) of (temp, cbDeleteCount) \<Rightarrow>
          if cbDeleteCount \<noteq> length cbRemoveCard then (False, cards)
          else
            let left = filter (\<lambda>c. c \<noteq> 0) temp in
            (True, left @ replicate (length cards - length left) 0))"

section \<open>Sorting is correct\<close>

text \<open>The order of a sorted hand: by value, then by card, the higher first.\<close>

definition card_ge :: "card \<Rightarrow> card \<Rightarrow> bool" where
  "card_ge a b \<longleftrightarrow> GetCardLogicValue b < GetCardLogicValue a \<or> GetCardLogicValue a = GetCardLogicValue b \<and> b \<le> a"

lemma transp_card_ge [simp]: "transp card_ge"
  by (rule transpI) (auto simp: card_ge_def)

lemma card_ge_refl [simp]: "card_ge a a"
  by (simp add: card_ge_def)

lemma card_ge_trans: "card_ge a b \<Longrightarrow> card_ge b c \<Longrightarrow> card_ge a c"
  using transpD [OF transp_card_ge] .

lemma card_ge_antisym: "card_ge a b \<Longrightarrow> card_ge b a \<Longrightarrow> a = b"
  by (auto simp: card_ge_def)

lemma not_card_ge: "\<not> card_ge a b \<longleftrightarrow> GetCardLogicValue a < GetCardLogicValue b \<or> GetCardLogicValue a = GetCardLogicValue b \<and> a < b"
  by (auto simp: card_ge_def)

lemma not_card_geD: "\<not> card_ge a b \<Longrightarrow> card_ge b a"
  by (auto simp: card_ge_def)

lemma length_swap [simp]: "length (swap i j xs) = length xs"
  by (simp add: swap_def)

lemma swap_nth: "i < length xs \<Longrightarrow> j < length xs \<Longrightarrow> swap i j xs ! k = (if k = j then xs ! i else if k = i then xs ! j else xs ! k)"
  by (simp add: swap_def nth_list_update)

lemma mset_swap' [simp]: "i < length xs \<Longrightarrow> j < length xs \<Longrightarrow> mset (swap i j xs) = mset xs"
  by (simp add: swap_def mset_swap)

lemma swap_map: "i < length xs \<Longrightarrow> j < length xs \<Longrightarrow> swap i j (map f xs) = map f (swap i j xs)"
  by (simp add: swap_def map_update)

lemma take_swap: "i < n \<Longrightarrow> j < n \<Longrightarrow> n \<le> length xs \<Longrightarrow> take n (swap i j xs) = swap i j (take n xs)"
  by (simp add: swap_def take_update_swap)

lemma drop_swap: "i < n \<Longrightarrow> j < n \<Longrightarrow> drop n (swap i j xs) = drop n xs"
  by (simp add: swap_def)

definition pass_post :: "nat \<Rightarrow> nat \<Rightarrow> card list \<Rightarrow> bool \<Rightarrow> sort_state \<Rightarrow> bool" where
  "pass_post i l d s st \<longleftrightarrow>
     (case st of (d', v', s') \<Rightarrow>
        v' = map GetCardLogicValue d' \<and> mset (take (l + 1) d') = mset (take (l + 1) d) \<and>
        drop (l + 1) d' = drop (l + 1) d \<and> length d' = length d \<and>
        ((\<forall>j \<le> i. card_ge (d ! j) (d ! i)) \<longrightarrow> (\<forall>j \<le> l. card_ge (d' ! j) (d' ! l))) \<and>
        (s' \<longrightarrow> s \<and> d' = d \<and> (\<forall>j. i \<le> j \<longrightarrow> j < l \<longrightarrow> card_ge (d ! j) (d ! (j + 1)))))"

lemma sort_pass_post:
  "i \<le> l \<Longrightarrow> l < length d \<Longrightarrow> pass_post i l d s (sort_pass i l (d, map GetCardLogicValue d, s))"
proof (induction "l - i" arbitrary: i d s)
  case 0
  then show ?case by (subst sort_pass.simps) (simp add: pass_post_def)
next
  case (Suc n)
  then have i: "i < l" "n = l - (i + 1)" "i + 1 < length d" by simp_all
  show ?case
  proof (cases "card_ge (d ! i) (d ! (i + 1))")
    case True
    then have step: "sort_pass i l (d, map GetCardLogicValue d, s) = sort_pass (i + 1) l (d, map GetCardLogicValue d, s)"
      using i by (subst sort_pass.simps) (auto simp: card_ge_def)
    have "pass_post (i + 1) l d s (sort_pass (i + 1) l (d, map GetCardLogicValue d, s))"
      using Suc.hyps(1) [OF i(2)] i Suc.prems by simp
    moreover have "\<forall>j \<le> i + 1. card_ge (d ! j) (d ! (i + 1))" if "\<forall>j \<le> i. card_ge (d ! j) (d ! i)"
      using that True card_ge_trans by (auto simp: le_Suc_eq)
    moreover have "\<forall>j. i \<le> j \<longrightarrow> j < l \<longrightarrow> card_ge (d ! j) (d ! (j + 1))"
      if "\<forall>j. i + 1 \<le> j \<longrightarrow> j < l \<longrightarrow> card_ge (d ! j) (d ! (j + 1))"
    proof (intro allI impI)
      fix j assume "i \<le> j" "j < l"
      then show "card_ge (d ! j) (d ! (j + 1))" using that True by (cases "j = i") auto
    qed
    ultimately show ?thesis
      unfolding step pass_post_def by (auto simp del: One_nat_def add_Suc_right)
  next
    case False
    let ?d = "swap i (i + 1) d"
    have step: "sort_pass i l (d, map GetCardLogicValue d, s) = sort_pass (i + 1) l (?d, map GetCardLogicValue ?d, False)"
      using i False by (subst sort_pass.simps) (auto simp: not_card_ge swap_map)
    have post: "pass_post (i + 1) l ?d False (sort_pass (i + 1) l (?d, map GetCardLogicValue ?d, False))"
      using Suc.hyps(1) [OF i(2)] i Suc.prems by simp
    have "\<forall>j \<le> i + 1. card_ge (?d ! j) (?d ! (i + 1))" if "\<forall>j \<le> i. card_ge (d ! j) (d ! i)"
      using that i not_card_geD [OF False] by (auto simp: swap_nth)
    moreover have "mset (take (l + 1) ?d) = mset (take (l + 1) d)" "drop (l + 1) ?d = drop (l + 1) d"
      using i Suc.prems by (simp_all add: take_swap drop_swap)
    ultimately show ?thesis using post unfolding step pass_post_def by auto
  qed
qed

lemma pass_post_mset: "pass_post i l d s (d', v', s') \<Longrightarrow> mset d' = mset d"
  using arg_cong [OF append_take_drop_id, of mset "l + 1" d] arg_cong [OF append_take_drop_id, of mset "l + 1" d']
  unfolding pass_post_def mset_append by simp

lemma sorted_prefix:
  assumes "\<forall>j < l. card_ge (d ! j) (d ! (j + 1))" "l < length d"
  shows "sorted_wrt card_ge (take (l + 1) d)"
  using assms by (simp add: sorted_wrt_iff_nth_Suc_transp)

lemma sort_loop_ok:
  assumes "l < length d" "sorted_wrt card_ge (drop (l + 1) d)"
    "\<forall>x \<in> set (take (l + 1) d). \<forall>y \<in> set (drop (l + 1) d). card_ge x y"
  shows "\<exists>d' v'. sort_loop l d (map GetCardLogicValue d) = (d', v') \<and> mset d' = mset d \<and> sorted_wrt card_ge d'"
  using assms
proof (induction l arbitrary: d)
  case 0
  have "sort_loop 0 d (map GetCardLogicValue d) = (d, map GetCardLogicValue d)" by (subst sort_loop.simps) simp
  moreover have "sorted_wrt card_ge d" using 0 by (cases d) auto
  ultimately show ?case by simp
next
  case (Suc l)
  obtain d' v' s where run: "sort_pass 0 (Suc l) (d, map GetCardLogicValue d, True) = (d', v', s)" by (metis surj_pair)
  have post: "pass_post 0 (Suc l) d True (d', v', s)" using sort_pass_post [of 0 "Suc l" d True] Suc.prems(1) run by simp
  have ms: "mset d' = mset d" using pass_post_mset [OF post] .
  show ?case
  proof (cases s)
    case True
    then have "sorted_wrt card_ge (take (Suc l + 1) d)" "d' = d"
      using post sorted_prefix [of "Suc l" d] Suc.prems(1) unfolding pass_post_def by auto
    then have "sorted_wrt card_ge (take (Suc l + 1) d @ drop (Suc l + 1) d)"
      using Suc.prems(2,3) by (simp only: sorted_wrt_append simp_thms)
    then have "sorted_wrt card_ge d'" using \<open>d' = d\<close> by (simp only: append_take_drop_id)
    moreover have "sort_loop (Suc l) d (map GetCardLogicValue d) = (d', v')"
      by (subst sort_loop.simps) (simp add: run True)
    ultimately show ?thesis using ms by simp
  next
    case False
    have len: "length d' = length d" and tail: "drop (Suc l + 1) d' = drop (Suc l + 1) d"
      and pre: "mset (take (Suc l + 1) d') = mset (take (Suc l + 1) d)" and v': "v' = map GetCardLogicValue d'"
      using post unfolding pass_post_def by auto
    have least: "\<forall>j \<le> Suc l. card_ge (d' ! j) (d' ! Suc l)" using post unfolding pass_post_def by auto
    have split: "drop (l + 1) d' = d' ! Suc l # drop (Suc l + 1) d'"
      using len Suc.prems(1) by (simp add: Cons_nth_drop_Suc)
    have tk: "take (Suc l + 1) d' = take (l + 1) d' @ [d' ! Suc l]"
      using len Suc.prems(1) by (simp add: take_Suc_conv_app_nth)
    have pset: "set (take (Suc l + 1) d') = set (take (Suc l + 1) d)" using pre by (rule mset_eq_setD)
    have mem: "d' ! Suc l \<in> set (take (Suc l + 1) d')" unfolding tk by simp
    have "sorted_wrt card_ge (drop (l + 1) d')"
      unfolding split using Suc.prems(2,3) mem pset tail by simp
    moreover have "card_ge x y" if x: "x \<in> set (take (l + 1) d')" and y: "y \<in> set (drop (l + 1) d')" for x y
    proof (cases "y = d' ! Suc l")
      case True
      obtain j where "j < l + 1" "x = d' ! j" using x by (auto simp: in_set_conv_nth)
      then show ?thesis using least True by simp
    next
      case False
      have "x \<in> set (take (Suc l + 1) d)" using x pset unfolding tk by auto
      moreover have "y \<in> set (drop (Suc l + 1) d)" using y False tail unfolding split by simp
      ultimately show ?thesis using Suc.prems(3) by blast
    qed
    ultimately obtain d2 v2 where rec: "sort_loop l d' (map GetCardLogicValue d') = (d2, v2)" "mset d2 = mset d'" "sorted_wrt card_ge d2"
      using Suc.IH [of d'] Suc.prems(1) len by auto
    have "sort_loop (Suc l) d (map GetCardLogicValue d) = sort_loop l d' (map GetCardLogicValue d')"
      by (subst sort_loop.simps) (simp add: run False v')
    then show ?thesis using rec ms by simp
  qed
qed

lemma SortCardList_order:
  assumes "length cards \<le> FULL_COUNT"
  shows "\<exists>d. SortCardList cards ST_ORDER = Inr d \<and> mset d = mset cards \<and> sorted_wrt card_ge d"
proof (cases "cards = []")
  case False
  obtain d v where "sort_loop (length cards - 1) cards (map GetCardLogicValue cards) = (d, v)" "mset d = mset cards" "sorted_wrt card_ge d"
    using sort_loop_ok [of "length cards - 1" cards] False by auto
  then show ?thesis using False assms by (auto simp: SortCardList_def ST_ORDER_def ST_CUSTOM_def ST_COUNT_def)
qed (simp add: SortCardList_def)

text \<open>A sorted hand is determined by its cards.\<close>

lemma sorted_unique:
  "sorted_wrt card_ge xs \<Longrightarrow> sorted_wrt card_ge ys \<Longrightarrow> mset xs = mset ys \<Longrightarrow> xs = ys"
proof (induction xs arbitrary: ys)
  case (Cons x xs)
  then obtain y ys' where ys: "ys = y # ys'" by (cases ys) auto
  have "y \<in> set (x # xs)" "x \<in> set ys" using Cons.prems(3) ys mset_eq_setD [OF Cons.prems(3)] by auto
  then have "card_ge x y" "card_ge y x" using Cons.prems(1,2) ys by auto
  then have "x = y" by (rule card_ge_antisym)
  then show ?case using Cons ys by simp
qed simp

section \<open>Removal is correct\<close>

lemma remove_one_None: "remove_one r ts = None \<longleftrightarrow> r \<notin> set ts"
  by (induction ts) auto

lemma remove_one_Some:
  assumes "remove_one r ts = Some ts'" "r \<noteq> 0"
  shows "filter (\<lambda>c. c \<noteq> 0) ts' = remove1 r (filter (\<lambda>c. c \<noteq> 0) ts) \<and> r \<in> set ts \<and> length ts' = length ts"
  using assms by (induction ts arbitrary: ts') (auto split: if_splits)

lemma remove_steps:
  assumes "0 \<notin> set rs" "fold remove_step rs (ts, n) = (ts', n')"
  shows "n' \<le> n + length rs \<and>
    (n' = n + length rs \<longleftrightarrow> mset rs \<subseteq># mset (filter (\<lambda>c. c \<noteq> 0) ts)) \<and>
    (n' = n + length rs \<longrightarrow> filter (\<lambda>c. c \<noteq> 0) ts' = fold remove1 rs (filter (\<lambda>c. c \<noteq> 0) ts))"
  using assms
proof (induction rs arbitrary: ts n)
  case (Cons r rs)
  show ?case
  proof (cases "remove_one r ts")
    case None
    then have "fold remove_step rs (ts, n) = (ts', n')" using Cons.prems(2) by simp
    then have "n' \<le> n + length rs" using Cons.IH [of ts n] Cons.prems(1) by auto
    moreover have "\<not> mset (r # rs) \<subseteq># mset (filter (\<lambda>c. c \<noteq> 0) ts)"
    proof
      assume "mset (r # rs) \<subseteq># mset (filter (\<lambda>c. c \<noteq> 0) ts)"
      then have "r \<in># mset (filter (\<lambda>c. c \<noteq> 0) ts)" by (rule mset_subset_eqD) simp
      then show False using None by (simp add: remove_one_None)
    qed
    ultimately show ?thesis by auto
  next
    case (Some t)
    then have "fold remove_step rs (t, n + 1) = (ts', n')" using Cons.prems(2) by simp
    note IH = Cons.IH [OF _ this]
    have t: "filter (\<lambda>c. c \<noteq> 0) t = remove1 r (filter (\<lambda>c. c \<noteq> 0) ts)" "r \<in> set ts"
      using remove_one_Some [OF Some] Cons.prems(1) by auto
    have mem: "r \<in># mset (filter (\<lambda>c. c \<noteq> 0) ts)" using t(2) Cons.prems(1) by auto
    have "mset (r # rs) \<subseteq># mset (filter (\<lambda>c. c \<noteq> 0) ts) \<longleftrightarrow> mset rs \<subseteq># mset (filter (\<lambda>c. c \<noteq> 0) t)"
      unfolding t(1) using mem by (metis insert_subset_eq_iff mset.simps(2) mset_remove1 add_mset_remove_trivial_If)
    then show ?thesis using IH Cons.prems(1) t(1) by auto
  qed
qed simp

lemma RemoveCard_eq:
  assumes "0 \<notin> set rs" "0 \<notin> set cards" "length rs \<le> length cards" "length cards \<le> FULL_COUNT"
  shows "RemoveCard rs cards =
    (if mset rs \<subseteq># mset cards then (True, fold remove1 rs cards @ replicate (length rs) 0) else (False, cards))"
proof -
  obtain ts n where run: "fold remove_step rs (cards, 0) = (ts, n)" by (metis surj_pair)
  have id: "filter (\<lambda>c. c \<noteq> 0) cards = cards" using assms(2) by (auto simp: filter_id_conv)
  have len: "length (fold remove1 rs cards) = length cards - length rs" if "mset rs \<subseteq># mset cards"
    using that by (induction rs arbitrary: cards)
      (auto simp: length_remove1 insert_subset_eq_iff mset_remove1)
  show ?thesis
    using remove_steps [OF assms(1) run] len assms(3,4) unfolding RemoveCard_def run id by auto
qed

end
