(* ===== verification/Land_Types.thy ===== *)
theory Land_Types
  imports Land_Cards
begin

text \<open>
  What a set of cards is worth in the land game (\<^verbatim>\<open>3rd/land/GameLogic.cpp\<close>): the type and
  the value of a play, and which play beats which.
\<close>

section \<open>The types of plays\<close>

definition CT_ERROR :: nat where "CT_ERROR = 0"
definition CT_SINGLE :: nat where "CT_SINGLE = 1"
definition CT_DOUBLE :: nat where "CT_DOUBLE = 2"
definition CT_THREE :: nat where "CT_THREE = 3"
definition CT_SINGLE_LINE :: nat where "CT_SINGLE_LINE = 4"
definition CT_DOUBLE_LINE :: nat where "CT_DOUBLE_LINE = 5"
definition CT_THREE_LINE :: nat where "CT_THREE_LINE = 6"
definition CT_THREE_TAKE_ONE :: nat where "CT_THREE_TAKE_ONE = 7"
definition CT_THREE_TAKE_TWO :: nat where "CT_THREE_TAKE_TWO = 8"
definition CT_FOUR_TAKE_ONE :: nat where "CT_FOUR_TAKE_ONE = 9"
definition CT_FOUR_TAKE_TWO :: nat where "CT_FOUR_TAKE_TWO = 10"
definition CT_BOMB_CARD :: nat where "CT_BOMB_CARD = 11"
definition CT_MISSILE_CARD :: nat where "CT_MISSILE_CARD = 12"

lemmas CT_defs =
  CT_ERROR_def CT_SINGLE_def CT_DOUBLE_def CT_THREE_def CT_SINGLE_LINE_def CT_DOUBLE_LINE_def CT_THREE_LINE_def
  CT_THREE_TAKE_ONE_def CT_THREE_TAKE_TWO_def CT_FOUR_TAKE_ONE_def CT_FOUR_TAKE_TWO_def CT_BOMB_CARD_def
  CT_MISSILE_CARD_def

definition RULE_3_0 :: int where "RULE_3_0 = 0x01"
definition RULE_4_1 :: int where "RULE_4_1 = 0x02"
definition RULE_Off :: int where "RULE_Off = 0x0100"
definition RULE_3_2 :: int where "RULE_3_2 = 0x0400"
definition RULE_4_2 :: int where "RULE_4_2 = 0x0800"

definition IsValidType :: "int \<Rightarrow> nat \<Rightarrow> nat \<Rightarrow> bool" where
  "IsValidType m_ppRule Type cardCount =
     (if m_ppRule = 0 then True
      else if Type = CT_THREE \<or> Type = CT_THREE_LINE then
        m_ppRule AND RULE_3_0 > 0 \<and> m_ppRule AND RULE_Off > 0 \<or> cardCount mod 3 = 0
      else if Type = CT_THREE_TAKE_TWO then m_ppRule AND RULE_3_2 > 0
      else if Type = CT_FOUR_TAKE_ONE then
        m_ppRule AND RULE_4_1 > 0 \<and> m_ppRule AND RULE_Off > 0 \<or> cardCount mod 6 = 0
      else if Type = CT_FOUR_TAKE_TWO then m_ppRule AND RULE_4_2 > 0
      else True)"

text \<open>
  The cases of the loop over \<^verbatim>\<open>cbTypeIndex\<close>.  A case returns the type and the value it
  enters in the result, or \<open>None\<close> where it breaks to the next one.  \<open>n\<close> is the number of
  cards, \<open>d\<close> the array of 20 they are sorted in, \<open>r\<close> their groups.
\<close>

type_synonym verdict = "(nat \<times> int) option"

definition bad_card :: "card \<Rightarrow> bool" where
  "bad_card c =
     (let cbCardValue = GetCardValue c; cbCardColor = GetCardColor c in
      cbCardValue = 0 \<or> cbCardColor > 0x40 \<or> cbCardColor < 0x40 \<and> cbCardValue > 0x0D)"

definition case_error :: "nat \<Rightarrow> card list \<Rightarrow> verdict" where
  "case_error n d =
     (if n = 0 then Some (CT_ERROR, 0)
      else if n > 2 \<and> d ! 0 = 0x42 \<and> d ! 1 = 0x41 then Some (CT_ERROR, 0)
      else if list_ex bad_card (take n d) then Some (CT_ERROR, 0)
      else None)"

definition case_single :: "nat \<Rightarrow> card list \<Rightarrow> verdict" where
  "case_single n d = (if n = 1 then Some (CT_SINGLE, GetCardLogicValue (d ! 0)) else None)"

definition case_three :: "int \<Rightarrow> nat \<Rightarrow> card list \<Rightarrow> tagAnalyseResult \<Rightarrow> verdict" where
  "case_three rule n d r =
     (if n = 3 \<and> cbBlockCount r ! 2 = 1 \<and> IsValidType rule CT_THREE n
      then Some (CT_THREE, GetCardLogicValue (d ! 0)) else None)"

text \<open>The case of two cards falls through to that of three when there are not two.\<close>

definition case_double :: "int \<Rightarrow> nat \<Rightarrow> card list \<Rightarrow> tagAnalyseResult \<Rightarrow> verdict" where
  "case_double rule n d r =
     (if n = 2 then
        (if GetCardLogicValue (d ! 0) = GetCardLogicValue (d ! 1) then Some (CT_DOUBLE, GetCardLogicValue (d ! 0)) else None)
      else case_three rule n d r)"

text \<open>The cards of the groups of \<open>k\<close> cards, one of each group.\<close>

definition block_values :: "nat \<Rightarrow> tagAnalyseResult \<Rightarrow> int list" where
  "block_values k r = map (\<lambda>i. GetCardLogicValue (ar_cbCardData r ! (k - 1) ! (i * k))) [0..<cbBlockCount r ! (k - 1)]"

fun link_loop :: "int \<Rightarrow> int list \<Rightarrow> nat \<Rightarrow> nat" where
  "link_loop cbTypeValue [] cbLinkCount = cbLinkCount"
| "link_loop cbTypeValue (v # vs) cbLinkCount =
     (if cbTypeValue - v = int cbLinkCount then link_loop cbTypeValue vs (cbLinkCount + 1) else cbLinkCount)"

definition case_line :: "nat \<Rightarrow> nat \<Rightarrow> nat \<Rightarrow> nat \<Rightarrow> card list \<Rightarrow> tagAnalyseResult \<Rightarrow> verdict" where
  "case_line cbSameCount cbMinLink cbCardType n d r =
     (if cbBlockCount r ! (cbSameCount - 1) * cbSameCount \<noteq> n then None
      else
        let cbTypeValue = GetCardLogicValue (d ! 0) in
        if cbTypeValue \<ge> 0x0F then None
        else
          let cbLinkCount = link_loop cbTypeValue (block_values cbSameCount r) 0 in
          if cbLinkCount < cbMinLink then None
          else if cbLinkCount * cbSameCount \<noteq> n then None
          else Some (cbCardType, cbTypeValue))"

fun three_loop :: "nat \<Rightarrow> int list \<Rightarrow> nat \<times> int \<Rightarrow> nat \<times> int" where
  "three_loop n [] st = st"
| "three_loop n (v # vs) (cbLinkCount, cbTypeValue) =
     (if cbTypeValue = 0xFF \<and> v = 0x0F \<and> n > 5 then three_loop n vs (cbLinkCount, 0xFF)
      else
        let cbTypeValue = (if cbTypeValue = 0xFF then v else cbTypeValue) in
        if cbTypeValue - v = int cbLinkCount then three_loop n vs (cbLinkCount + 1, cbTypeValue)
        else if cbLinkCount < 2 then three_loop n vs (1, v)
        else (cbLinkCount, cbTypeValue))"

definition case_three_take :: "int \<Rightarrow> nat \<Rightarrow> tagAnalyseResult \<Rightarrow> verdict" where
  "case_three_take rule n r =
     (if cbBlockCount r ! 3 > 0 then None
      else
        case three_loop n (block_values 3 r) (0, 0xFF) of (cbLinkCount, cbTypeValue) \<Rightarrow>
          if cbLinkCount * 4 = n then Some (CT_THREE_TAKE_ONE, cbTypeValue)
          else if cbLinkCount * 5 = n \<and> cbBlockCount r ! 1 = cbLinkCount \<and> IsValidType rule CT_THREE_TAKE_TWO 0
          then Some (CT_THREE_TAKE_TWO, cbTypeValue)
          else None)"

definition case_four_take_one :: "int \<Rightarrow> nat \<Rightarrow> tagAnalyseResult \<Rightarrow> verdict" where
  "case_four_take_one rule n r =
     (if n = 6 \<and> cbBlockCount r ! 3 = 1 \<and> IsValidType rule CT_FOUR_TAKE_ONE n
      then Some (CT_FOUR_TAKE_ONE, GetCardLogicValue (ar_cbCardData r ! 3 ! 0)) else None)"

definition case_four_take_two :: "nat \<Rightarrow> tagAnalyseResult \<Rightarrow> verdict" where
  "case_four_take_two n r =
     (if n = 8 \<and> cbBlockCount r ! 3 = 1 \<and> cbBlockCount r ! 1 = 2
      then Some (CT_FOUR_TAKE_TWO, GetCardLogicValue (ar_cbCardData r ! 3 ! 0)) else None)"

definition case_bomb :: "nat \<Rightarrow> tagAnalyseResult \<Rightarrow> verdict" where
  "case_bomb n r =
     (if n = 4 \<and> cbBlockCount r ! 3 = 1
      then Some (CT_BOMB_CARD, GetCardLogicValue (GetCardLogicValue (ar_cbCardData r ! 3 ! 0))) else None)"

definition case_missile :: "card list \<Rightarrow> verdict" where
  "case_missile d = (if d ! 0 = 0x42 \<and> d ! 1 = 0x41 then Some (CT_MISSILE_CARD, 0x11) else None)"

definition type_cases :: "int \<Rightarrow> nat \<Rightarrow> card list \<Rightarrow> tagAnalyseResult \<Rightarrow> verdict list" where
  "type_cases rule n d r =
     [case_error n d, case_single n d, case_double rule n d r, case_three rule n d r,
      case_line 1 5 CT_SINGLE_LINE n d r, case_line 2 3 CT_DOUBLE_LINE n d r, case_line 3 2 CT_THREE_LINE n d r,
      case_three_take rule n r, case_three_take rule n r, case_four_take_one rule n r, case_four_take_two n r,
      case_bomb n r, case_missile d]"

fun first_verdict :: "verdict list \<Rightarrow> nat \<times> int" where
  "first_verdict [] = (CT_ERROR, 0)"
| "first_verdict (None # vs) = first_verdict vs"
| "first_verdict (Some v # vs) = v"

text \<open>The cards are copied to an array of 20, so more than 20 are written past its end.\<close>

definition AnalyseOutCard :: "int \<Rightarrow> card list \<Rightarrow> tagAnalyseResult res" where
  "AnalyseOutCard rule cards =
     (if MAX_COUNT < length cards then Inl Out_of_bounds
      else
        bindR (SortCardList cards ST_ORDER) (\<lambda>d.
        bindR (AnalysebCardData d) (\<lambda>r.
        let (t, v) = first_verdict (type_cases rule (length cards) (d @ replicate (MAX_COUNT - length d) 0) r)
        in Inr (r\<lparr>ar_cbCardType := t, ar_cbLogicValue := v\<rparr>))))"

definition GetCardType :: "int \<Rightarrow> card list \<Rightarrow> nat res" where
  "GetCardType rule cards = bindR (AnalyseOutCard rule cards) (\<lambda>r. Inr (ar_cbCardType r))"

record tagOutCard =
  oc_cbCardData :: "card list"
  oc_cbCardType :: nat
  oc_cbLogicValue :: int

text \<open>The other function of this name, which fills a \<^verbatim>\<open>tagOutCard\<close>; the count is the length of the list.\<close>

definition AnalyseOutCard_out :: "int \<Rightarrow> card list \<Rightarrow> tagOutCard res" where
  "AnalyseOutCard_out rule cards =
     bindR (AnalyseOutCard rule cards) (\<lambda>r.
     Inr \<lparr>oc_cbCardData = cards, oc_cbCardType = ar_cbCardType r, oc_cbLogicValue = ar_cbLogicValue r\<rparr>)"

definition CompareCard :: "int \<Rightarrow> card list \<Rightarrow> card list \<Rightarrow> bool res" where
  "CompareCard rule cbFirstCard cbNextCard =
     bindR (AnalyseOutCard rule cbNextCard) (\<lambda>stNextResult.
     bindR (AnalyseOutCard rule cbFirstCard) (\<lambda>stFirstResult.
     let cbNextType = ar_cbCardType stNextResult; cbFirstType = ar_cbCardType stFirstResult in
     Inr (if cbNextType = CT_ERROR \<or> cbFirstType = CT_ERROR then False
          else if cbFirstType = CT_MISSILE_CARD then False
          else if cbNextType = CT_MISSILE_CARD then True
          else if cbFirstType \<noteq> CT_BOMB_CARD \<and> cbNextType = CT_BOMB_CARD then True
          else if cbFirstType = CT_BOMB_CARD \<and> cbNextType \<noteq> CT_BOMB_CARD then False
          else if cbFirstType \<noteq> cbNextType \<or> length cbFirstCard \<noteq> length cbNextCard then False
          else if CT_SINGLE \<le> cbNextType \<and> cbNextType \<le> CT_BOMB_CARD
          then ar_cbLogicValue stNextResult > ar_cbLogicValue stFirstResult
          else False)))"

end
