(* ===== verification/Land_Groups.thy ===== *)
theory Land_Groups
  imports Land_Types
begin

text \<open>
  Hands of distinct cards of the deck and how \<^verbatim>\<open>AnalysebCardData\<close> groups them: for each size
  the values of which the hand has that many cards, from the highest to the lowest.
\<close>

section \<open>Hands\<close>

definition hand :: "card list \<Rightarrow> bool" where
  "hand cards \<longleftrightarrow> distinct cards \<and> set cards \<subseteq> set m_cbCardData"

definition cnt :: "card list \<Rightarrow> int \<Rightarrow> nat" where
  "cnt cards r = length (filter (\<lambda>c. GetCardLogicValue c = r) cards)"

definition ranks :: "int list" where
  "ranks = [17, 16, 15, 14, 13, 12, 11, 10, 9, 8, 7, 6, 5, 4, 3]"

lemma set_ranks: "set ranks = {3..17}"
  unfolding ranks_def by (simp add: set_eq_iff) presburger

lemma distinct_ranks [simp]: "distinct ranks"
  by (simp add: ranks_def)

lemma sorted_ranks: "sorted_wrt (>) ranks"
  by (simp add: ranks_def)

lemma deck_values:
  "list_all (\<lambda>c. GetCardLogicValue c \<in> set ranks \<and> \<not> bad_card c \<and> (GetCardLogicValue c = 17 \<longleftrightarrow> c = 0x42) \<and>
     (GetCardLogicValue c = 16 \<longleftrightarrow> c = 0x41)) m_cbCardData"
  "list_all (\<lambda>r. length (filter (\<lambda>c. GetCardLogicValue c = r) m_cbCardData) \<le> 4) ranks"
  "distinct m_cbCardData" "length m_cbCardData = 54"
  by code_simp+

lemma hand_card:
  assumes "hand cards" "c \<in> set cards"
  shows "GetCardLogicValue c \<in> set ranks" "\<not> bad_card c" "GetCardLogicValue c = 17 \<longleftrightarrow> c = 0x42"
    "GetCardLogicValue c = 16 \<longleftrightarrow> c = 0x41"
  using assms deck_values(1) unfolding hand_def list_all_iff by blast+

lemma fold_remove1_distinct: "distinct s \<Longrightarrow> fold remove1 cs s = filter (\<lambda>c. c \<notin> set cs) s"
proof (induction cs arbitrary: s)
  case (Cons c cs)
  have "fold remove1 (c # cs) s = filter (\<lambda>x. x \<notin> set cs) (remove1 c s)" using Cons by simp
  also have "\<dots> = filter (\<lambda>x. x \<notin> set (c # cs)) s"
    using Cons.prems by (auto simp: distinct_remove1_removeAll removeAll_filter_not_eq intro: filter_cong)
  finally show ?case .
qed simp

lemma zero_not_hand: "hand cs \<Longrightarrow> 0 \<notin> set cs"
  by (auto simp: hand_def m_cbCardData_def dest: subsetD)

lemma hand_mset: "hand cards \<Longrightarrow> mset d = mset cards \<Longrightarrow> hand d"
  unfolding hand_def by (metis mset_eq_imp_distinct_iff mset_eq_setD)

lemma cnt_mset: "mset d = mset cards \<Longrightarrow> cnt d r = cnt cards r"
  unfolding cnt_def by (metis mset_filter size_mset)

lemma cnt_le_4:
  assumes "hand cards"
  shows "cnt cards r \<le> 4"
proof (cases "r \<in> set ranks")
  case True
  let ?f = "filter (\<lambda>c. GetCardLogicValue c = r)"
  have "length (?f cards) = card (set (?f cards))" using assms by (subst distinct_card) (simp_all add: hand_def)
  also have "\<dots> \<le> card (set (?f m_cbCardData))" using assms by (intro card_mono) (auto simp: hand_def)
  also have "\<dots> \<le> length (?f m_cbCardData)" by (rule card_length)
  also have "\<dots> \<le> 4" using True deck_values(2) by (simp add: list_all_iff)
  finally show ?thesis by (simp add: cnt_def)
next
  case False
  then have "filter (\<lambda>c. GetCardLogicValue c = r) cards = []" using hand_card(1) [OF assms] by (auto simp: filter_empty_conv)
  then show ?thesis by (simp add: cnt_def)
qed

lemma cnt_ranks: "hand cards \<Longrightarrow> 0 < cnt cards r \<Longrightarrow> r \<in> set ranks"
  using hand_card(1) [of cards] by (auto simp: cnt_def filter_empty_conv)

lemma cnt_jokers:
  assumes "hand cards"
  shows "0 < cnt cards 17 \<longleftrightarrow> 0x42 \<in> set cards" "0 < cnt cards 16 \<longleftrightarrow> 0x41 \<in> set cards"
    "cnt cards 17 \<le> 1" "cnt cards 16 \<le> 1"
proof -
  have f: "filter (\<lambda>c. GetCardLogicValue c = 17) cards = filter (\<lambda>c. c = 0x42) cards"
    "filter (\<lambda>c. GetCardLogicValue c = 16) cards = filter (\<lambda>c. c = 0x41) cards"
    using hand_card(3,4) [OF assms] by (auto cong: filter_cong)
  have one: "distinct xs \<Longrightarrow> length (filter (\<lambda>c. c = x) xs) \<le> 1" for x and xs :: "card list"
    by (induction xs) (auto simp: filter_empty_conv)
  show "0 < cnt cards 17 \<longleftrightarrow> 0x42 \<in> set cards" "0 < cnt cards 16 \<longleftrightarrow> 0x41 \<in> set cards"
    unfolding cnt_def f by (auto simp: filter_empty_conv)
  show "cnt cards 17 \<le> 1" "cnt cards 16 \<le> 1" unfolding cnt_def f using one [of cards] assms by (auto simp: hand_def)
qed

text \<open>The number of cards by the number of values with one, two, three and four cards.\<close>

definition ranks_with :: "nat \<Rightarrow> card list \<Rightarrow> int list" where
  "ranks_with k cards = filter (\<lambda>r. cnt cards r = k) ranks"

lemma length_cnt: "hand cards \<Longrightarrow> length cards = (\<Sum>r \<in> set ranks. cnt cards r)"
proof (induction cards)
  case (Cons c cs)
  have h: "hand cs" using Cons.prems by (simp add: hand_def)
  have "(\<Sum>r \<in> set ranks. cnt (c # cs) r) = (\<Sum>r \<in> set ranks. (if r = GetCardLogicValue c then 1 else 0) + cnt cs r)"
    by (intro sum.cong) (auto simp: cnt_def)
  also have "\<dots> = 1 + (\<Sum>r \<in> set ranks. cnt cs r)"
    using hand_card(1) [OF Cons.prems, of c] by (simp add: sum.distrib)
  finally show ?case using Cons.IH [OF h] by simp
qed (simp add: cnt_def)

lemma length_ranks_with:
  assumes "hand cards"
  shows "length cards = length (ranks_with 1 cards) + 2 * length (ranks_with 2 cards) +
    3 * length (ranks_with 3 cards) + 4 * length (ranks_with 4 cards)"
proof -
  have "(\<Sum>r \<leftarrow> rs. cnt cards r) = length (filter (\<lambda>r. cnt cards r = 1) rs) + 2 * length (filter (\<lambda>r. cnt cards r = 2) rs) +
      3 * length (filter (\<lambda>r. cnt cards r = 3) rs) + 4 * length (filter (\<lambda>r. cnt cards r = 4) rs)" for rs
  proof (induction rs)
    case (Cons r rs)
    have "cnt cards r \<in> {0, 1, 2, 3, 4}" using cnt_le_4 [OF assms, of r] by auto
    then show ?case using Cons.IH by auto
  qed simp
  from this [of ranks] show ?thesis
    unfolding ranks_with_def length_cnt [OF assms] sum_list_distinct_conv_sum_set [OF distinct_ranks] .
qed

section \<open>A sorted hand is the sequence of its groups\<close>

definition grp :: "card list \<Rightarrow> int \<Rightarrow> card list" where
  "grp d r = filter (\<lambda>c. GetCardLogicValue c = r) d"

lemma mset_groups:
  "distinct rs \<Longrightarrow> mset (concat (map (grp d) rs)) = mset (filter (\<lambda>c. GetCardLogicValue c \<in> set rs) d)"
proof (induction rs)
  case (Cons r rs)
  have "mset (filter (\<lambda>c. GetCardLogicValue c \<in> set (r # rs)) d) =
      mset (grp d r) + mset (filter (\<lambda>c. GetCardLogicValue c \<in> set rs) d)"
    using Cons.prems by (induction d) (auto simp: grp_def)
  then show ?case using Cons by simp
qed simp

lemma sorted_groups:
  assumes "sorted_wrt (>) rs" "sorted_wrt card_ge d"
  shows "sorted_wrt card_ge (concat (map (grp d) rs))"
  using assms(1)
proof (induction rs)
  case (Cons r rs)
  have "sorted_wrt card_ge (grp d r)" unfolding grp_def using assms(2) by (rule sorted_wrt_filter)
  moreover have "card_ge x y" if "x \<in> set (grp d r)" "y \<in> set (concat (map (grp d) rs))" for x y
    using that Cons.prems by (auto simp: grp_def card_ge_def)
  ultimately show ?case using Cons by (simp add: sorted_wrt_append)
qed simp

lemma sorted_hand:
  assumes "hand d" "sorted_wrt card_ge d"
  shows "d = concat (map (grp d) ranks)"
proof (rule sorted_unique [OF assms(2) sorted_groups [OF sorted_ranks assms(2)]])
  have "filter (\<lambda>c. GetCardLogicValue c \<in> set ranks) d = d" using hand_card(1) [OF assms(1)] by (simp add: filter_id_conv)
  then show "mset d = mset (concat (map (grp d) ranks))" using mset_groups [OF distinct_ranks, of d] by simp
qed

text \<open>The jokers come first.\<close>

lemma distinct_one: "distinct xs \<Longrightarrow> set xs = {a} \<Longrightarrow> xs = [a]"
  by (cases xs; cases "tl xs") auto

lemma distinct_grp: "hand d \<Longrightarrow> distinct (grp d r)"
  by (simp add: hand_def grp_def)

lemma joker_head:
  assumes "hand d" "sorted_wrt card_ge d"
  shows "2 \<le> length d \<and> d ! 0 = 0x42 \<and> d ! 1 = 0x41 \<longleftrightarrow> {0x41, 0x42} \<subseteq> set d"
proof
  assume a: "2 \<le> length d \<and> d ! 0 = 0x42 \<and> d ! 1 = 0x41"
  then have "0 < length d" "1 < length d" by linarith+
  from this [THEN nth_mem] show "{0x41, 0x42} \<subseteq> set d" using a by (simp only: simp_thms insert_subset empty_subsetI)
next
  assume j: "{0x41, 0x42} \<subseteq> set d"
  have one: "grp d 17 = [0x42]" "grp d 16 = [0x41]"
    using j distinct_grp [OF assms(1)] hand_card(3,4) [OF assms(1)] by (auto simp: grp_def intro!: distinct_one)
  have "d = grp d 17 @ grp d 16 @ concat (map (grp d) (tl (tl ranks)))"
    using sorted_hand [OF assms] by (simp add: ranks_def)
  then obtain xs where "d = [0x42] @ [0x41] @ xs" unfolding one by blast
  then show "2 \<le> length d \<and> d ! 0 = 0x42 \<and> d ! 1 = 0x41" by simp
qed

section \<open>What the grouping gives\<close>

fun add_blocks :: "card list list \<Rightarrow> tagAnalyseResult \<Rightarrow> tagAnalyseResult res" where
  "add_blocks [] r = Inr r"
| "add_blocks (b # bs) r = bindR (add_block b r) (add_blocks bs)"

lemma same_loop_eq:
  assumes "k + length xs \<le> 4" "\<forall>x \<in> set xs. GetCardLogicValue x = v" "ys = [] \<or> GetCardLogicValue (hd ys) \<noteq> v"
  shows "same_loop v k (xs @ ys) = k + length xs"
  using assms
proof (induction xs arbitrary: k)
  case Nil
  then show ?case by (cases ys) auto
qed simp

lemma rest_differs:
  assumes "distinct (r # rs)"
  shows "concat (map (grp d) rs) = [] \<or> GetCardLogicValue (hd (concat (map (grp d) rs))) \<noteq> r"
proof (cases "concat (map (grp d) rs)")
  case (Cons x xs)
  then have "x \<in> set (concat (map (grp d) rs))" by simp
  then have "GetCardLogicValue x \<in> set rs" by (auto simp: grp_def)
  then show ?thesis using Cons assms by auto
qed simp

lemma analyse_groups:
  assumes "distinct rs" "0 \<notin> set rs" "\<And>r. length (grp d r) \<le> 4"
  shows "analyse_loop (concat (map (grp d) rs)) R = add_blocks (filter (\<lambda>g. g \<noteq> []) (map (grp d) rs)) R"
  using assms(1,2)
proof (induction rs arbitrary: R)
  case Nil
  then show ?case by (simp add: analyse_loop.simps)
next
  case (Cons r rs)
  let ?rest = "concat (map (grp d) rs)"
  show ?case
  proof (cases "grp d r")
    case Nil
    then show ?thesis using Cons by simp
  next
    case (Cons c cs)
    have v: "\<forall>x \<in> set (c # cs). GetCardLogicValue x = r" unfolding Cons [symmetric] by (simp add: grp_def)
    note rest = rest_differs [OF \<open>distinct (r # rs)\<close>, of d]
    have same: "same_loop r 1 (cs @ ?rest) = length (grp d r)"
      using same_loop_eq [OF _ _ rest, of 1 cs] assms(3) [of r] v Cons by simp
    have "analyse_loop ((c # cs) @ ?rest) R = bindR (add_block (c # cs) R) (analyse_loop ?rest)"
      by (subst analyse_loop.simps) (use v Cons.prems same Cons in \<open>simp add: Let_def\<close>)
    then show ?thesis using Cons Cons.IH Cons.prems by (simp cong: bindR_cong)
  qed
qed

definition block_result :: "card list list \<Rightarrow> tagAnalyseResult \<Rightarrow> tagAnalyseResult" where
  "block_result bs r =
     r\<lparr>cbBlockCount := map (\<lambda>k. cbBlockCount r ! k + length (filter (\<lambda>b. length b = k + 1) bs)) [0..<4],
       ar_cbCardData := map (\<lambda>k. ar_cbCardData r ! k @ concat (filter (\<lambda>b. length b = k + 1) bs)) [0..<4]\<rparr>"

lemma add_blocks_result:
  assumes "\<forall>b \<in> set bs. b \<noteq> [] \<and> length b \<le> 4" "length (cbBlockCount r) = 4" "length (ar_cbCardData r) = 4"
    "\<forall>k < 4. length (ar_cbCardData r ! k) + length (concat bs) \<le> 40"
  shows "add_blocks bs r = Inr (block_result bs r)"
  using assms
proof (induction bs arbitrary: r)
  case Nil
  have "map ((!) (cbBlockCount r)) [0..<4] = cbBlockCount r" "map ((!) (ar_cbCardData r)) [0..<4] = ar_cbCardData r"
    using Nil.prems map_nth by metis+
  then show ?case by (simp add: block_result_def)
next
  case (Cons b bs)
  let ?k = "length b - 1"
  let ?r = "r\<lparr>cbBlockCount := (cbBlockCount r)[?k := cbBlockCount r ! ?k + 1],
    ar_cbCardData := (ar_cbCardData r)[?k := ar_cbCardData r ! ?k @ b]\<rparr>"
  have k: "?k < 4" "length b = ?k + 1" using Cons.prems(1) by (auto simp: Suc_le_eq neq_Nil_conv)
  have "length (ar_cbCardData r ! ?k @ b) \<le> 40" using Cons.prems(4) k(1) by fastforce
  then have "add_block b r = Inr ?r" by (simp add: add_block_def Let_def MAX_COUNT_def)
  moreover have "add_blocks bs ?r = Inr (block_result bs ?r)"
    by (rule Cons.IH) (use Cons.prems k in \<open>auto simp: nth_list_update\<close>)
  moreover have "block_result bs ?r = block_result (b # bs) r"
    using k Cons.prems(2,3) by (auto simp: block_result_def nth_list_update)
  ultimately show ?case by simp
qed

definition grouped :: "card list \<Rightarrow> tagAnalyseResult" where
  "grouped d =
     \<lparr>cbBlockCount = map (\<lambda>k. length (ranks_with (k + 1) d)) [0..<4],
      ar_cbCardData = map (\<lambda>k. concat (map (grp d) (ranks_with (k + 1) d))) [0..<4],
      ar_cbCardType = 0, ar_cbLogicValue = 0\<rparr>"

lemma filter_groups:
  "filter (\<lambda>b. b \<noteq> [] \<and> length b = Suc k) (map (grp d) rs) = map (grp d) (filter (\<lambda>r. cnt d r = Suc k) rs)"
  by (induction rs) (auto simp: cnt_def grp_def)

lemma AnalysebCardData_sorted:
  assumes "hand d" "sorted_wrt card_ge d" "length d \<le> 40"
  shows "AnalysebCardData d = Inr (grouped d)"
proof -
  let ?bs = "filter (\<lambda>g. g \<noteq> []) (map (grp d) ranks)"
  have four: "length (grp d r) \<le> 4" for r using cnt_le_4 [OF assms(1), of r] by (simp add: cnt_def grp_def)
  have cat: "concat ?bs = d"
  proof -
    have "concat (filter (\<lambda>g. g \<noteq> []) gs) = concat gs" for gs :: "card list list" by (induction gs) auto
    then show ?thesis using sorted_hand [OF assms(1,2)] by simp
  qed
  have "AnalysebCardData d = analyse_loop (concat (map (grp d) ranks)) empty_result"
    using sorted_hand [OF assms(1,2)] by (simp add: AnalysebCardData_def)
  also have "\<dots> = add_blocks ?bs empty_result" by (rule analyse_groups) (use four in \<open>auto simp: set_ranks\<close>)
  also have "\<dots> = Inr (block_result ?bs empty_result)"
  proof (rule add_blocks_result)
    show "\<forall>k < 4. length (ar_cbCardData empty_result ! k) + length (concat ?bs) \<le> 40"
      unfolding cat using assms(3) by (auto simp: empty_result_def nth_Cons split: nat.splits)
  qed (use four in \<open>auto simp: empty_result_def\<close>)
  also have "block_result ?bs empty_result = grouped d"
    by (simp add: block_result_def grouped_def filter_groups ranks_with_def empty_result_def upt_rec)
  finally show ?thesis .
qed

lemma grouped_simps [simp]:
  "k < 4 \<Longrightarrow> cbBlockCount (grouped d) ! k = length (ranks_with (k + 1) d)"
  "k < 4 \<Longrightarrow> ar_cbCardData (grouped d) ! k = concat (map (grp d) (ranks_with (k + 1) d))"
  by (simp_all add: grouped_def)

lemma concat_nth:
  assumes "\<forall>r \<in> set rs. length (f r) = k" "0 < k" "i < length rs"
  shows "concat (map f rs) ! (i * k) = hd (f (rs ! i))"
  using assms
proof (induction rs arbitrary: i)
  case (Cons r rs)
  show ?case
  proof (cases i)
    case 0
    then show ?thesis using Cons.prems by (cases "f r") auto
  next
    case (Suc j)
    then show ?thesis using Cons by (simp add: nth_append)
  qed
qed simp

lemma block_values_grouped:
  assumes "k \<in> {1, 2, 3, 4}"
  shows "block_values k (grouped d) = ranks_with k d"
proof (rule nth_equalityI)
  show len: "length (block_values k (grouped d)) = length (ranks_with k d)"
    using assms grouped_simps(1) [of "k - 1" d] by (auto simp: block_values_def eval_nat_numeral)
  fix i assume "i < length (block_values k (grouped d))"
  then have i: "i < length (ranks_with k d)" using len by simp
  then have mem: "ranks_with k d ! i \<in> set (ranks_with k d)" by simp
  have k: "0 < k" "k - 1 < 4" "k - 1 + 1 = k" using assms by auto
  have lens: "\<forall>r \<in> set (ranks_with k d). length (grp d r) = k" by (auto simp: ranks_with_def cnt_def grp_def)
  then have "grp d (ranks_with k d ! i) \<noteq> []" using mem k(1) by fastforce
  then have "GetCardLogicValue (hd (grp d (ranks_with k d ! i))) = ranks_with k d ! i"
    using hd_in_set [of "grp d (ranks_with k d ! i)"] by (auto simp: grp_def)
  then show "block_values k (grouped d) ! i = ranks_with k d ! i"
    using i k grouped_simps [of "k - 1" d] concat_nth [OF lens k(1) i] by (simp add: block_values_def)
qed

section \<open>Sorting by number\<close>

text \<open>The order of a hand sorted by number: the larger groups first, then as a sorted hand.\<close>

definition number_ge :: "card list \<Rightarrow> card \<Rightarrow> card \<Rightarrow> bool" where
  "number_ge cards a b \<longleftrightarrow>
     cnt cards (GetCardLogicValue b) < cnt cards (GetCardLogicValue a) \<or>
     cnt cards (GetCardLogicValue a) = cnt cards (GetCardLogicValue b) \<and> card_ge a b"

lemma sorted_ranks_with: "sorted_wrt (>) (ranks_with k d)"
  unfolding ranks_with_def by (rule sorted_wrt_filter [OF sorted_ranks])

lemma number_sorted_blocks:
  assumes "sorted_wrt (>) ks" "sorted_wrt card_ge d"
  shows "sorted_wrt (number_ge d) (concat (map (\<lambda>k. concat (map (grp d) (ranks_with k d))) ks))"
  using assms(1)
proof (induction ks)
  case (Cons k ks)
  have k: "cnt d (GetCardLogicValue x) = k" if "x \<in> set (concat (map (grp d) (ranks_with k d)))" for x k
    using that by (auto simp: grp_def ranks_with_def)
  have "sorted_wrt card_ge (concat (map (grp d) (ranks_with k d)))"
    by (rule sorted_groups [OF sorted_ranks_with assms(2)])
  then have "sorted_wrt (number_ge d) (concat (map (grp d) (ranks_with k d)))"
    by (rule sorted_wrt_mono_rel [rotated]) (use k in \<open>auto simp: number_ge_def\<close>)
  moreover have "number_ge d x y"
    if x: "x \<in> set (concat (map (grp d) (ranks_with k d)))" and y: "y \<in> set (concat (map (\<lambda>k. concat (map (grp d) (ranks_with k d))) ks))" for x y
  proof -
    obtain j where "j \<in> set ks" "y \<in> set (concat (map (grp d) (ranks_with j d)))" using y by auto
    then show ?thesis using k x Cons.prems by (force simp: number_ge_def)
  qed
  ultimately show ?case using Cons by (simp add: sorted_wrt_append)
qed simp

lemma mset_blocks:
  assumes "hand d"
  shows "mset (concat (map (\<lambda>k. concat (map (grp d) (ranks_with k d))) [4, 3, 2, 1])) = mset d"
proof -
  let ?v = GetCardLogicValue
  have blk: "mset (concat (map (grp d) (ranks_with k d))) = mset (filter (\<lambda>c. cnt d (?v c) = k) d)" for k
  proof -
    have "filter (\<lambda>c. ?v c \<in> set (ranks_with k d)) d = filter (\<lambda>c. cnt d (?v c) = k) d"
      using hand_card(1) [OF assms] by (auto simp: ranks_with_def intro: filter_cong)
    then show ?thesis using mset_groups [of "ranks_with k d" d] by (simp add: ranks_with_def)
  qed
  have part: "mset d' = mset (filter (\<lambda>c. f c = 4) d') + mset (filter (\<lambda>c. f c = 3) d') +
      mset (filter (\<lambda>c. f c = 2) d') + mset (filter (\<lambda>c. f c = 1) d')"
    if "\<forall>c \<in> set d'. f c \<in> {1, 2, 3, 4}" for f :: "card \<Rightarrow> nat" and d'
    using that by (induction d') auto
  have pos: "0 < cnt d (?v c)" if "c \<in> set d" for c
    using that unfolding cnt_def by (auto simp: filter_empty_conv)
  have "cnt d (?v c) \<in> {1, 2, 3, 4}" if "c \<in> set d" for c
    using cnt_le_4 [OF assms, of "?v c"] pos [OF that] by auto
  then show ?thesis using part [of d "\<lambda>c. cnt d (?v c)"] by (simp add: blk add.assoc)
qed

lemma SortCardList_number:
  assumes "hand cards" "length cards \<le> 40"
  shows "\<exists>d. SortCardList cards ST_COUNT = Inr d \<and> mset d = mset cards \<and> sorted_wrt (number_ge cards) d"
proof (cases "cards = []")
  case False
  obtain d where d: "fst (sort_loop (length cards - 1) cards (map GetCardLogicValue cards)) = d" "mset d = mset cards" "sorted_wrt card_ge d"
    using sort_loop_ok [of "length cards - 1" cards] False by fastforce
  let ?g = "concat (map (\<lambda>k. concat (map (grp d) (ranks_with k d))) [4, 3, 2, 1])"
  have h: "hand d" "length d \<le> 40" using hand_mset [OF assms(1) d(2)] mset_eq_length [OF d(2)] assms(2) by auto
  have g: "concat (rev (ar_cbCardData (grouped d))) = ?g"
    by (simp add: grouped_def upt_rec eval_nat_numeral)
  have ms: "mset ?g = mset d" by (rule mset_blocks [OF h(1)])
  then have "length ?g = length d" by (rule mset_eq_length)
  then have "SortCardList cards ST_COUNT = Inr ?g"
    using False assms(2) d(1) AnalysebCardData_sorted [OF h(1) d(3) h(2)]
    unfolding SortCardList_def ST_COUNT_def ST_CUSTOM_def FULL_COUNT_def Let_def
    by (simp only: g bindR_Inr length_0_conv) simp
  moreover have "number_ge cards = number_ge d" using cnt_mset [OF d(2)] by (simp add: number_ge_def fun_eq_iff)
  moreover have "sorted_wrt (number_ge d) ?g" by (rule number_sorted_blocks [OF _ d(3)]) simp
  ultimately show ?thesis using ms d(2) by metis
qed (simp add: SortCardList_def)

text \<open>
  C31. Sorting a set of cards keeps the cards and gives the order asked for: by value and
  colour, the higher first, or with the groups of four equal values before those of three,
  two and one.
\<close>

theorem sort_card_list_correct:
  assumes "hand cards" "length cards \<le> 40"
  shows "(\<exists>d. SortCardList cards ST_ORDER = Inr d \<and> mset d = mset cards \<and> sorted_wrt card_ge d) \<and>
    (\<exists>d. SortCardList cards ST_COUNT = Inr d \<and> mset d = mset cards \<and> sorted_wrt (number_ge cards) d)"
  using SortCardList_order [of cards] SortCardList_number [OF assms] assms(2) by (simp add: FULL_COUNT_def)

lemma sample_sort: "hand [0x01, 0x13, 0x42, 0x03]"
proof -
  have "list_all (\<lambda>c. c \<in> set m_cbCardData) [0x01, 0x13, 0x42, 0x03]" by code_simp
  then show ?thesis by (auto simp: hand_def)
qed

theorem sort_card_list_correct_witness:
  "SortCardList [0x01, 0x13, 0x42, 0x03] ST_COUNT = Inr [0x13, 0x03, 0x42, 0x01] \<and>
   sorted_wrt (number_ge [0x01, 0x13, 0x42, 0x03]) [0x13, 0x03, 0x42, 0x01]"
proof -
  have run: "SortCardList [0x01, 0x13, 0x42, 0x03] ST_COUNT = Inr [0x13, 0x03, 0x42, 0x01]" by code_simp
  have "length [0x01, 0x13, 0x42, 0x03 :: card] \<le> 40" by simp
  from sort_card_list_correct [OF sample_sort this] show ?thesis unfolding run by auto
qed

end
