(* ===== verification/Land_Deal.thy ===== *)
theory Land_Deal
  imports Land_Groups
begin

text \<open>
  Shuffling and dealing in the land game (\<^verbatim>\<open>3rd/land/GameLogic.cpp\<close>).  The results of
  \<^verbatim>\<open>rand\<close> are a sequence \<open>rnd\<close>: \<open>rnd i\<close> is what the call number \<open>i\<close> of a function gives.
\<close>

section \<open>Drawing\<close>

text \<open>
  The loop that all of these functions use: it draws a card from the first \<open>n - k\<close> places
  after \<open>base\<close>, puts it in place \<open>k\<close> of the result and moves the card in the last of these
  places into the gap; it ends when \<open>stop\<close> cards are drawn.
\<close>

function draw_loop ::
  "(nat \<Rightarrow> nat) \<Rightarrow> nat \<Rightarrow> nat \<Rightarrow> nat \<Rightarrow> nat \<Rightarrow> card list \<Rightarrow> card list \<Rightarrow> (card list \<times> card list) res" where
  "draw_loop rnd base n stop cbRandCount out cards =
     (if n - cbRandCount = 0 then Inl Div_by_zero
      else
        let cbPosition = base + rnd cbRandCount mod (n - cbRandCount) in
        bindR (aget cards cbPosition) (\<lambda>c.
        bindR (aset out cbRandCount c) (\<lambda>out.
        bindR (aget cards (base + (n - (cbRandCount + 1)))) (\<lambda>l.
        bindR (aset cards cbPosition l) (\<lambda>cards.
        if cbRandCount + 1 < stop then draw_loop rnd base n stop (cbRandCount + 1) out cards
        else Inr (out, cards))))))"
  by pat_completeness auto
termination
  by (relation "measure (\<lambda>(rnd, base, n, stop, k, out, cards). stop - k)") auto

declare draw_loop.simps [simp del]

definition RandCardList :: "(nat \<Rightarrow> nat) \<Rightarrow> card list \<Rightarrow> nat \<Rightarrow> card list res" where
  "RandCardList rnd cbCardBuffer cbBufferCount =
     bindR (draw_loop rnd 0 cbBufferCount cbBufferCount 0 cbCardBuffer m_cbCardData) (\<lambda>(buffer, _). Inr buffer)"

definition RandCardColor :: "(nat \<Rightarrow> nat) \<Rightarrow> card \<Rightarrow> nat \<Rightarrow> card list res" where
  "RandCardColor rnd cbCardValue cbCount =
     (let CardTemp = map (\<lambda>index. 16 * index + cbCardValue) [0, 1, 2, 3] in
      if cbCount = 4 then Inr CardTemp
      else bindR (draw_loop rnd 0 4 4 0 (replicate 4 0) CardTemp) (\<lambda>(CardCode, _). Inr (take cbCount CardCode)))"

section \<open>Weak hands\<close>

text \<open>A card of place \<open>i\<close> is exchanged with the first card below a king in the places \<open>js\<close>.\<close>

definition give_away :: "nat \<Rightarrow> nat list \<Rightarrow> card list \<Rightarrow> card list" where
  "give_away i js buffer =
     (case find (\<lambda>j. GetCardLogicValue (buffer ! j) < 13) js of
        None \<Rightarrow> buffer
      | Some j \<Rightarrow> swap i j buffer)"

definition seat :: "nat \<Rightarrow> nat list" where
  "seat ChairID = [ChairID * NORMAL_COUNT..<(ChairID + 1) * NORMAL_COUNT]"

definition give_high_cards :: "nat \<Rightarrow> nat \<Rightarrow> card list \<Rightarrow> card list" where
  "give_high_cards UserChairID GoodChairID buffer =
     fold (\<lambda>i buffer. if GetCardLogicValue (buffer ! i) > 13 then give_away i (seat GoodChairID) buffer else buffer)
       (seat UserChairID) buffer"

definition break_bomb :: "nat \<Rightarrow> nat \<Rightarrow> card \<Rightarrow> card list \<Rightarrow> card list" where
  "break_bomb UserChairID GoodChairID c buffer =
     (case find (\<lambda>j. buffer ! j = c) (seat UserChairID) of
        None \<Rightarrow> buffer
      | Some j \<Rightarrow> give_away j (seat GoodChairID) buffer)"

definition put_at :: "nat \<Rightarrow> card list \<Rightarrow> card list \<Rightarrow> card list" where
  "put_at i cards buffer = take i buffer @ cards @ drop (i + length cards) buffer"

definition RandBadCardList :: "(nat \<Rightarrow> nat) \<Rightarrow> card list \<Rightarrow> nat \<Rightarrow> nat \<Rightarrow> card list res" where
  "RandBadCardList rnd cbCardBuffer cbBufferCount UserChairID =
     bindR (RandCardList rnd cbCardBuffer cbBufferCount) (\<lambda>buffer.
     let GoodChairID = (UserChairID + 1) mod GAME_PLAYER in
     if length buffer < (UserChairID + 1) * NORMAL_COUNT \<or> length buffer < (GoodChairID + 1) * NORMAL_COUNT
     then Inl Out_of_bounds
     else
       let buffer = give_high_cards UserChairID GoodChairID buffer;
           own = UserChairID * NORMAL_COUNT; other = GoodChairID * NORMAL_COUNT in
       bindR (SortCardList (take NORMAL_COUNT (drop own buffer)) ST_ORDER) (\<lambda>cards.
       let buffer = put_at own cards buffer in
       bindR (AnalysebCardData cards) (\<lambda>r.
       let bombs = map (\<lambda>i. ar_cbCardData r ! 3 ! (i * 4)) [0..<cbBlockCount r ! 3];
           buffer = fold (break_bomb UserChairID GoodChairID) bombs buffer in
       bindR (draw_loop (\<lambda>k. rnd (k + cbBufferCount)) other NORMAL_COUNT NORMAL_COUNT 0
               (take NORMAL_COUNT (drop other buffer)) buffer) (\<lambda>(cards, buffer).
       Inr (put_at other cards buffer)))))"

section \<open>Strong hands\<close>

text \<open>Triplets and bombs of the values drawn, with random colours.\<close>

fun good_groups :: "(nat \<Rightarrow> nat) \<Rightarrow> nat \<Rightarrow> card list \<Rightarrow> nat list \<Rightarrow> card list res" where
  "good_groups rnd call values [] = Inr []"
| "good_groups rnd call values (k # ks) =
     bindR (aget values 0) (\<lambda>v.
     bindR (RandCardColor (\<lambda>i. rnd (i + call)) v k) (\<lambda>cards.
     bindR (good_groups rnd (if k = 4 then call else call + 4) (tl values) ks) (\<lambda>rest.
     Inr (cards @ rest))))"

text \<open>Each good card is brought to its place at the seat, in exchange for the card that is there.\<close>

definition place_good :: "nat \<Rightarrow> nat \<Rightarrow> nat \<times> card \<Rightarrow> card list \<Rightarrow> card list" where
  "place_good cbBufferCount UserChairID ic buffer =
     (case ic of (i, c) \<Rightarrow>
        (case find (\<lambda>j. c = buffer ! j) [0..<cbBufferCount] of
           None \<Rightarrow> buffer
         | Some j \<Rightarrow>
             let temp = buffer ! (i + UserChairID * NORMAL_COUNT)
             in (buffer[i + UserChairID * NORMAL_COUNT := c])[j := temp]))"

definition RandGoodCardList :: "(nat \<Rightarrow> nat) \<Rightarrow> card list \<Rightarrow> nat \<Rightarrow> nat \<Rightarrow> nat \<times> nat \<Rightarrow> card list res" where
  "RandGoodCardList rnd cbCardBuffer cbBufferCount UserChairID CardType =
     bindR (RandCardList rnd cbCardBuffer cbBufferCount) (\<lambda>buffer.
     case CardType of (threes, fours) \<Rightarrow>
     let CardCount = (threes * 3 + fours * 4) mod 256 in
     if CardCount > NORMAL_COUNT \<or> CardCount = 0 then Inr buffer
     else
       bindR (draw_loop (\<lambda>i. rnd (i + cbBufferCount)) 0 13 11 0 (replicate 11 0) [1, 2, 3, 4, 5, 6, 8, 9, 11, 12, 13])
         (\<lambda>(CardValue, _).
       bindR (good_groups rnd (cbBufferCount + 11) CardValue (replicate threes 3 @ replicate fours 4)) (\<lambda>GoodCard.
       if NORMAL_COUNT < length GoodCard \<or> length buffer < (UserChairID + 1) * NORMAL_COUNT \<or> length buffer < cbBufferCount
       then Inl Out_of_bounds
       else
         let buffer = fold (place_good cbBufferCount UserChairID) (zip [0..<length GoodCard] GoodCard) buffer in
         bindR (draw_loop (\<lambda>i. rnd (i + cbBufferCount + 11 + 4 * threes)) (NORMAL_COUNT * UserChairID) NORMAL_COUNT NORMAL_COUNT 0
                 (replicate NORMAL_COUNT 0) buffer) (\<lambda>(cards, buffer).
         Inr (put_at (NORMAL_COUNT * UserChairID) cards buffer)))))"

section \<open>What a sequence of draws gives\<close>

fun picks :: "nat list \<Rightarrow> 'a list \<Rightarrow> 'a list" where
  "picks [] xs = []"
| "picks (p # ps) xs = xs ! p # picks ps (butlast (xs[p := last xs]))"

fun choices :: "nat \<Rightarrow> nat list \<Rightarrow> bool" where
  "choices n [] \<longleftrightarrow> n = 0"
| "choices n (p # ps) \<longleftrightarrow> p < n \<and> choices (n - 1) ps"

lemma mset_pick:
  assumes "p < length xs"
  shows "mset xs = add_mset (xs ! p) (mset (butlast (xs[p := last xs])))"
proof -
  let ?ys = "xs[p := last xs]"
  have ne: "?ys \<noteq> []" using assms by auto
  have "last ?ys = last xs" using assms ne by (simp add: last_conv_nth nth_list_update)
  then have "mset ?ys = add_mset (last xs) (mset (butlast ?ys))"
    using append_butlast_last_id [OF ne] by (metis mset_append mset.simps add_mset_add_single)
  moreover have "mset ?ys = add_mset (last xs) (mset xs - {# xs ! p #})" using assms by (rule mset_update)
  ultimately have "mset (butlast ?ys) = mset xs - {# xs ! p #}" by simp
  then show ?thesis using assms by simp
qed

lemma choices_length: "choices n ps \<Longrightarrow> length ps = n"
  by (induction ps arbitrary: n) auto

lemma picks_mset: "choices (length xs) ps \<Longrightarrow> mset (picks ps xs) = mset xs"
proof (induction ps arbitrary: xs)
  case (Cons p ps)
  then have "mset (picks ps (butlast (xs[p := last xs]))) = mset (butlast (xs[p := last xs]))" by simp
  then show ?case using mset_pick [of p xs] Cons.prems by simp
qed simp

lemma distinct_pick: "distinct xs \<Longrightarrow> p < length xs \<Longrightarrow> distinct (butlast (xs[p := last xs]))"
  using mset_pick [of p xs] by (metis distinct.simps(2) mset.simps(2) mset_eq_imp_distinct_iff)

lemma picks_inj:
  assumes "distinct xs" "choices (length xs) ps" "choices (length xs) qs" "picks ps xs = picks qs xs"
  shows "ps = qs"
  using assms
proof (induction ps arbitrary: xs qs)
  case (Cons p ps)
  then obtain q qs' where qs: "qs = q # qs'" by (cases qs) auto
  have "xs ! p = xs ! q" using Cons.prems(4) qs by simp
  then have "p = q" using Cons.prems(1-3) qs by (simp add: nth_eq_iff_index_eq)
  then show ?case using Cons.IH [of "butlast (xs[p := last xs])" qs'] Cons.prems qs distinct_pick [of xs p] by simp
next
  case Nil
  then show ?case by (cases qs) auto
qed

lemma picks_surj: "mset zs = mset xs \<Longrightarrow> \<exists>ps. choices (length xs) ps \<and> picks ps xs = zs"
proof (induction zs arbitrary: xs)
  case (Cons z zs)
  have "z \<in> set xs" using mset_eq_setD [OF Cons.prems] by auto
  then obtain p where p: "p < length xs" "xs ! p = z" by (auto simp: in_set_conv_nth)
  have "mset zs = mset (butlast (xs[p := last xs]))" using mset_pick [OF p(1)] p(2) Cons.prems by simp
  from Cons.IH [OF this] obtain ps where "choices (length xs - 1) ps" "picks ps (butlast (xs[p := last xs])) = zs" by auto
  then show ?case using p by (intro exI [of _ "p # ps"]) simp
qed (auto intro: exI [of _ "[]"])

definition draws :: "(nat \<Rightarrow> nat) \<Rightarrow> nat \<Rightarrow> nat \<Rightarrow> nat list" where
  "draws rnd n k = map (\<lambda>i. rnd i mod (n - i)) [k..<n]"

lemma draws_step: "k < n \<Longrightarrow> draws rnd n k = rnd k mod (n - k) # draws rnd n (k + 1)"
  by (simp add: draws_def upt_conv_Cons)

lemma choices_draws: "k \<le> n \<Longrightarrow> choices (n - k) (draws rnd n k)"
proof (induction "n - k" arbitrary: k)
  case 0
  then show ?case by (simp add: draws_def)
next
  case (Suc m)
  then show ?case using Suc.hyps(1) [of "k + 1"] by (simp add: draws_step)
qed

lemma choices_nth: "choices n ps \<Longrightarrow> i < n \<Longrightarrow> ps ! i < n - i"
proof (induction ps arbitrary: n i)
  case (Cons p ps)
  then show ?case using Cons.IH [of "n - 1" "i - 1"] by (cases i) auto
qed simp

lemma draws_of_choices: "choices n ps \<Longrightarrow> (\<And>i. i < n \<Longrightarrow> rnd i mod (n - i) = ps ! i) \<Longrightarrow> draws rnd n 0 = ps"
  using choices_length [of n ps] by (intro nth_equalityI) (auto simp: draws_def)

lemma draw_loop_picks:
  assumes "base + n \<le> length cards" "n \<le> length out" "k < n"
  shows "\<exists>cards'. draw_loop rnd base n n k out cards =
      Inr (take k out @ picks (draws rnd n k) (take (n - k) (drop base cards)) @ drop n out, cards') \<and>
    take base cards' = take base cards \<and> drop (base + n) cards' = drop (base + n) cards \<and> length cards' = length cards"
  using assms
proof (induction "n - k" arbitrary: k out cards)
  case (Suc m)
  let ?p = "rnd k mod (n - k)"
  let ?seg = "take (n - k) (drop base cards)"
  have p: "?p < n - k" using Suc.prems(3) by simp
  have seg: "length ?seg = n - k" "?seg ! ?p = cards ! (base + ?p)" "last ?seg = cards ! (base + (n - (k + 1)))"
    using Suc.prems p by (auto simp: last_conv_nth)
  let ?out = "out[k := ?seg ! ?p]" and ?cards = "cards[base + ?p := last ?seg]"
  have step: "draw_loop rnd base n n k out cards =
      (if k + 1 < n then draw_loop rnd base n n (k + 1) ?out ?cards else Inr (?out, ?cards))"
  proof -
    have "base + ?p < length cards" "base + (n - (k + 1)) < length cards" "k < length out" "n - k \<noteq> 0"
      using Suc.prems p by linarith+
    then show ?thesis unfolding seg(2,3) by (subst draw_loop.simps) (simp only: Let_def aget_ok aset_ok bindR_Inr if_False)
  qed
  have out: "take (k + 1) ?out = take k out @ [?seg ! ?p]" "drop n ?out = drop n out"
    using Suc.prems by (simp_all add: take_Suc_conv_app_nth)
  have frame: "take base ?cards = take base cards" "drop (base + n) ?cards = drop (base + n) cards"
  proof -
    have "base + ?p < base + n" using p by linarith
    then show "drop (base + n) ?cards = drop (base + n) cards" by simp
  qed simp
  have rest: "take (n - (k + 1)) (drop base ?cards) = butlast (?seg[?p := last ?seg])"
  proof -
    have "?seg[?p := last ?seg] = take (n - k) (drop base ?cards)" using Suc.prems p by (simp add: drop_update_swap take_update_swap)
    then show ?thesis using Suc.prems by (simp add: butlast_take)
  qed
  show ?case
  proof (cases "k + 1 < n")
    case True
    have m: "m = n - (k + 1)" using Suc.hyps(2) by simp
    have pre: "base + n \<le> length ?cards" "n \<le> length ?out" using Suc.prems by simp_all
    from Suc.hyps(1) [OF m pre True] obtain cards' where
      "draw_loop rnd base n n (k + 1) ?out ?cards =
        Inr (take (k + 1) ?out @ picks (draws rnd n (k + 1)) (take (n - (k + 1)) (drop base ?cards)) @ drop n ?out, cards')"
      "take base cards' = take base ?cards" "drop (base + n) cards' = drop (base + n) ?cards" "length cards' = length ?cards"
      by blast
    then show ?thesis unfolding step rest out frame using True Suc.prems(3) by (simp add: draws_step)
  next
    case False
    then have n: "n = k + 1" using Suc.prems(3) by simp
    have "?out = take k out @ ?seg ! ?p # drop n ?out" using Suc.prems n by (simp add: upd_conv_take_nth_drop)
    then have "?out = take k out @ picks (draws rnd n k) ?seg @ drop n out" using out(2) n by (simp add: draws_step draws_def)
    then show ?thesis unfolding step using False frame by auto
  qed
qed simp

section \<open>Properties of shuffling\<close>

lemma RandCardList_picks:
  assumes "length buf \<ge> 54"
  shows "RandCardList rnd buf 54 = Inr (picks (draws rnd 54 0) m_cbCardData @ drop 54 buf)"
  using draw_loop_picks [of 0 54 m_cbCardData buf 0 rnd] assms deck_values(4) by (auto simp: RandCardList_def)

lemma RandCardList_perm: "mset (picks (draws rnd 54 0) m_cbCardData) = mset m_cbCardData"
  using picks_mset [of m_cbCardData "draws rnd 54 0"] choices_draws [of 0 54 rnd] deck_values(4) by simp

text \<open>
  C33. The deck is shuffled fairly: whatever \<^verbatim>\<open>rand\<close> gives, \<^verbatim>\<open>RandCardList\<close> fills the buffer
  with the 54 cards of the deck in some order, and each order comes from exactly one sequence
  of choices of the places to draw from.  With independent and even choices all orders
  are equally likely.
\<close>

theorem rand_card_list_fair:
  assumes "length buf \<ge> 54"
  shows "(\<forall>rnd. \<exists>zs. RandCardList rnd buf 54 = Inr (zs @ drop 54 buf) \<and> mset zs = mset m_cbCardData) \<and>
    (\<forall>zs. mset zs = mset m_cbCardData \<longrightarrow>
      (\<exists>!ps. choices 54 ps \<and>
        (\<forall>rnd. (\<forall>i < 54. rnd i mod (54 - i) = ps ! i) \<longrightarrow> RandCardList rnd buf 54 = Inr (zs @ drop 54 buf))))"
proof (intro conjI allI impI)
  show "\<exists>zs. RandCardList rnd buf 54 = Inr (zs @ drop 54 buf) \<and> mset zs = mset m_cbCardData" for rnd
    using RandCardList_picks [OF assms] RandCardList_perm by blast
  fix zs :: "card list" assume "mset zs = mset m_cbCardData"
  then obtain ps where ps: "choices 54 ps" "picks ps m_cbCardData = zs"
    using picks_surj [of zs m_cbCardData] deck_values(4) by auto
  show "\<exists>!ps. choices 54 ps \<and>
      (\<forall>rnd. (\<forall>i < 54. rnd i mod (54 - i) = ps ! i) \<longrightarrow> RandCardList rnd buf 54 = Inr (zs @ drop 54 buf))"
  proof (intro ex1I [of _ ps] conjI allI impI)
    show "choices 54 ps" by (rule ps(1))
    show "RandCardList rnd buf 54 = Inr (zs @ drop 54 buf)" if "\<forall>i < 54. rnd i mod (54 - i) = ps ! i" for rnd
      using RandCardList_picks [OF assms, of rnd] draws_of_choices [OF ps(1)] that ps(2) by simp
    fix qs assume qs: "choices 54 qs \<and>
      (\<forall>rnd. (\<forall>i < 54. rnd i mod (54 - i) = qs ! i) \<longrightarrow> RandCardList rnd buf 54 = Inr (zs @ drop 54 buf))"
    have q: "(!) qs i mod (54 - i) = qs ! i" if "i < 54" for i using choices_nth [of 54 qs i] qs that by simp
    then have "RandCardList ((!) qs) buf 54 = Inr (zs @ drop 54 buf)" using qs by blast
    moreover have "RandCardList ((!) qs) buf 54 = Inr (picks qs m_cbCardData @ drop 54 buf)"
      using RandCardList_picks [OF assms] draws_of_choices [of 54 qs "(!) qs"] qs q by simp
    ultimately have "picks qs m_cbCardData = picks ps m_cbCardData" using ps(2) by simp
    then show "qs = ps" using picks_inj [OF deck_values(3)] ps(1) qs deck_values(4) by metis
  qed
qed

theorem rand_card_list_fair_witness:
  "\<exists>zs. RandCardList (\<lambda>i. 7 * i) (replicate 54 0) 54 = Inr (zs @ drop 54 (replicate 54 0)) \<and> mset zs = mset m_cbCardData"
proof -
  have "length (replicate 54 (0 :: card)) \<ge> 54" by simp
  from rand_card_list_fair [OF this] show ?thesis by blast
qed

lemma find_mem: "find P xs = Some x \<Longrightarrow> x \<in> set xs"
  by (induction xs) (auto split: if_splits)

lemma give_away_perm:
  assumes "i < length buf" "\<forall>j \<in> set js. j < length buf"
  shows "mset (give_away i js buf) = mset buf \<and> length (give_away i js buf) = length buf"
  using assms find_mem [of _ js] by (auto simp: give_away_def split: option.splits)

lemma seat_bound: "U < 3 \<Longrightarrow> j \<in> set (seat U) \<Longrightarrow> j < 54"
  by (auto simp: seat_def NORMAL_COUNT_def)

definition same_cards :: "card list \<Rightarrow> card list \<Rightarrow> bool" where
  "same_cards a b \<longleftrightarrow> mset a = mset b \<and> length a = 54"

lemma give_away_same:
  "same_cards buf b \<Longrightarrow> i < 54 \<Longrightarrow> U < 3 \<Longrightarrow> same_cards (give_away i (seat U) buf) b"
  using give_away_perm [of i buf "seat U"] seat_bound [of U] by (auto simp: same_cards_def)

lemma fold_same:
  "(\<And>x s. x \<in> set xs \<Longrightarrow> same_cards s b \<Longrightarrow> same_cards (f x s) b) \<Longrightarrow> same_cards s b \<Longrightarrow> same_cards (fold f xs s) b"
  by (induction xs arbitrary: s) auto

lemma give_high_same:
  "same_cards buf b \<Longrightarrow> U < 3 \<Longrightarrow> G < 3 \<Longrightarrow> same_cards (give_high_cards U G buf) b"
  unfolding give_high_cards_def by (rule fold_same) (auto intro: give_away_same seat_bound)

lemma break_bomb_same:
  "same_cards buf b \<Longrightarrow> U < 3 \<Longrightarrow> G < 3 \<Longrightarrow> same_cards (break_bomb U G c buf) b"
  unfolding break_bomb_def using find_mem [of _ "seat U"]
  by (auto intro!: give_away_same intro: seat_bound split: option.splits)

lemma mset_split: "i + n \<le> length xs \<Longrightarrow> mset xs = mset (take i xs) + mset (take n (drop i xs)) + mset (drop (i + n) xs)"
  by (metis append_take_drop_id mset_append drop_drop add.commute union_assoc)

lemma put_at_same:
  assumes "same_cards buf b" "i + n \<le> 54" "mset cards = mset (take n (drop i buf))" "take i buf' = take i buf"
    "drop (i + n) buf' = drop (i + n) buf" "length buf' = 54"
  shows "same_cards (put_at i cards buf') b"
proof -
  have "length cards = n" using mset_eq_length [OF assms(3)] assms(1,2) by (simp add: same_cards_def)
  then show ?thesis
    using assms mset_split [of i n buf] by (auto simp: same_cards_def put_at_def)
qed

text \<open>A seat is sorted and analysed, or drawn again, without losing a card.\<close>

lemma sort_seat_same:
  assumes "same_cards buf m_cbCardData" "base + 17 \<le> 54"
  shows "\<exists>d. SortCardList (take 17 (drop base buf)) ST_ORDER = Inr d \<and> AnalysebCardData d = Inr (grouped d) \<and>
    same_cards (put_at base d buf) m_cbCardData"
proof -
  let ?seg = "take 17 (drop base buf)"
  have ms: "mset buf = mset m_cbCardData" "length buf = 54" using assms(1) by (simp_all add: same_cards_def)
  have "distinct buf" "set buf = set m_cbCardData"
    using mset_eq_imp_distinct_iff [OF ms(1)] deck_values(3) mset_eq_setD [OF ms(1)] by auto
  then have h: "hand ?seg" by (auto simp: hand_def dest!: in_set_takeD in_set_dropD)
  have "length ?seg \<le> FULL_COUNT" by (simp add: FULL_COUNT_def)
  then obtain d where d: "SortCardList ?seg ST_ORDER = Inr d" "mset d = mset ?seg" "sorted_wrt card_ge d"
    using SortCardList_order by blast
  have "AnalysebCardData d = Inr (grouped d)"
    using AnalysebCardData_sorted [OF hand_mset [OF h d(2)] d(3)] mset_eq_length [OF d(2)] by simp
  moreover have "same_cards (put_at base d buf) m_cbCardData"
    by (rule put_at_same [OF assms d(2)]) (use ms in simp_all)
  ultimately show ?thesis using d(1) by blast
qed

lemma redraw_same:
  assumes "same_cards buf b" "base + 17 \<le> 54"
  shows "\<exists>cards buf'. draw_loop rnd base 17 17 0 (take 17 (drop base buf)) buf = Inr (cards, buf') \<and>
    same_cards (put_at base cards buf') b"
proof -
  let ?seg = "take 17 (drop base buf)"
  have len: "length buf = 54" "length ?seg = 17" using assms by (simp_all add: same_cards_def)
  have pre: "base + 17 \<le> length buf" "17 \<le> length ?seg" "0 < (17 :: nat)" using assms(2) len by simp_all
  from draw_loop_picks [OF pre, of rnd] obtain buf' where
    run: "draw_loop rnd base 17 17 0 ?seg buf = Inr (take 0 ?seg @ picks (draws rnd 17 0) (take (17 - 0) (drop base buf)) @ drop 17 ?seg, buf')"
    and frame: "take base buf' = take base buf" "drop (base + 17) buf' = drop (base + 17) buf" "length buf' = length buf" by blast
  have "mset (picks (draws rnd 17 0) ?seg) = mset ?seg" using picks_mset [of ?seg] choices_draws [of 0 17 rnd] len(2) by simp
  from put_at_same [OF assms this frame(1,2)] have "same_cards (put_at base (picks (draws rnd 17 0) ?seg) buf') b"
    using frame(3) len(1) by simp
  then show ?thesis using run by auto
qed

text \<open>
  Dealing a weak hand keeps the deck: for each of the three seats and whatever \<^verbatim>\<open>rand\<close>
  gives, \<^verbatim>\<open>RandBadCardList\<close> ends without an error, and the buffer holds every card of the
  deck exactly once, although it moves high cards and bombs to the neighbour and draws the
  neighbour's cards again.
\<close>

theorem rand_bad_deals_deck:
  assumes "length buf = 54" "U < 3"
  shows "\<exists>zs. RandBadCardList rnd buf 54 U = Inr zs \<and> mset zs = mset m_cbCardData"
proof -
  define G where "G = (U + 1) mod 3"
  have G: "G < 3" by (simp add: G_def)
  have bounds: "U * 17 + 17 \<le> 54" "G * 17 + 17 \<le> 54" using assms(2) G by linarith+
  define b0 where "b0 = picks (draws rnd 54 0) m_cbCardData"
  have run0: "RandCardList rnd buf 54 = Inr b0" using RandCardList_picks [of buf rnd] assms(1) by (simp add: b0_def)
  have s0: "same_cards b0 m_cbCardData"
    using RandCardList_perm [of rnd] mset_eq_length [OF RandCardList_perm [of rnd]] deck_values(4) by (simp add: same_cards_def b0_def)
  define b1 where "b1 = give_high_cards U G b0"
  have s1: "same_cards b1 m_cbCardData" unfolding b1_def by (rule give_high_same [OF s0 assms(2) G])
  obtain d where d: "SortCardList (take 17 (drop (U * 17) b1)) ST_ORDER = Inr d" "AnalysebCardData d = Inr (grouped d)"
    "same_cards (put_at (U * 17) d b1) m_cbCardData"
    using sort_seat_same [OF s1 bounds(1)] by blast
  define b3 where "b3 = fold (break_bomb U G) (map (\<lambda>i. ar_cbCardData (grouped d) ! 3 ! (i * 4)) [0..<cbBlockCount (grouped d) ! 3])
    (put_at (U * 17) d b1)"
  have s3: "same_cards b3 m_cbCardData"
    unfolding b3_def by (rule fold_same [OF _ d(3)]) (rule break_bomb_same [OF _ assms(2) G])
  obtain cards b4 where b4: "draw_loop (\<lambda>k. rnd (k + 54)) (G * 17) 17 17 0 (take 17 (drop (G * 17) b3)) b3 = Inr (cards, b4)"
    "same_cards (put_at (G * 17) cards b4) m_cbCardData"
    using redraw_same [OF s3 bounds(2)] by blast
  have fits: "\<not> (length b0 < (U + 1) * 17 \<or> length b0 < (G + 1) * 17)" using s0 bounds by (simp add: same_cards_def)
  have "RandBadCardList rnd buf 54 U = Inr (put_at (G * 17) cards b4)"
    unfolding RandBadCardList_def NORMAL_COUNT_def GAME_PLAYER_def run0 bindR_Inr Let_def G_def [symmetric] b1_def [symmetric]
      d(1,2) b3_def [symmetric] b4(1) if_not_P [OF fits] by simp
  then show ?thesis using b4(2) by (auto simp: same_cards_def)
qed

theorem rand_bad_deals_deck_witness:
  "\<exists>zs. RandBadCardList (\<lambda>i. 5 * i) (replicate 54 0) 54 2 = Inr zs \<and> mset zs = mset m_cbCardData"
  by (rule rand_bad_deals_deck) simp_all

text \<open>
  Dealing a strong hand runs over the end of an array: \<^verbatim>\<open>RandGoodCardList\<close> draws from an
  array of 11 values as if it had 13.  Whenever some triplets or bombs are asked for that fit
  a hand, the first draw already reads behind the array, whatever \<^verbatim>\<open>rand\<close> gives.
\<close>

theorem rand_good_out_of_bounds:
  assumes "length buf \<ge> 54" "0 < threes + fours" "threes * 3 + fours * 4 \<le> 17"
  shows "RandGoodCardList rnd buf 54 U (threes, fours) = Inl Out_of_bounds"
proof -
  have "draw_loop (\<lambda>i. rnd (i + 54)) 0 13 11 0 (replicate 11 0) [1, 2, 3, 4, 5, 6, 8, 9, 11, 12, 13] = Inl Out_of_bounds"
    by (subst draw_loop.simps) (simp add: aget_def Let_def)
  moreover have "threes * 3 + fours * 4 \<noteq> 0" using assms(2) by linarith
  ultimately show ?thesis
    using assms by (simp add: RandGoodCardList_def RandCardList_picks NORMAL_COUNT_def del: replicate.simps)
qed

theorem rand_good_out_of_bounds_witness:
  "RandGoodCardList (\<lambda>i. i) (replicate 54 0) 54 1 (1, 2) = Inl Out_of_bounds"
  by (rule rand_good_out_of_bounds) simp_all

end
