(* ===== verification/Land_Plays.thy ===== *)
theory Land_Plays
  imports Land_Groups
begin

text \<open>
  The plays of the land game, described by how many cards of each value there are, and
  the proof that \<^verbatim>\<open>AnalyseOutCard\<close> recognises exactly these and \<^verbatim>\<open>CompareCard\<close> orders them.
\<close>

section \<open>The rules of the game\<close>

text \<open>\<open>m\<close> values in a row up to \<open>v\<close> with \<open>k\<close> cards each, and nothing else; a two or a joker is in no row.\<close>

definition straight :: "card list \<Rightarrow> nat \<Rightarrow> nat \<Rightarrow> int \<Rightarrow> bool" where
  "straight cards k m v \<longleftrightarrow> v \<le> 14 \<and> (\<forall>r. cnt cards r = (if v - int m < r \<and> r \<le> v then k else 0))"

text \<open>
  \<open>m\<close> triplets in a row up to \<open>v\<close> that carry other cards, no four of which are equal.  When
  there are several triplets, the row goes as far as the triplets go.
\<close>

definition run_of :: "card list \<Rightarrow> nat \<Rightarrow> int \<Rightarrow> bool" where
  "run_of cards m v \<longleftrightarrow>
     v \<le> 14 \<and> (\<forall>r. v - int m < r \<and> r \<le> v \<longrightarrow> cnt cards r = 3) \<and>
     (v = 14 \<or> cnt cards (v + 1) \<noteq> 3) \<and> cnt cards (v - int m) \<noteq> 3"

definition wings :: "card list \<Rightarrow> nat \<Rightarrow> int \<Rightarrow> bool" where
  "wings cards m v \<longleftrightarrow> (\<forall>r. cnt cards r \<noteq> 4) \<and> (m = 1 \<and> cnt cards v = 3 \<or> 2 \<le> m \<and> run_of cards m v)"

definition pairs :: "card list \<Rightarrow> nat" where
  "pairs cards = card {r. cnt cards r = 2}"

definition plays :: "int \<Rightarrow> card list \<Rightarrow> nat \<Rightarrow> int \<Rightarrow> bool" where
  "plays rule cards t v \<longleftrightarrow>
     \<not> (2 < length cards \<and> 0x41 \<in> set cards \<and> 0x42 \<in> set cards) \<and>
     (t = CT_SINGLE \<and> length cards = 1 \<and> cnt cards v = 1 \<or>
      t = CT_DOUBLE \<and> length cards = 2 \<and> cnt cards v = 2 \<or>
      t = CT_THREE \<and> length cards = 3 \<and> cnt cards v = 3 \<or>
      t = CT_SINGLE_LINE \<and> (\<exists>m \<ge> 5. straight cards 1 m v) \<or>
      t = CT_DOUBLE_LINE \<and> (\<exists>m \<ge> 3. straight cards 2 m v) \<or>
      t = CT_THREE_LINE \<and> (\<exists>m \<ge> 2. straight cards 3 m v) \<or>
      t = CT_THREE_TAKE_ONE \<and> (\<exists>m. length cards = 4 * m \<and> wings cards m v) \<or>
      t = CT_THREE_TAKE_TWO \<and> IsValidType rule CT_THREE_TAKE_TWO 0 \<and>
        (\<exists>m. length cards = 5 * m \<and> wings cards m v \<and> pairs cards = m) \<or>
      t = CT_FOUR_TAKE_ONE \<and> length cards = 6 \<and> cnt cards v = 4 \<or>
      t = CT_FOUR_TAKE_TWO \<and> length cards = 8 \<and> cnt cards v = 4 \<and> pairs cards = 2 \<or>
      t = CT_BOMB_CARD \<and> length cards = 4 \<and> cnt cards v = 4 \<or>
      t = CT_MISSILE_CARD \<and> set cards = {0x41, 0x42} \<and> v = 0x11)"

section \<open>Counting\<close>

lemma set_ranks_with: "hand cards \<Longrightarrow> 0 < k \<Longrightarrow> set (ranks_with k cards) = {r. cnt cards r = k}"
  using cnt_ranks [of cards] by (auto simp: ranks_with_def)

lemma length_ranks_card:
  assumes "hand cards" "0 < k"
  shows "length (ranks_with k cards) = card {r. cnt cards r = k}"
  unfolding set_ranks_with [OF assms, symmetric] by (rule distinct_card [symmetric]) (simp add: ranks_with_def)

lemma finite_cnt:
  assumes "hand cards" "0 < k"
  shows "finite {r. cnt cards r = k}"
  unfolding set_ranks_with [OF assms, symmetric] by (rule List.finite_set)

lemma ranks_with_sorted: "sorted_wrt (>) (ranks_with k cards)"
  unfolding ranks_with_def using sorted_ranks by (rule sorted_wrt_filter)

lemma ranks_with_mset: "mset d = mset cards \<Longrightarrow> ranks_with k d = ranks_with k cards"
  using cnt_mset [of d cards] by (simp add: ranks_with_def)

lemma ranks_with_single:
  assumes "hand cards" "0 < k" "length (ranks_with k cards) = 1"
  shows "cnt cards v = k \<longleftrightarrow> v = ranks_with k cards ! 0"
proof -
  obtain r where r: "ranks_with k cards = [r]" using assms(3) by (auto simp: length_Suc_conv)
  then have "{r. cnt cards r = k} = {r}" using set_ranks_with [OF assms(1,2)] by simp
  then show ?thesis using r by auto
qed

lemma some_rank_with: "hand cards \<Longrightarrow> 0 < k \<Longrightarrow> cnt cards v = k \<Longrightarrow> 0 < length (ranks_with k cards)"
  using set_ranks_with [of cards k] by (cases "ranks_with k cards") auto

text \<open>All cards have one value.\<close>

lemma cnt_all: "cnt cards v = length cards \<longleftrightarrow> (\<forall>c \<in> set cards. GetCardLogicValue c = v)"
proof
  show "\<forall>c \<in> set cards. GetCardLogicValue c = v" if "cnt cards v = length cards"
  proof (rule ccontr)
    assume "\<not> ?thesis"
    then obtain c where "c \<in> set cards" "GetCardLogicValue c \<noteq> v" by blast
    from length_filter_less [of c cards "\<lambda>c. GetCardLogicValue c = v", OF this]
    show False using that by (simp add: cnt_def)
  qed
qed (simp add: cnt_def)

lemma desc_list:
  assumes "sorted_wrt (>) xs" "set xs = {v - int m <.. v}"
  shows "xs = map (\<lambda>i. v - int i) [0..<m]"
proof -
  have "set (map (\<lambda>i. v - int i) [0..<m]) = {v - int m <.. v}"
  proof -
    have "r \<in> (\<lambda>i. v - int i) ` {0..<m}" if "v - int m < r" "r \<le> v" for r
      using that by (intro image_eqI [of _ _ "nat (v - r)"]) auto
    then show ?thesis by auto
  qed
  moreover have "sorted_wrt (>) (map (\<lambda>i. v - int i) [0..<m])" by (simp add: sorted_wrt_map)
  ultimately have "rev (map (\<lambda>i. v - int i) [0..<m]) = rev xs"
    using assms by (intro strict_sorted_equal) (simp_all add: sorted_wrt_rev)
  then show ?thesis by simp
qed

section \<open>Rows of values\<close>

lemma link_loop_le: "link_loop v vs l \<le> l + length vs"
proof (induction vs arbitrary: l)
  case (Cons x vs)
  show ?case using Cons [of "l + 1"] by simp
qed simp

lemma link_loop_full: "link_loop v vs l = l + length vs \<longleftrightarrow> (\<forall>i < length vs. vs ! i = v - int (l + i))"
proof (induction vs arbitrary: l)
  case (Cons x vs)
  show ?case
  proof (cases "v - x = int l")
    case True
    then show ?thesis using Cons [of "l + 1"] by (auto simp: less_Suc_eq_0_disj)
  next
    case False
    then show ?thesis by (auto intro!: exI [of _ 0])
  qed
qed simp

lemma straight_length:
  assumes "hand cards" "straight cards k m v" "k \<in> {1, 2, 3}"
  shows "ranks_with k cards = map (\<lambda>i. v - int i) [0..<m]" "length cards = k * m"
proof -
  have c: "cnt cards r = (if v - int m < r \<and> r \<le> v then k else 0)" for r using assms(2) by (simp add: straight_def)
  have k: "0 < k" using assms(3) by auto
  have "set (ranks_with k cards) = {v - int m <.. v}" unfolding set_ranks_with [OF assms(1) k] c using k by auto
  then show R: "ranks_with k cards = map (\<lambda>i. v - int i) [0..<m]" by (rule desc_list [OF ranks_with_sorted])
  have "ranks_with j cards = []" if "0 < j" "j \<noteq> k" for j
    unfolding ranks_with_def c using that by (simp add: filter_empty_conv)
  then have "length (ranks_with j cards) = (if j = k then m else 0)" if "0 < j" for j using R that by simp
  then show "length cards = k * m" unfolding length_ranks_with [OF assms(1)] using assms(3) by auto
qed

section \<open>The sorted hand\<close>

definition sorted_as :: "card list \<Rightarrow> card list \<Rightarrow> bool" where
  "sorted_as cards d \<longleftrightarrow> hand cards \<and> sorted_wrt card_ge d \<and> mset d = mset cards"

lemma sorted_asD:
  assumes "sorted_as cards d"
  shows "hand cards" "hand d" "sorted_wrt card_ge d" "set d = set cards" "length d = length cards" "distinct d"
    "cnt d = cnt cards" "ranks_with k d = ranks_with k cards"
  using assms hand_mset [of cards d] cnt_mset [of d cards] ranks_with_mset [of d cards] mset_eq_setD [of d cards]
    mset_eq_length [of d cards] by (auto simp: sorted_as_def hand_def)

lemma first_card:
  assumes "sorted_as cards d" "cards \<noteq> []"
  shows "d ! 0 \<in> set cards" "0 < cnt cards (GetCardLogicValue (d ! 0))"
    "0 < cnt cards r \<Longrightarrow> r \<le> GetCardLogicValue (d ! 0)"
proof -
  note d = sorted_asD [OF assms(1)]
  obtain c cs where cs: "d = c # cs" using assms(2) d(5) by (cases d) auto
  then show mem: "d ! 0 \<in> set cards" using d(4) by auto
  then show "0 < cnt cards (GetCardLogicValue (d ! 0))" by (auto simp: cnt_def filter_empty_conv)
  assume "0 < cnt cards r"
  then obtain x where x: "x \<in> set d" "GetCardLogicValue x = r" using d(4) by (auto simp: cnt_def filter_empty_conv)
  then have "card_ge c x" using d(3) cs by auto
  then show "r \<le> GetCardLogicValue (d ! 0)" using x cs by (auto simp: card_ge_def)
qed

lemma two_jokers:
  assumes "sorted_as cards d" "2 \<le> length cards"
  shows "d ! 0 = 0x42 \<and> d ! 1 = 0x41 \<longleftrightarrow> 0x41 \<in> set cards \<and> 0x42 \<in> set cards"
proof
  note d = sorted_asD [OF assms(1)]
  obtain a b cs where cs: "d = a # b # cs" using assms(2) d(5) by (cases d; cases "tl d") auto
  show "0x41 \<in> set cards \<and> 0x42 \<in> set cards" if "d ! 0 = 0x42 \<and> d ! 1 = 0x41"
    using that cs d(4) by auto
  assume both: "0x41 \<in> set cards \<and> 0x42 \<in> set cards"
  have v: "GetCardLogicValue x \<le> 17" "GetCardLogicValue x = 17 \<longleftrightarrow> x = 0x42" "GetCardLogicValue x = 16 \<longleftrightarrow> x = 0x41"
    if "x \<in> set cards" for x
    using hand_card [OF d(1) that] set_ranks by auto
  have "0x42 \<in> set d" using both d(4) by simp
  then have "card_ge a 0x42" using d(3) cs by auto
  then have "17 \<le> GetCardLogicValue a" using v [of "0x42"] both by (auto simp: card_ge_def)
  moreover have "a \<in> set cards" using d(4) cs by auto
  ultimately have a: "a = 0x42" using v [of a] by linarith
  have "0x41 \<in> set d" using both d(4) by simp
  then have "0x41 \<in> set (b # cs)" "b \<noteq> 0x42" using d(6) cs a by auto
  then have "card_ge b 0x41" using d(3) cs by auto
  then have "16 \<le> GetCardLogicValue b" "b \<in> set cards" using v [of "0x41"] both d(4) cs by (auto simp: card_ge_def)
  then have "b = 0x41" using v [of b] \<open>b \<noteq> 0x42\<close> by linarith
  then show "d ! 0 = 0x42 \<and> d ! 1 = 0x41" using a cs by simp
qed

section \<open>The cases of the code\<close>

lemma line_iff:
  assumes "sorted_as cards d" "cards \<noteq> []" "k \<in> {1, 2, 3}" "0 < mn"
  shows "case_line k mn t (length cards) (d @ zs) (grouped d) = Some (t', v) \<longleftrightarrow>
    t' = t \<and> (\<exists>m \<ge> mn. straight cards k m v)"
proof -
  note d = sorted_asD [OF assms(1)]
  let ?R = "ranks_with k cards" and ?v = "GetCardLogicValue (d ! 0)"
  have k: "0 < k" "k - 1 < 4" "k - 1 + 1 = k" "k \<in> {1, 2, 3, 4}" using assms(3) by auto
  have d0: "(d @ zs) ! 0 = d ! 0" using assms(2) d(5) by (simp add: nth_append)
  have bc: "cbBlockCount (grouped d) ! (k - 1) = length ?R" using grouped_simps(1) [OF k(2), of d] k(3) d(8) by simp
  have bv: "block_values k (grouped d) = ?R" using block_values_grouped [OF k(4)] d(8) by simp
  have code: "case_line k mn t (length cards) (d @ zs) (grouped d) = Some (t', v) \<longleftrightarrow>
      t' = t \<and> v = ?v \<and> v \<le> 14 \<and> length ?R * k = length cards \<and> mn \<le> length ?R \<and> link_loop ?v ?R 0 = length ?R"
  proof -
    have "link_loop ?v ?R 0 * k = length ?R * k \<longleftrightarrow> link_loop ?v ?R 0 = length ?R" using k(1) by simp
    then show ?thesis
      unfolding case_line_def Let_def d0 bc bv by (cases "length ?R * k = length cards") auto
  qed
  have full: "link_loop ?v ?R 0 = length ?R \<longleftrightarrow> (\<forall>i < length ?R. ?R ! i = ?v - int i)"
    using link_loop_full [of ?v ?R 0] by simp
  show ?thesis unfolding code full
  proof (intro iffI; elim conjE exE)
    fix m assume "t' = t" "mn \<le> m" and st: "straight cards k m v"
    from straight_length [OF d(1) st assms(3)] have R: "?R = map (\<lambda>i. v - int i) [0..<m]" "length cards = k * m" by auto
    have "0 < cnt cards v" using st \<open>mn \<le> m\<close> assms(4) k(1) by (auto simp: straight_def)
    then have "v \<le> ?v" by (rule first_card(3) [OF assms(1,2)])
    moreover have "?v \<le> v" using first_card(2) [OF assms(1,2)] st by (auto simp: straight_def split: if_splits)
    ultimately have "v = ?v" by simp
    then show "t' = t \<and> v = ?v \<and> v \<le> 14 \<and> length ?R * k = length cards \<and> mn \<le> length ?R \<and> (\<forall>i < length ?R. ?R ! i = ?v - int i)"
      using R \<open>t' = t\<close> \<open>mn \<le> m\<close> st by (simp add: straight_def)
  next
    assume a: "t' = t" "v = ?v" "v \<le> 14" "length ?R * k = length cards" "mn \<le> length ?R" "\<forall>i < length ?R. ?R ! i = ?v - int i"
    have R: "?R = map (\<lambda>i. v - int i) [0..<length ?R]" using a(2,6) by (intro nth_equalityI) auto
    have none: "length (ranks_with j cards) = 0" if "j \<in> {1, 2, 3, 4}" "j \<noteq> k" for j
      using length_ranks_with [OF d(1)] a(4) that assms(3) by auto
    have "cnt cards r = 0" if "cnt cards r \<noteq> k" for r
    proof (rule ccontr)
      assume "cnt cards r \<noteq> 0"
      then have "cnt cards r \<in> {1, 2, 3, 4}" using cnt_le_4 [OF d(1), of r] by auto
      then show False using none [of "cnt cards r"] some_rank_with [OF d(1), of "cnt cards r" r] that by auto
    qed
    moreover have "cnt cards r = k \<longleftrightarrow> v - int (length ?R) < r \<and> r \<le> v" for r
    proof -
      have "cnt cards r = k \<longleftrightarrow> r \<in> set ?R" using set_ranks_with [OF d(1) k(1)] by auto
      also have "\<dots> \<longleftrightarrow> (\<exists>i < length ?R. r = v - int i)" by (subst R) auto
      also have "\<dots> \<longleftrightarrow> v - int (length ?R) < r \<and> r \<le> v"
      proof
        show "\<exists>i < length ?R. r = v - int i" if "v - int (length ?R) < r \<and> r \<le> v"
          using that by (intro exI [of _ "nat (v - r)"]) auto
      qed auto
      finally show ?thesis .
    qed
    ultimately have "straight cards k (length ?R) v" using a(3) by (auto simp: straight_def)
    then show "t' = t \<and> (\<exists>m \<ge> mn. straight cards k m v)" using a(1,5) by blast
  qed
qed

lemma single_iff:
  assumes "sorted_as cards d" "cards \<noteq> []"
  shows "case_single (length cards) (d @ zs) = Some (t, v) \<longleftrightarrow> t = CT_SINGLE \<and> length cards = 1 \<and> cnt cards v = 1"
proof -
  have "(d @ zs) ! 0 = d ! 0" using assms(2) sorted_asD(5) [OF assms(1)] by (simp add: nth_append)
  moreover have "cnt cards v = 1 \<longleftrightarrow> v = GetCardLogicValue (d ! 0)" if n: "length cards = 1"
  proof -
    obtain c where "cards = [c]" using n by (cases cards) auto
    then show ?thesis using first_card(1) [OF assms] by (auto simp: cnt_def)
  qed
  ultimately show ?thesis by (auto simp: case_single_def)
qed

text \<open>Where all cards have one value, it is the value of the first.\<close>

lemma all_same:
  assumes "sorted_as cards d" "cards \<noteq> []"
  shows "cnt cards v = length cards \<longleftrightarrow> v = GetCardLogicValue (d ! 0) \<and> (\<forall>c \<in> set d. GetCardLogicValue c = GetCardLogicValue (d ! 0))"
  using first_card(1) [OF assms] sorted_asD(4) [OF assms(1)] by (auto simp: cnt_all)

lemma three_iff:
  assumes "sorted_as cards d" "cards \<noteq> []"
  shows "case_three rule (length cards) (d @ zs) (grouped d) = Some (t, v) \<longleftrightarrow> t = CT_THREE \<and> length cards = 3 \<and> cnt cards v = 3"
proof -
  note d = sorted_asD [OF assms(1)]
  have "(d @ zs) ! 0 = d ! 0" using assms(2) d(5) by (simp add: nth_append)
  moreover have "IsValidType rule CT_THREE 3" by (simp add: IsValidType_def CT_defs)
  moreover have "cbBlockCount (grouped d) ! 2 = length (ranks_with 3 cards)"
    using grouped_simps(1) [of 2 d] d(8) [of 3] by simp
  moreover have "length (ranks_with 3 cards) = 1 \<and> v = GetCardLogicValue (d ! 0) \<longleftrightarrow> cnt cards v = 3" if n: "length cards = 3"
  proof
    assume c: "length (ranks_with 3 cards) = 1 \<and> v = GetCardLogicValue (d ! 0)"
    have "cnt cards (ranks_with 3 cards ! 0) = 3" using ranks_with_single [OF d(1), of 3] c by simp
    then show "cnt cards v = 3" using all_same [OF assms, of "ranks_with 3 cards ! 0"] n c by simp
  next
    assume "cnt cards v = 3"
    then have "0 < length (ranks_with 3 cards)" "v = GetCardLogicValue (d ! 0)"
      using some_rank_with [OF d(1), of 3 v] all_same [OF assms, of v] n by simp_all
    moreover have "length (ranks_with 3 cards) \<le> 1" using length_ranks_with [OF d(1)] n by simp
    ultimately show "length (ranks_with 3 cards) = 1 \<and> v = GetCardLogicValue (d ! 0)" by linarith
  qed
  ultimately show ?thesis by (auto simp: case_three_def)
qed

lemma double_iff:
  assumes "sorted_as cards d" "cards \<noteq> []"
  shows "case_double rule (length cards) (d @ zs) (grouped d) = Some (t, v) \<longleftrightarrow>
    t = CT_DOUBLE \<and> length cards = 2 \<and> cnt cards v = 2 \<or> t = CT_THREE \<and> length cards = 3 \<and> cnt cards v = 3"
proof (cases "length cards = 2")
  case True
  then obtain a b where d: "d = [a, b]" using sorted_asD(5) [OF assms(1)] by (auto simp: length_Suc_conv numeral_2_eq_2)
  have "cnt cards v = 2 \<longleftrightarrow> v = GetCardLogicValue a \<and> GetCardLogicValue b = GetCardLogicValue a"
    using all_same [OF assms, of v] True d by simp
  then show ?thesis using True d by (auto simp: case_double_def)
next
  case False
  then show ?thesis using three_iff [OF assms] by (auto simp: case_double_def)
qed

section \<open>Rows of triplets\<close>

lemma run_disjoint:
  assumes "hand cards" "run_of cards m v" "run_of cards m' v'" "v < v'"
  shows "m + m' \<le> length (ranks_with 3 cards)"
proof -
  have a: "cnt cards r = 3" if "v - int m < r" "r \<le> v" for r using assms(2) that unfolding run_of_def by blast
  have b: "cnt cards r = 3" if "v' - int m' < r" "r \<le> v'" for r using assms(3) that unfolding run_of_def by blast
  have "v \<le> v' - int m'"
  proof (rule ccontr)
    assume "\<not> v \<le> v' - int m'"
    then have "cnt cards (v + 1) = 3" using b [of "v + 1"] assms(4) by simp
    then show False using assms(2-4) by (auto simp: run_of_def)
  qed
  then have "{v - int m <.. v} \<inter> {v' - int m' <.. v'} = {}" by auto
  then have "m + m' = card ({v - int m <.. v} \<union> {v' - int m' <.. v'})" by (subst card_Un_disjoint) simp_all
  also have "\<dots> \<le> card {r. cnt cards r = 3}" by (rule card_mono) (use finite_cnt [OF assms(1), of 3] a b in auto)
  finally show ?thesis using length_ranks_card [OF assms(1), of 3] by simp
qed

lemma run_same:
  assumes "run_of cards m v" "run_of cards m' v"
  shows "m = m'"
proof (rule ccontr)
  assume "m \<noteq> m'"
  then consider "int m < int m'" | "int m' < int m" by linarith
  then show False
  proof cases
    case 1
    then have "v - int m' < v - int m \<and> v - int m \<le> v" by simp
    then have "cnt cards (v - int m) = 3" using assms(2) unfolding run_of_def by blast
    then show False using assms(1) by (simp add: run_of_def)
  next
    case 2
    then have "v - int m < v - int m' \<and> v - int m' \<le> v" by simp
    then have "cnt cards (v - int m') = 3" using assms(1) unfolding run_of_def by blast
    then show False using assms(2) by (simp add: run_of_def)
  qed
qed

lemma run_unique:
  assumes "hand cards" "run_of cards m v" "run_of cards m' v'" "length (ranks_with 3 cards) < m + m'"
  shows "v = v' \<and> m = m'"
  using run_disjoint [OF assms(1-3)] run_disjoint [OF assms(1,3,2)] run_same [OF assms(2)] assms(3,4)
  by (cases v v' rule: linorder_cases) auto

text \<open>
  The loop over the triplets, which come in descending order: the row it ends with goes as
  far as the triplets \<open>S\<close> go, and has a single triplet only if no two of them are neighbours.
\<close>

definition row_in :: "int set \<Rightarrow> nat \<times> int \<Rightarrow> bool" where
  "row_in S st \<longleftrightarrow>
     (case st of (l, v) \<Rightarrow>
        1 \<le> l \<and> v \<le> 14 \<and> (\<forall>r. v - int l < r \<and> r \<le> v \<longrightarrow> r \<in> S) \<and> v + 1 \<notin> S \<and> v - int l \<notin> S \<and>
        (l < 2 \<longrightarrow> (\<forall>r \<in> S. r + 1 \<notin> S)))"

lemma three_loop_row:
  assumes "sorted_wrt (>) vs" "set vs \<subseteq> S" "\<forall>x \<in> set vs. x \<le> v - int l" "1 \<le> l" "v \<le> 14"
    "\<forall>r. v - int l < r \<and> r \<le> v \<longrightarrow> r \<in> S" "v + 1 \<notin> S" "\<forall>x \<in> S. x \<in> set vs \<or> v - int l < x"
    "l < 2 \<longrightarrow> (\<forall>r \<in> S. v - int l < r \<longrightarrow> r + 1 \<notin> S)"
  shows "row_in S (three_loop n vs (l, v))"
  using assms
proof (induction vs arbitrary: l v)
  case Nil
  then show ?case unfolding row_in_def by auto
next
  case (Cons x xs)
  have v: "v \<noteq> 255" "\<forall>y \<in> set xs. y < x" using Cons.prems(1,5) by auto
  consider "v - x = int l" | "x < v - int l" "l < 2" | "x < v - int l" "2 \<le> l" using Cons.prems(3) by fastforce
  then show ?case
  proof cases
    case 1
    have "r \<in> S" if "v - int (l + 1) < r" "r \<le> v" for r
      using that 1 Cons.prems(2,6) by (cases "r = x") auto
    then have "row_in S (three_loop n xs (l + 1, v))"
      by (intro Cons.IH) (use Cons.prems(1,2,4,5,7,8) v 1 in \<open>auto simp: zless_imp_add1_zle\<close>)
    then show ?thesis using 1 v by simp
  next
    case 2
    have l: "l = 1" using 2 Cons.prems(4) by simp
    have "x + 1 \<notin> S"
    proof
      assume "x + 1 \<in> S"
      then have "x + 1 \<in> set (x # xs) \<or> v - int l < x + 1" using Cons.prems(8) by blast
      then show False using v(2) 2(1) by auto
    qed
    moreover have "r + 1 \<notin> S" if r: "r \<in> S" "x - 1 < r" for r
    proof (cases "r = x")
      case False
      then have "v - int l < r" using Cons.prems(8) r v(2) by force
      then show ?thesis using Cons.prems(9) 2(2) r(1) by blast
    qed (use \<open>x + 1 \<notin> S\<close> in simp)
    moreover have "y \<in> set xs \<or> x - 1 < y" if y: "y \<in> S" for y
    proof -
      have "y \<in> set (x # xs) \<or> v - int l < y" using Cons.prems(8) y by blast
      then show ?thesis using 2(1) by auto
    qed
    moreover have "r \<in> S" if "x - 1 < r" "r \<le> x" for r using that Cons.prems(2) by (cases "r = x") auto
    ultimately have "row_in S (three_loop n xs (1, x))"
      by (intro Cons.IH) (use Cons.prems(1,2,5) v(2) 2(1) l in auto)
    then show ?thesis using 2 v by simp
  next
    case 3
    have "v - int l \<notin> S"
    proof
      assume "v - int l \<in> S"
      then have "v - int l \<in> set (x # xs)" using Cons.prems(8) by fastforce
      then show False using v(2) 3(1) by auto
    qed
    then show ?thesis using 3 v Cons.prems by (auto simp: row_in_def)
  qed
qed

lemma three_loop_start:
  assumes "sorted_wrt (>) vs" "\<forall>x \<in> set vs. x \<le> 14" "vs \<noteq> []"
  shows "row_in (set vs) (three_loop n vs (0, 255))"
proof -
  obtain x xs where vs: "vs = x # xs" using assms(3) by (cases vs) auto
  have lt: "\<forall>y \<in> set xs. y < x" using assms(1) vs by auto
  have "row_in (set vs) (three_loop n xs (1, x))"
    by (rule three_loop_row) (use assms vs lt in auto)
  moreover have "x \<noteq> 15" using assms(2) vs by auto
  ultimately show ?thesis using vs by simp
qed

lemma triplet_ranks:
  assumes "hand cards"
  shows "\<forall>x \<in> set (ranks_with 3 cards). x \<le> 15"
proof
  fix x assume "x \<in> set (ranks_with 3 cards)"
  then have "cnt cards x = 3" "x \<in> set ranks" by (simp_all add: ranks_with_def)
  then show "x \<le> 15" using cnt_jokers(3,4) [OF assms] set_ranks by (cases "x = 16"; cases "x = 17") auto
qed

text \<open>The row the code finds among more than five cards.\<close>

lemma three_loop_hand:
  assumes "hand cards" "5 < n"
  shows "three_loop n (ranks_with 3 cards) (0, 255) = (0, 255) \<and> (\<forall>r \<le> 14. cnt cards r \<noteq> 3) \<or>
    (\<exists>l v. three_loop n (ranks_with 3 cards) (0, 255) = (l, v) \<and> 1 \<le> l \<and> run_of cards l v \<and>
       (l < 2 \<longrightarrow> (\<forall>r < 14. cnt cards r = 3 \<longrightarrow> cnt cards (r + 1) \<noteq> 3)))"
proof -
  define T where "T = filter (\<lambda>r. r \<le> 14) (ranks_with 3 cards)"
  have S: "r \<in> set T \<longleftrightarrow> r \<le> 14 \<and> cnt cards r = 3" for r
    using set_ranks_with [OF assms(1), of 3] by (auto simp: T_def)
  have sorted: "sorted_wrt (>) T" unfolding T_def by (rule sorted_wrt_filter [OF ranks_with_sorted])
  have skip: "three_loop n (ranks_with 3 cards) (0, 255) = three_loop n T (0, 255)"
  proof (cases "ranks_with 3 cards")
    case (Cons x xs)
    have le: "\<forall>y \<in> set (x # xs). y \<le> 15" and lt: "\<forall>y \<in> set xs. y < x"
      using triplet_ranks [OF assms(1)] ranks_with_sorted [of 3 cards] Cons by auto
    show ?thesis
    proof (cases "x = 15")
      case True
      then have "T = xs" using lt Cons by (auto simp: T_def filter_id_conv)
      then show ?thesis using Cons True assms(2) by simp
    next
      case False
      then have "T = x # xs" using le lt Cons by (auto simp: T_def filter_id_conv)
      then show ?thesis using Cons by simp
    qed
  qed (simp add: T_def)
  show ?thesis
  proof (cases "T = []")
    case True
    then show ?thesis using skip S by auto
  next
    case False
    obtain l v where lv: "three_loop n T (0, 255) = (l, v)" by (metis surj_pair)
    have row: "row_in (set T) (l, v)" using three_loop_start [OF sorted _ False, of n] S lv by auto
    then have "run_of cards l v" unfolding row_in_def run_of_def S by auto
    moreover have "1 \<le> l" using row by (auto simp: row_in_def)
    moreover have "cnt cards (r + 1) \<noteq> 3" if "l < 2" "r < 14" "cnt cards r = 3" for r
    proof -
      have "r \<in> set T" using that S by simp
      then have "r + 1 \<notin> set T" using row that(1) unfolding row_in_def by auto
      then show ?thesis using S that(2) by simp
    qed
    ultimately show ?thesis using skip lv by auto
  qed
qed

text \<open>
  Among at most 20 cards the row of triplets that carries the rest is the one the code
  finds: another row of two triplets would need more cards.
\<close>

lemma three_loop_finds:
  assumes "hand cards" "5 < length cards" "2 \<le> m" "run_of cards m v" "length (ranks_with 3 cards) < m + 2"
  shows "three_loop (length cards) (ranks_with 3 cards) (0, 255) = (m, v)"
proof -
  have two: "cnt cards (v - 1) = 3" "cnt cards v = 3" "v \<le> 14" using assms(3,4) by (auto simp: run_of_def)
  from three_loop_hand [OF assms(1,2)] two(2,3)
  obtain l v' where lv: "three_loop (length cards) (ranks_with 3 cards) (0, 255) = (l, v')" "1 \<le> l" "run_of cards l v'"
    "l < 2 \<longrightarrow> (\<forall>r < 14. cnt cards r = 3 \<longrightarrow> cnt cards (r + 1) \<noteq> 3)" by auto
  have "2 \<le> l"
  proof (rule ccontr)
    assume "\<not> 2 \<le> l"
    then have "\<forall>r < 14. cnt cards r = 3 \<longrightarrow> cnt cards (r + 1) \<noteq> 3" using lv(4) by simp
    from this [THEN spec, of "v - 1"] show False using two by simp
  qed
  then show ?thesis using run_unique [OF assms(1,4) lv(3)] assms(5) lv(1) by simp
qed

lemma no_four: "hand cards \<Longrightarrow> length (ranks_with 4 cards) = 0 \<longleftrightarrow> (\<forall>r. cnt cards r \<noteq> 4)"
  using set_ranks_with [of cards 4] by (simp add: set_empty [symmetric] del: set_empty)

lemma wings_triplets:
  assumes "hand cards" "wings cards m v"
  shows "1 \<le> m" "m \<le> length (ranks_with 3 cards)"
proof -
  show "1 \<le> m" using assms(2) by (auto simp: wings_def)
  show "m \<le> length (ranks_with 3 cards)"
  proof (cases "m = 1")
    case True
    then have "cnt cards v = 3" using assms(2) by (auto simp: wings_def)
    then have "0 < length (ranks_with 3 cards)" using some_rank_with [OF assms(1), of 3 v] by simp
    then show ?thesis using True by linarith
  next
    case False
    then have "{v - int m <.. v} \<subseteq> {r. cnt cards r = 3}" using assms(2) by (auto simp: wings_def run_of_def)
    from card_mono [OF finite_cnt [OF assms(1)] this] show ?thesis using length_ranks_card [OF assms(1), of 3] by simp
  qed
qed

lemma three_take_iff:
  assumes "sorted_as cards d" "cards \<noteq> []" "length cards \<le> 20"
  shows "case_three_take rule (length cards) (grouped d) = Some (t, v) \<longleftrightarrow>
    t = CT_THREE_TAKE_ONE \<and> (\<exists>m. length cards = 4 * m \<and> wings cards m v) \<or>
    t = CT_THREE_TAKE_TWO \<and> IsValidType rule CT_THREE_TAKE_TWO 0 \<and>
      (\<exists>m. length cards = 5 * m \<and> wings cards m v \<and> pairs cards = m)"
proof -
  note d = sorted_asD [OF assms(1)]
  let ?n = "length cards" and ?T = "ranks_with 3 cards"
  note len = length_ranks_with [OF d(1)]
  have pr: "pairs cards = length (ranks_with 2 cards)" using length_ranks_card [OF d(1), of 2] by (simp add: pairs_def)
  have bc: "cbBlockCount (grouped d) ! 3 = length (ranks_with 4 cards)" "cbBlockCount (grouped d) ! 1 = pairs cards"
    using grouped_simps(1) [of 3 d] grouped_simps(1) [of 1 d] d(8) [of 4] d(8) [of 2] pr by (simp_all add: numeral_2_eq_2)
  have bv: "block_values 3 (grouped d) = ?T" using block_values_grouped [of 3] d(8) by simp
  obtain l v' where lv: "three_loop ?n ?T (0, 255) = (l, v')" by (metis surj_pair)
  have code: "case_three_take rule ?n (grouped d) = Some (t, v) \<longleftrightarrow>
      (\<forall>r. cnt cards r \<noteq> 4) \<and> v = v' \<and>
      (t = CT_THREE_TAKE_ONE \<and> l * 4 = ?n \<or>
       t = CT_THREE_TAKE_TWO \<and> l * 4 \<noteq> ?n \<and> l * 5 = ?n \<and> pairs cards = l \<and> IsValidType rule CT_THREE_TAKE_TWO 0)"
    unfolding case_three_take_def bc bv lv no_four [OF d(1), symmetric] by auto
  have n: "0 < ?n" using assms(2) by simp
  have found: "wings cards m v \<longleftrightarrow> l = m \<and> v' = v \<and> (\<forall>r. cnt cards r \<noteq> 4)"
    if m: "?n = 4 * m \<or> ?n = 5 * m \<and> pairs cards = m" for m
  proof (cases "?n \<le> 5")
    case True
    then have "m = 1" using m n by linarith
    have c3: "length ?T \<le> 1" using len True by simp
    show ?thesis
    proof (cases "length ?T = 0")
      case T: True
      then have "l = 0" using lv by simp
      moreover have "cnt cards v \<noteq> 3" using some_rank_with [OF d(1), of 3 v] T by auto
      ultimately show ?thesis using \<open>m = 1\<close> by (auto simp: wings_def)
    next
      case False
      then have "length ?T = 1" using c3 by linarith
      then obtain x where T: "?T = [x]" by (cases ?T) auto
      then have "l = 1" "v' = x" using lv True by auto
      moreover have "cnt cards v = 3 \<longleftrightarrow> v = x" using ranks_with_single [OF d(1), of 3 v] T by simp
      ultimately show ?thesis using \<open>m = 1\<close> by (auto simp: wings_def)
    qed
  next
    case False
    then have m2: "2 \<le> m" "5 < ?n" using m by auto
    show ?thesis
    proof
      assume w: "wings cards m v"
      then have run: "run_of cards m v" and no4: "\<forall>r. cnt cards r \<noteq> 4" using m2 by (auto simp: wings_def)
      have "length (ranks_with 4 cards) = 0" using no4 no_four [OF d(1)] by simp
      then have "length ?T < m + 2" using len m assms(3) pr by auto
      from three_loop_finds [OF d(1) m2(2,1) run this] show "l = m \<and> v' = v \<and> (\<forall>r. cnt cards r \<noteq> 4)" using lv no4 by simp
    next
      assume a: "l = m \<and> v' = v \<and> (\<forall>r. cnt cards r \<noteq> 4)"
      then have "run_of cards m v" using three_loop_hand [OF d(1) m2(2)] lv m2 by auto
      then show "wings cards m v" using a m2 by (simp add: wings_def)
    qed
  qed
  have excl: "l * 4 \<noteq> ?n" if "l * 5 = ?n" using that n by presburger
  have one: "(\<exists>m. ?n = 4 * m \<and> wings cards m v) \<longleftrightarrow> (\<forall>r. cnt cards r \<noteq> 4) \<and> v = v' \<and> l * 4 = ?n"
  proof
    assume "(\<forall>r. cnt cards r \<noteq> 4) \<and> v = v' \<and> l * 4 = ?n"
    then show "\<exists>m. ?n = 4 * m \<and> wings cards m v" using found [of l] by (intro exI [of _ l]) simp
  qed (use found in auto)
  have two: "(\<exists>m. ?n = 5 * m \<and> wings cards m v \<and> pairs cards = m) \<longleftrightarrow>
      (\<forall>r. cnt cards r \<noteq> 4) \<and> v = v' \<and> l * 5 = ?n \<and> pairs cards = l"
  proof
    assume "(\<forall>r. cnt cards r \<noteq> 4) \<and> v = v' \<and> l * 5 = ?n \<and> pairs cards = l"
    then show "\<exists>m. ?n = 5 * m \<and> wings cards m v \<and> pairs cards = m" using found [of l] by (intro exI [of _ l]) simp
  qed (use found in auto)
  show ?thesis unfolding code one two using excl by blast
qed

lemma four_value:
  assumes "sorted_as cards d"
  shows "cbBlockCount (grouped d) ! 3 = 1 \<and> v = GetCardLogicValue (ar_cbCardData (grouped d) ! 3 ! 0) \<longleftrightarrow>
    length (ranks_with 4 cards) = 1 \<and> cnt cards v = 4"
proof -
  note d = sorted_asD [OF assms]
  have bc: "cbBlockCount (grouped d) ! 3 = length (ranks_with 4 cards)" using grouped_simps(1) [of 3 d] d(8) [of 4] by simp
  have "ranks_with 4 cards ! 0 = GetCardLogicValue (ar_cbCardData (grouped d) ! 3 ! 0)" if "length (ranks_with 4 cards) = 1"
  proof -
    have "block_values 4 (grouped d) ! 0 = ranks_with 4 cards ! 0" using block_values_grouped [of 4 d] d(8) [of 4] by simp
    then show ?thesis using that bc by (simp add: block_values_def)
  qed
  then show ?thesis using bc ranks_with_single [OF d(1), of 4 v] by auto
qed

lemma one_four:
  assumes "hand cards" "length cards \<le> 7" "cnt cards v = 4"
  shows "length (ranks_with 4 cards) = 1"
proof -
  have "0 < length (ranks_with 4 cards)" using some_rank_with [OF assms(1) _ assms(3)] by simp
  then show ?thesis using length_ranks_with [OF assms(1)] assms(2) by linarith
qed

lemma four_take_one_iff:
  assumes "sorted_as cards d"
  shows "case_four_take_one rule (length cards) (grouped d) = Some (t, v) \<longleftrightarrow>
    t = CT_FOUR_TAKE_ONE \<and> length cards = 6 \<and> cnt cards v = 4"
proof -
  have "IsValidType rule CT_FOUR_TAKE_ONE 6" by (simp add: IsValidType_def CT_defs)
  then show ?thesis
    using four_value [OF assms, of v] one_four [OF sorted_asD(1) [OF assms], of v] by (auto simp: case_four_take_one_def)
qed

lemma four_take_two_iff:
  assumes "sorted_as cards d"
  shows "case_four_take_two (length cards) (grouped d) = Some (t, v) \<longleftrightarrow>
    t = CT_FOUR_TAKE_TWO \<and> length cards = 8 \<and> cnt cards v = 4 \<and> pairs cards = 2"
proof -
  note d = sorted_asD [OF assms]
  have pr: "cbBlockCount (grouped d) ! 1 = pairs cards"
    using grouped_simps(1) [of 1 d] d(8) [of 2] length_ranks_card [OF d(1), of 2] by (simp add: pairs_def numeral_2_eq_2)
  have "length (ranks_with 4 cards) = 1" if a: "length cards = 8" "cnt cards v = 4" "pairs cards = 2"
  proof -
    have "length (ranks_with 2 cards) = 2" using a(3) length_ranks_card [OF d(1), of 2] by (simp add: pairs_def)
    moreover have "0 < length (ranks_with 4 cards)" using some_rank_with [OF d(1) _ a(2)] by simp
    ultimately show ?thesis using length_ranks_with [OF d(1)] a(1) by linarith
  qed
  then show ?thesis using four_value [OF assms, of v] pr by (auto simp: case_four_take_two_def)
qed

lemma value_idem: "list_all (\<lambda>r. r \<le> 15 \<longrightarrow> GetCardLogicValue r = r) ranks"
  by code_simp

lemma bomb_iff:
  assumes "sorted_as cards d"
  shows "case_bomb (length cards) (grouped d) = Some (t, v) \<longleftrightarrow> t = CT_BOMB_CARD \<and> length cards = 4 \<and> cnt cards v = 4"
proof -
  note d = sorted_asD [OF assms]
  let ?w = "GetCardLogicValue (ar_cbCardData (grouped d) ! 3 ! 0)"
  have "GetCardLogicValue r = r" if "cnt cards r = 4" for r
  proof -
    have "r \<noteq> 16" "r \<noteq> 17" using that cnt_jokers(3,4) [OF d(1)] by auto
    moreover have "r \<in> set ranks" using cnt_ranks [OF d(1), of r] that by simp
    ultimately show ?thesis using value_idem set_ranks by (simp add: list_all_iff)
  qed
  then have "cbBlockCount (grouped d) ! 3 = 1 \<Longrightarrow> GetCardLogicValue ?w = ?w" using four_value [OF assms, of ?w] by simp
  then show ?thesis
    using four_value [OF assms, of v] one_four [OF d(1), of v] by (auto simp: case_bomb_def)
qed

lemma missile_iff:
  assumes "sorted_as cards d" "2 \<le> length cards" "\<not> (2 < length cards \<and> 0x41 \<in> set cards \<and> 0x42 \<in> set cards)"
  shows "case_missile (d @ zs) = Some (t, v) \<longleftrightarrow> t = CT_MISSILE_CARD \<and> set cards = {0x41, 0x42} \<and> v = 0x11"
proof -
  note d = sorted_asD [OF assms(1)]
  have "0 < length d" "1 < length d" using assms(2) d(5) by linarith+
  then have "(d @ zs) ! 0 = d ! 0" "(d @ zs) ! 1 = d ! 1" by (simp_all add: nth_append)
  moreover have "0x41 \<in> set cards \<and> 0x42 \<in> set cards \<longleftrightarrow> set cards = {0x41, 0x42}"
  proof
    assume both: "0x41 \<in> set cards \<and> 0x42 \<in> set cards"
    then have "length d = 2" using assms(2,3) d(5) by simp
    then obtain a b where "d = [a, b]" by (auto simp: length_Suc_conv numeral_2_eq_2)
    then have ab: "set cards = {a, b}" using d(4) by simp
    have "0x41 \<in> {a, b}" "0x42 \<in> {a, b}" using both unfolding ab by simp_all
    then show "set cards = {0x41, 0x42}" unfolding ab by auto
  qed auto
  ultimately show ?thesis using two_jokers [OF assms(1,2)] by (auto simp: case_missile_def)
qed

section \<open>At most one kind of play\<close>

lemma straight_top: "straight cards k m v \<Longrightarrow> 0 < m \<Longrightarrow> 0 < k \<Longrightarrow> 0 < cnt cards r \<Longrightarrow> r \<le> v"
  "straight cards k m v \<Longrightarrow> 0 < m \<Longrightarrow> 0 < k \<Longrightarrow> 0 < cnt cards v"
  by (auto simp: straight_def split: if_splits)

lemma straight_unique:
  assumes "straight cards k m v" "straight cards k' m' v'" "0 < m" "0 < k" "0 < m'" "0 < k'"
  shows "v = v'"
  using straight_top [OF assms(1,3,4)] straight_top [OF assms(2,5,6)] by (meson order_antisym)

lemma wings_unique:
  assumes "hand cards" "wings cards m v" "wings cards m v'" "length cards \<le> 5 * m" "length cards = 5 * m \<Longrightarrow> pairs cards = m"
  shows "v = v'"
proof -
  note len = length_ranks_with [OF assms(1)]
  have pr: "pairs cards = length (ranks_with 2 cards)" using length_ranks_card [OF assms(1), of 2] by (simp add: pairs_def)
  have m: "1 \<le> m" using wings_triplets [OF assms(1,2)] by simp
  have few: "length (ranks_with 3 cards) < 2 * m" using len assms(4,5) pr m by (cases "length cards = 5 * m") linarith+
  show ?thesis
  proof (cases "m = 1")
    case True
    then have "length (ranks_with 3 cards) = 1" "cnt cards v = 3" "cnt cards v' = 3"
      using few wings_triplets [OF assms(1,2)] assms(2,3) by (auto simp: wings_def)
    then show ?thesis using ranks_with_single [OF assms(1), of 3] by auto
  next
    case False
    then have "run_of cards m v" "run_of cards m v'" using assms(2,3) by (auto simp: wings_def)
    then show ?thesis using run_unique [OF assms(1)] few by simp
  qed
qed

text \<open>How the number of cards is made up for each type.\<close>

definition profile :: "card list \<Rightarrow> nat \<Rightarrow> bool" where
  "profile cards t \<longleftrightarrow>
     (let n = length cards; c2 = length (ranks_with 2 cards); c3 = length (ranks_with 3 cards); c4 = length (ranks_with 4 cards) in
      t = 1 \<and> n = 1 \<or> t = 2 \<and> n = 2 \<and> c2 = 1 \<or> t = 3 \<and> n = 3 \<and> c3 = 1 \<or>
      t = 4 \<and> 5 \<le> n \<and> c2 = 0 \<and> c3 = 0 \<and> c4 = 0 \<or> t = 5 \<and> 6 \<le> n \<and> n = 2 * c2 \<or>
      t = 6 \<and> 6 \<le> n \<and> n = 3 * c3 \<or>
      t = 7 \<and> c4 = 0 \<and> (\<exists>m \<ge> 1. n = 4 * m \<and> m \<le> c3) \<or>
      t = 8 \<and> c4 = 0 \<and> 1 \<le> c3 \<and> n = 5 * c3 \<and> c2 = c3 \<or>
      t = 9 \<and> n = 6 \<and> c4 = 1 \<or> t = 10 \<and> n = 8 \<and> c4 = 1 \<or> t = 11 \<and> n = 4 \<and> c4 = 1 \<or> t = 12 \<and> n = 2 \<and> c2 = 0)"

lemma profile_unique:
  assumes "hand cards" "profile cards t" "profile cards t'"
  shows "t = t' \<or> t = 6 \<and> t' = 7 \<or> t = 7 \<and> t' = 6"
  using assms(2,3) length_ranks_with [OF assms(1)] unfolding profile_def Let_def
  by (elim disjE conjE exE; simp)

lemma straight_no_wings:
  assumes "hand cards" "straight cards 3 m v" "2 \<le> m" "wings cards m' v'" "length cards = 4 * m'"
  shows False
proof -
  have n: "length cards = 3 * m" and R: "length (ranks_with 3 cards) = m"
    using straight_length [OF assms(1,2)] by simp_all
  have "m' \<noteq> 1" using n assms(5) by presburger
  then have "run_of cards m' v'" "1 \<le> m'" using assms(4) by (auto simp: wings_def)
  moreover have "run_of cards m v" using assms(2) by (auto simp: straight_def run_of_def)
  ultimately have "m = m'" using run_unique [OF assms(1), of m v m' v'] R by simp
  then show False using n assms(3,5) by simp
qed

lemma plays_profile:
  assumes "hand cards" "plays rule cards t v"
  shows "profile cards t"
proof -
  note len = length_ranks_with [OF assms(1)]
  have pr: "pairs cards = length (ranks_with 2 cards)" using length_ranks_card [OF assms(1), of 2] by (simp add: pairs_def)
  have st: "length cards = k * m \<and> length (ranks_with k cards) = m" if "straight cards k m v" "k \<in> {1, 2, 3}" for k m
    using straight_length [OF assms(1) that] by simp
  have wg: "length (ranks_with 4 cards) = 0 \<and> 1 \<le> m \<and> m \<le> length (ranks_with 3 cards)" if "wings cards m v" for m
    using wings_triplets [OF assms(1) that] that no_four [OF assms(1)] by (simp add: wings_def)
  have some: "0 < length (ranks_with k cards)" if "cnt cards v = k" "0 < k" for k
    using some_rank_with [OF assms(1) that(2,1)] .
  from assms(2) show ?thesis unfolding plays_def
  proof (elim disjE conjE exE)
    fix m assume "t = CT_SINGLE_LINE" "5 \<le> m" "straight cards 1 m v"
    moreover have n: "length cards = m" "length (ranks_with 1 cards) = m" using st [of 1 m] calculation(3) by simp_all
    moreover have "length (ranks_with 2 cards) = 0" "length (ranks_with 3 cards) = 0" "length (ranks_with 4 cards) = 0"
      using n len by linarith+
    ultimately show ?thesis by (simp add: profile_def Let_def CT_defs)
  next
    fix m assume "t = CT_DOUBLE_LINE" "3 \<le> m" "straight cards 2 m v"
    then show ?thesis using st [of 2 m] by (simp add: profile_def Let_def CT_defs)
  next
    fix m assume "t = CT_THREE_LINE" "2 \<le> m" "straight cards 3 m v"
    then show ?thesis using st [of 3 m] by (simp add: profile_def Let_def CT_defs)
  next
    fix m assume a: "t = CT_THREE_TAKE_ONE" "length cards = 4 * m" "wings cards m v"
    then show ?thesis using wg [of m] by (auto simp: profile_def Let_def CT_defs)
  next
    fix m assume a: "t = CT_THREE_TAKE_TWO" "length cards = 5 * m" "wings cards m v" "pairs cards = m"
    then have "length (ranks_with 3 cards) = m" using wg [of m] len pr by linarith
    then show ?thesis using wg [of m] len pr a by (simp add: profile_def Let_def CT_defs)
  next
    assume "t = CT_MISSILE_CARD" and two: "set cards = {0x41, 0x42}"
    have "length cards = card (set cards)" using assms(1) by (simp add: hand_def distinct_card)
    then have n: "length cards = 2" unfolding two by simp
    have "cnt cards 17 = 1" "cnt cards 16 = 1" using cnt_jokers [OF assms(1)] two by auto
    then have "16 \<in> set (ranks_with 1 cards)" "17 \<in> set (ranks_with 1 cards)" using set_ranks_with [OF assms(1), of 1] by auto
    then have "ranks_with 1 cards \<noteq> []" by auto
    then have "0 < length (ranks_with 1 cards)" by simp
    then have "length (ranks_with 2 cards) = 0" using len n by linarith
    then show ?thesis using n \<open>t = CT_MISSILE_CARD\<close> by (simp add: profile_def Let_def CT_defs)
  next
    assume a: "t = CT_DOUBLE" "length cards = 2" "cnt cards v = 2"
    then have "length (ranks_with 2 cards) = 1" using some [of 2] len by linarith
    then show ?thesis using a by (simp add: profile_def Let_def CT_defs)
  next
    assume a: "t = CT_THREE" "length cards = 3" "cnt cards v = 3"
    then have "length (ranks_with 3 cards) = 1" using some [of 3] len by linarith
    then show ?thesis using a by (simp add: profile_def Let_def CT_defs)
  next
    assume a: "t = CT_FOUR_TAKE_ONE" "length cards = 6" "cnt cards v = 4"
    then show ?thesis using one_four [OF assms(1)] by (simp add: profile_def Let_def CT_defs)
  next
    assume a: "t = CT_FOUR_TAKE_TWO" "length cards = 8" "cnt cards v = 4" "pairs cards = 2"
    then have "length (ranks_with 4 cards) = 1" using some [of 4] len pr by linarith
    then show ?thesis using a by (simp add: profile_def Let_def CT_defs)
  next
    assume a: "t = CT_BOMB_CARD" "length cards = 4" "cnt cards v = 4"
    then show ?thesis using one_four [OF assms(1)] by (simp add: profile_def Let_def CT_defs)
  qed (simp add: profile_def Let_def CT_defs)
qed

lemma plays_unique:
  assumes "hand cards" "plays rule cards t v" "plays rule cards t' v'"
  shows "t = t' \<and> v = v'"
proof -
  have sw: False if "plays rule cards 6 w" "plays rule cards 7 w'" for w w'
    using that straight_no_wings [OF assms(1)] by (auto simp: plays_def CT_defs)
  then have t: "t = t'"
    using profile_unique [OF assms(1) plays_profile plays_profile, OF assms(1,2,1,3)] assms(2,3) by blast
  have line: "w = w'" if "\<exists>m \<ge> j. straight cards k m w" "\<exists>m \<ge> j. straight cards k m w'" "0 < j" "0 < k" for j k w w'
    using that straight_unique [of cards k _ w k _ w'] by fastforce
  have one: "w = w'" if "length (ranks_with k cards) = 1" "0 < k" "cnt cards w = k" "cnt cards w' = k" for k w w'
    using ranks_with_single [OF assms(1) that(2,1)] that(3,4) by simp
  have t7: "w = w'" if "\<exists>m. length cards = 4 * m \<and> wings cards m w" "\<exists>m. length cards = 4 * m \<and> wings cards m w'" for w w'
    using that wings_unique [OF assms(1), of _ w w'] wings_triplets(1) [OF assms(1)] by fastforce
  have t8: "w = w'" if "\<exists>m. length cards = 5 * m \<and> wings cards m w \<and> pairs cards = m"
    "\<exists>m. length cards = 5 * m \<and> wings cards m w' \<and> pairs cards = m" for w w'
    using that wings_unique [OF assms(1), of _ w w'] by auto
  have pr: "profile cards t" using plays_profile [OF assms(1,2)] .
  have all: "w = w'" if "cnt cards w = length cards" "cnt cards w' = length cards" "0 < length cards" for w w'
    using that unfolding cnt_all by (cases cards) auto
  have "t \<in> {1, 2, 3, 4, 5, 6, 7, 8, 9, 10, 11, 12}" using pr by (auto simp: profile_def Let_def)
  then have "v = v'"
  proof (elim insertE emptyE)
    assume "t = 1" then show ?thesis using assms(2,3) t all [of v v'] by (auto simp: plays_def CT_defs)
  next
    assume "t = 2" then show ?thesis using assms(2,3) t all [of v v'] by (auto simp: plays_def CT_defs)
  next
    assume "t = 3" then show ?thesis using assms(2,3) t all [of v v'] by (auto simp: plays_def CT_defs)
  next
    assume "t = 4" then show ?thesis using assms(2,3) t line [of 5 1 v v'] by (simp add: plays_def CT_defs)
  next
    assume "t = 5" then show ?thesis using assms(2,3) t line [of 3 2 v v'] by (simp add: plays_def CT_defs)
  next
    assume "t = 6" then show ?thesis using assms(2,3) t line [of 2 3 v v'] by (simp add: plays_def CT_defs)
  next
    assume "t = 7" then show ?thesis using assms(2,3) t t7 [of v v'] by (simp add: plays_def CT_defs)
  next
    assume "t = 8" then show ?thesis using assms(2,3) t t8 [of v v'] by (simp add: plays_def CT_defs)
  next
    assume "t = 9" then show ?thesis using assms(2,3) t one [of 4 v v'] pr by (simp add: plays_def CT_defs profile_def Let_def)
  next
    assume "t = 10" then show ?thesis using assms(2,3) t one [of 4 v v'] pr by (simp add: plays_def CT_defs profile_def Let_def)
  next
    assume "t = 11" then show ?thesis using assms(2,3) t one [of 4 v v'] pr by (simp add: plays_def CT_defs profile_def Let_def)
  next
    assume "t = 12" then show ?thesis using assms(2,3) t by (simp add: plays_def CT_defs)
  qed
  then show ?thesis using t by simp
qed

section \<open>The code recognises the plays\<close>

lemma first_verdict_some: "first_verdict vs = (t, v) \<Longrightarrow> t \<noteq> CT_ERROR \<Longrightarrow> Some (t, v) \<in> set vs"
  by (induction vs rule: first_verdict.induct) auto

lemma first_verdict_none: "(\<forall>x. Some x \<notin> set vs) \<Longrightarrow> first_verdict vs = (CT_ERROR, 0)"
  by (induction vs rule: first_verdict.induct) auto

lemma first_verdict_mem: "Some x \<in> set vs \<Longrightarrow> Some (first_verdict vs) \<in> set vs"
  by (induction vs rule: first_verdict.induct) auto

lemma no_error_iff:
  assumes "sorted_as cards d" "cards \<noteq> []"
  shows "case_error (length cards) (d @ zs) =
    (if 2 < length cards \<and> 0x41 \<in> set cards \<and> 0x42 \<in> set cards then Some (CT_ERROR, 0) else None)"
proof -
  note d = sorted_asD [OF assms(1)]
  have "\<not> list_ex bad_card (take (length cards) (d @ zs))"
    using hand_card(2) [OF d(2)] d(5) by (auto simp: list_ex_iff)
  moreover have "2 < length cards \<and> (d @ zs) ! 0 = 0x42 \<and> (d @ zs) ! 1 = 0x41 \<longleftrightarrow>
      2 < length cards \<and> 0x41 \<in> set cards \<and> 0x42 \<in> set cards"
    using two_jokers [OF assms(1)] d(5) by (auto simp: nth_append)
  ultimately show ?thesis using assms(2) by (simp add: case_error_def)
qed

lemma missile_iff':
  assumes "sorted_as cards d" "cards \<noteq> []" "\<not> (2 < length cards \<and> 0x41 \<in> set cards \<and> 0x42 \<in> set cards)"
  shows "case_missile (d @ replicate (20 - length d) 0) = Some (t, v) \<longleftrightarrow> t = CT_MISSILE_CARD \<and> set cards = {0x41, 0x42} \<and> v = 0x11"
proof (cases "2 \<le> length cards")
  case False
  then obtain c where c: "cards = [c]" using assms(2) by (cases cards; cases "tl cards") auto
  then have "(d @ replicate (20 - length d) 0) ! 1 = 0" using sorted_asD(5) [OF assms(1)] by (simp add: nth_append)
  moreover have "set cards \<noteq> {0x41, 0x42}" using c by auto
  ultimately show ?thesis by (simp add: case_missile_def)
qed (use missile_iff [OF assms(1) _ assms(3)] in blast)

lemma verdict_iff:
  assumes "sorted_as cards d" "cards \<noteq> []" "length cards \<le> 20"
    "\<not> (2 < length cards \<and> 0x41 \<in> set cards \<and> 0x42 \<in> set cards)"
  shows "Some (t, v) \<in> set (type_cases rule (length cards) (d @ replicate (20 - length d) 0) (grouped d)) \<longleftrightarrow>
    plays rule cards t v"
proof -
  have err: "case_error (length cards) (d @ replicate (20 - length d) 0) = None"
    using no_error_iff [OF assms(1,2)] assms(4) by simp
  have eq: "Some (t, v) = x \<longleftrightarrow> x = Some (t, v)" for x by auto
  have lines: "case_line k mn ct (length cards) (d @ zs) (grouped d) = Some (t, v) \<longleftrightarrow> t = ct \<and> (\<exists>m \<ge> mn. straight cards k m v)"
    if "(k, mn) \<in> {(1, 5), (2, 3), (3, 2)}" for k mn ct zs
    by (rule line_iff [OF assms(1,2)]) (use that in auto)
  show ?thesis
    unfolding type_cases_def list.set insert_iff empty_iff eq err
      single_iff [OF assms(1,2)] double_iff [OF assms(1,2)] three_iff [OF assms(1,2)] three_take_iff [OF assms(1-3)]
      lines [OF insertI1] lines [OF insertI2 [OF insertI1]] lines [OF insertI2 [OF insertI2 [OF insertI1]]] four_take_one_iff [OF assms(1)] four_take_two_iff [OF assms(1)]
      bomb_iff [OF assms(1)] missile_iff' [OF assms(1,2,4)] plays_def
    by (simp only: assms(4) option.distinct simp_thms disj_ac disj_absorb disj_left_absorb)
qed

lemma no_plays_empty: "\<not> plays rule [] t v"
proof
  assume p: "plays rule [] t v"
  have "hand []" by (simp add: hand_def)
  from plays_profile [OF this p] show False by (auto simp: profile_def Let_def ranks_with_def cnt_def)
qed

lemma AnalyseOutCard_hand:
  assumes "hand cards" "length cards \<le> 20"
  shows "\<exists>r. AnalyseOutCard rule cards = Inr r \<and>
    (\<forall>t v. t \<noteq> CT_ERROR \<longrightarrow> (ar_cbCardType r = t \<and> ar_cbLogicValue r = v \<longleftrightarrow> plays rule cards t v))"
proof -
  obtain d where d: "SortCardList cards ST_ORDER = Inr d" "mset d = mset cards" "sorted_wrt card_ge d"
    using SortCardList_order [of cards] assms(2) by (auto simp: FULL_COUNT_def)
  then have as: "sorted_as cards d" using assms(1) by (simp add: sorted_as_def)
  have an: "AnalysebCardData d = Inr (grouped d)"
    using AnalysebCardData_sorted [OF sorted_asD(2,3) [OF as]] sorted_asD(5) [OF as] assms(2) by simp
  let ?vs = "type_cases rule (length cards) (d @ replicate (20 - length d) 0) (grouped d)"
  obtain t0 v0 where fv: "first_verdict ?vs = (t0, v0)" by (metis surj_pair)
  have run: "AnalyseOutCard rule cards = Inr ((grouped d)\<lparr>ar_cbCardType := t0, ar_cbLogicValue := v0\<rparr>)"
    using d(1) an fv assms(2) by (simp add: AnalyseOutCard_def MAX_COUNT_def)
  have "t0 = t \<and> v0 = v \<longleftrightarrow> plays rule cards t v" if t: "t \<noteq> CT_ERROR" for t v
  proof (cases "cards = [] \<or> 2 < length cards \<and> 0x41 \<in> set cards \<and> 0x42 \<in> set cards")
    case True
    then have "case_error (length cards) (d @ replicate (20 - length d) 0) = Some (CT_ERROR, 0)"
      using no_error_iff [OF as] by (cases "cards = []") (simp_all add: case_error_def)
    then have "t0 = CT_ERROR" using fv by (simp add: type_cases_def)
    moreover have "\<not> plays rule cards t v" using True no_plays_empty by (auto simp: plays_def)
    ultimately show ?thesis using t by auto
  next
    case False
    then have iff: "Some (t, v) \<in> set ?vs \<longleftrightarrow> plays rule cards t v" for t v
      using verdict_iff [OF as _ assms(2)] by blast
    show ?thesis
    proof
      show "plays rule cards t v" if "t0 = t \<and> v0 = v"
        using first_verdict_some [OF fv] that t iff by blast
      assume p: "plays rule cards t v"
      then have "Some (t0, v0) \<in> set ?vs" using first_verdict_mem [of "(t, v)" ?vs] iff fv by simp
      then show "t0 = t \<and> v0 = v" using plays_unique [OF assms(1) p] iff by auto
    qed
  qed
  then show ?thesis using run by auto
qed


text \<open>Two triplets in a row with two other cards.\<close>

definition sample_plane :: "card list" where
  "sample_plane = [0x05, 0x13, 0x23, 0x33, 0x04, 0x14, 0x24, 0x42]"

lemma sample_plane_hand: "hand sample_plane" "length sample_plane = 8"
proof -
  have "distinct sample_plane \<and> list_all (\<lambda>c. c \<in> set m_cbCardData) sample_plane \<and> length sample_plane = 8" by code_simp
  then show "hand sample_plane" "length sample_plane = 8" by (auto simp: hand_def list_all_iff)
qed


section \<open>The order of plays\<close>

definition beats :: "int \<Rightarrow> card list \<Rightarrow> card list \<Rightarrow> bool" where
  "beats rule a b \<longleftrightarrow>
     (\<exists>ta va tb vb. plays rule a ta va \<and> plays rule b tb vb \<and> ta \<noteq> CT_MISSILE_CARD \<and>
        (tb = CT_MISSILE_CARD \<or> ta \<noteq> CT_BOMB_CARD \<and> tb = CT_BOMB_CARD \<or>
         ta = tb \<and> length a = length b \<and> va < vb))"

lemma plays_type: "hand cards \<Longrightarrow> plays rule cards t v \<Longrightarrow> t \<noteq> CT_ERROR \<and> t \<le> CT_MISSILE_CARD"
  using plays_profile [of cards rule t v] by (auto simp: profile_def Let_def CT_defs)

lemma CompareCard_beats:
  assumes "hand a" "hand b" "length a \<le> 20" "length b \<le> 20"
  shows "CompareCard rule a b = Inr (beats rule a b)"
proof -
  obtain ra where ra: "AnalyseOutCard rule a = Inr ra"
    "\<And>t v. t \<noteq> CT_ERROR \<Longrightarrow> ar_cbCardType ra = t \<and> ar_cbLogicValue ra = v \<longleftrightarrow> plays rule a t v"
    using AnalyseOutCard_hand [OF assms(1,3), of rule] by blast
  obtain rb where rb: "AnalyseOutCard rule b = Inr rb"
    "\<And>t v. t \<noteq> CT_ERROR \<Longrightarrow> ar_cbCardType rb = t \<and> ar_cbLogicValue rb = v \<longleftrightarrow> plays rule b t v"
    using AnalyseOutCard_hand [OF assms(2,4), of rule] by blast
  let ?ta = "ar_cbCardType ra" and ?va = "ar_cbLogicValue ra" and ?tb = "ar_cbCardType rb" and ?vb = "ar_cbLogicValue rb"
  have pa: "plays rule a t v \<longleftrightarrow> ?ta \<noteq> CT_ERROR \<and> t = ?ta \<and> v = ?va" for t v
    using ra(2) plays_type [OF assms(1)] by metis
  have pb: "plays rule b t v \<longleftrightarrow> ?tb \<noteq> CT_ERROR \<and> t = ?tb \<and> v = ?vb" for t v
    using rb(2) plays_type [OF assms(2)] by metis
  have beats: "beats rule a b \<longleftrightarrow> ?ta \<noteq> CT_ERROR \<and> ?tb \<noteq> CT_ERROR \<and> ?ta \<noteq> CT_MISSILE_CARD \<and>
      (?tb = CT_MISSILE_CARD \<or> ?ta \<noteq> CT_BOMB_CARD \<and> ?tb = CT_BOMB_CARD \<or> ?ta = ?tb \<and> length a = length b \<and> ?va < ?vb)"
    unfolding beats_def pa pb by blast
  have "?tb \<noteq> CT_ERROR \<Longrightarrow> ?tb \<noteq> CT_MISSILE_CARD \<Longrightarrow> CT_SINGLE \<le> ?tb \<and> ?tb \<le> CT_BOMB_CARD"
    using plays_type [OF assms(2), of rule ?tb ?vb] pb by (auto simp: CT_defs)
  then show ?thesis unfolding CompareCard_def ra(1) rb(1) beats bindR_Inr Let_def by (auto simp: CT_BOMB_CARD_def CT_MISSILE_CARD_def)
qed



lemma beats_irrefl: "hand a \<Longrightarrow> \<not> beats rule a a"
  using plays_unique [of a rule] unfolding beats_def by (metis less_irrefl)

lemma beats_trans:
  assumes "hand b" "beats rule a b" "beats rule b c"
  shows "beats rule a c"
proof -
  obtain ta va tb vb where ab: "plays rule a ta va" "plays rule b tb vb" "ta \<noteq> CT_MISSILE_CARD"
    "tb = CT_MISSILE_CARD \<or> ta \<noteq> CT_BOMB_CARD \<and> tb = CT_BOMB_CARD \<or> ta = tb \<and> length a = length b \<and> va < vb"
    using assms(2) unfolding beats_def by blast
  obtain tb' vb' tc vc where bc: "plays rule b tb' vb'" "plays rule c tc vc" "tb' \<noteq> CT_MISSILE_CARD"
    "tc = CT_MISSILE_CARD \<or> tb' \<noteq> CT_BOMB_CARD \<and> tc = CT_BOMB_CARD \<or> tb' = tc \<and> length b = length c \<and> vb' < vc"
    using assms(3) unfolding beats_def by blast
  have "tb' = tb" "vb' = vb" using plays_unique [OF assms(1) bc(1) ab(2)] by auto
  then have "tc = CT_MISSILE_CARD \<or> ta \<noteq> CT_BOMB_CARD \<and> tc = CT_BOMB_CARD \<or> ta = tc \<and> length a = length c \<and> va < vc"
    using ab(4) bc(3,4) by auto
  then show ?thesis unfolding beats_def using ab(1,3) bc(2) by blast
qed

text \<open>
  \<^verbatim>\<open>CompareCard\<close> is a strict order on the sets of cards: no set beats itself, and what
  beats a set that beats another beats that other as well.  A trick cannot go round in circles.
\<close>

theorem compare_card_strict_order:
  assumes "hand a" "hand b" "hand c" "length a \<le> 20" "length b \<le> 20" "length c \<le> 20"
  shows "CompareCard rule a a = Inr False \<and>
    (CompareCard rule a b = Inr True \<longrightarrow> CompareCard rule b c = Inr True \<longrightarrow> CompareCard rule a c = Inr True)"
  using beats_irrefl [OF assms(1)] beats_trans [OF assms(2)] by (auto simp: CompareCard_beats assms)

theorem compare_card_strict_order_witness:
  "CompareCard 0 [0x03] [0x02] = Inr True \<and> CompareCard 0 [0x02] [0x42] = Inr True \<and> CompareCard 0 [0x03] [0x42] = Inr True"
proof -
  have "list_all (\<lambda>c. c \<in> set m_cbCardData) [0x03, 0x02, 0x42]" by code_simp
  then have h: "hand [0x03]" "hand [0x02]" "hand [0x42]" by (auto simp: hand_def)
  have c: "CompareCard 0 [0x03] [0x02] = Inr True" "CompareCard 0 [0x02] [0x42] = Inr True" by code_simp+
  from compare_card_strict_order [OF h, of 0] show ?thesis using c by simp
qed

end
