(* ===== verification/Land_Table.thy ===== *)
theory Land_Table
  imports Land_Plays
begin

text \<open>
  The table of the land game as \<^verbatim>\<open>CGameLogic\<close> keeps it (\<^verbatim>\<open>3rd/land/GameLogic.cpp\<close>): the cards
  of the three seats, the cards to bid on, the last play.  The seats hold sets of cards; that
  is the interface \<open>card_seats\<close>, which the arrays implement.
\<close>

section \<open>State and operations\<close>

record tagLastOutCard =
  wOutUser :: nat
  stLastCard :: tagOutCard

text \<open>The members the rules use; the other ones are scratch variables of the computer player.\<close>

record CGameLogic =
  m_ppRule :: int
  m_cbLandScoreCardData :: "card list"
  m_cbAllCount :: "nat list"
  m_cbAllCardData :: "card list list"
  m_wBankerUser :: nat
  m_cbOutCount :: "nat list"
  m_LastOutCard :: tagLastOutCard

definition INVALID_CHAIR :: nat where "INVALID_CHAIR = 0xFF"

definition no_last_card :: tagLastOutCard where
  "no_last_card = \<lparr>wOutUser = 0, stLastCard = \<lparr>oc_cbCardData = [], oc_cbCardType = 0, oc_cbLogicValue = 0\<rparr>\<rparr>"

definition new_CGameLogic :: CGameLogic where
  "new_CGameLogic =
     \<lparr>m_ppRule = 0, m_cbLandScoreCardData = replicate MAX_COUNT 0, m_cbAllCount = replicate GAME_PLAYER 0,
      m_cbAllCardData = replicate GAME_PLAYER (replicate MAX_COUNT 0), m_wBankerUser = INVALID_CHAIR,
      m_cbOutCount = replicate GAME_PLAYER 0, m_LastOutCard = no_last_card\<rparr>"

definition SetppRule :: "int \<Rightarrow> CGameLogic \<Rightarrow> CGameLogic" where
  "SetppRule rule g = g\<lparr>m_ppRule := rule\<rparr>"

text \<open>
  The first cards of a seat's array are copied from \<open>cards\<close>, behind the first \<open>at\<close> ones, and
  the cards of the seat are sorted.
\<close>

definition fill_seat :: "nat \<Rightarrow> nat \<Rightarrow> card list \<Rightarrow> CGameLogic \<Rightarrow> CGameLogic res" where
  "fill_seat wChairID at cards g =
     (let row = m_cbAllCardData g ! wChairID; n = at + length cards in
      if MAX_COUNT < n then Inl Out_of_bounds
      else
        bindR (SortCardList (take at row @ cards) ST_ORDER) (\<lambda>sorted_cards.
        Inr (g\<lparr>m_cbAllCardData := (m_cbAllCardData g)[wChairID := sorted_cards @ drop n row],
               m_cbAllCount := (m_cbAllCount g)[wChairID := n]\<rparr>)))"

definition SetUserCard :: "nat \<Rightarrow> card list \<Rightarrow> CGameLogic \<Rightarrow> CGameLogic res" where
  "SetUserCard wChairID cbCardData g =
     (if wChairID \<ge> GAME_PLAYER then Inr g else fill_seat wChairID 0 cbCardData g)"

definition SetBackCard :: "nat \<Rightarrow> card list \<Rightarrow> CGameLogic \<Rightarrow> CGameLogic res" where
  "SetBackCard wChairID cbBackCardData g =
     (if wChairID \<ge> GAME_PLAYER then Inr g
      else fill_seat wChairID (m_cbAllCount g ! wChairID) cbBackCardData g)"

definition SetBanker :: "nat \<Rightarrow> CGameLogic \<Rightarrow> CGameLogic" where
  "SetBanker wBanker g = g\<lparr>m_wBankerUser := wBanker\<rparr>"

definition SetLandScoreCardData :: "card list \<Rightarrow> CGameLogic \<Rightarrow> CGameLogic res" where
  "SetLandScoreCardData cbCardData g =
     bindR (c_assert (length cbCardData = MAX_COUNT)) (\<lambda>_.
     bindR (SortCardList cbCardData ST_ORDER) (\<lambda>d. Inr (g\<lparr>m_cbLandScoreCardData := d\<rparr>)))"

definition RemoveUserCardData :: "nat \<Rightarrow> card list \<Rightarrow> CGameLogic \<Rightarrow> CGameLogic res" where
  "RemoveUserCardData wChairID cbRemoveCardData g =
     bindR (c_assert (wChairID < GAME_PLAYER \<and> length cbRemoveCardData \<le> MAX_COUNT)) (\<lambda>_.
     let row = m_cbAllCardData g ! wChairID; n = m_cbAllCount g ! wChairID in
     case RemoveCard cbRemoveCardData (take n row) of (bSuccess, cards) \<Rightarrow>
       bindR (c_assert bSuccess) (\<lambda>_.
       let g = g\<lparr>m_cbAllCardData := (m_cbAllCardData g)[wChairID := cards @ drop n row]\<rparr> in
       bindR (c_assert (length cbRemoveCardData \<le> n)) (\<lambda>_.
       Inr (g\<lparr>m_cbAllCount := (m_cbAllCount g)[wChairID := n - length cbRemoveCardData]\<rparr>))))"

definition SetLastOutCard :: "nat \<Rightarrow> card list \<Rightarrow> CGameLogic \<Rightarrow> CGameLogic res" where
  "SetLastOutCard out_user cbCardData g =
     (if out_user < GAME_PLAYER \<and> length cbCardData > 0 then
        bindR (AnalyseOutCard_out (m_ppRule g) cbCardData) (\<lambda>oc.
        Inr (g\<lparr>m_LastOutCard := \<lparr>wOutUser = out_user, stLastCard = oc\<rparr>\<rparr>))
      else Inr (g\<lparr>m_LastOutCard := no_last_card\<rparr>))"

definition SetOutCount :: "nat list \<Rightarrow> CGameLogic \<Rightarrow> CGameLogic" where
  "SetOutCount cbOutCount g = g\<lparr>m_cbOutCount := take GAME_PLAYER cbOutCount\<rparr>"

definition IsAlly :: "nat \<Rightarrow> nat \<Rightarrow> CGameLogic \<Rightarrow> bool res" where
  "IsAlly wMeChairID wID g =
     bindR (c_assert (wMeChairID \<noteq> wID)) (\<lambda>_.
     Inr (if wMeChairID = m_wBankerUser g then False else if wID = m_wBankerUser g then False else True))"

text \<open>The cards of each seat are counted up to the first 0.\<close>

definition ReSetCardCount :: "card list list \<Rightarrow> nat list" where
  "ReSetCardCount cbAllUserCard = map (\<lambda>row. length (takeWhile (\<lambda>c. c \<noteq> 0) (take MAX_COUNT row))) (take GAME_PLAYER cbAllUserCard)"

section \<open>Bombs and bidding\<close>

fun run_length :: "int \<Rightarrow> nat \<Rightarrow> card list \<Rightarrow> nat" where
  "run_length cbLogicValue cbSameCount [] = cbSameCount"
| "run_length cbLogicValue cbSameCount (c # cs) =
     (if GetCardLogicValue c \<noteq> cbLogicValue then cbSameCount else run_length cbLogicValue (cbSameCount + 1) cs)"

lemma run_length_ge: "k \<le> run_length v k cs"
  by (induction cs arbitrary: k) (auto intro: Suc_leD)

function bomb_loop :: "card list \<Rightarrow> card list \<times> nat \<Rightarrow> card list \<times> nat" where
  "bomb_loop cards st =
     (case cards of
        [] \<Rightarrow> st
      | c # cs \<Rightarrow>
          let cbSameCount = run_length (GetCardLogicValue c) 1 cs in
          bomb_loop (drop (cbSameCount - 1) cs)
            (if cbSameCount = 4 then (fst st @ take 4 cards, snd st + 1) else st))"
  by pat_completeness auto
termination
  by (relation "measure (\<lambda>(cs, st). length cs)") auto

declare bomb_loop.simps [simp del]

definition GetAllBomCard :: "card list \<Rightarrow> (card list \<times> nat) res" where
  "GetAllBomCard cbHandCardData =
     (if MAX_COUNT < length cbHandCardData then Inl Out_of_bounds
      else
        bindR (SortCardList cbHandCardData ST_ORDER) (\<lambda>d.
        if length d < 2 then Inr ([], 0)
        else Inr (bomb_loop d (if d ! 0 = 0x42 \<and> d ! 1 = 0x41 then ([0x42, 0x41], 1) else ([], 0)))))"

definition RULE_ShuangWang :: int where "RULE_ShuangWang = 0x08"
definition RULE_3Zhua :: int where "RULE_3Zhua = 0x10"

definition AnalyseLandScore :: "card list \<Rightarrow> int \<Rightarrow> CGameLogic \<Rightarrow> (bool \<times> CGameLogic) res" where
  "AnalyseLandScore cbCardData Rule g =
     (let g = (if Rule \<noteq> 0 then g\<lparr>m_ppRule := Rule\<rparr> else g);
          cbWangCount = length (filter (\<lambda>c. c = 0x41 \<or> c = 0x42) cbCardData);
          cbErCount = length (filter (\<lambda>c. GetCardLogicValue c = 15) cbCardData) in
      bindR (GetAllBomCard cbCardData) (\<lambda>(_, cbBomCardCount).
      Inr (if Rule AND 0xFF < RULE_ShuangWang \<and>
              (cbWangCount = 2 \<or> cbErCount = 4 \<or> cbWangCount > 0 \<and> cbErCount \<ge> 2 \<or>
               cbBomCardCount > 0 \<and> cbWangCount > 0 \<and> cbErCount > 0 \<or> cbBomCardCount > 0 \<and> cbErCount \<ge> 3 \<or>
               cbBomCardCount \<ge> 2 \<and> cbErCount \<ge> 2 \<or> cbBomCardCount \<ge> 3 \<and> cbErCount \<ge> 1 \<or> cbBomCardCount \<ge> 4)
           then True
           else if Rule AND RULE_ShuangWang > 0 \<and> cbWangCount > 1 then True
           else if Rule AND RULE_3Zhua > 0 \<and> cbWangCount + cbErCount + cbBomCardCount \<ge> 3 then True
           else False, g)))"

section \<open>Seats hold cards\<close>

text \<open>
  What the seats promise: a seat holds a set of cards.  Dealing replaces the set, taking up adds
  to it, putting down takes cards away that the seat has to hold; no seat holds more than twenty
  cards.  Cards taken up must be new to the seat, which the program does not check.
\<close>

datatype seat_op = Deal nat "card list" | Take_up nat "card list" | Put_down nat "card list"

type_synonym seats = "nat \<Rightarrow> card set"

fun seat_spec :: "seat_op \<Rightarrow> seats \<Rightarrow> seats res" where
  "seat_spec (Deal i cs) st =
     (if i \<ge> 3 then Inr st else if 20 < length cs then Inl Out_of_bounds else Inr (st(i := set cs)))"
| "seat_spec (Take_up i cs) st =
     (if i \<ge> 3 then Inr st else if 20 < card (st i) + length cs then Inl Out_of_bounds else Inr (st(i := st i \<union> set cs)))"
| "seat_spec (Put_down i cs) st =
     (if i < 3 \<and> set cs \<subseteq> st i then Inr (st(i := st i - set cs)) else Inl Assert_failed)"

fun seat_fit :: "seat_op \<Rightarrow> seats \<Rightarrow> bool" where
  "seat_fit (Deal i cs) st \<longleftrightarrow> hand cs"
| "seat_fit (Take_up i cs) st \<longleftrightarrow> hand cs \<and> set cs \<inter> st i = {}"
| "seat_fit (Put_down i cs) st \<longleftrightarrow> hand cs"

fun run_ops :: "(seat_op \<Rightarrow> 's \<Rightarrow> 's res) \<Rightarrow> seat_op list \<Rightarrow> 's \<Rightarrow> 's res" where
  "run_ops f [] s = Inr s"
| "run_ops f (op # ops) s = bindR (f op s) (run_ops f ops)"

fun ops_fit :: "seat_op list \<Rightarrow> seats \<Rightarrow> bool" where
  "ops_fit [] st \<longleftrightarrow> True"
| "ops_fit (op # ops) st \<longleftrightarrow> seat_fit op st \<and> (case seat_spec op st of Inl e \<Rightarrow> True | Inr st' \<Rightarrow> ops_fit ops st')"

definition agrees :: "('s \<Rightarrow> bool) \<Rightarrow> ('s \<Rightarrow> seats) \<Rightarrow> 's res \<Rightarrow> seats res \<Rightarrow> bool" where
  "agrees ok held r a \<longleftrightarrow> (case a of Inl e \<Rightarrow> r = Inl e | Inr st \<Rightarrow> \<exists>s'. r = Inr s' \<and> ok s' \<and> held s' = st)"

locale card_seats =
  fixes ok :: "'s \<Rightarrow> bool"
    and held :: "'s \<Rightarrow> seats"
    and step :: "seat_op \<Rightarrow> 's \<Rightarrow> 's res"
  assumes step_law: "ok s \<Longrightarrow> seat_fit op (held s) \<Longrightarrow> agrees ok held (step op s) (seat_spec op (held s))"
begin

lemma run_agrees: "ok s \<Longrightarrow> ops_fit ops (held s) \<Longrightarrow> agrees ok held (run_ops step ops s) (run_ops seat_spec ops (held s))"
proof (induction ops arbitrary: s)
  case (Cons op ops)
  then have "agrees ok held (step op s) (seat_spec op (held s))" using step_law by simp
  then consider e where "seat_spec op (held s) = Inl e" "step op s = Inl e"
    | s' where "seat_spec op (held s) = Inr (held s')" "step op s = Inr s'" "ok s'"
    by (cases "seat_spec op (held s)") (auto simp: agrees_def)
  then show ?case using Cons.IH Cons.prems(2) by cases (simp_all add: agrees_def)
qed (simp add: agrees_def)

end

section \<open>The table implements the seats\<close>

fun table_op :: "seat_op \<Rightarrow> CGameLogic \<Rightarrow> CGameLogic res" where
  "table_op (Deal i cs) g = SetUserCard i cs g"
| "table_op (Take_up i cs) g = SetBackCard i cs g"
| "table_op (Put_down i cs) g = RemoveUserCardData i cs g"

definition seat_cards :: "nat \<Rightarrow> CGameLogic \<Rightarrow> card list" where
  "seat_cards i g = take (m_cbAllCount g ! i) (m_cbAllCardData g ! i)"

definition table_held :: "CGameLogic \<Rightarrow> seats" where
  "table_held g = (\<lambda>i. if i < 3 then set (seat_cards i g) else {})"

text \<open>Every array has its size, and the cards of a seat are a sorted hand.\<close>

definition table_ok :: "CGameLogic \<Rightarrow> bool" where
  "table_ok g \<longleftrightarrow>
     length (m_cbAllCount g) = 3 \<and> length (m_cbAllCardData g) = 3 \<and>
     (\<forall>i < 3. length (m_cbAllCardData g ! i) = 20 \<and> m_cbAllCount g ! i \<le> 20 \<and>
        hand (seat_cards i g) \<and> sorted_wrt card_ge (seat_cards i g))"

lemma table_ok_update:
  assumes "table_ok g" "i < 3" "hand d" "sorted_wrt card_ge d" "length d + length z = 20"
    "g' = g\<lparr>m_cbAllCardData := (m_cbAllCardData g)[i := d @ z], m_cbAllCount := (m_cbAllCount g)[i := length d]\<rparr>"
  shows "table_ok g' \<and> table_held g' = (table_held g)(i := set d)"
proof
  have sc: "seat_cards j g' = (if j = i then d else seat_cards j g)" if "j < 3" for j
    using assms that by (simp add: seat_cards_def table_ok_def nth_list_update)
  show "table_held g' = (table_held g)(i := set d)"
    using sc \<open>i < 3\<close> by (auto simp: table_held_def fun_eq_iff)
  show "table_ok g'"
    using assms sc unfolding table_ok_def by (auto simp: nth_list_update)
qed

lemma length_seat_cards: "table_ok g \<Longrightarrow> i < 3 \<Longrightarrow> length (seat_cards i g) = m_cbAllCount g ! i"
  by (simp add: seat_cards_def table_ok_def)

lemma card_held: "table_ok g \<Longrightarrow> i < 3 \<Longrightarrow> card (table_held g i) = m_cbAllCount g ! i"
  using length_seat_cards [of g i] by (auto simp: table_held_def table_ok_def hand_def distinct_card)

lemma fill_seat_agrees:
  assumes ok: "table_ok g" and i: "i < 3" and n: "at \<le> m_cbAllCount g ! i"
    and h: "hand (take at (seat_cards i g) @ cs)"
  shows "agrees table_ok table_held (fill_seat i at cs g)
    (if 20 < at + length cs then Inl Out_of_bounds
     else Inr ((table_held g)(i := set (take at (seat_cards i g)) \<union> set cs)))"
proof (cases "20 < at + length cs")
  case True
  then show ?thesis by (simp add: agrees_def fill_seat_def MAX_COUNT_def)
next
  case False
  let ?row = "m_cbAllCardData g ! i"
  have pre: "take at (seat_cards i g) = take at ?row" using n by (simp add: seat_cards_def min_def)
  have len: "length ?row = 20" "m_cbAllCount g ! i \<le> 20" using ok i by (auto simp: table_ok_def)
  have "length (take at ?row @ cs) \<le> FULL_COUNT" using False by (simp add: FULL_COUNT_def)
  then obtain d where d: "SortCardList (take at ?row @ cs) ST_ORDER = Inr d" "mset d = mset (take at ?row @ cs)" "sorted_wrt card_ge d"
    using SortCardList_order by blast
  have ld: "length d = at + length cs" using mset_eq_length [OF d(2)] len n by simp
  have "hand d" using hand_mset [OF _ d(2)] h pre by simp
  moreover have "length d + length (drop (at + length cs) ?row) = 20" using ld len False by simp
  ultimately have "table_ok g' \<and> table_held g' = (table_held g)(i := set d)"
    if "g' = g\<lparr>m_cbAllCardData := (m_cbAllCardData g)[i := d @ drop (at + length cs) ?row], m_cbAllCount := (m_cbAllCount g)[i := length d]\<rparr>" for g'
    using table_ok_update [OF ok i _ d(3)] that by blast
  moreover have "set d = set (take at (seat_cards i g)) \<union> set cs" using mset_eq_setD [OF d(2)] pre by simp
  ultimately show ?thesis
    using False d(1) ld by (simp add: agrees_def fill_seat_def MAX_COUNT_def Let_def)
qed

lemma remove_user_agrees:
  assumes ok: "table_ok g" and h: "hand cs"
  shows "agrees table_ok table_held (RemoveUserCardData i cs g)
    (if i < 3 \<and> set cs \<subseteq> table_held g i then Inr ((table_held g)(i := table_held g i - set cs)) else Inl Assert_failed)"
proof (cases "i < 3 \<and> length cs \<le> 20 \<and> length cs \<le> m_cbAllCount g ! i")
  case False
  then have "\<not> (i < 3 \<and> set cs \<subseteq> table_held g i)"
    using card_mono [of "table_held g i" "set cs"] card_held [OF ok] ok h
    by (force simp: hand_def distinct_card table_ok_def table_held_def)
  moreover have "RemoveUserCardData i cs g = Inl Assert_failed"
    using False length_seat_cards [OF ok]
    by (auto simp: RemoveUserCardData_def c_assert_def GAME_PLAYER_def MAX_COUNT_def RemoveCard_def seat_cards_def Let_def)
  ultimately show ?thesis by (simp add: agrees_def)
next
  case True
  let ?s = "seat_cards i g" and ?row = "m_cbAllCardData g ! i" and ?n = "m_cbAllCount g ! i"
  have i: "i < 3" and s: "hand ?s" "sorted_wrt card_ge ?s" "length ?s = ?n" "?n \<le> 20" "length ?row = 20"
    using True ok length_seat_cards [OF ok] by (auto simp: table_ok_def)
  have no0: "0 \<notin> set cs" "0 \<notin> set ?s" using h s(1) zero_not_hand by blast+
  have rm: "RemoveCard cs ?s = (if mset cs \<subseteq># mset ?s then (True, fold remove1 cs ?s @ replicate (length cs) 0) else (False, ?s))"
    using RemoveCard_eq [OF no0] s True by (simp add: FULL_COUNT_def)
  have sub: "mset cs \<subseteq># mset ?s \<longleftrightarrow> set cs \<subseteq> table_held g i"
    using h s(1) i by (simp add: hand_def table_held_def mset_set_set [symmetric] msubset_mset_set_iff)
  show ?thesis
  proof (cases "mset cs \<subseteq># mset ?s")
    case False
    then show ?thesis using rm sub True i
      by (simp add: agrees_def RemoveUserCardData_def c_assert_def GAME_PLAYER_def MAX_COUNT_def seat_cards_def Let_def)
  next
    case sb: True
    define d where "d = filter (\<lambda>c. c \<notin> set cs) ?s"
    have fold: "fold remove1 cs ?s = d" using s(1) by (simp add: d_def hand_def fold_remove1_distinct)
    have "length d = card (set ?s - set cs)"
      using s(1) distinct_card [of d] by (simp add: d_def hand_def set_diff_eq)
    then have ld: "length d = ?n - length cs"
      using sb sub h s(1,3) i by (simp add: card_Diff_subset table_held_def hand_def distinct_card)
    have "hand d" "sorted_wrt card_ge d" using s(1,2) by (auto simp: hand_def d_def sorted_wrt_filter)
    moreover have "length d + length (replicate (length cs) 0 @ drop ?n ?row) = 20" using ld s True by simp
    ultimately have "table_ok g' \<and> table_held g' = (table_held g)(i := set d)"
      if "g' = g\<lparr>m_cbAllCardData := (m_cbAllCardData g)[i := d @ replicate (length cs) 0 @ drop ?n ?row], m_cbAllCount := (m_cbAllCount g)[i := length d]\<rparr>" for g'
      using table_ok_update [OF ok i] that by blast
    moreover have "set d = table_held g i - set cs" using i by (auto simp: d_def table_held_def)
    ultimately show ?thesis using rm sub sb True i fold ld
      by (simp add: agrees_def RemoveUserCardData_def c_assert_def GAME_PLAYER_def MAX_COUNT_def seat_cards_def Let_def)
  qed
qed

interpretation table: card_seats table_ok table_held table_op
proof
  fix g op
  assume ok: "table_ok g" and fit: "seat_fit op (table_held g)"
  show "agrees table_ok table_held (table_op op g) (seat_spec op (table_held g))"
  proof (cases op)
    case (Deal i cs)
    show ?thesis
      using fill_seat_agrees [OF ok, of i 0 cs] fit ok
      by (cases "i < 3") (auto simp: Deal SetUserCard_def GAME_PLAYER_def agrees_def)
  next
    case (Take_up i cs)
    have "hand (seat_cards i g @ cs)" if "i < 3"
      using fit ok that by (auto simp: Take_up table_ok_def hand_def table_held_def)
    then show ?thesis
      using fill_seat_agrees [OF ok, of i "m_cbAllCount g ! i" cs] ok card_held [OF ok, of i] length_seat_cards [OF ok, of i]
      by (cases "i < 3") (auto simp: Take_up SetBackCard_def GAME_PLAYER_def agrees_def table_held_def)
  next
    case (Put_down i cs)
    then show ?thesis using remove_user_agrees [OF ok, of cs i] fit by simp
  qed
qed

lemma new_table_ok: "table_ok new_CGameLogic \<and> table_held new_CGameLogic = (\<lambda>i. {})"
  by (simp add: table_ok_def table_held_def seat_cards_def new_CGameLogic_def hand_def GAME_PLAYER_def MAX_COUNT_def fun_eq_iff nth_replicate)

text \<open>
  C32. The seats of the table: after any sequence of deals, back cards taken up and cards put
  down, starting with an empty table, each seat holds exactly the cards the sequence gives it,
  sorted and without a card twice; putting down a card that the seat does not hold stops with
  a failed assertion, and a seat that would get more than twenty cards is the only write
  outside an array.
\<close>

theorem table_refines_seats:
  assumes "ops_fit ops (\<lambda>i. {})"
  shows "agrees table_ok table_held (run_ops table_op ops new_CGameLogic) (run_ops seat_spec ops (\<lambda>i. {}))"
  using table.run_agrees [of new_CGameLogic ops] new_table_ok assms by simp

definition sample_ops :: "seat_op list" where
  "sample_ops = [Deal 0 [0x03, 0x13], Take_up 0 [0x05], Put_down 0 [0x13], Put_down 0 [0x13]]"

theorem table_refines_seats_witness:
  "run_ops table_op sample_ops new_CGameLogic = Inl Assert_failed \<and>
   agrees table_ok table_held (run_ops table_op (take 3 sample_ops) new_CGameLogic)
     (Inr ((\<lambda>i. {})(0 := {0x03, 0x05})))"
proof -
  have deck: "list_all (\<lambda>c. c \<in> set m_cbCardData) [0x03, 0x13, 0x05]" by code_simp
  have "ops_fit sample_ops (\<lambda>i. {})" "ops_fit (take 3 sample_ops) (\<lambda>i. {})"
    using deck by (auto simp: sample_ops_def hand_def)
  note claims = this [THEN table_refines_seats]
  have "run_ops seat_spec sample_ops (\<lambda>i. {}) = Inl Assert_failed"
    "run_ops seat_spec (take 3 sample_ops) (\<lambda>i. {}) = Inr ((\<lambda>i. {})(0 := {0x03, 0x05}))"
    by (auto simp: sample_ops_def fun_eq_iff)
  then show ?thesis using claims by (simp add: agrees_def)
qed

section \<open>The bombs of a hand\<close>

lemma run_length_eq:
  assumes "\<forall>x \<in> set xs. GetCardLogicValue x = v" "ys = [] \<or> GetCardLogicValue (hd ys) \<noteq> v"
  shows "run_length v k (xs @ ys) = k + length xs"
  using assms
proof (induction xs arbitrary: k)
  case Nil
  then show ?case by (cases ys) auto
qed simp

lemma bomb_groups:
  assumes "distinct rs"
  shows "bomb_loop (concat (map (grp d) rs)) st =
    (fst st @ concat (map (grp d) (filter (\<lambda>r. cnt d r = 4) rs)), snd st + length (filter (\<lambda>r. cnt d r = 4) rs))"
  using assms
proof (induction rs arbitrary: st)
  case Nil
  then show ?case by (simp add: bomb_loop.simps)
next
  case (Cons r rs)
  let ?rest = "concat (map (grp d) rs)"
  have cnt: "cnt d r = length (grp d r)" by (simp add: cnt_def grp_def)
  show ?case
  proof (cases "grp d r")
    case Nil
    then show ?thesis using Cons cnt by simp
  next
    case g: (Cons c cs)
    have v: "\<forall>x \<in> set (c # cs). GetCardLogicValue x = r" unfolding g [symmetric] by (simp add: grp_def)
    have run: "run_length r 1 (cs @ ?rest) = length (grp d r)"
      using run_length_eq [OF _ rest_differs [OF Cons.prems], of cs] v g by simp
    have "bomb_loop ((c # cs) @ ?rest) st =
        bomb_loop ?rest (if length (grp d r) = 4 then (fst st @ grp d r, snd st + 1) else st)"
      by (subst bomb_loop.simps) (use v run g in \<open>simp add: Let_def\<close>)
    then show ?thesis using g Cons cnt by simp
  qed
qed

text \<open>
  The bombs of a hand: \<^verbatim>\<open>GetAllBomCard\<close> counts the values of which the hand has all four
  cards, and the rocket if both jokers are there, and collects exactly their cards.
\<close>

theorem all_bombs:
  assumes "hand cards" "length cards \<le> 20"
  shows "\<exists>bombs. GetAllBomCard cards =
      Inr (bombs, length (ranks_with 4 cards) + (if {0x41, 0x42} \<subseteq> set cards then 1 else 0)) \<and> distinct bombs \<and>
    (\<forall>c. c \<in> set bombs \<longleftrightarrow> c \<in> set cards \<and> (cnt cards (GetCardLogicValue c) = 4 \<or> {0x41, 0x42} \<subseteq> set cards \<and> c \<in> {0x41, 0x42}))"
proof -
  obtain d where d: "SortCardList cards ST_ORDER = Inr d" "mset d = mset cards" "sorted_wrt card_ge d"
    using SortCardList_order [of cards] assms(2) by (auto simp: FULL_COUNT_def)
  have h: "hand d" by (rule hand_mset [OF assms(1) d(2)])
  have c: "cnt d = cnt cards" using cnt_mset [OF d(2)] by (simp add: fun_eq_iff)
  have s: "set d = set cards" by (rule mset_eq_setD [OF d(2)])
  define j where "j \<longleftrightarrow> {0x41, 0x42} \<subseteq> set d"
  define b where "b = concat (map (grp d) (ranks_with 4 d))"
  have jk: "2 \<le> length d \<and> d ! 0 = 0x42 \<and> d ! 1 = 0x41 \<longleftrightarrow> j" unfolding j_def by (rule joker_head [OF h d(3)])
  have len: "length d \<le> 20" using mset_eq_length [OF d(2)] assms(2) by simp
  have run: "GetAllBomCard cards = Inr ((if j then [0x42, 0x41] else []) @ b, length (ranks_with 4 d) + (if j then 1 else 0))"
  proof (cases "length d < 2")
    case True
    then have "length (ranks_with 4 d) = 0" using length_ranks_with [OF h] by linarith
    moreover have "\<not> j" using True jk by linarith
    ultimately show ?thesis using True assms(2) d(1) by (simp add: GetAllBomCard_def MAX_COUNT_def b_def)
  next
    case False
    have "bomb_loop d st = (fst st @ b, snd st + length (ranks_with 4 d))" for st
      using bomb_groups [OF distinct_ranks, of d st] sorted_hand [OF h d(3)] by (simp add: ranks_with_def b_def)
    moreover have "d ! 0 = 0x42 \<and> d ! 1 = 0x41 \<longleftrightarrow> j" using jk False by linarith
    ultimately show ?thesis using False assms(2) d(1) by (simp only: GetAllBomCard_def MAX_COUNT_def bindR_Inr if_False not_le [symmetric]) simp
  qed
  have mem: "x \<in> set b \<longleftrightarrow> x \<in> set d \<and> cnt d (GetCardLogicValue x) = 4" for x
    using hand_card(1) [OF h] by (auto simp: grp_def ranks_with_def b_def)
  have "mset b = mset (filter (\<lambda>c. GetCardLogicValue c \<in> set (ranks_with 4 d)) d)"
    unfolding b_def by (rule mset_groups) (simp add: ranks_with_def)
  then have db: "distinct b" using mset_eq_imp_distinct_iff [THEN iffD2] h unfolding hand_def by (metis distinct_filter)
  have nj: "0x42 \<notin> set b \<and> 0x41 \<notin> set b"
    using mem cnt_jokers(3,4) [OF h] hand_card(3,4) [OF h] by force
  have "distinct ((if j then [0x42, 0x41] else []) @ b)" using db nj by auto
  moreover have "x \<in> set ((if j then [0x42, 0x41] else []) @ b) \<longleftrightarrow>
      x \<in> set d \<and> (cnt d (GetCardLogicValue x) = 4 \<or> j \<and> x \<in> {0x41, 0x42})" for x
    using mem by (auto simp: j_def)
  moreover have "ranks_with 4 cards = ranks_with 4 d" by (simp add: ranks_with_def c)
  ultimately show ?thesis using run unfolding c s [symmetric] j_def [symmetric] by metis
qed

definition sample_bombs :: "card list" where
  "sample_bombs = [0x41, 0x03, 0x13, 0x23, 0x33, 0x42, 0x07]"

theorem all_bombs_witness:
  "\<exists>bombs. GetAllBomCard sample_bombs = Inr (bombs, 2) \<and> distinct bombs \<and> 0x07 \<notin> set bombs \<and> {0x41, 0x42} \<subseteq> set bombs"
proof -
  have "list_all (\<lambda>c. c \<in> set m_cbCardData) sample_bombs \<and> distinct sample_bombs" by code_simp
  then have h: "hand sample_bombs" by (auto simp: hand_def list_all_iff)
  have s: "length sample_bombs \<le> 20" "ranks_with 4 sample_bombs = [3]" "cnt sample_bombs (GetCardLogicValue 0x07) = 1"
    by code_simp+
  have j: "{0x41, 0x42} \<subseteq> set sample_bombs" by (simp add: sample_bombs_def)
  from all_bombs [OF h s(1)] j s(2) obtain bombs where b: "GetAllBomCard sample_bombs = Inr (bombs, 2)" "distinct bombs"
    "\<forall>c. c \<in> set bombs \<longleftrightarrow> c \<in> set sample_bombs \<and>
       (cnt sample_bombs (GetCardLogicValue c) = 4 \<or> {0x41, 0x42} \<subseteq> set sample_bombs \<and> c \<in> {0x41, 0x42})"
    by auto
  have "0x07 \<notin> set bombs" "{0x41, 0x42} \<subseteq> set bombs" using b(3) j s(3) by auto
  then show ?thesis using b by blast
qed

end
