(* ===== verification/Land_Search.thy ===== *)
theory Land_Search
  imports Land_Plays
begin

text \<open>
  The search for plays in the land game (\<^verbatim>\<open>3rd/land/GameLogic.cpp\<close>): the rows that a hand
  contains, the groups of equal cards that are higher than a card, the bombs, and the list of
  plays a player may make, as the first of a trick or on a play of another one.

  The arrays that collect cards have room for twenty; the vectors of results are lists.  The
  cards of a \<^verbatim>\<open>tagOutCard\<close> are the list of the first \<^verbatim>\<open>cbCardCount\<close> ones.
\<close>

section \<open>Loops that collect results\<close>

primrec collectR :: "('a \<Rightarrow> 'b list res) \<Rightarrow> 'a list \<Rightarrow> 'b list res" where
  "collectR f [] = Inr []"
| "collectR f (x # xs) = bindR (f x) (\<lambda>ys. bindR (collectR f xs) (\<lambda>zs. Inr (ys @ zs)))"

text \<open>A loop that pushes one result and breaks.\<close>

primrec firstR :: "('a \<Rightarrow> 'b option res) \<Rightarrow> 'a list \<Rightarrow> 'b list res" where
  "firstR f [] = Inr []"
| "firstR f (x # xs) = bindR (f x) (\<lambda>y. case y of None \<Rightarrow> firstR f xs | Some y \<Rightarrow> Inr [y])"

definition room :: "card list \<Rightarrow> card list res" where
  "room cards = (if MAX_COUNT < length cards then Inl Out_of_bounds else Inr cards)"

definition out_card :: "card list \<Rightarrow> nat \<Rightarrow> int \<Rightarrow> tagOutCard res" where
  "out_card cards t v =
     bindR (room cards) (\<lambda>cards. Inr \<lparr>oc_cbCardData = cards, oc_cbCardType = t, oc_cbLogicValue = v\<rparr>)"

definition sorted_out :: "card list \<Rightarrow> nat \<Rightarrow> int \<Rightarrow> tagOutCard res" where
  "sorted_out cards t v = bindR (room cards) (\<lambda>cards. bindR (SortCardList cards ST_ORDER) (\<lambda>d. out_card d t v))"

definition one :: "'a res \<Rightarrow> 'a list res" where
  "one x = bindR x (\<lambda>x. Inr [x])"

section \<open>The groups of a hand\<close>

definition block :: "nat \<Rightarrow> nat \<Rightarrow> tagAnalyseResult \<Rightarrow> card list" where
  "block i j r = take (i + 1) (drop ((i + 1) * j) (ar_cbCardData r ! i))"

definition value_of :: "card list \<Rightarrow> int" where
  "value_of b = GetCardLogicValue (b ! 0)"

text \<open>The numbers of the groups of one size, upwards and downwards.\<close>

definition up :: "nat \<Rightarrow> tagAnalyseResult \<Rightarrow> nat list" where
  "up i r = [0..<cbBlockCount r ! i]"

definition down :: "nat \<Rightarrow> tagAnalyseResult \<Rightarrow> nat list" where
  "down i r = rev (up i r)"

definition SearchSameCard :: "card list \<Rightarrow> card \<Rightarrow> nat \<Rightarrow> card list list res" where
  "SearchSameCard cbHandCardData cbReferCard cbSameCardCount =
     bindR (room cbHandCardData) (\<lambda>cbCardData.
     bindR (SortCardList cbCardData ST_ORDER) (\<lambda>cbCardData.
     bindR (AnalysebCardData cbCardData) (\<lambda>AnalyseResult.
     let cbReferLogicValue = (if cbReferCard = 0 then 0 else GetCardLogicValue cbReferCard);
         rows = concat (map (\<lambda>i.
                  map (\<lambda>j. take cbSameCardCount (block i j AnalyseResult))
                    (filter (\<lambda>j. value_of (block i j AnalyseResult) > cbReferLogicValue) (down i AnalyseResult)))
                [cbSameCardCount - 1..<4])
     in Inr (if MAX_COUNT \<le> length rows then take (MAX_COUNT - 1) rows else rows))))"

definition SearchBombCard :: "tagAnalyseResult \<Rightarrow> card list list" where
  "SearchBombCard r =
     (if cbBlockCount r ! 0 \<ge> 2 \<and> ar_cbCardData r ! 0 ! 0 = 0x42 \<and> ar_cbCardData r ! 0 ! 1 = 0x41 then [[0x42, 0x41]] else []) @
     map (\<lambda>i. block 3 i r) (up 3 r)"

section \<open>Rows\<close>

record tagLinkCard =
  lk_cbLinkCount :: nat
  lk_cbCardData :: "card list"
  lk_cbCardCount :: nat
  lk_cbLogicValue :: int
  lk_cbCardType :: nat

text \<open>The longest rows: \<open>n\<close> is the number of values still to look at, from 14 down to 0.\<close>

fun longest_loop :: "(int \<Rightarrow> bool) \<Rightarrow> nat \<Rightarrow> nat \<Rightarrow> nat \<times> int \<Rightarrow> (nat \<times> int) list" where
  "longest_loop bExist cbMinLinkCount 0 st = []"
| "longest_loop bExist cbMinLinkCount (Suc i) (cbLinkCount, cbTypeValue) =
     (if bExist (int i)
      then longest_loop bExist cbMinLinkCount i (cbLinkCount + 1, if cbLinkCount = 0 then int i else cbTypeValue)
      else (if cbLinkCount \<ge> cbMinLinkCount then [(cbLinkCount, cbTypeValue)] else []) @
           longest_loop bExist cbMinLinkCount i (0, cbTypeValue))"

text \<open>The shorter rows inside a row of \<open>l\<close> values up to \<open>v\<close>.\<close>

definition shorter_rows :: "nat \<Rightarrow> nat \<times> int \<Rightarrow> (nat \<times> int) list" where
  "shorter_rows cbMinLinkCount row =
     (case row of (l, v) \<Rightarrow> concat (map (\<lambda>j. map (\<lambda>k. (j, k)) (rev [v - int l + int j..v])) (rev [cbMinLinkCount..<l])))"

text \<open>
  The cards of one value are those from the first one on.  Rows of the same number of cards
  and value do not occur twice, so the order that \<^verbatim>\<open>std::sort\<close> gives is the one of a stable sort.
\<close>

definition fill_value :: "nat \<Rightarrow> card list \<Rightarrow> int \<Rightarrow> card list res" where
  "fill_value cbSameCount cards j =
     (case dropWhile (\<lambda>c. GetCardLogicValue c \<noteq> j) cards of
        [] \<Rightarrow> Inr []
      | cs \<Rightarrow> if length cs < cbSameCount then Inl Out_of_bounds else Inr (take cbSameCount cs))"

definition fill_row :: "nat \<Rightarrow> nat \<Rightarrow> card list \<Rightarrow> nat \<times> int \<Rightarrow> tagLinkCard res" where
  "fill_row cbSameCount cbCardType cards row =
     (case row of (l, v) \<Rightarrow>
        bindR (collectR (fill_value cbSameCount cards) (rev [v - int l + 1..v])) (\<lambda>filled.
        bindR (room filled) (\<lambda>filled.
        bindR (c_assert (length filled = l * cbSameCount)) (\<lambda>_.
        Inr \<lparr>lk_cbLinkCount = l, lk_cbCardData = filled, lk_cbCardCount = l * cbSameCount, lk_cbLogicValue = v,
             lk_cbCardType = cbCardType\<rparr>))))"

definition SearchAllLink :: "card list \<Rightarrow> nat \<Rightarrow> tagLinkCard list res" where
  "SearchAllLink cards cbSameCount =
     bindR (c_assert (0 < cbSameCount \<and> cbSameCount < 4)) (\<lambda>_.
     let (cbMinLinkCount, cbCardType) =
           (if cbSameCount = 2 then (3, CT_DOUBLE_LINE) else if cbSameCount = 3 then (2, CT_THREE_LINE) else (5, CT_SINGLE_LINE)) in
     bindR (AnalysebCardData cards) (\<lambda>r.
     let vals = concat (map (\<lambda>i. map (\<lambda>j. value_of (block i j r)) (up i r)) [cbSameCount - 1..<4]);
         longest = longest_loop (\<lambda>v. v < 15 \<and> v \<in> set vals) cbMinLinkCount 15 (0, 0);
         rows = longest @ concat (map (shorter_rows cbMinLinkCount) (rev longest))
     in collectR (\<lambda>row. one (fill_row cbSameCount cbCardType cards row)) (sort_key (\<lambda>(l, v). l * cbSameCount) (sort_key snd rows))))"

section \<open>Cards carried by a row of triplets\<close>

text \<open>Values of the row are left out; of a triplet that is next to the row only two cards are taken.\<close>

definition in_row :: "int \<Rightarrow> nat \<Rightarrow> int \<Rightarrow> bool" where
  "in_row v l x \<longleftrightarrow> x \<le> v \<and> x > v - int l"

definition plane_singles :: "tagAnalyseResult \<Rightarrow> int \<Rightarrow> nat \<Rightarrow> card list" where
  "plane_singles r v l =
     concat (map (\<lambda>k. concat (map (\<lambda>m.
       let b = block k m r; cbCardValue = value_of b in
       if in_row v l cbCardValue then []
       else if cbCardValue = 0 then []
       else map (\<lambda>n. b ! n) (filter (\<lambda>n. \<not> (n \<ge> 2 \<and> cbCardValue < 0x0F \<and> (cbCardValue = v + 1 \<or> cbCardValue = v - int l))) [0..<k + 1]))
       (down k r))) [0, 1, 2])"

definition plane_pairs :: "nat list \<Rightarrow> tagAnalyseResult \<Rightarrow> int \<Rightarrow> nat \<Rightarrow> card list" where
  "plane_pairs ks r v l =
     concat (map (\<lambda>k. concat (map (\<lambda>m. if in_row v l (value_of (block k m r)) then [] else take 2 (block k m r)) (up k r))) ks)"

definition lead_singles :: "tagAnalyseResult \<Rightarrow> int \<Rightarrow> nat \<Rightarrow> card list" where
  "lead_singles r v l =
     concat (map (\<lambda>m. if in_row v l (value_of (block 0 m r)) then [] else [block 0 m r ! 0]) (down 0 r))"

section \<open>Answers to a play\<close>

definition answer_same :: "card list \<Rightarrow> tagOutCard \<Rightarrow> tagOutCard list res" where
  "answer_same cards turn =
     (let cbReferCard = (case oc_cbCardData turn of [] \<Rightarrow> 0 | c # _ \<Rightarrow> c);
          cbSameCount = (if oc_cbCardType turn = CT_DOUBLE then 2 else if oc_cbCardType turn = CT_THREE then 3 else 1) in
      bindR (SearchSameCard cards cbReferCard cbSameCount) (\<lambda>rows.
      collectR (\<lambda>row. one (out_card (take cbSameCount row) (oc_cbCardType turn) (value_of row))) rows))"

definition answer_line :: "card list \<Rightarrow> tagOutCard \<Rightarrow> tagOutCard list res" where
  "answer_line cards turn =
     (if length cards < length (oc_cbCardData turn) then Inr []
      else
        let cbSameCount = (if oc_cbCardType turn = CT_DOUBLE_LINE then 2 else if oc_cbCardType turn = CT_THREE_LINE then 3 else 1) in
        bindR (SearchAllLink cards cbSameCount) (\<lambda>links.
        firstR (\<lambda>l.
          if lk_cbLogicValue l > oc_cbLogicValue turn \<and> lk_cbCardCount l = length (oc_cbCardData turn)
          then bindR (out_card (lk_cbCardData l) (oc_cbCardType turn) (lk_cbLogicValue l)) (\<lambda>x. Inr (Some x))
          else Inr None) links))"

text \<open>
  Triplets (with \<^verbatim>\<open>bFourTake\<close> also from four equal cards) with the last group of each size in
  \<open>ks\<close>; \<open>n\<close> is the number of cards carried.
\<close>

definition answer_three :: "bool \<Rightarrow> nat list \<Rightarrow> nat \<Rightarrow> nat \<Rightarrow> tagAnalyseResult \<Rightarrow> tagOutCard \<Rightarrow> tagOutCard list res" where
  "answer_three bFourTake ks n t r turn =
     collectR (\<lambda>i. collectR (\<lambda>j.
       let three = take 3 (block i j r) in
       if value_of three \<le> oc_cbLogicValue turn then Inr []
       else collectR (\<lambda>k. firstR (\<lambda>m.
              if m = j \<and> k = i then Inr None
              else bindR (sorted_out (three @ take n (block k m r)) t (value_of three)) (\<lambda>x. Inr (Some x))) (down k r)) ks)
       (down i r)) [2..<if bFourTake then 4 else 3]"

definition answer_plane_ones :: "int \<Rightarrow> card list \<Rightarrow> tagAnalyseResult \<Rightarrow> tagOutCard \<Rightarrow> tagOutCard list res" where
  "answer_plane_ones rule cards r turn =
     bindR (SearchAllLink cards 3) (firstR (\<lambda>l.
       let cbLinkCount = lk_cbCardCount l div 3; v = lk_cbLogicValue l in
       if lk_cbCardCount l \<noteq> length (oc_cbCardData turn) div 4 * 3 then Inr None
       else if v \<le> oc_cbLogicValue turn then Inr None
       else if length cards < cbLinkCount * 4 then Inr None
       else
         bindR (room (plane_singles r v cbLinkCount)) (\<lambda>cbSingleCard.
         if length cbSingleCard \<ge> cbLinkCount \<and> IsValidType rule CT_THREE_TAKE_ONE 0 then
           bindR (SortCardList cbSingleCard ST_ORDER) (\<lambda>cbSingleCard.
           bindR (sorted_out (lk_cbCardData l @ drop (length cbSingleCard - cbLinkCount) cbSingleCard) CT_THREE_TAKE_ONE
             (value_of (lk_cbCardData l))) (\<lambda>x.
           bindR (GetCardType rule (oc_cbCardData x)) (\<lambda>t.
           Inr (if t \<noteq> CT_THREE_TAKE_ONE then None else Some x))))
         else Inr None)))"

definition answer_plane_twos :: "card list \<Rightarrow> tagAnalyseResult \<Rightarrow> tagOutCard \<Rightarrow> tagOutCard list res" where
  "answer_plane_twos cards r turn =
     bindR (SearchAllLink cards 3) (firstR (\<lambda>l.
       let cbLinkCount = lk_cbCardCount l div 3; v = lk_cbLogicValue l in
       if lk_cbCardCount l \<noteq> length (oc_cbCardData turn) div 5 * 3 then Inr None
       else if v \<le> oc_cbLogicValue turn then Inr None
       else if length cards < cbLinkCount * 5 then Inr None
       else
         bindR (room (plane_pairs [3, 2, 1] r v cbLinkCount)) (\<lambda>cbDoubleCard.
         if length cbDoubleCard div 2 \<ge> cbLinkCount then
           bindR (sorted_out (lk_cbCardData l @ drop (length cbDoubleCard - 2 * cbLinkCount) cbDoubleCard) CT_THREE_TAKE_TWO
             (value_of (lk_cbCardData l))) (\<lambda>x. Inr (Some x))
         else Inr None)))"

definition answer_kind :: "int \<Rightarrow> card list \<Rightarrow> tagAnalyseResult \<Rightarrow> tagOutCard \<Rightarrow> bool \<Rightarrow> tagOutCard list res" where
  "answer_kind rule cards r turn bFourTake =
     (let t = oc_cbCardType turn; n = length (oc_cbCardData turn) in
      if t = CT_SINGLE \<or> t = CT_DOUBLE \<or> t = CT_THREE then answer_same cards turn
      else if t = CT_SINGLE_LINE \<or> t = CT_DOUBLE_LINE \<or> t = CT_THREE_LINE then answer_line cards turn
      else if t = CT_THREE_TAKE_ONE then
        if length cards < n then Inr []
        else
          bindR (if n = 4 \<and> IsValidType rule CT_THREE_TAKE_ONE 0
                 then answer_three bFourTake [0, 1, 2] 1 CT_THREE_TAKE_ONE r turn else Inr []) (\<lambda>xs.
          bindR (if n > 4 then answer_plane_ones rule cards r turn else Inr []) (\<lambda>ys. Inr (xs @ ys)))
      else if t = CT_THREE_TAKE_TWO then
        if length cards < n then Inr []
        else
          bindR (if n = 5 then answer_three bFourTake [1, 2] 2 CT_THREE_TAKE_TWO r turn else Inr []) (\<lambda>xs.
          bindR (if n > 5 then answer_plane_twos cards r turn else Inr []) (\<lambda>ys. Inr (xs @ ys)))
      else Inr [])"

definition is_rocket :: "card list \<Rightarrow> bool" where
  "is_rocket cards \<longleftrightarrow> length cards \<ge> 2 \<and> cards ! 0 = 0x42 \<and> cards ! 1 = 0x41"

definition answer_bombs :: "card list \<Rightarrow> card list \<Rightarrow> tagAnalyseResult \<Rightarrow> tagOutCard \<Rightarrow> tagOutCard list res" where
  "answer_bombs cbHandCardData cards r turn =
     bindR (if length cards \<ge> 4 \<and> oc_cbCardType turn \<noteq> CT_MISSILE_CARD then
              collectR (\<lambda>i.
                let v = value_of (block 3 i r) in
                if oc_cbCardType turn = CT_BOMB_CARD \<and> v \<le> oc_cbLogicValue turn then Inr []
                else one (out_card (block 3 i r) CT_BOMB_CARD v)) (up 3 r)
            else Inr []) (\<lambda>bombs.
     bindR (if oc_cbCardType turn \<noteq> CT_MISSILE_CARD \<and> is_rocket cbHandCardData
            then one (out_card [0x42, 0x41] CT_MISSILE_CARD 0x11) else Inr []) (\<lambda>rocket.
     Inr (bombs @ rocket)))"

section \<open>Plays that break a bomb\<close>

text \<open>The cards of the play are sorted in place; then the bombs left without them are counted.\<close>

definition without :: "int \<Rightarrow> card list \<Rightarrow> tagOutCard \<Rightarrow> (tagOutCard \<times> nat) res" where
  "without rule cards x =
     bindR (SortCardList (oc_cbCardData x) ST_ORDER) (\<lambda>d.
     case RemoveCard d cards of (bSuccess, cbCardBuf) \<Rightarrow>
       bindR (c_assert bSuccess) (\<lambda>_.
       bindR (AnalyseOutCard rule (take (length cards - length d) cbCardBuf)) (\<lambda>r.
       Inr (x\<lparr>oc_cbCardData := d\<rparr>, length (SearchBombCard r)))))"

text \<open>
  The plays kept before the loop ends, whether it was left at a play that breaks a bomb, and
  the plays from there on.
\<close>

fun bomb_filter :: "int \<Rightarrow> card list \<Rightarrow> nat \<Rightarrow> bool \<Rightarrow> tagOutCard list \<Rightarrow> (tagOutCard list \<times> bool \<times> tagOutCard list) res" where
  "bomb_filter rule cards n bFixedBomb [] = Inr ([], False, [])"
| "bomb_filter rule cards n bFixedBomb (x # xs) =
     (if oc_cbCardType x < CT_BOMB_CARD then
        bindR (without rule cards x) (\<lambda>(x, n2).
        if n2 < n then
          if bFixedBomb then bomb_filter rule cards n bFixedBomb xs else Inr ([], True, x # xs)
        else bindR (bomb_filter rule cards n bFixedBomb xs) (\<lambda>(pre, b, post). Inr (x # pre, b, post)))
      else bindR (bomb_filter rule cards n bFixedBomb xs) (\<lambda>(pre, b, post). Inr (x # pre, b, post)))"

text \<open>The \<open>i\<close>-th bomb is inserted \<open>i + 1\<close> times in front of the first play that breaks one.\<close>

definition add_bombs :: "int \<Rightarrow> card list \<Rightarrow> bool \<Rightarrow> tagOutCard list \<Rightarrow> tagOutCard list \<Rightarrow> tagOutCard list res" where
  "add_bombs rule cards bFixedBomb vecBomb xs =
     (if length vecBomb > 0 then
        bindR (bomb_filter rule cards (length vecBomb) bFixedBomb xs) (\<lambda>(pre, bBombFirst, post).
        Inr (if bBombFirst then pre @ concat (map (\<lambda>i. replicate (i + 1) (vecBomb ! i)) [0..<length vecBomb]) @ post
             else pre @ vecBomb))
      else Inr xs)"

definition no_play :: tagOutCard where
  "no_play = \<lparr>oc_cbCardData = [], oc_cbCardType = 0, oc_cbLogicValue = 0\<rparr>"

definition answers :: "int \<Rightarrow> card list \<Rightarrow> card list \<Rightarrow> tagAnalyseResult \<Rightarrow> tagOutCard \<Rightarrow> bool \<Rightarrow> bool \<Rightarrow> tagOutCard list res" where
  "answers rule cbHandCardData cards r turn bFourTake bFixedBomb =
     bindR (answer_kind rule cards r turn bFourTake) (\<lambda>xs.
     bindR (answer_bombs cbHandCardData cards r turn) (\<lambda>vecBomb.
     bindR (add_bombs rule cards bFixedBomb vecBomb xs) (\<lambda>xs. Inr (xs @ [no_play]))))"

section \<open>Plays of the first player\<close>

definition lead_bombs :: "card list \<Rightarrow> tagAnalyseResult \<Rightarrow> tagOutCard list res" where
  "lead_bombs cbHandCardData r =
     bindR (if is_rocket cbHandCardData then one (out_card [0x42, 0x41] CT_MISSILE_CARD 0) else Inr []) (\<lambda>rocket.
     bindR (if length cbHandCardData \<ge> 4
            then collectR (\<lambda>i. one (out_card (block 3 i r) CT_BOMB_CARD (value_of (block 3 i r)))) (up 3 r)
            else Inr []) (\<lambda>bombs. Inr (rocket @ bombs)))"

definition lead_all :: "int \<Rightarrow> card list \<Rightarrow> tagOutCard list res" where
  "lead_all rule cards =
     bindR (AnalyseOutCard rule cards) (\<lambda>r.
     if ar_cbCardType r \<noteq> CT_ERROR \<and> ar_cbCardType r \<noteq> CT_FOUR_TAKE_ONE \<and> ar_cbCardType r \<noteq> CT_FOUR_TAKE_TWO
     then one (out_card cards (ar_cbCardType r) (ar_cbLogicValue r)) else Inr [])"

definition lead_line :: "card list \<Rightarrow> nat \<Rightarrow> nat \<Rightarrow> nat \<Rightarrow> tagOutCard list res" where
  "lead_line cards n cbSameCount t =
     (if length cards \<ge> n then
        bindR (SearchAllLink cards cbSameCount) (\<lambda>links.
        collectR (\<lambda>l. one (out_card (lk_cbCardData l) t (lk_cbLogicValue l))) (rev links))
      else Inr [])"

definition lead_four_one :: "int \<Rightarrow> bool \<Rightarrow> card list \<Rightarrow> tagAnalyseResult \<Rightarrow> tagOutCard list res" where
  "lead_four_one rule bFourTake cards r =
     (if bFourTake \<and> length cards \<ge> 6 \<and> cbBlockCount r ! 0 \<ge> 2 \<and> IsValidType rule CT_FOUR_TAKE_ONE (length cards) then
        collectR (\<lambda>i.
          bindR (out_card (block 3 i r @ take 2 (drop (cbBlockCount r ! 0 - 2) (ar_cbCardData r ! 0))) CT_FOUR_TAKE_ONE (value_of (block 3 i r))) (\<lambda>x.
          bindR (GetCardType rule (oc_cbCardData x)) (\<lambda>t. Inr (if t = CT_FOUR_TAKE_ONE then [x] else [])))) (up 3 r)
      else Inr [])"

definition lead_four_two :: "int \<Rightarrow> bool \<Rightarrow> card list \<Rightarrow> tagAnalyseResult \<Rightarrow> tagOutCard list res" where
  "lead_four_two rule bFourTake cards r =
     (if bFourTake \<and> length cards \<ge> 6 \<and> cbBlockCount r ! 1 \<ge> 2 \<and> IsValidType rule CT_FOUR_TAKE_TWO (length cards) then
        collectR (\<lambda>i.
          one (out_card (block 3 i r @ take 4 (drop (2 * (cbBlockCount r ! 1 - 2)) (ar_cbCardData r ! 1))) CT_FOUR_TAKE_TWO (value_of (block 3 i r)))) (up 3 r)
      else Inr [])"

definition lead_plane_twos :: "int \<Rightarrow> card list \<Rightarrow> tagAnalyseResult \<Rightarrow> tagLinkCard \<Rightarrow> tagOutCard list res" where
  "lead_plane_twos rule cards r l =
     (let cbLinkCount = lk_cbCardCount l div 3 in
      if length cards \<ge> cbLinkCount * 5 \<and> IsValidType rule CT_THREE_TAKE_ONE (length cards) then
        bindR (room (plane_pairs [1] r (lk_cbLogicValue l) cbLinkCount)) (\<lambda>cbDoubleCard.
        if length cbDoubleCard div 2 \<ge> cbLinkCount then
          one (sorted_out (lk_cbCardData l @ drop (length cbDoubleCard - 2 * cbLinkCount) cbDoubleCard) CT_THREE_TAKE_TWO (value_of (lk_cbCardData l)))
        else Inr [])
      else Inr [])"

text \<open>The rocket among the cards carried ends the round of the loop; that is \<open>None\<close>.\<close>

definition lead_plane_ones :: "card list \<Rightarrow> tagAnalyseResult \<Rightarrow> tagLinkCard \<Rightarrow> tagOutCard list option res" where
  "lead_plane_ones cards r l =
     (let cbLinkCount = lk_cbCardCount l div 3 in
      if length cards \<ge> cbLinkCount * 4 then
        bindR (room (lead_singles r (lk_cbLogicValue l) cbLinkCount)) (\<lambda>cbSingleCard.
        if length cbSingleCard \<ge> cbLinkCount then
          bindR (SortCardList cbSingleCard ST_ORDER) (\<lambda>cbSingleCard.
          bindR (sorted_out (lk_cbCardData l @ drop (length cbSingleCard - cbLinkCount) cbSingleCard) CT_THREE_TAKE_ONE (value_of (lk_cbCardData l))) (\<lambda>x.
          Inr (if is_rocket (oc_cbCardData x) then None else Some [x])))
        else Inr (Some []))
      else Inr (Some []))"

definition lead_plane :: "int \<Rightarrow> card list \<Rightarrow> tagAnalyseResult \<Rightarrow> tagLinkCard \<Rightarrow> tagOutCard list res" where
  "lead_plane rule cards r l =
     bindR (lead_plane_twos rule cards r l) (\<lambda>twos.
     bindR (lead_plane_ones cards r l) (\<lambda>ones.
     case ones of
       None \<Rightarrow> Inr twos
     | Some ones \<Rightarrow>
         let cbLinkCount = lk_cbCardCount l div 3 in
         bindR (if length cards \<ge> cbLinkCount * 3 \<and> IsValidType rule CT_THREE (length cards)
                then one (out_card (take (cbLinkCount * 3) (lk_cbCardData l)) CT_THREE_LINE (lk_cbLogicValue l)) else Inr []) (\<lambda>line.
         Inr (twos @ ones @ line))))"

definition lead_planes :: "int \<Rightarrow> card list \<Rightarrow> tagAnalyseResult \<Rightarrow> tagOutCard list res" where
  "lead_planes rule cards r =
     (if length cards \<ge> 6 then bindR (SearchAllLink cards 3) (\<lambda>links. collectR (lead_plane rule cards r) (rev links)) else Inr [])"

definition lead_three :: "int \<Rightarrow> card list \<Rightarrow> tagAnalyseResult \<Rightarrow> nat \<Rightarrow> tagOutCard list res" where
  "lead_three rule cards r j =
     (let three = block 2 j r; v = value_of three in
      bindR (if IsValidType rule CT_THREE_TAKE_ONE 0
             then collectR (\<lambda>m. one (sorted_out (three @ take 1 (block 0 m r)) CT_THREE_TAKE_ONE v)) (down 0 r) else Inr []) (\<lambda>ones.
      bindR (if IsValidType rule CT_THREE_TAKE_TWO 0
             then collectR (\<lambda>m. one (sorted_out (three @ block 1 m r) CT_THREE_TAKE_TWO v)) (down 1 r) else Inr []) (\<lambda>twos.
      bindR (if IsValidType rule CT_THREE (length cards) then one (out_card three CT_THREE v) else Inr []) (\<lambda>bare.
      Inr (ones @ twos @ bare)))))"

text \<open>The first \<open>n\<close> cards of every group of size \<open>i + 1\<close>, from the lowest on.\<close>

definition lead_group :: "nat \<Rightarrow> nat \<Rightarrow> nat \<Rightarrow> tagAnalyseResult \<Rightarrow> tagOutCard list res" where
  "lead_group n t i r = collectR (\<lambda>j. one (out_card (take n (block i j r)) t (value_of (block i j r)))) (down i r)"

definition lead_small :: "int \<Rightarrow> card list \<Rightarrow> tagAnalyseResult \<Rightarrow> tagOutCard list res" where
  "lead_small rule cards r =
     bindR (if length cards \<ge> 3 then collectR (lead_three rule cards r) (down 2 r) else Inr []) (\<lambda>threes.
     bindR (if length cards \<ge> 2 then lead_group 2 CT_DOUBLE 1 r else Inr []) (\<lambda>doubles.
     bindR (lead_group 1 CT_SINGLE 0 r) (\<lambda>singles. Inr (threes @ doubles @ singles))))"

definition lead_broken :: "card list \<Rightarrow> tagAnalyseResult \<Rightarrow> tagOutCard list res" where
  "lead_broken cards r =
     bindR (if length cards \<ge> 2 then lead_group 2 CT_DOUBLE 2 r else Inr []) (\<lambda>doubles.
     bindR (collectR (\<lambda>i. lead_group 1 CT_SINGLE i r) [1, 2]) (\<lambda>singles. Inr (doubles @ singles)))"

text \<open>\<open>sort_value\<close> stands for \<^verbatim>\<open>std::sort\<close> with \<^verbatim>\<open>less_value\<close>, which leaves the order of equal values open.\<close>

definition leads ::
    "(tagOutCard list \<Rightarrow> tagOutCard list) \<Rightarrow> int \<Rightarrow> card list \<Rightarrow> card list \<Rightarrow> tagAnalyseResult \<Rightarrow> bool \<Rightarrow> bool \<Rightarrow> tagOutCard list res" where
  "leads sort_value rule cbHandCardData cards r bFourTake bFixedBomb =
     bindR (lead_bombs cbHandCardData r) (\<lambda>bombs.
     bindR (lead_all rule cards) (\<lambda>whole.
     bindR (lead_line cards 6 2 CT_DOUBLE_LINE) (\<lambda>double_lines.
     bindR (lead_line cards 5 1 CT_SINGLE_LINE) (\<lambda>single_lines.
     bindR (lead_four_one rule bFourTake cards r) (\<lambda>four_one.
     bindR (lead_four_two rule bFourTake cards r) (\<lambda>four_two.
     bindR (lead_planes rule cards r) (\<lambda>planes.
     bindR (lead_small rule cards r) (\<lambda>small.
     bindR (lead_broken cards r) (\<lambda>broken.
     let xs = bombs @ whole @ double_lines @ single_lines @ four_one @ four_two @ planes @ sort_value small @ broken in
     case xs of
       [] \<Rightarrow> Inr []
     | x # _ \<Rightarrow>
         if bFixedBomb \<and> oc_cbCardType x \<ge> CT_BOMB_CARD
         then bindR (bomb_filter rule cards (length (SearchBombCard r)) True xs) (\<lambda>(kept, _, _). Inr kept)
         else Inr xs)))))))))"

definition SimplySearchResult ::
    "(tagOutCard list \<Rightarrow> tagOutCard list) \<Rightarrow> int \<Rightarrow> card list \<Rightarrow> tagOutCard \<Rightarrow> bool \<Rightarrow> bool \<Rightarrow> tagOutCard list res" where
  "SimplySearchResult sort_value rule cbHandCardData TurnCardResult bFourTake bFixedBomb =
     (if length cbHandCardData = 0 then Inr []
      else
        bindR (room cbHandCardData) (\<lambda>cards.
        bindR (SortCardList cards ST_ORDER) (\<lambda>cards.
        bindR (AnalysebCardData cards) (\<lambda>r.
        if oc_cbCardType TurnCardResult = CT_ERROR
        then leads sort_value rule cbHandCardData cards r bFourTake bFixedBomb
        else answers rule cbHandCardData cards r TurnCardResult bFourTake bFixedBomb))))"

end
