(* ===== verification/Land_Rows.thy ===== *)
theory Land_Rows
  imports Land_Search
begin

text \<open>
  Selecting cards of a hand by value, and the proof that \<^verbatim>\<open>SearchAllLink\<close> finds exactly the rows
  of a hand.
\<close>

section \<open>Choosing cards by value\<close>

text \<open>For each value of the list that many cards of it.\<close>

definition pick :: "card list \<Rightarrow> (int \<times> nat) list \<Rightarrow> card list" where
  "pick d ps = concat (map (\<lambda>(r, k). take k (grp d r)) ps)"

definition pickable :: "card list \<Rightarrow> (int \<times> nat) list \<Rightarrow> bool" where
  "pickable d ps \<longleftrightarrow> distinct (map fst ps) \<and> (\<forall>(r, k) \<in> set ps. k \<le> cnt d r)"

lemma pick_simps [simp]:
  "pick d [] = []" "pick d ((r, k) # ps) = take k (grp d r) @ pick d ps" "pick d (ps @ qs) = pick d ps @ pick d qs"
  by (simp_all add: pick_def)

lemma cnt_simps [simp]:
  "cnt [] r = 0" "cnt (c # cs) r = (if GetCardLogicValue c = r then 1 else 0) + cnt cs r" "cnt (as @ bs) r = cnt as r + cnt bs r"
  by (simp_all add: cnt_def)

lemma length_grp: "length (grp d r) = cnt d r"
  by (simp add: grp_def cnt_def)

lemma set_take_grp: "c \<in> set (take k (grp d r)) \<Longrightarrow> c \<in> set d \<and> GetCardLogicValue c = r"
  by (auto simp: grp_def dest: in_set_takeD)

lemma cnt_take_grp: "k \<le> cnt d r \<Longrightarrow> cnt (take k (grp d r)) x = (if x = r then k else 0)"
proof (cases "x = r")
  case True
  assume "k \<le> cnt d r"
  then have "length (take k (grp d r)) = k" by (simp add: length_grp)
  moreover have "cnt (take k (grp d r)) r = length (take k (grp d r))" unfolding cnt_all using set_take_grp by blast
  ultimately show ?thesis using True by simp
next
  case False
  then have "filter (\<lambda>c. GetCardLogicValue c = x) (take k (grp d r)) = []"
    unfolding filter_empty_conv using set_take_grp [of _ k d r] by blast
  then show ?thesis using False by (simp add: cnt_def)
qed

lemma set_pick: "c \<in> set (pick d ps) \<Longrightarrow> c \<in> set d \<and> GetCardLogicValue c \<in> fst ` set ps"
  by (induction ps) (auto dest: set_take_grp)

lemma hand_pick:
  assumes "hand d" "distinct (map fst ps)"
  shows "hand (pick d ps)"
  using assms(2)
proof (induction ps)
  case (Cons p ps)
  obtain r k where p: "p = (r, k)" by (cases p)
  have "distinct (take k (grp d r))" using assms(1) by (simp add: hand_def grp_def)
  moreover have "set (take k (grp d r)) \<inter> set (pick d ps) = {}"
  proof (rule Int_emptyI)
    fix c assume c: "c \<in> set (take k (grp d r))" "c \<in> set (pick d ps)"
    have "r \<in> fst ` set ps" using set_take_grp [OF c(1)] set_pick [OF c(2)] by simp
    then show False using Cons.prems p by simp
  qed
  moreover have "set (take k (grp d r)) \<subseteq> set m_cbCardData" using assms(1) set_take_grp [of _ k d r] by (auto simp: hand_def)
  ultimately show ?case using Cons p by (simp add: hand_def)
qed (simp add: hand_def)

lemma cnt_pick:
  assumes "pickable d ps"
  shows "cnt (pick d ps) r = (case map_of ps r of None \<Rightarrow> 0 | Some k \<Rightarrow> k)"
  using assms
proof (induction ps)
  case (Cons p ps)
  obtain x k where p: "p = (x, k)" by (cases p)
  have "map_of ps x = None" using Cons.prems p by (simp add: pickable_def map_of_eq_None_iff)
  then show ?case using Cons p by (auto simp: pickable_def cnt_take_grp)
qed simp

lemma length_pick: "pickable d ps \<Longrightarrow> length (pick d ps) = sum_list (map snd ps)"
  by (induction ps) (auto simp: pickable_def length_grp)

lemma pick_mset_le: "hand d \<Longrightarrow> distinct (map fst ps) \<Longrightarrow> length (pick d ps) \<le> length d"
  using hand_pick [of d ps] set_pick [of _ d ps] card_mono [of "set d" "set (pick d ps)"]
  by (auto simp: hand_def distinct_card [symmetric])

lemma hand_length: "hand d \<Longrightarrow> distinct xs \<Longrightarrow> set xs \<subseteq> set d \<Longrightarrow> length xs \<le> length d"
  using card_mono [of "set d" "set xs"] by (simp add: hand_def distinct_card)

section \<open>Groups of the sorted hand\<close>

lemma up_grouped: "i < 4 \<Longrightarrow> j \<in> set (up i (grouped d)) \<longleftrightarrow> j < length (ranks_with (i + 1) d)"
  by (simp add: up_def)

lemma down_up [simp]: "set (down i r) = set (up i r)"
  by (simp add: down_def)

lemma concat_block:
  assumes "\<forall>r \<in> set rs. length (f r) = k" "j < length rs"
  shows "take k (drop (k * j) (concat (map f rs))) = f (rs ! j)"
  using assms
proof (induction rs arbitrary: j)
  case (Cons r rs)
  then show ?case by (cases j) simp_all
qed simp

lemma block_grouped:
  assumes "i < 4" "j \<in> set (up i (grouped d))"
  shows "block i j (grouped d) = grp d (ranks_with (i + 1) d ! j)" "ranks_with (i + 1) d ! j \<in> set (ranks_with (i + 1) d)"
proof -
  have j: "j < length (ranks_with (i + 1) d)" using assms by (simp add: up_grouped)
  have "\<forall>r \<in> set (ranks_with (i + 1) d). length (grp d r) = i + 1" by (auto simp: ranks_with_def length_grp)
  from concat_block [OF this j] show "block i j (grouped d) = grp d (ranks_with (i + 1) d ! j)"
    using assms(1) by (simp add: block_def)
  show "ranks_with (i + 1) d ! j \<in> set (ranks_with (i + 1) d)" using j by (rule nth_mem)
qed

lemma value_of_grp: "grp d r \<noteq> [] \<Longrightarrow> value_of (grp d r) = r" "0 < k \<Longrightarrow> grp d r \<noteq> [] \<Longrightarrow> value_of (take k (grp d r)) = r"
proof -
  have "GetCardLogicValue (grp d r ! 0) = r" if "grp d r \<noteq> []"
    using nth_mem [of 0 "grp d r"] that by (simp add: grp_def)
  then show "grp d r \<noteq> [] \<Longrightarrow> value_of (grp d r) = r" "0 < k \<Longrightarrow> grp d r \<noteq> [] \<Longrightarrow> value_of (take k (grp d r)) = r"
    by (simp_all add: value_of_def)
qed

text \<open>Every number of a group stands for a value that occurs that many times.\<close>

lemma block_cases:
  assumes "i < 4" "j \<in> set (up i (grouped d))"
  obtains r where "block i j (grouped d) = grp d r" "cnt d r = i + 1" "value_of (block i j (grouped d)) = r"
    "r = ranks_with (i + 1) d ! j"
proof -
  let ?r = "ranks_with (i + 1) d ! j"
  have c: "cnt d ?r = i + 1" using block_grouped(2) [OF assms] by (simp add: ranks_with_def)
  then have "grp d ?r \<noteq> []" using length_grp [of d ?r] by auto
  then show ?thesis using that block_grouped(1) [OF assms] c value_of_grp(1) by metis
qed

lemma block_values_set:
  assumes "hand d" "i < 4"
  shows "set (map (\<lambda>j. value_of (block i j (grouped d))) (up i (grouped d))) = {r. cnt d r = i + 1}"
proof -
  have "value_of (block i j (grouped d)) = ranks_with (i + 1) d ! j" if "j \<in> set (up i (grouped d))" for j
    using block_cases [OF assms(2) that] by metis
  then have "map (\<lambda>j. value_of (block i j (grouped d))) (up i (grouped d)) = map (\<lambda>j. ranks_with (i + 1) d ! j) (up i (grouped d))"
    by simp
  also have "\<dots> = ranks_with (i + 1) d" using assms(2) by (simp add: up_def map_nth)
  finally show ?thesis using set_ranks_with [OF assms(1), of "i + 1"] by simp
qed

section \<open>All rows\<close>

definition row :: "(int \<Rightarrow> bool) \<Rightarrow> nat \<times> int \<Rightarrow> bool" where
  "row ex p \<longleftrightarrow> (\<forall>r. snd p - int (fst p) < r \<and> r \<le> snd p \<longrightarrow> ex r)"

lemma row_extend:
  assumes "l = 0 \<or> row ex (l, t) \<and> t = int (Suc n) + int l - 1" "ex (int n)"
  shows "row ex (Suc l, if l = 0 then int n else t)"
proof -
  have "ex r" if r: "(if l = 0 then int n else t) - int (Suc l) < r" "r \<le> (if l = 0 then int n else t)" for r
  proof (cases "r = int n")
    case False
    then have "row ex (l, t)" "t - int l < r" "r \<le> t" using assms(1) r by (auto split: if_splits)
    then show ?thesis by (simp add: row_def)
  qed (use assms(2) in simp)
  then show ?thesis by (simp add: row_def)
qed

lemma longest_sound:
  assumes "l = 0 \<or> row ex (l, t) \<and> t = int n + int l - 1" "p \<in> set (longest_loop ex mn n (l, t))" "0 < mn"
  shows "row ex p \<and> mn \<le> fst p \<and> snd p < int n + int l"
  using assms
proof (induction n arbitrary: l t)
  case (Suc n)
  show ?case
  proof (cases "ex (int n)")
    case True
    have "row ex (Suc l, if l = 0 then int n else t)"
      by (rule row_extend [OF Suc.prems(1) True])
    then show ?thesis using Suc.IH [of "Suc l" "if l = 0 then int n else t"] Suc.prems True by (auto split: if_splits)
  next
    case False
    then show ?thesis using Suc.IH [of 0 t] Suc.prems by (auto split: if_splits)
  qed
qed simp

lemma longest_complete:
  assumes "l = 0 \<or> row ex (l, t) \<and> t = int n + int l - 1" "\<not> ex 0" "0 < mn"
    "row ex (k, v)" "mn \<le> k" "v < int n + int l" "int k \<le> v + 1"
  shows "\<exists>p \<in> set (longest_loop ex mn n (l, t)). v \<le> snd p \<and> snd p - int (fst p) \<le> v - int k"
  using assms
proof (induction n arbitrary: l t)
  case 0
  have "ex 0" if "0 < l" using 0 that unfolding row_def by auto
  then show ?case using 0 by auto
next
  case (Suc n)
  show ?case
  proof (cases "ex (int n)")
    case True
    have "row ex (Suc l, if l = 0 then int n else t)"
      by (rule row_extend [OF Suc.prems(1) True])
    then show ?thesis using Suc.IH [of "Suc l" "if l = 0 then int n else t"] Suc.prems True by (auto split: if_splits)
  next
    case False
    have "\<not> (v - int k < int n \<and> int n \<le> v)" using Suc.prems(4) False unfolding row_def by auto
    then consider "v < int n" | "int n \<le> v - int k" by linarith
    then show ?thesis
    proof cases
      case 1
      then show ?thesis using Suc.IH [of 0 t] Suc.prems False by auto
    next
      case 2
      then have "mn \<le> l" "v \<le> t" "t - int l \<le> v - int k" using Suc.prems by auto
      then show ?thesis using False by auto
    qed
  qed
qed

lemma shorter_rows_mem: "(j, k) \<in> set (shorter_rows mn (l, v)) \<longleftrightarrow> mn \<le> j \<and> j < l \<and> v - int l + int j \<le> k \<and> k \<le> v"
  by (auto simp: shorter_rows_def intro!: bexI [of _ j])

lemma all_rows:
  assumes "\<And>r. ex r \<Longrightarrow> 0 < r \<and> r < 15" "0 < mn"
  defines "longest \<equiv> longest_loop ex mn 15 (0, 0)"
  shows "set (longest @ concat (map (shorter_rows mn) (rev longest))) = {p. mn \<le> fst p \<and> row ex p}"
proof (intro set_eqI iffI)
  fix p assume "p \<in> set (longest @ concat (map (shorter_rows mn) (rev longest)))"
  then consider "p \<in> set longest" | q where "q \<in> set longest" "p \<in> set (shorter_rows mn q)" by auto
  then show "p \<in> {p. mn \<le> fst p \<and> row ex p}"
  proof cases
    case 1
    then show ?thesis using longest_sound [of 0 ex 0 15 p mn] assms(2) unfolding longest_def by simp
  next
    case 2
    then have "row ex q" using longest_sound [of 0 ex 0 15 q mn] assms(2) unfolding longest_def by simp
    then show ?thesis using 2(2) by (cases p; cases q) (auto simp: row_def shorter_rows_mem)
  qed
next
  fix p assume "p \<in> {p. mn \<le> fst p \<and> row ex p}"
  then obtain k v where p: "p = (k, v)" "mn \<le> k" "row ex (k, v)" by (cases p) auto
  have "ex v" "ex (v - int k + 1)" using p(2,3) assms(2) by (auto simp: row_def)
  then have "v < 15" "int k \<le> v + 1" using assms(1) by fastforce+
  moreover have "\<not> ex 0" using assms(1) by fastforce
  ultimately obtain q where q: "q \<in> set longest" "v \<le> snd q" "snd q - int (fst q) \<le> v - int k"
    using longest_complete [of 0 ex 0 15 mn k v] p assms(2) unfolding longest_def by auto
  show "p \<in> set (longest @ concat (map (shorter_rows mn) (rev longest)))"
  proof (cases "fst q = k")
    case True
    then have "p = q" using q(2,3) p(1) by (cases q) simp
    then show ?thesis using q(1) by simp
  next
    case False
    then have "p \<in> set (shorter_rows mn q)" using q(2,3) p(1,2) by (cases q) (auto simp: shorter_rows_mem)
    then show ?thesis using q(1) by auto
  qed
qed

section \<open>The cards of a row\<close>

lemma dropWhile_groups:
  assumes "distinct rs" "j \<in> set rs" "grp d j \<noteq> []"
  shows "\<exists>rest. dropWhile (\<lambda>c. GetCardLogicValue c \<noteq> j) (concat (map (grp d) rs)) = grp d j @ rest"
  using assms(1,2)
proof (induction rs)
  case (Cons r rs)
  show ?case
  proof (cases "r = j")
    case True
    obtain c cs where g: "grp d j = c # cs" using assms(3) by (cases "grp d j") auto
    then have "c \<in> set (grp d j)" by simp
    then have "GetCardLogicValue c = j" by (simp add: grp_def)
    then show ?thesis using True g by simp
  next
    case False
    have "dropWhile (\<lambda>c. GetCardLogicValue c \<noteq> j) (grp d r @ concat (map (grp d) rs)) =
        dropWhile (\<lambda>c. GetCardLogicValue c \<noteq> j) (concat (map (grp d) rs))"
      using False by (intro dropWhile_append2) (auto simp: grp_def)
    then show ?thesis using Cons False by simp
  qed
qed simp

lemma fill_value_hand:
  assumes "hand d" "sorted_wrt card_ge d" "0 < k" "k \<le> cnt d j"
  shows "fill_value k d j = Inr (take k (grp d j))"
proof -
  have g: "grp d j \<noteq> []" using assms(3,4) length_grp [of d j] by auto
  have "j \<in> set ranks" using cnt_ranks [OF assms(1), of j] assms(3,4) by linarith
  then obtain rest where "dropWhile (\<lambda>c. GetCardLogicValue c \<noteq> j) (concat (map (grp d) ranks)) = grp d j @ rest"
    using dropWhile_groups [OF distinct_ranks _ g] by blast
  then have dw: "dropWhile (\<lambda>c. GetCardLogicValue c \<noteq> j) d = grp d j @ rest" using sorted_hand [OF assms(1,2)] by simp
  obtain c cs where "grp d j = c # cs" using g by (cases "grp d j") auto
  moreover have "k \<le> length (grp d j)" using assms(4) by (simp add: length_grp)
  ultimately show ?thesis unfolding fill_value_def dw by (cases k) simp_all
qed

lemma collectR_all: "(\<And>x. x \<in> set xs \<Longrightarrow> f x = Inr (g x)) \<Longrightarrow> collectR f xs = Inr (concat (map g xs))"
  by (induction xs) simp_all

definition row_picks :: "nat \<Rightarrow> nat \<times> int \<Rightarrow> (int \<times> nat) list" where
  "row_picks k p = map (\<lambda>r. (r, k)) (rev [snd p - int (fst p) + 1..snd p])"

lemma pickable_row: "row (\<lambda>r. r < 15 \<and> k \<le> cnt d r) p \<Longrightarrow> pickable d (row_picks k p)"
  by (auto simp: pickable_def row_picks_def row_def comp_def rev_map [symmetric])

lemma length_row: "pickable d (row_picks k p) \<Longrightarrow> length (pick d (row_picks k p)) = fst p * k"
  by (simp add: length_pick) (simp add: row_picks_def comp_def map_replicate_const sum_list_replicate)

lemma fill_row_hand:
  assumes d: "hand d" "sorted_wrt card_ge d" "length d \<le> 20" and k: "0 < k" and r: "row (\<lambda>r. r < 15 \<and> k \<le> cnt d r) (l, v)"
  shows "fill_row k t d (l, v) =
    Inr \<lparr>lk_cbLinkCount = l, lk_cbCardData = pick d (row_picks k (l, v)), lk_cbCardCount = l * k, lk_cbLogicValue = v, lk_cbCardType = t\<rparr>"
proof -
  let ?c = "pick d (row_picks k (l, v))"
  have "collectR (fill_value k d) (rev [v - int l + 1..v]) = Inr (concat (map (\<lambda>j. take k (grp d j)) (rev [v - int l + 1..v])))"
    by (rule collectR_all) (use fill_value_hand [OF d(1,2) k] r in \<open>auto simp: row_def\<close>)
  also have "concat (map (\<lambda>j. take k (grp d j)) (rev [v - int l + 1..v])) = ?c"
    by (simp add: pick_def row_picks_def comp_def)
  finally have fill: "collectR (fill_value k d) (rev [v - int l + 1..v]) = Inr ?c" .
  have p: "pickable d (row_picks k (l, v))" by (rule pickable_row [OF r])
  have "length ?c \<le> 20" using pick_mset_le [OF d(1), of "row_picks k (l, v)"] p d(3) by (simp add: pickable_def)
  then show ?thesis using length_row [OF p] by (simp add: fill_row_def fill room_def MAX_COUNT_def)
qed

lemma straight_row:
  assumes "row (\<lambda>r. r < 15 \<and> k \<le> cnt d r) (l, v)" "0 < l"
  shows "straight (pick d (row_picks k (l, v))) k l v"
proof -
  have "map_of (row_picks k (l, v)) r = (if v - int l < r \<and> r \<le> v then Some k else None)" for r
    unfolding row_picks_def by (auto simp: map_of_map_restrict restrict_map_def)
  moreover have "v < 15" using assms by (auto simp: row_def)
  ultimately show ?thesis by (simp add: straight_def cnt_pick [OF pickable_row [OF assms(1)]])
qed

section \<open>The search for rows\<close>

definition min_link :: "nat \<Rightarrow> nat" where
  "min_link k = (if k = 2 then 3 else if k = 3 then 2 else 5)"

definition line_type :: "nat \<Rightarrow> nat" where
  "line_type k = (if k = 2 then CT_DOUBLE_LINE else if k = 3 then CT_THREE_LINE else CT_SINGLE_LINE)"

definition link :: "card list \<Rightarrow> nat \<Rightarrow> nat \<times> int \<Rightarrow> tagLinkCard" where
  "link d k p = \<lparr>lk_cbLinkCount = fst p, lk_cbCardData = pick d (row_picks k p), lk_cbCardCount = fst p * k, lk_cbLogicValue = snd p,
     lk_cbCardType = line_type k\<rparr>"

lemma link_values:
  assumes "hand d" "k \<in> {1, 2, 3}"
  shows "v \<in> set (concat (map (\<lambda>i. map (\<lambda>j. value_of (block i j (grouped d))) (up i (grouped d))) [k - 1..<4])) \<longleftrightarrow> k \<le> cnt d v"
proof -
  have "v \<in> set (concat (map (\<lambda>i. map (\<lambda>j. value_of (block i j (grouped d))) (up i (grouped d))) [k - 1..<4])) \<longleftrightarrow>
      (\<exists>i. k - 1 \<le> i \<and> i < 4 \<and> cnt d v = i + 1)"
    using block_values_set [OF assms(1)] by auto
  also have "\<dots> \<longleftrightarrow> k \<le> cnt d v" using cnt_le_4 [OF assms(1), of v] assms(2) by (auto intro!: exI [of _ "cnt d v - 1"])
  finally show ?thesis .
qed

lemma SearchAllLink_hand:
  assumes d: "hand d" "sorted_wrt card_ge d" "length d \<le> 20" and k: "k \<in> {1, 2, 3}"
  shows "\<exists>ps. SearchAllLink d k = Inr (map (link d k) ps) \<and> set ps = {p. min_link k \<le> fst p \<and> row (\<lambda>r. r < 15 \<and> k \<le> cnt d r) p} \<and>
    sorted (map (\<lambda>p. fst p * k) ps)"
proof -
  let ?ex = "\<lambda>r. r < 15 \<and> k \<le> cnt d r"
  define longest where "longest = longest_loop ?ex (min_link k) 15 (0, 0)"
  define rows where "rows = longest @ concat (map (shorter_rows (min_link k)) (rev longest))"
  define ps where "ps = sort_key (\<lambda>(l, v). l * k) (sort_key snd rows)"
  have ex: "0 < r \<and> r < 15" if "?ex r" for r
    using that k cnt_ranks [OF d(1), of r] by (auto simp: set_ranks)
  have rows: "set rows = {p. min_link k \<le> fst p \<and> row ?ex p}"
    unfolding rows_def longest_def by (rule all_rows [OF ex]) (auto simp: min_link_def)
  have r: "AnalysebCardData d = Inr (grouped d)" using AnalysebCardData_sorted d by simp
  have bex: "(\<lambda>v. v < 15 \<and> v \<in> set (concat (map (\<lambda>i. map (\<lambda>j. value_of (block i j (grouped d))) (up i (grouped d))) [k - 1..<4]))) = ?ex"
    unfolding link_values [OF d(1) k] ..
  have pair: "(if k = 2 then (3, CT_DOUBLE_LINE) else if k = 3 then (2, CT_THREE_LINE) else (5, CT_SINGLE_LINE)) = (min_link k, line_type k)"
    by (simp add: min_link_def line_type_def)
  have run: "SearchAllLink d k = collectR (\<lambda>row. one (fill_row k (line_type k) d row)) ps"
    unfolding SearchAllLink_def r bindR_Inr pair Let_def prod.case bex
    unfolding longest_def [symmetric] rows_def [symmetric] ps_def [symmetric] using k by (auto simp: c_assert_def)
  have set: "set ps = {p. min_link k \<le> fst p \<and> row ?ex p}" using rows by (simp add: ps_def)
  have fill: "one (fill_row k (line_type k) d p) = Inr [link d k p]" if "p \<in> set ps" for p
    using that k fill_row_hand [OF d, of k "fst p" "snd p" "line_type k"] by (auto simp: set one_def link_def)
  have "SearchAllLink d k = Inr (map (link d k) ps)"
    unfolding run using collectR_all [OF fill, of ps] by (simp add: comp_def)
  moreover have "sorted (map (\<lambda>p. fst p * k) ps)"
    unfolding ps_def case_prod_beta by (rule sorted_sort_key)
  ultimately show ?thesis using set by blast
qed

text \<open>
  C34. The rows of a hand: \<^verbatim>\<open>SearchAllLink\<close> lists, the shorter ones first, exactly the rows of at
  least five single cards, three pairs or two triplets that the hand contains, each with cards
  of the hand that form it.
\<close>

theorem all_links:
  assumes "hand d" "sorted_wrt card_ge d" "length d \<le> 20" "k \<in> {1, 2, 3}"
  shows "\<exists>ls. SearchAllLink d k = Inr ls \<and> sorted (map lk_cbCardCount ls) \<and>
    (\<forall>l \<in> set ls. straight (lk_cbCardData l) k (lk_cbLinkCount l) (lk_cbLogicValue l) \<and>
       distinct (lk_cbCardData l) \<and> set (lk_cbCardData l) \<subseteq> set d \<and> length (lk_cbCardData l) = lk_cbCardCount l) \<and>
    (\<forall>m v. (\<exists>l \<in> set ls. lk_cbLinkCount l = m \<and> lk_cbLogicValue l = v) \<longleftrightarrow>
       (if k = 1 then 5 else if k = 2 then 3 else 2) \<le> m \<and> v \<le> 14 \<and> (\<forall>r. v - int m < r \<and> r \<le> v \<longrightarrow> k \<le> cnt d r))"
proof -
  let ?ex = "\<lambda>r. r < 15 \<and> k \<le> cnt d r"
  obtain ps where ps: "SearchAllLink d k = Inr (map (link d k) ps)" "set ps = {p. min_link k \<le> fst p \<and> row ?ex p}"
    "sorted (map (\<lambda>p. fst p * k) ps)"
    using SearchAllLink_hand [OF assms] by blast
  have mn: "min_link k = (if k = 1 then 5 else if k = 2 then 3 else 2)" "0 < min_link k" using assms(4) by (auto simp: min_link_def)
  have each: "straight (lk_cbCardData (link d k p)) k (fst p) (snd p) \<and> distinct (pick d (row_picks k p)) \<and>
      set (pick d (row_picks k p)) \<subseteq> set d \<and> length (pick d (row_picks k p)) = fst p * k" if "p \<in> set ps" for p
  proof -
    have p: "min_link k \<le> fst p" "row ?ex (fst p, snd p)" using that ps(2) by simp_all
    then have "pickable d (row_picks k p)" using pickable_row by simp
    then show ?thesis
      using straight_row [OF p(2)] p(1) mn(2) hand_pick [OF assms(1), of "row_picks k p"] length_row [of d k p] set_pick [of _ d "row_picks k p"]
      by (auto simp: link_def hand_def pickable_def)
  qed
  have "(\<exists>l \<in> set (map (link d k) ps). lk_cbLinkCount l = m \<and> lk_cbLogicValue l = v) \<longleftrightarrow> (m, v) \<in> set ps" for m v
    by (force simp: link_def)
  moreover have "(m, v) \<in> set ps \<longleftrightarrow> min_link k \<le> m \<and> v \<le> 14 \<and> (\<forall>r. v - int m < r \<and> r \<le> v \<longrightarrow> k \<le> cnt d r)" for m v
    using mn(2) unfolding ps(2) by (auto simp: row_def dest: spec [of _ v])
  ultimately show ?thesis unfolding mn(1) [symmetric]
    by (intro exI [of _ "map (link d k) ps"] conjI) (use ps each in \<open>auto simp: link_def comp_def\<close>)
qed

text \<open>Six values in a row contain three rows of single cards.\<close>

theorem all_links_witness:
  "\<exists>ls. SearchAllLink [0x0A, 0x19, 0x09, 0x08, 0x27, 0x06, 0x05] 1 = Inr ls \<and>
     (\<exists>l \<in> set ls. lk_cbLinkCount l = 6 \<and> lk_cbLogicValue l = 10) \<and> \<not> (\<exists>l \<in> set ls. lk_cbLinkCount l = 4 \<and> lk_cbLogicValue l = 10)"
proof -
  let ?d = "[0x0A, 0x19, 0x09, 0x08, 0x27, 0x06, 0x05] :: card list"
  have "list_all (\<lambda>c. c \<in> set m_cbCardData) ?d \<and> distinct ?d \<and> sorted_wrt card_ge ?d" by code_simp
  then have d: "hand ?d" "sorted_wrt card_ge ?d" by (auto simp: hand_def list_all_iff)
  have "list_all (\<lambda>r. 1 \<le> cnt ?d r) [5, 6, 7, 8, 9, 10]" by code_simp
  moreover have "r \<in> set [5, 6, 7, 8, 9, 10]" if "10 - int 6 < r" "r \<le> 10" for r :: int using that by simp presburger
  ultimately have row: "\<forall>r. 10 - int 6 < r \<and> r \<le> 10 \<longrightarrow> 1 \<le> cnt ?d r" unfolding list_all_iff by blast
  obtain ls where ls: "SearchAllLink ?d 1 = Inr ls"
    "\<forall>m v. (\<exists>l \<in> set ls. lk_cbLinkCount l = m \<and> lk_cbLogicValue l = v) \<longleftrightarrow>
       (5::nat) \<le> m \<and> v \<le> 14 \<and> (\<forall>r. v - int m < r \<and> r \<le> v \<longrightarrow> 1 \<le> cnt ?d r)"
    using all_links [OF d, of 1] by auto
  have "(5::nat) \<le> 6" "(10::int) \<le> 14" "\<not> (5::nat) \<le> 4" by simp_all
  then show ?thesis using ls(1) ls(2) [rule_format, of 6 10] ls(2) [rule_format, of 4 10] row by blast
qed

end
