(* ===== verification/Land_Carry.thy ===== *)
theory Land_Carry
  imports Land_Rows
begin

text \<open>
  Plays put together from the groups of a hand: groups of equal cards, rows, and triplets with
  the cards they carry.  They are plays of the game.
\<close>

section \<open>Results of loops\<close>

definition yields :: "'a list res \<Rightarrow> ('a \<Rightarrow> bool) \<Rightarrow> bool" where
  "yields m P \<longleftrightarrow> (\<exists>xs. m = Inr xs \<and> (\<forall>x \<in> set xs. P x))"

lemma yields_Nil [simp]: "yields (Inr []) P"
  by (simp add: yields_def)

lemma yields_one: "m = Inr x \<Longrightarrow> P x \<Longrightarrow> yields (one m) P"
  by (simp add: yields_def one_def)

lemma yields_append: "yields m P \<Longrightarrow> yields n P \<Longrightarrow> yields (bindR m (\<lambda>xs. bindR n (\<lambda>ys. Inr (xs @ ys)))) P"
  by (auto simp: yields_def)

lemma yields_if: "(b \<Longrightarrow> yields m P) \<Longrightarrow> (\<not> b \<Longrightarrow> yields n P) \<Longrightarrow> yields (if b then m else n) P"
  by simp

lemma yields_collect: "(\<And>x. x \<in> set xs \<Longrightarrow> yields (f x) P) \<Longrightarrow> yields (collectR f xs) P"
proof (induction xs)
  case (Cons x xs)
  then have "yields (f x) P" "yields (collectR f xs) P" by simp_all
  from yields_append [OF this] show ?case by simp
qed simp

lemma yields_first:
  "(\<And>x. x \<in> set xs \<Longrightarrow> \<exists>y. f x = Inr y \<and> (\<forall>z. y = Some z \<longrightarrow> P z)) \<Longrightarrow> yields (firstR f xs) P"
proof (induction xs)
  case (Cons x xs)
  then obtain y where y: "f x = Inr y" "\<forall>z. y = Some z \<longrightarrow> P z" by fastforce
  have "yields (firstR f xs) P" using Cons by simp
  then show ?case using y by (cases y) (auto simp: yields_def)
qed simp

section \<open>Plays made of chosen cards\<close>

lemma plays_mset: "mset a = mset b \<Longrightarrow> plays rule a t v = plays rule b t v"
  using cnt_mset [of a b] mset_eq_length [of a b] mset_eq_setD [of a b]
  unfolding plays_def straight_def wings_def run_of_def pairs_def by presburger

definition chosen :: "card list \<Rightarrow> card list \<Rightarrow> bool" where
  "chosen d c \<longleftrightarrow> hand c \<and> set c \<subseteq> set d"

lemma chosen_mset: "chosen d c \<Longrightarrow> mset e = mset c \<Longrightarrow> chosen d e"
  using hand_mset [of c e] mset_eq_setD [of e c] by (simp add: chosen_def)

lemma chosen_length: "hand d \<Longrightarrow> chosen d c \<Longrightarrow> length c \<le> length d"
  using hand_length [of d c] by (simp add: chosen_def hand_def)

lemma chosen_pick: "hand d \<Longrightarrow> distinct (map fst ps) \<Longrightarrow> chosen d (pick d ps)"
  using hand_pick set_pick by (auto simp: chosen_def)

lemma chosen_append:
  "chosen d a \<Longrightarrow> chosen d b \<Longrightarrow> (\<And>x. x \<in> set a \<Longrightarrow> x \<notin> set b) \<Longrightarrow> chosen d (a @ b)"
  by (auto simp: chosen_def hand_def)

lemma no_jokers:
  assumes "hand c" "cnt c 16 = 0 \<or> cnt c 17 = 0"
  shows "\<not> (2 < length c \<and> 0x41 \<in> set c \<and> 0x42 \<in> set c)"
  using cnt_jokers [OF assms(1)] assms(2) by auto

definition same_type :: "nat \<Rightarrow> nat" where
  "same_type k = (if k = 1 then CT_SINGLE else if k = 2 then CT_DOUBLE else if k = 3 then CT_THREE else CT_BOMB_CARD)"

lemma plays_group:
  assumes d: "hand d" and k: "k \<in> {1, 2, 3, 4}" "k \<le> cnt d v"
  shows "chosen d (take k (grp d v)) \<and> plays rule (take k (grp d v)) (same_type k) v \<and> length (take k (grp d v)) = k"
proof -
  let ?c = "take k (grp d v)"
  have c: "cnt ?c x = (if x = v then k else 0)" for x by (rule cnt_take_grp [OF k(2)])
  have "?c = pick d [(v, k)]" by simp
  then have h: "chosen d ?c" using chosen_pick [OF d, of "[(v, k)]"] by simp
  moreover have len: "length ?c = k" using k(2) by (simp add: length_grp)
  moreover have "cnt ?c 16 = 0 \<or> cnt ?c 17 = 0" unfolding c by simp
  note no_jokers [OF _ this]
  ultimately show ?thesis
    using k(1) c unfolding plays_def same_type_def CT_defs chosen_def by auto
qed

lemma value_take_grp: "0 < k \<Longrightarrow> k \<le> cnt d v \<Longrightarrow> value_of (take k (grp d v)) = v"
  using value_of_grp(2) [of k d v] length_grp [of d v] by (cases "grp d v") auto

lemma sorted_out_ok:
  assumes "length c \<le> 20"
  obtains e where "sorted_out c t v = Inr \<lparr>oc_cbCardData = e, oc_cbCardType = t, oc_cbLogicValue = v\<rparr>" "mset e = mset c" "sorted_wrt card_ge e"
proof -
  obtain e where e: "SortCardList c ST_ORDER = Inr e" "mset e = mset c" "sorted_wrt card_ge e"
    using SortCardList_order [of c] assms by (auto simp: FULL_COUNT_def)
  then show ?thesis using that assms mset_eq_length [OF e(2)] by (simp add: sorted_out_def out_card_def room_def MAX_COUNT_def)
qed

lemma out_card_ok: "length c \<le> 20 \<Longrightarrow> out_card c t v = Inr \<lparr>oc_cbCardData = c, oc_cbCardType = t, oc_cbLogicValue = v\<rparr>"
  by (simp add: out_card_def room_def MAX_COUNT_def)

lemma room_ok: "length c \<le> 20 \<Longrightarrow> room c = Inr c"
  by (simp add: room_def MAX_COUNT_def)

section \<open>Triplets that carry cards\<close>

text \<open>\<open>m\<close> triplets in a row up to \<open>v\<close>; a single triplet may be of any value.\<close>

definition triplets :: "card list \<Rightarrow> nat \<Rightarrow> int \<Rightarrow> bool" where
  "triplets d m v \<longleftrightarrow> 0 < m \<and> (\<forall>r. in_row v m r \<longrightarrow> 3 \<le> cnt d r) \<and> (m = 1 \<or> v \<le> 14)"

lemma triplets_pick:
  assumes "hand d" "triplets d m v"
  shows "chosen d (pick d (row_picks 3 (m, v)))" "cnt (pick d (row_picks 3 (m, v))) r = (if in_row v m r then 3 else 0)"
    "length (pick d (row_picks 3 (m, v))) = 3 * m" "value_of (pick d (row_picks 3 (m, v))) = v"
proof -
  let ?ps = "row_picks 3 (m, v)"
  have p: "pickable d ?ps" using assms(2) by (auto simp: pickable_def row_picks_def triplets_def in_row_def comp_def rev_map [symmetric])
  then show "chosen d (pick d ?ps)" using chosen_pick [OF assms(1)] by (simp add: pickable_def)
  have "map_of ?ps r = (if in_row v m r then Some 3 else None)"
    unfolding row_picks_def by (auto simp: map_of_map_restrict restrict_map_def in_row_def)
  then show "cnt (pick d ?ps) r = (if in_row v m r then 3 else 0)" by (simp add: cnt_pick [OF p])
  show "length (pick d ?ps) = 3 * m" using length_row [OF p] by simp
  have "[v - int m + 1..v] = [v - int m + 1..v - 1] @ [v]" using assms(2) by (simp add: upto_rec2 triplets_def)
  then have "pick d ?ps = take 3 (grp d v) @ pick d (row_picks 3 (m - 1, v - 1))"
    using assms(2) by (simp add: row_picks_def triplets_def of_nat_diff)
  moreover have "3 \<le> cnt d v" using assms(2) by (auto simp: triplets_def in_row_def)
  then have "value_of (take 3 (grp d v)) = v" "take 3 (grp d v) \<noteq> []" using value_take_grp [of 3 d v] length_grp [of d v] by auto
  ultimately show "value_of (pick d ?ps) = v" by (simp add: value_of_def nth_append)
qed

text \<open>The row ends where the triplets end.\<close>

definition edges :: "card list \<Rightarrow> nat \<Rightarrow> int \<Rightarrow> bool" where
  "edges s m v \<longleftrightarrow> (\<forall>r. cnt s r \<le> 3) \<and> (2 \<le> m \<longrightarrow> (v = 14 \<or> cnt s (v + 1) \<noteq> 3) \<and> cnt s (v - int m) \<noteq> 3)"

lemma wings_carried:
  assumes d: "hand d" and t: "triplets d m v" and s: "chosen d s" "\<forall>c \<in> set s. \<not> in_row v m (GetCardLogicValue c)" "edges s m v"
  defines "c \<equiv> pick d (row_picks 3 (m, v)) @ s"
  shows "chosen d c \<and> wings c m v \<and> length c = 3 * m + length s \<and> (\<forall>r. cnt c r = (if in_row v m r then 3 else cnt s r))"
proof -
  let ?l = "pick d (row_picks 3 (m, v))"
  note l = triplets_pick [OF d t]
  have zero: "cnt s r = 0" if "in_row v m r" for r
    unfolding cnt_def length_0_conv filter_empty_conv using s(2) that by auto
  have cnt: "cnt c r = (if in_row v m r then 3 else cnt s r)" for r using zero [of r] by (simp add: c_def l(2))
  have "chosen d c"
    unfolding c_def
  proof (rule chosen_append [OF l(1) s(1)])
    fix x assume x: "x \<in> set ?l"
    have "GetCardLogicValue x \<in> fst ` set (row_picks 3 (m, v))" using set_pick [OF x] by simp
    then have "in_row v m (GetCardLogicValue x)" by (auto simp: row_picks_def in_row_def)
    then show "x \<notin> set s" using s(2) by blast
  qed
  moreover have "cnt s r \<noteq> 4" for r using s(3) [unfolded edges_def, THEN conjunct1, rule_format, of r] by linarith
  then have "cnt c r \<noteq> 4" for r unfolding cnt by simp
  then have "wings c m v"
    using t s(3) cnt unfolding wings_def triplets_def edges_def run_of_def by (auto simp: in_row_def)
  ultimately show ?thesis using cnt l(3) by (simp add: c_def)
qed

lemma plane_ones:
  assumes "hand d" "triplets d m v" "chosen d s" "\<forall>c \<in> set s. \<not> in_row v m (GetCardLogicValue c)" "edges s m v" "length s = m"
    and j: "\<not> (2 < length c \<and> 0x41 \<in> set c \<and> 0x42 \<in> set c)" and c: "c = pick d (row_picks 3 (m, v)) @ s"
  shows "chosen d c \<and> plays rule c CT_THREE_TAKE_ONE v \<and> length c = 4 * m"
  using wings_carried [OF assms(1-5)] j assms(6) unfolding c [symmetric] plays_def CT_defs by auto

lemma plane_twos:
  assumes d: "hand d" and t: "triplets d m v" and rs: "distinct rs" "\<forall>r \<in> set rs. 2 \<le> cnt d r \<and> \<not> in_row v m r" "length rs = m"
    and rule: "IsValidType rule CT_THREE_TAKE_TWO 0" and c: "c = pick d (row_picks 3 (m, v)) @ pick d (map (\<lambda>r. (r, 2)) rs)"
  shows "chosen d c \<and> plays rule c CT_THREE_TAKE_TWO v \<and> length c = 5 * m"
proof -
  let ?s = "pick d (map (\<lambda>r. (r, 2)) rs)"
  have p: "pickable d (map (\<lambda>r. (r, 2)) rs)" using rs by (auto simp: pickable_def comp_def)
  have cs: "cnt ?s r = (if r \<in> set rs then 2 else 0)" for r
    by (simp add: cnt_pick [OF p] map_of_map_restrict restrict_map_def)
  have ch: "chosen d ?s" using chosen_pick [OF d] p by (simp add: pickable_def)
  have out: "\<forall>c \<in> set ?s. \<not> in_row v m (GetCardLogicValue c)" using set_pick rs(2) by fastforce
  have e: "edges ?s m v" by (simp add: edges_def cs)
  have ls: "length ?s = 2 * m" using length_pick [OF p] rs(3) by (simp add: comp_def sum_list_triv)
  note w = wings_carried [OF d t ch out e, folded c]
  have cnt: "cnt c r = (if in_row v m r then 3 else if r \<in> set rs then 2 else 0)" for r using w cs by simp
  have "{r. cnt c r = 2} = set rs" using rs(2) by (auto simp: cnt)
  then have "pairs c = m" using rs(1,3) by (simp add: pairs_def distinct_card)
  moreover have "cnt c 16 \<noteq> 2 \<and> cnt c 16 \<noteq> 3" using cnt_jokers(4) [of c] w by (auto simp: chosen_def)
  then have "cnt c 16 = 0" using cnt [of 16] by (auto split: if_splits)
  then have "\<not> (2 < length c \<and> 0x41 \<in> set c \<and> 0x42 \<in> set c)" using w no_jokers by (simp add: chosen_def)
  ultimately show ?thesis using w ls rule unfolding plays_def CT_defs by auto
qed

section \<open>The cards that may be carried\<close>

lemma blocks_up: "i < 4 \<Longrightarrow> map (\<lambda>m. F (block i m (grouped d))) (up i (grouped d)) = map (\<lambda>r. F (grp d r)) (ranks_with (i + 1) d)"
proof -
  assume i: "i < 4"
  have "map (\<lambda>m. F (block i m (grouped d))) (up i (grouped d)) = map (\<lambda>m. F (grp d (ranks_with (i + 1) d ! m))) (up i (grouped d))"
    using block_grouped(1) [OF i] by simp
  also have "\<dots> = map (\<lambda>r. F (grp d r)) (map (\<lambda>m. ranks_with (i + 1) d ! m) [0..<length (ranks_with (i + 1) d)])"
    using i by (simp add: up_def)
  finally show ?thesis by (simp only: map_nth)
qed

lemma blocks_down: "i < 4 \<Longrightarrow> map (\<lambda>m. F (block i m (grouped d))) (down i (grouped d)) = map (\<lambda>r. F (grp d r)) (rev (ranks_with (i + 1) d))"
  unfolding down_def rev_map [symmetric] by (simp add: blocks_up)

lemma ranks_with_value: "r \<in> set (ranks_with (i + 1) d) \<Longrightarrow> cnt d r = i + 1 \<and> value_of (grp d r) = r \<and> length (grp d r) = i + 1 \<and> 3 \<le> r"
  using value_of_grp(1) [of d r] length_grp [of d r] by (cases "grp d r") (auto simp: ranks_with_def set_ranks)

lemma concat_filter: "concat (map (\<lambda>r. if P r then [] else g r) rs) = concat (map g (filter (\<lambda>r. \<not> P r) rs))"
  by (induction rs) auto

lemma concat_take_pick:
  assumes "\<And>r. r \<in> set rs \<Longrightarrow> g r = (if P r then [] else take (f r) (grp d r))"
  shows "concat (map g rs) = pick d (map (\<lambda>r. (r, f r)) (filter (\<lambda>r. \<not> P r) rs))"
  using assms by (induction rs) auto

lemma concat_take_picks:
  assumes "\<And>k. k \<in> set ks \<Longrightarrow> h k = pick d (map p (filter Q (rs k)))"
  shows "concat (map h ks) = pick d (map p (filter Q (concat (map rs ks))))"
  using assms by (induction ks) simp_all

lemma plane_pairs_pick:
  assumes "set ks \<subseteq> {1, 2, 3}"
  shows "plane_pairs ks (grouped d) v l =
    pick d (map (\<lambda>r. (r, 2)) (filter (\<lambda>r. \<not> in_row v l r) (concat (map (\<lambda>k. ranks_with (k + 1) d) ks))))"
  unfolding plane_pairs_def
proof (rule concat_take_picks)
  fix k assume "k \<in> set ks"
  then have k: "k < 4" using assms by auto
  show "concat (map (\<lambda>m. if in_row v l (value_of (block k m (grouped d))) then [] else take 2 (block k m (grouped d))) (up k (grouped d))) =
      pick d (map (\<lambda>r. (r, 2)) (filter (\<lambda>r. \<not> in_row v l r) (ranks_with (k + 1) d)))"
    unfolding blocks_up [OF k, of "\<lambda>b. if in_row v l (value_of b) then [] else take 2 b"]
    by (rule concat_take_pick) (use ranks_with_value in auto)
qed

lemma lead_singles_pick:
  "lead_singles (grouped d) v l = pick d (map (\<lambda>r. (r, 1)) (filter (\<lambda>r. \<not> in_row v l r) (rev (ranks_with 1 d))))"
proof -
  have "lead_singles (grouped d) v l = concat (map (\<lambda>r. if in_row v l (value_of (grp d r)) then [] else [grp d r ! 0]) (rev (ranks_with 1 d)))"
    unfolding lead_singles_def using blocks_down [of 0 "\<lambda>b. if in_row v l (value_of b) then [] else [b ! 0]" d] by simp
  also have "\<dots> = pick d (map (\<lambda>r. (r, 1)) (filter (\<lambda>r. \<not> in_row v l r) (rev (ranks_with 1 d))))"
  proof (rule concat_take_pick)
    fix r assume "r \<in> set (rev (ranks_with 1 d))"
    then have "value_of (grp d r) = r" "length (grp d r) = 1" using ranks_with_value [of r 0 d] by simp_all
    then show "(if in_row v l (value_of (grp d r)) then [] else [grp d r ! 0]) = (if in_row v l r then [] else take 1 (grp d r))"
      by (cases "grp d r") auto
  qed
  finally show ?thesis .
qed

definition single_count :: "card list \<Rightarrow> int \<Rightarrow> nat \<Rightarrow> int \<Rightarrow> nat" where
  "single_count d v l r = (if cnt d r = 3 \<and> r < 0x0F \<and> (r = v + 1 \<or> r = v - int l) then 2 else cnt d r)"

lemma nths_taken:
  assumes "k \<in> {0, 1, 2}" "length b = k + 1"
  shows "map (\<lambda>n. b ! n) (filter (\<lambda>n. \<not> (n \<ge> 2 \<and> Q)) [0..<k + 1]) = (if k = 2 \<and> Q then take 2 b else take (k + 1) b)"
proof -
  have u: "[0..<Suc 0] = [0]" "[0..<2] = [0, 1]" "[0..<3] = [0, 1, 2]" by (simp_all add: upt_rec)
  consider x where "k = 0" "b = [x]" | x y where "k = 1" "b = [x, y]" | x y z where "k = 2" "b = [x, y, z]"
    using assms by (auto simp: length_Suc_conv eval_nat_numeral)
  then show ?thesis by cases (simp_all add: u)
qed

lemma plane_singles_pick:
  "plane_singles (grouped d) v l =
     pick d (map (\<lambda>r. (r, single_count d v l r)) (filter (\<lambda>r. \<not> in_row v l r) (concat (map (\<lambda>k. rev (ranks_with (k + 1) d)) [0, 1, 2]))))"
  unfolding plane_singles_def Let_def
proof (rule concat_take_picks)
  fix k :: nat assume "k \<in> set [0, 1, 2]"
  then have k: "k < 4" "k \<in> {0, 1, 2}" by auto
  let ?F = "\<lambda>b. if in_row v l (value_of b) then [] else if value_of b = 0 then []
    else map (\<lambda>n. b ! n) (filter (\<lambda>n. \<not> (n \<ge> 2 \<and> value_of b < 0x0F \<and> (value_of b = v + 1 \<or> value_of b = v - int l))) [0..<k + 1])"
  have "concat (map (\<lambda>r. ?F (grp d r)) (rev (ranks_with (k + 1) d))) =
      pick d (map (\<lambda>r. (r, single_count d v l r)) (filter (\<lambda>r. \<not> in_row v l r) (rev (ranks_with (k + 1) d))))"
  proof (rule concat_take_pick)
    fix r assume "r \<in> set (rev (ranks_with (k + 1) d))"
    then have r: "cnt d r = k + 1" "value_of (grp d r) = r" "length (grp d r) = k + 1" "r \<noteq> 0" using ranks_with_value [of r k d] by auto
    show "?F (grp d r) = (if in_row v l r then [] else take (single_count d v l r) (grp d r))"
      unfolding r(2) nths_taken [OF k(2) r(3)] using r k(2) by (auto simp: single_count_def)
  qed
  then show "concat (map (\<lambda>m. ?F (block k m (grouped d))) (down k (grouped d))) =
      pick d (map (\<lambda>r. (r, single_count d v l r)) (filter (\<lambda>r. \<not> in_row v l r) (rev (ranks_with (k + 1) d))))"
    using blocks_down [OF k(1), of ?F d] by simp
qed

lemma distinct_ranks_with [simp]: "distinct (ranks_with k d)"
  by (simp add: ranks_with_def)

lemma distinct_rank_lists:
  assumes "distinct ks" "\<And>k. k \<in> set ks \<Longrightarrow> distinct (rs k) \<and> set (rs k) \<subseteq> set (ranks_with (k + 1) d)"
  shows "distinct (concat (map rs ks))"
  using assms
proof (induction ks)
  case (Cons k ks)
  have "set (rs k) \<inter> set (rs j) = {}" if "j \<in> set ks" for j
  proof -
    have "set (rs k) \<subseteq> set (ranks_with (k + 1) d)" "set (rs j) \<subseteq> set (ranks_with (j + 1) d)" "j \<noteq> k"
      using Cons.prems that by auto
    then show ?thesis unfolding ranks_with_def by fastforce
  qed
  then show ?case using Cons by auto
qed simp

section \<open>Rows, and one triplet with a card or a pair\<close>

lemma plays_link:
  assumes d: "hand d" and k: "k \<in> {1, 2, 3}" and p: "min_link k \<le> fst p" "row (\<lambda>r. r < 15 \<and> k \<le> cnt d r) p"
  shows "chosen d (pick d (row_picks k p)) \<and> plays rule (pick d (row_picks k p)) (line_type k) (snd p) \<and> length (pick d (row_picks k p)) = fst p * k"
proof -
  let ?c = "pick d (row_picks k p)"
  have pk: "pickable d (row_picks k p)" by (rule pickable_row [OF p(2)])
  have ch: "chosen d ?c" using chosen_pick [OF d] pk by (simp add: pickable_def)
  have "0 < fst p" using p(1) by (auto simp: min_link_def split: if_splits)
  then have st: "straight ?c k (fst p) (snd p)" using straight_row [of k d "fst p" "snd p"] p(2) by simp
  then have "cnt ?c 16 = 0" by (auto simp: straight_def)
  then have "\<not> (2 < length ?c \<and> 0x41 \<in> set ?c \<and> 0x42 \<in> set ?c)" using no_jokers ch by (simp add: chosen_def)
  then have "plays rule ?c (line_type k) (snd p)"
    using st p(1) k unfolding plays_def line_type_def min_link_def CT_defs by auto
  then show ?thesis using ch length_row [OF pk] by simp
qed

lemma one_triplet: "3 \<le> cnt d r \<Longrightarrow> triplets d 1 r \<and> pick d (row_picks 3 (1, r)) = take 3 (grp d r)"
proof -
  assume "3 \<le> cnt d r"
  moreover have "x = r" if "in_row r 1 x" for x using that by (simp add: in_row_def)
  ultimately show ?thesis by (auto simp: triplets_def row_picks_def)
qed

lemma three_card:
  assumes d: "hand d" and r: "3 \<le> cnt d r" and x: "x \<in> set d" "GetCardLogicValue x \<noteq> r"
  defines "c \<equiv> take 3 (grp d r) @ [x]"
  shows "chosen d c \<and> plays rule c CT_THREE_TAKE_ONE r \<and> length c = 4"
proof -
  note t = one_triplet [OF r]
  have cs: "cnt [x] y \<le> 1" for y by simp
  have cr: "cnt (take 3 (grp d r)) y = (if y = r then 3 else 0)" for y by (rule cnt_take_grp [OF r])
  have ch: "chosen d [x]" using d x(1) by (auto simp: chosen_def hand_def)
  have out: "\<forall>y \<in> set [x]. \<not> in_row r 1 (GetCardLogicValue y)" using x(2) by (simp add: in_row_def)
  have e: "edges [x] 1 r" by (simp add: edges_def)
  have c: "c = pick d (row_picks 3 (1, r)) @ [x]" using t by (simp add: c_def)
  have "r \<noteq> 16 \<and> r \<noteq> 17" using cnt_jokers(3,4) [OF d] r by auto
  then have "cnt c 16 = 0 \<or> cnt c 17 = 0" unfolding c_def cnt_simps(3) cr by simp
  moreover have "hand c" using wings_carried [OF d conjunct1 [OF t] ch out e] unfolding c by (simp add: chosen_def)
  ultimately have j: "\<not> (2 < length c \<and> 0x41 \<in> set c \<and> 0x42 \<in> set c)" by (intro no_jokers)
  show ?thesis using plane_ones [OF d conjunct1 [OF t] ch out e _ j c] by simp
qed

lemma three_one:
  assumes d: "hand d" and r: "3 \<le> cnt d r" and w: "1 \<le> cnt d w" "w \<noteq> r"
  shows "chosen d (take 3 (grp d r) @ take 1 (grp d w)) \<and> plays rule (take 3 (grp d r) @ take 1 (grp d w)) CT_THREE_TAKE_ONE r \<and>
    length (take 3 (grp d r) @ take 1 (grp d w)) = 4"
proof -
  obtain x xs where x: "grp d w = x # xs" using w(1) length_grp [of d w] by (cases "grp d w") auto
  then have "x \<in> set (grp d w)" by simp
  then have "x \<in> set d" "GetCardLogicValue x \<noteq> r" using w(2) by (auto simp: grp_def)
  from three_card [OF d r this] show ?thesis by (simp add: x)
qed

lemma three_pair:
  assumes d: "hand d" and r: "3 \<le> cnt d r" and x: "x \<in> set d" "y \<in> set d" "x \<noteq> y" "GetCardLogicValue x = w" "GetCardLogicValue y = w" "w \<noteq> r"
    and rule: "IsValidType rule CT_THREE_TAKE_TWO 0"
  defines "c \<equiv> take 3 (grp d r) @ [x, y]"
  shows "chosen d c \<and> plays rule c CT_THREE_TAKE_TWO r \<and> length c = 5"
proof -
  note t = one_triplet [OF r]
  have ch: "chosen d [x, y]" using d x(1-3) by (auto simp: chosen_def hand_def)
  have out: "\<forall>z \<in> set [x, y]. \<not> in_row r 1 (GetCardLogicValue z)" using x(4-6) by (simp add: in_row_def)
  have e: "edges [x, y] 1 r" by (simp add: edges_def)
  have c: "c = pick d (row_picks 3 (1, r)) @ [x, y]" using t by (simp add: c_def)
  note w = wings_carried [OF d conjunct1 [OF t] ch out e, folded c]
  have cnt: "cnt c z = (if z = r then 3 else if z = w then 2 else 0)" for z
    using cnt_take_grp [OF r, of z] x(4-6) by (simp add: c_def)
  have "{z. cnt c z = 2} = {w}" using x(6) by (auto simp: cnt)
  then have "pairs c = 1" by (simp add: pairs_def)
  moreover have "cnt c 16 = 0" using cnt_jokers(4) [of c] w cnt [of 16] by (auto simp: chosen_def split: if_splits)
  then have "\<not> (2 < length c \<and> 0x41 \<in> set c \<and> 0x42 \<in> set c)" using w no_jokers by (simp add: chosen_def)
  ultimately show ?thesis using w rule unfolding plays_def CT_defs by auto
qed

lemma three_two:
  assumes d: "hand d" and r: "3 \<le> cnt d r" and w: "2 \<le> cnt d w" "w \<noteq> r" and rule: "IsValidType rule CT_THREE_TAKE_TWO 0"
  defines "c \<equiv> take 3 (grp d r) @ take 2 (grp d w)"
  shows "chosen d c \<and> plays rule c CT_THREE_TAKE_TWO r \<and> length c = 5"
proof -
  note t = one_triplet [OF r]
  have "c = pick d (row_picks 3 (1, r)) @ pick d (map (\<lambda>r. (r, 2)) [w])" using t by (simp add: c_def)
  from plane_twos [OF d conjunct1 [OF t] _ _ _ rule this] show ?thesis using w by (simp add: in_row_def)
qed

section \<open>Single cards for a row of triplets\<close>

text \<open>Few enough cards of each value that no triplet continues the row.\<close>

definition carried :: "card list \<Rightarrow> nat \<Rightarrow> int \<Rightarrow> card list \<Rightarrow> bool" where
  "carried d m v s \<longleftrightarrow>
     chosen d s \<and> (\<forall>c \<in> set s. \<not> in_row v m (GetCardLogicValue c)) \<and> (\<forall>r. cnt s r \<le> 3) \<and>
     (v < 14 \<longrightarrow> cnt s (v + 1) \<le> 2) \<and> (v \<le> 14 \<longrightarrow> cnt s (v - int m) \<le> 2)"

lemma carried_edges: "carried d m v s \<Longrightarrow> triplets d m v \<Longrightarrow> edges s m v"
  by (auto simp: carried_def edges_def triplets_def)

lemma carried_tail:
  assumes "carried d m v s" "mset e = mset s"
  shows "carried d m v (drop n e)"
proof -
  have "cnt (drop n e) r \<le> cnt s r" for r
    using cnt_mset [OF assms(2), of r] cnt_simps(3) [of "take n e" "drop n e" r] by simp
  then have "cnt (drop n e) r \<le> k" if "cnt s r \<le> k" for r k using le_trans that by blast
  moreover have "chosen d (drop n e)"
    using chosen_mset [of d s e] assms set_drop_subset [of n e] unfolding carried_def chosen_def hand_def by (auto dest: subsetD)
  moreover have "set (drop n e) \<subseteq> set s" using set_drop_subset [of n e] mset_eq_setD [OF assms(2)] by simp
  ultimately show ?thesis using assms(1) unfolding carried_def by blast
qed

lemma plane_singles_carried:
  assumes d: "hand d"
  shows "carried d m v (plane_singles (grouped d) v m)"
proof -
  define rs where "rs = filter (\<lambda>r. \<not> in_row v m r) (concat (map (\<lambda>k. rev (ranks_with (k + 1) d)) [0, 1, 2]))"
  let ?ps = "map (\<lambda>r. (r, single_count d v m r)) rs"
  have s: "plane_singles (grouped d) v m = pick d ?ps" unfolding plane_singles_pick rs_def ..
  have dist: "distinct rs" unfolding rs_def by (intro distinct_filter distinct_rank_lists [of _ _ d]) auto
  have le: "cnt d r \<le> 3" if "r \<in> set rs" for r using that by (auto simp: rs_def ranks_with_def)
  have p: "pickable d ?ps" using dist by (auto simp: pickable_def comp_def single_count_def)
  have cnt: "cnt (pick d ?ps) r = (if r \<in> set rs then single_count d v m r else 0)" for r
    by (simp add: cnt_pick [OF p] map_of_map_restrict restrict_map_def)
  have "single_count d v m r \<le> 3" if "r \<in> set rs" for r using le [OF that] by (simp add: single_count_def)
  moreover have "single_count d v m r \<le> 2" if "r \<in> set rs" "r < 15" "r = v + 1 \<or> r = v - int m" for r
    using le [OF that(1)] that(2,3) by (auto simp: single_count_def)
  moreover have "\<not> in_row v m (GetCardLogicValue c)" if "c \<in> set (pick d ?ps)" for c
    using set_pick [OF that] by (auto simp: rs_def)
  moreover have "chosen d (pick d ?ps)" using chosen_pick [OF d] p by (simp add: pickable_def)
  ultimately show ?thesis unfolding s carried_def cnt by simp
qed

lemma lead_singles_carried:
  assumes d: "hand d"
  shows "carried d m v (lead_singles (grouped d) v m)"
proof -
  define rs where "rs = filter (\<lambda>r. \<not> in_row v m r) (rev (ranks_with 1 d))"
  have s: "lead_singles (grouped d) v m = pick d (map (\<lambda>r. (r, 1)) rs)" unfolding lead_singles_pick rs_def ..
  have p: "pickable d (map (\<lambda>r. (r, 1)) rs)" by (auto simp: pickable_def comp_def rs_def ranks_with_def)
  have cnt: "cnt (pick d (map (\<lambda>r. (r, 1)) rs)) r = (if r \<in> set rs then 1 else 0)" for r
    unfolding cnt_pick [OF p] by (simp add: map_of_map_restrict restrict_map_def)
  have "\<not> in_row v m (GetCardLogicValue c)" if "c \<in> set (pick d (map (\<lambda>r. (r, 1)) rs))" for c
    using set_pick [OF that] by (auto simp: rs_def)
  moreover have "chosen d (pick d (map (\<lambda>r. (r, 1)) rs))" using chosen_pick [OF d] p by (simp add: pickable_def)
  ultimately show ?thesis unfolding s carried_def cnt by simp
qed

lemma row_triplets:
  assumes "min_link 3 \<le> fst p" "row (\<lambda>r. r < 15 \<and> 3 \<le> cnt d r) p"
  shows "triplets d (fst p) (snd p)"
proof -
  have "0 < fst p" using assms(1) by (simp add: min_link_def)
  then have "snd p < 15" using assms(2) by (auto simp: row_def)
  then show ?thesis using assms(2) \<open>0 < fst p\<close> by (auto simp: triplets_def row_def in_row_def)
qed

text \<open>Pairs for a row of triplets: the last ones of the array.\<close>

lemma drop_pairs:
  assumes "\<forall>r \<in> set rs. 2 \<le> cnt d r"
  shows "drop (2 * j) (pick d (map (\<lambda>r. (r, 2)) rs)) = pick d (map (\<lambda>r. (r, 2)) (drop j rs))"
  using assms
proof (induction rs arbitrary: j)
  case (Cons r rs)
  then show ?case by (cases j) (simp_all add: length_grp)
qed simp

lemma plane_pairs_chosen:
  assumes "hand d" "distinct ks" "set ks \<subseteq> {1, 2, 3}"
  shows "chosen d (plane_pairs ks (grouped d) v m)"
proof -
  have "distinct (concat (map (\<lambda>k. ranks_with (k + 1) d) ks))" by (rule distinct_rank_lists [OF assms(2), of _ d]) simp
  then show ?thesis unfolding plane_pairs_pick [OF assms(3)] by (intro chosen_pick [OF assms(1)]) (simp add: comp_def)
qed

lemma plane_pairs_play:
  assumes d: "hand d" and t: "triplets d m v" and ks: "distinct ks" "set ks \<subseteq> {1, 2, 3}" and rule: "IsValidType rule CT_THREE_TAKE_TWO 0"
    and len: "m \<le> length (plane_pairs ks (grouped d) v m) div 2"
  defines "s \<equiv> plane_pairs ks (grouped d) v m"
  defines "c \<equiv> pick d (row_picks 3 (m, v)) @ drop (length s - 2 * m) s"
  shows "chosen d c \<and> plays rule c CT_THREE_TAKE_TWO v \<and> length c = 5 * m"
proof -
  define rs where "rs = filter (\<lambda>r. \<not> in_row v m r) (concat (map (\<lambda>k. ranks_with (k + 1) d) ks))"
  have s: "s = pick d (map (\<lambda>r. (r, 2)) rs)" unfolding s_def plane_pairs_pick [OF ks(2)] rs_def ..
  have two: "\<forall>r \<in> set rs. 2 \<le> cnt d r"
  proof
    fix r assume "r \<in> set rs"
    then obtain k where "k \<in> set ks" "cnt d r = k + 1" by (auto simp: rs_def ranks_with_def)
    moreover from this have "1 \<le> k" using ks(2) by auto
    ultimately show "2 \<le> cnt d r" by simp
  qed
  have dist: "distinct rs" unfolding rs_def by (intro distinct_filter distinct_rank_lists [OF ks(1), of _ d]) auto
  have "pickable d (map (\<lambda>r. (r, 2)) rs)" using two dist by (auto simp: pickable_def comp_def)
  then have ls: "length s = 2 * length rs" unfolding s by (simp add: length_pick comp_def sum_list_triv)
  then have "length s - 2 * m = 2 * (length rs - m)" by simp
  then have c: "c = pick d (row_picks 3 (m, v)) @ pick d (map (\<lambda>r. (r, 2)) (drop (length rs - m) rs))"
    unfolding c_def s using drop_pairs [OF two, of "length rs - m"] by simp
  have m: "length (drop (length rs - m) rs) = m" using len ls unfolding s_def [symmetric] by simp
  have "\<forall>r \<in> set (drop (length rs - m) rs). 2 \<le> cnt d r \<and> \<not> in_row v m r"
  proof
    fix r assume "r \<in> set (drop (length rs - m) rs)"
    then have "r \<in> set rs" by (rule in_set_dropD)
    then show "2 \<le> cnt d r \<and> \<not> in_row v m r" using two by (simp add: rs_def)
  qed
  from plane_twos [OF d t _ this m rule c] show ?thesis using dist by simp
qed

end
