(* ===== verification/Land_Answers.thy ===== *)
theory Land_Answers
  imports Land_Carry
begin

text \<open>
  Every play that \<^verbatim>\<open>SimplySearchResult\<close> offers consists of cards of the hand, is a play of the
  game and beats the play it answers.
\<close>

section \<open>What an answer has to be\<close>

definition played :: "int \<Rightarrow> tagOutCard \<Rightarrow> bool" where
  "played rule x \<longleftrightarrow> hand (oc_cbCardData x) \<and> length (oc_cbCardData x) \<le> 20 \<and> plays rule (oc_cbCardData x) (oc_cbCardType x) (oc_cbLogicValue x)"

definition good :: "int \<Rightarrow> card list \<Rightarrow> tagOutCard \<Rightarrow> tagOutCard \<Rightarrow> bool" where
  "good rule d turn x \<longleftrightarrow>
     chosen d (oc_cbCardData x) \<and> plays rule (oc_cbCardData x) (oc_cbCardType x) (oc_cbLogicValue x) \<and> oc_cbCardType turn \<noteq> CT_MISSILE_CARD \<and>
     (oc_cbCardType x = CT_MISSILE_CARD \<or>
      oc_cbCardType x = CT_BOMB_CARD \<and> (oc_cbCardType turn = CT_BOMB_CARD \<longrightarrow> oc_cbLogicValue turn < oc_cbLogicValue x) \<or>
      oc_cbCardType x = oc_cbCardType turn \<and> length (oc_cbCardData x) = length (oc_cbCardData turn) \<and> oc_cbLogicValue turn < oc_cbLogicValue x)"

lemma plays_bomb_length: "plays rule c CT_BOMB_CARD v \<Longrightarrow> length c = 4"
  by (auto simp: plays_def CT_defs)

lemma good_beats:
  assumes "played rule turn" "good rule d turn x"
  shows "beats rule (oc_cbCardData turn) (oc_cbCardData x)"
proof -
  have "oc_cbCardType x = CT_BOMB_CARD \<and> oc_cbCardType turn = CT_BOMB_CARD \<longrightarrow> length (oc_cbCardData turn) = length (oc_cbCardData x)"
    using assms plays_bomb_length unfolding played_def good_def by metis
  moreover have "plays rule (oc_cbCardData turn) (oc_cbCardType turn) (oc_cbLogicValue turn)" using assms(1) by (simp add: played_def)
  moreover have "oc_cbCardType x = CT_MISSILE_CARD \<or> oc_cbCardType turn \<noteq> CT_BOMB_CARD \<and> oc_cbCardType x = CT_BOMB_CARD \<or>
      oc_cbCardType turn = oc_cbCardType x \<and> length (oc_cbCardData turn) = length (oc_cbCardData x) \<and> oc_cbLogicValue turn < oc_cbLogicValue x"
    using assms(2) calculation(1) unfolding good_def by metis
  moreover have "plays rule (oc_cbCardData x) (oc_cbCardType x) (oc_cbLogicValue x)" "oc_cbCardType turn \<noteq> CT_MISSILE_CARD"
    using assms(2) by (simp_all add: good_def)
  ultimately show ?thesis
    unfolding beats_def by (intro exI [of _ "oc_cbCardType turn"] exI [of _ "oc_cbLogicValue turn"] exI [of _ "oc_cbCardType x"] exI [of _ "oc_cbLogicValue x"] conjI)
qed

lemma good_mset: "good rule d turn x \<Longrightarrow> mset e = mset (oc_cbCardData x) \<Longrightarrow> good rule d turn (x\<lparr>oc_cbCardData := e\<rparr>)"
  using chosen_mset [of d "oc_cbCardData x" e] plays_mset [of e "oc_cbCardData x"] mset_eq_length [of e "oc_cbCardData x"]
  by (auto simp: good_def)

lemma good_same:
  assumes "oc_cbCardType turn = t" "chosen d c" "plays rule c t v" "length c = length (oc_cbCardData turn)" "oc_cbLogicValue turn < v"
    "t \<noteq> CT_MISSILE_CARD"
  shows "good rule d turn \<lparr>oc_cbCardData = c, oc_cbCardType = t, oc_cbLogicValue = v\<rparr>"
  using assms by (simp add: good_def)

text \<open>The sorted hand.\<close>

definition sorted_hand_20 :: "card list \<Rightarrow> bool" where
  "sorted_hand_20 d \<longleftrightarrow> hand d \<and> sorted_wrt card_ge d \<and> length d \<le> 20"

lemma chosen_20: "sorted_hand_20 d \<Longrightarrow> chosen d c \<Longrightarrow> length c \<le> 20"
  using chosen_length [of d c] by (simp add: sorted_hand_20_def)

lemma SortCardList_sorted:
  assumes "sorted_wrt card_ge d" "length d \<le> 54"
  shows "SortCardList d ST_ORDER = Inr d"
proof -
  obtain e where "SortCardList d ST_ORDER = Inr e" "mset e = mset d" "sorted_wrt card_ge e"
    using SortCardList_order [of d] assms(2) by (auto simp: FULL_COUNT_def)
  then show ?thesis using sorted_unique [OF _ assms(1)] by blast
qed

lemma analysed: "sorted_hand_20 d \<Longrightarrow> AnalysebCardData d = Inr (grouped d)"
  using AnalysebCardData_sorted [of d] by (simp add: sorted_hand_20_def)

section \<open>Equal cards\<close>

lemma plays_same_value:
  assumes "plays rule c t v" "t \<in> {CT_SINGLE, CT_DOUBLE, CT_THREE}" "c = x # xs"
  shows "GetCardLogicValue x = v" "length c = (if t = CT_DOUBLE then 2 else if t = CT_THREE then 3 else 1)"
    "t = same_type (length c)"
proof -
  have "cnt c v = length c \<and> length c = (if t = CT_DOUBLE then 2 else if t = CT_THREE then 3 else 1)"
    using assms(1,2) unfolding plays_def CT_defs by auto
  then show "length c = (if t = CT_DOUBLE then 2 else if t = CT_THREE then 3 else 1)" "GetCardLogicValue x = v"
    using cnt_all [of c v] assms(3) by auto
  then show "t = same_type (length c)" using assms(2) by (auto simp: same_type_def CT_defs)
qed

lemma SearchSameCard_hand:
  assumes "sorted_hand_20 d" "k \<in> {1, 2, 3}"
  shows "\<exists>rows. SearchSameCard d c k = Inr rows \<and>
    (\<forall>row \<in> set rows. \<exists>v > (if c = 0 then 0 else GetCardLogicValue c). k \<le> cnt d v \<and> row = take k (grp d v))"
proof -
  let ?ref = "if c = 0 then 0 else GetCardLogicValue c"
  define rows where "rows = concat (map (\<lambda>i. map (\<lambda>j. take k (block i j (grouped d)))
    (filter (\<lambda>j. value_of (block i j (grouped d)) > ?ref) (down i (grouped d)))) [k - 1..<4])"
  have "SearchSameCard d c k = Inr (if MAX_COUNT \<le> length rows then take (MAX_COUNT - 1) rows else rows)"
    using assms(1) SortCardList_sorted [of d] analysed [OF assms(1)]
    by (simp add: SearchSameCard_def room_ok rows_def sorted_hand_20_def Let_def)
  moreover have "\<exists>v > ?ref. k \<le> cnt d v \<and> row = take k (grp d v)" if row: "row \<in> set rows" for row
  proof -
    obtain i j where ij: "k - 1 \<le> i" "i < 4" "j \<in> set (up i (grouped d))" "value_of (block i j (grouped d)) > ?ref"
      "row = take k (block i j (grouped d))"
      using row unfolding rows_def by auto
    obtain r where "block i j (grouped d) = grp d r" "cnt d r = i + 1" "value_of (block i j (grouped d)) = r"
      using block_cases [OF ij(2,3)] by metis
    then show ?thesis using ij assms(2) by (intro exI [of _ r]) auto
  qed
  ultimately show ?thesis using set_take_subset [of "MAX_COUNT - 1" rows] by (auto dest: subsetD)
qed

lemma answer_same_good:
  assumes d: "sorted_hand_20 d" and t: "played rule turn" "oc_cbCardType turn \<in> {CT_SINGLE, CT_DOUBLE, CT_THREE}"
  shows "yields (answer_same d turn) (good rule d turn)"
proof -
  let ?k = "if oc_cbCardType turn = CT_DOUBLE then 2 else if oc_cbCardType turn = CT_THREE then 3 else 1"
  have "length (oc_cbCardData turn) \<noteq> 0" using t unfolding played_def plays_def CT_defs by auto
  then obtain x xs where x: "oc_cbCardData turn = x # xs" by (cases "oc_cbCardData turn") auto
  have pl: "plays rule (oc_cbCardData turn) (oc_cbCardType turn) (oc_cbLogicValue turn)" using t by (simp add: played_def)
  note same = plays_same_value [OF pl t(2) x]
  have ty: "oc_cbCardType turn = same_type ?k" using same(3) unfolding same(2) .
  have k: "?k \<in> {1, 2, 3}" by simp
  have nm: "oc_cbCardType turn \<noteq> CT_MISSILE_CARD" using t(2) by (auto simp: CT_defs)
  have ref: "(if x = 0 then 0 else GetCardLogicValue x) = oc_cbLogicValue turn" using same(1) by (auto simp: GetCardLogicValue_def)
  obtain rows where rows: "SearchSameCard d x ?k = Inr rows"
    "\<forall>row \<in> set rows. \<exists>v > oc_cbLogicValue turn. ?k \<le> cnt d v \<and> row = take ?k (grp d v)"
    using SearchSameCard_hand [OF d k, of x] unfolding ref by blast
  have "yields (one (out_card (take ?k row) (oc_cbCardType turn) (value_of row))) (good rule d turn)" if "row \<in> set rows" for row
  proof -
    obtain v where v: "oc_cbLogicValue turn < v" "?k \<le> cnt d v" "row = take ?k (grp d v)" using rows(2) \<open>row \<in> set rows\<close> by blast
    have g: "chosen d row \<and> plays rule row (oc_cbCardType turn) v \<and> length row = ?k"
      using plays_group [of d ?k v rule] d k v(2) ty unfolding sorted_hand_20_def v(3) by auto
    have vo: "value_of row = v" unfolding v(3) by (rule value_take_grp) (use v(2) in auto)
    have len: "length (take ?k row) \<le> 20" using g by simp
    show ?thesis
      by (rule yields_one [OF out_card_ok [OF len]]) (use g vo same(2) v(1) nm in \<open>auto intro!: good_same\<close>)
  qed
  then show ?thesis using rows(1) unfolding answer_same_def x Let_def by (simp add: yields_collect)
qed

section \<open>Rows\<close>

lemma links:
  assumes "sorted_hand_20 d" "k \<in> {1, 2, 3}"
  obtains ps where "SearchAllLink d k = Inr (map (link d k) ps)"
    "\<And>p. p \<in> set ps \<Longrightarrow> min_link k \<le> fst p \<and> row (\<lambda>r. r < 15 \<and> k \<le> cnt d r) p"
  using SearchAllLink_hand [of d k] assms unfolding sorted_hand_20_def by auto

lemma line_length:
  assumes "played rule turn" "oc_cbCardType turn = line_type k" "k \<in> {1, 2, 3}"
  shows "\<exists>m. length (oc_cbCardData turn) = k * m"
proof -
  have "\<exists>m. straight (oc_cbCardData turn) k m (oc_cbLogicValue turn)"
    using assms unfolding played_def plays_def line_type_def CT_defs by auto
  then show ?thesis using straight_length(2) assms by (auto simp: played_def)
qed

lemma answer_line_good:
  assumes d: "sorted_hand_20 d" and t: "oc_cbCardType turn = line_type k" "k \<in> {1, 2, 3}"
  shows "yields (answer_line d turn) (good rule d turn)"
proof -
  have k: "(if oc_cbCardType turn = CT_DOUBLE_LINE then 2 else if oc_cbCardType turn = CT_THREE_LINE then 3 else 1) = k"
    using t by (auto simp: line_type_def CT_defs)
  have nm: "oc_cbCardType turn \<noteq> CT_MISSILE_CARD" using t by (auto simp: line_type_def CT_defs)
  obtain ps where ps: "SearchAllLink d k = Inr (map (link d k) ps)"
    "\<And>p. p \<in> set ps \<Longrightarrow> min_link k \<le> fst p \<and> row (\<lambda>r. r < 15 \<and> k \<le> cnt d r) p"
    using links [OF d t(2)] by blast
  let ?f = "\<lambda>l. if lk_cbLogicValue l > oc_cbLogicValue turn \<and> lk_cbCardCount l = length (oc_cbCardData turn)
    then bindR (out_card (lk_cbCardData l) (oc_cbCardType turn) (lk_cbLogicValue l)) (\<lambda>x. Inr (Some x)) else Inr None"
  have "\<exists>y. ?f l = Inr y \<and> (\<forall>z. y = Some z \<longrightarrow> good rule d turn z)" if l: "l \<in> set (map (link d k) ps)" for l
  proof -
    obtain p where p: "p \<in> set ps" "l = link d k p" using l by auto
    have g: "chosen d (lk_cbCardData l) \<and> plays rule (lk_cbCardData l) (line_type k) (lk_cbLogicValue l) \<and> length (lk_cbCardData l) = lk_cbCardCount l"
      using plays_link [OF _ t(2), of d p rule] ps(2) [OF p(1)] d p(2) by (simp add: link_def sorted_hand_20_def)
    have len: "length (lk_cbCardData l) \<le> 20" using chosen_20 [OF d] g by blast
    show ?thesis using g t(1) nm out_card_ok [OF len] by (auto intro!: good_same)
  qed
  then have "yields (firstR ?f (map (link d k) ps)) (good rule d turn)" by (rule yields_first)
  then show ?thesis unfolding answer_line_def k Let_def ps(1) by simp
qed

section \<open>A triplet that carries\<close>

lemma answer_three_good:
  assumes d: "sorted_hand_20 d" and t: "oc_cbCardType turn = t" "length (oc_cbCardData turn) = 3 + n"
    and k: "t = CT_THREE_TAKE_ONE \<and> n = 1 \<or> t = CT_THREE_TAKE_TWO \<and> n = 2 \<and> IsValidType rule CT_THREE_TAKE_TWO 0"
    and ks: "\<forall>k \<in> set ks. n \<le> k + 1 \<and> k < 4"
  shows "yields (answer_three bFourTake ks n t (grouped d) turn) (good rule d turn)"
  unfolding answer_three_def Let_def
proof (intro yields_collect yields_if yields_Nil yields_first)
  fix i j k m
  let ?three = "take 3 (block i j (grouped d))" and ?x = "take n (block k m (grouped d))"
  assume i: "i \<in> set [2..<if bFourTake then 4 else 3]" and j: "j \<in> set (down i (grouped d))"
    and v: "\<not> value_of ?three \<le> oc_cbLogicValue turn" and k: "k \<in> set ks" and m: "m \<in> set (down k (grouped d))"
  have i4: "2 \<le> i" "i < 4" using i by (auto split: if_splits)
  have k4: "n \<le> k + 1" "k < 4" using ks k by auto
  obtain r where r: "block i j (grouped d) = grp d r" "cnt d r = i + 1" "r = ranks_with (i + 1) d ! j"
    using block_cases [OF i4(2)] j by (metis down_up)
  obtain w where w: "block k m (grouped d) = grp d w" "cnt d w = k + 1" "w = ranks_with (k + 1) d ! m"
    using block_cases [OF k4(2)] m by (metis down_up)
  have r3: "3 \<le> cnt d r" using r(2) i4 by simp
  have vr: "value_of ?three = r" unfolding r(1) by (rule value_take_grp) (use r3 in simp_all)
  have ne: "w \<noteq> r" if "\<not> (m = j \<and> k = i)"
  proof
    assume eq: "w = r"
    then have "k = i" using r(2) w(2) by simp
    then have "m < length (ranks_with (i + 1) d)" "j < length (ranks_with (i + 1) d)" using up_grouped i4 j m by auto
    then show False using nth_eq_iff_index_eq [OF distinct_ranks_with, of m "i + 1" d j] eq r(3) w(3) that \<open>k = i\<close> by simp
  qed
  have g: "chosen d (?three @ ?x) \<and> plays rule (?three @ ?x) t r \<and> length (?three @ ?x) = length (oc_cbCardData turn)" if "\<not> (m = j \<and> k = i)"
    unfolding r(1) w(1) t(2)
    using assms(4) three_one [of d r w rule] three_two [of d r w rule] d r3 w(2) k4(1) ne [OF that] by (auto simp: sorted_hand_20_def)
  show "\<exists>y. (if m = j \<and> k = i then Inr None else bindR (sorted_out (?three @ ?x) t (value_of ?three)) (\<lambda>x. Inr (Some x))) = Inr y \<and>
      (\<forall>z. y = Some z \<longrightarrow> good rule d turn z)"
  proof (cases "m = j \<and> k = i")
    case False
    have "length (?three @ ?x) \<le> 20" using chosen_20 [OF d] g [OF False] by blast
    then obtain e where e: "sorted_out (?three @ ?x) t (value_of ?three) = Inr \<lparr>oc_cbCardData = e, oc_cbCardType = t, oc_cbLogicValue = value_of ?three\<rparr>"
      "mset e = mset (?three @ ?x)"
      using sorted_out_ok by metis
    have "good rule d turn \<lparr>oc_cbCardData = e, oc_cbCardType = t, oc_cbLogicValue = value_of ?three\<rparr>"
      using good_same [of turn t d e rule r] g [OF False] chosen_mset [OF _ e(2)] plays_mset [OF e(2)] mset_eq_length [OF e(2)] v vr t(1) assms(4)
      by (auto simp: CT_defs)
    then show ?thesis using e(1) False by auto
  qed auto
qed

section \<open>Rows of triplets that carry\<close>

lemma good_sorted_out:
  assumes "sorted_hand_20 d" "chosen d c" "plays rule c t v" "length c = length (oc_cbCardData turn)" "oc_cbLogicValue turn < v"
    "oc_cbCardType turn = t" "t \<noteq> CT_MISSILE_CARD"
  shows "\<exists>x. sorted_out c t v = Inr x \<and> good rule d turn x"
proof -
  have "length c \<le> 20" by (rule chosen_20 [OF assms(1,2)])
  then obtain e where e: "sorted_out c t v = Inr \<lparr>oc_cbCardData = e, oc_cbCardType = t, oc_cbLogicValue = v\<rparr>" "mset e = mset c"
    using sorted_out_ok by metis
  then show ?thesis
    using good_same [of turn t d e rule v] assms chosen_mset [OF assms(2) e(2)] plays_mset [OF e(2)] mset_eq_length [OF e(2)] by auto
qed

lemma plane_ones_checked:
  assumes d: "sorted_hand_20 d" and tr: "triplets d m v" and s: "carried d m v s" "length s = m"
    and t: "oc_cbCardType turn = CT_THREE_TAKE_ONE" "length (oc_cbCardData turn) = 4 * m" "oc_cbLogicValue turn < v"
    and c: "c = pick d (row_picks 3 (m, v)) @ s"
  shows "\<exists>y. bindR (sorted_out c CT_THREE_TAKE_ONE v) (\<lambda>x.
      bindR (GetCardType rule (oc_cbCardData x)) (\<lambda>t. Inr (if t \<noteq> CT_THREE_TAKE_ONE then None else Some x))) = Inr y \<and>
    (\<forall>z. y = Some z \<longrightarrow> good rule d turn z)"
proof -
  have hd: "hand d" using d by (simp add: sorted_hand_20_def)
  have s': "chosen d s" "\<forall>c \<in> set s. \<not> in_row v m (GetCardLogicValue c)" "edges s m v"
    using s(1) carried_edges [OF s(1) tr] by (simp_all add: carried_def)
  have ch: "chosen d c" using wings_carried [OF hd tr s'] by (simp add: c)
  obtain f where f: "sorted_out c CT_THREE_TAKE_ONE v = Inr \<lparr>oc_cbCardData = f, oc_cbCardType = CT_THREE_TAKE_ONE, oc_cbLogicValue = v\<rparr>"
    "mset f = mset c"
    using sorted_out_ok [OF chosen_20 [OF d ch]] by metis
  have hf: "hand f" "length f \<le> 20" using chosen_mset [OF ch f(2)] chosen_20 [OF d] by (auto simp: chosen_def)
  obtain r where r: "AnalyseOutCard rule f = Inr r"
    "\<forall>t v. t \<noteq> CT_ERROR \<longrightarrow> (ar_cbCardType r = t \<and> ar_cbLogicValue r = v \<longleftrightarrow> plays rule f t v)"
    using AnalyseOutCard_hand [OF hf] by blast
  have "good rule d turn \<lparr>oc_cbCardData = f, oc_cbCardType = CT_THREE_TAKE_ONE, oc_cbLogicValue = v\<rparr>" if one: "ar_cbCardType r = CT_THREE_TAKE_ONE"
  proof -
    have ne: "CT_THREE_TAKE_ONE \<noteq> CT_ERROR" by (simp add: CT_defs)
    have "plays rule f CT_THREE_TAKE_ONE (ar_cbLogicValue r)" using r(2) [rule_format, OF ne] one by blast
    then have "plays rule c CT_THREE_TAKE_ONE (ar_cbLogicValue r)" using plays_mset [OF f(2)] by simp
    then have j: "\<not> (2 < length c \<and> 0x41 \<in> set c \<and> 0x42 \<in> set c)" unfolding plays_def by blast
    have "plays rule c CT_THREE_TAKE_ONE v \<and> length c = 4 * m" using plane_ones [OF hd tr s' s(2) j c] by blast
    then show ?thesis
      using good_same [of turn CT_THREE_TAKE_ONE d f rule v] chosen_mset [OF ch f(2)] plays_mset [OF f(2)] mset_eq_length [OF f(2)] t
      by (auto simp: CT_defs)
  qed
  then show ?thesis unfolding f(1) using r(1) by (auto simp: GetCardType_def)
qed

lemma answer_plane_ones_good:
  assumes d: "sorted_hand_20 d" and t: "oc_cbCardType turn = CT_THREE_TAKE_ONE" "length (oc_cbCardData turn) = 4 * m"
  shows "yields (answer_plane_ones rule d (grouped d) turn) (good rule d turn)"
proof -
  have hd: "hand d" using d by (simp add: sorted_hand_20_def)
  obtain ps where ps: "SearchAllLink d 3 = Inr (map (link d 3) ps)"
    "\<And>p. p \<in> set ps \<Longrightarrow> min_link 3 \<le> fst p \<and> row (\<lambda>r. r < 15 \<and> 3 \<le> cnt d r) p"
    using links [OF d, of 3] by auto
  show ?thesis
    unfolding answer_plane_ones_def ps(1) bindR_Inr
  proof (rule yields_first, unfold Let_def)
    fix l assume "l \<in> set (map (link d 3) ps)"
    then obtain p where p: "p \<in> set ps" "l = link d 3 p" by auto
    let ?m = "lk_cbCardCount l div 3" and ?v = "lk_cbLogicValue l"
    let ?s = "plane_singles (grouped d) ?v ?m"
    have mv: "?m = fst p" "?v = snd p" "lk_cbCardData l = pick d (row_picks 3 (?m, ?v))" using p(2) by (simp_all add: link_def)
    have tr: "triplets d ?m ?v" unfolding mv(1,2) using row_triplets ps(2) [OF p(1)] by blast
    have car: "carried d ?m ?v ?s" by (rule plane_singles_carried [OF hd])
    then have room: "room ?s = Inr ?s" using room_ok chosen_20 [OF d] by (simp add: carried_def)
    have "length ?s \<le> FULL_COUNT" using chosen_20 [OF d, of ?s] car by (simp add: carried_def FULL_COUNT_def)
    then obtain e where e: "SortCardList ?s ST_ORDER = Inr e" "mset e = mset ?s" using SortCardList_order by blast
    let ?t = "drop (length e - ?m) e" and ?c = "lk_cbCardData l @ drop (length e - ?m) e"
    have ct: "carried d ?m ?v ?t" by (rule carried_tail [OF car e(2)])
    have vv: "value_of (lk_cbCardData l) = ?v" unfolding mv(3) by (rule triplets_pick(4) [OF hd tr])
    have fin: "\<exists>y. bindR (sorted_out ?c CT_THREE_TAKE_ONE ?v) (\<lambda>x.
          bindR (GetCardType rule (oc_cbCardData x)) (\<lambda>t. Inr (if t \<noteq> CT_THREE_TAKE_ONE then None else Some x))) = Inr y \<and>
        (\<forall>z. y = Some z \<longrightarrow> good rule d turn z)"
      if len: "lk_cbCardCount l = length (oc_cbCardData turn) div 4 * 3" "oc_cbLogicValue turn < ?v" "?m \<le> length ?s"
    proof (rule plane_ones_checked [OF d tr ct _ t(1) _ len(2)])
      show "length ?t = ?m" using len(3) mset_eq_length [OF e(2)] by simp
      show "length (oc_cbCardData turn) = 4 * ?m" using len(1) t(2) by simp
      show "?c = pick d (row_picks 3 (?m, ?v)) @ ?t" using mv(3) by simp
    qed
    show "\<exists>y. (if lk_cbCardCount l \<noteq> length (oc_cbCardData turn) div 4 * 3 then Inr None
       else if ?v \<le> oc_cbLogicValue turn then Inr None
       else if length d < ?m * 4 then Inr None
       else
         bindR (room ?s) (\<lambda>cbSingleCard.
         if length cbSingleCard \<ge> ?m \<and> IsValidType rule CT_THREE_TAKE_ONE 0 then
           bindR (SortCardList cbSingleCard ST_ORDER) (\<lambda>cbSingleCard.
           bindR (sorted_out (lk_cbCardData l @ drop (length cbSingleCard - ?m) cbSingleCard) CT_THREE_TAKE_ONE
             (value_of (lk_cbCardData l))) (\<lambda>x.
           bindR (GetCardType rule (oc_cbCardData x)) (\<lambda>t.
           Inr (if t \<noteq> CT_THREE_TAKE_ONE then None else Some x))))
         else Inr None)) = Inr y \<and> (\<forall>z. y = Some z \<longrightarrow> good rule d turn z)"
      unfolding room bindR_Inr e(1) vv using fin by (simp add: not_le)
  qed
qed

lemma answer_plane_twos_good:
  assumes d: "sorted_hand_20 d" and t: "oc_cbCardType turn = CT_THREE_TAKE_TWO" "length (oc_cbCardData turn) = 5 * m"
    and rule: "IsValidType rule CT_THREE_TAKE_TWO 0"
  shows "yields (answer_plane_twos d (grouped d) turn) (good rule d turn)"
proof -
  have hd: "hand d" using d by (simp add: sorted_hand_20_def)
  obtain ps where ps: "SearchAllLink d 3 = Inr (map (link d 3) ps)"
    "\<And>p. p \<in> set ps \<Longrightarrow> min_link 3 \<le> fst p \<and> row (\<lambda>r. r < 15 \<and> 3 \<le> cnt d r) p"
    using links [OF d, of 3] by auto
  show ?thesis
    unfolding answer_plane_twos_def ps(1) bindR_Inr
  proof (rule yields_first, unfold Let_def)
    fix l assume "l \<in> set (map (link d 3) ps)"
    then obtain p where p: "p \<in> set ps" "l = link d 3 p" by auto
    let ?m = "lk_cbCardCount l div 3" and ?v = "lk_cbLogicValue l"
    let ?s = "plane_pairs [3, 2, 1] (grouped d) ?v ?m"
    have mv: "?m = fst p" "?v = snd p" "lk_cbCardData l = pick d (row_picks 3 (?m, ?v))" using p(2) by (simp_all add: link_def)
    have tr: "triplets d ?m ?v" unfolding mv(1,2) using row_triplets ps(2) [OF p(1)] by blast
    have vv: "value_of (lk_cbCardData l) = ?v" unfolding mv(3) by (rule triplets_pick(4) [OF hd tr])
    have room: "room ?s = Inr ?s" by (rule room_ok) (rule chosen_20 [OF d plane_pairs_chosen [OF hd]], auto)
    have fin: "\<exists>x. sorted_out (lk_cbCardData l @ drop (length ?s - 2 * ?m) ?s) CT_THREE_TAKE_TWO ?v = Inr x \<and> good rule d turn x"
      if len: "lk_cbCardCount l = length (oc_cbCardData turn) div 5 * 3" "oc_cbLogicValue turn < ?v" "?m \<le> length ?s div 2"
    proof -
      let ?c = "lk_cbCardData l @ drop (length ?s - 2 * ?m) ?s"
      have "chosen d ?c \<and> plays rule ?c CT_THREE_TAKE_TWO ?v \<and> length ?c = 5 * ?m"
        using plane_pairs_play [OF hd tr _ _ rule len(3)] mv(3) by simp
      then show ?thesis using good_sorted_out [OF d, of ?c rule CT_THREE_TAKE_TWO ?v turn] len t by (auto simp: CT_defs)
    qed
    show "\<exists>y. (if lk_cbCardCount l \<noteq> length (oc_cbCardData turn) div 5 * 3 then Inr None
       else if ?v \<le> oc_cbLogicValue turn then Inr None
       else if length d < ?m * 5 then Inr None
       else
         bindR (room ?s) (\<lambda>cbDoubleCard.
         if length cbDoubleCard div 2 \<ge> ?m then
           bindR (sorted_out (lk_cbCardData l @ drop (length cbDoubleCard - 2 * ?m) cbDoubleCard) CT_THREE_TAKE_TWO
             (value_of (lk_cbCardData l))) (\<lambda>x. Inr (Some x))
         else Inr None)) = Inr y \<and> (\<forall>z. y = Some z \<longrightarrow> good rule d turn z)"
      unfolding room bindR_Inr vv using fin by (auto simp: not_le)
  qed
qed

section \<open>All answers\<close>

lemma answer_kind_good:
  assumes d: "sorted_hand_20 d" and t: "played rule turn"
  shows "yields (answer_kind rule d (grouped d) turn bFourTake) (good rule d turn)"
proof -
  let ?t = "oc_cbCardType turn" and ?n = "length (oc_cbCardData turn)"
  have pl: "plays rule (oc_cbCardData turn) ?t (oc_cbLogicValue turn)" using t by (simp add: played_def)
  have same: "yields (answer_same d turn) (good rule d turn)" if "?t = CT_SINGLE \<or> ?t = CT_DOUBLE \<or> ?t = CT_THREE"
    using answer_same_good [OF d t] that by auto
  have line: "yields (answer_line d turn) (good rule d turn)" if "?t = CT_SINGLE_LINE \<or> ?t = CT_DOUBLE_LINE \<or> ?t = CT_THREE_LINE"
    using answer_line_good [OF d, of turn 1] answer_line_good [OF d, of turn 2] answer_line_good [OF d, of turn 3] that
    by (auto simp: line_type_def)
  have ones: "yields (bindR (if ?n = 4 \<and> IsValidType rule CT_THREE_TAKE_ONE 0 then answer_three bFourTake [0, 1, 2] 1 CT_THREE_TAKE_ONE (grouped d) turn else Inr [])
      (\<lambda>xs. bindR (if ?n > 4 then answer_plane_ones rule d (grouped d) turn else Inr []) (\<lambda>ys. Inr (xs @ ys)))) (good rule d turn)"
    if ty: "?t = CT_THREE_TAKE_ONE"
  proof -
    obtain m where "?n = 4 * m" using pl ty unfolding plays_def CT_defs by auto
    then show ?thesis
      using ty answer_plane_ones_good [OF d] answer_three_good [OF d, of turn CT_THREE_TAKE_ONE 1 rule "[0, 1, 2]" bFourTake]
      by (intro yields_append yields_if) auto
  qed
  have twos: "yields (bindR (if ?n = 5 then answer_three bFourTake [1, 2] 2 CT_THREE_TAKE_TWO (grouped d) turn else Inr [])
      (\<lambda>xs. bindR (if ?n > 5 then answer_plane_twos d (grouped d) turn else Inr []) (\<lambda>ys. Inr (xs @ ys)))) (good rule d turn)"
    if ty: "?t = CT_THREE_TAKE_TWO"
  proof -
    obtain m where m: "?n = 5 * m" "IsValidType rule CT_THREE_TAKE_TWO 0" using pl ty unfolding plays_def by (auto simp: CT_defs)
    then show ?thesis
      using ty answer_plane_twos_good [OF d _ m] answer_three_good [OF d, of turn CT_THREE_TAKE_TWO 2 rule "[1, 2]" bFourTake]
      by (intro yields_append yields_if) auto
  qed
  show ?thesis unfolding answer_kind_def Let_def by (intro yields_if yields_Nil) (use same line ones twos in auto)
qed

lemma rocket_play: "{0x41, 0x42} \<subseteq> set d \<Longrightarrow> chosen d [0x42, 0x41] \<and> plays rule [0x42, 0x41] CT_MISSILE_CARD 0x11"
  by (auto simp: chosen_def hand_def m_cbCardData_def plays_def CT_defs)

lemma is_rocketD: "is_rocket h \<Longrightarrow> {0x41, 0x42} \<subseteq> set h"
  using nth_mem [of 0 h] nth_mem [of 1 h] unfolding is_rocket_def
  by (metis Suc_1 Suc_le_lessD empty_subsetI insert_subset one_le_numeral order_less_le_trans zero_less_one)

lemma block_bomb:
  assumes "hand d" "i \<in> set (up 3 (grouped d))"
  shows "chosen d (block 3 i (grouped d)) \<and> plays rule (block 3 i (grouped d)) CT_BOMB_CARD (value_of (block 3 i (grouped d)))"
proof -
  obtain r where r: "block 3 i (grouped d) = grp d r" "cnt d r = 3 + 1" "value_of (block 3 i (grouped d)) = r"
    using block_cases [of 3 i d] assms(2) by auto
  have "take 4 (grp d r) = grp d r" using r(2) length_grp [of d r] by simp
  then show ?thesis using plays_group [OF assms(1), of 4 r rule] r by (simp add: same_type_def)
qed

lemma answer_bombs_good:
  assumes d: "sorted_hand_20 d" and h: "set h = set d"
  shows "yields (answer_bombs h d (grouped d) turn) (good rule d turn)"
proof -
  have hd: "hand d" using d by (simp add: sorted_hand_20_def)
  have "yields (let v = value_of (block 3 i (grouped d)) in if oc_cbCardType turn = CT_BOMB_CARD \<and> v \<le> oc_cbLogicValue turn then Inr []
      else one (out_card (block 3 i (grouped d)) CT_BOMB_CARD v)) (good rule d turn)"
    if "i \<in> set (up 3 (grouped d))" "oc_cbCardType turn \<noteq> CT_MISSILE_CARD" for i
    unfolding Let_def
  proof (intro yields_if yields_Nil)
    let ?b = "block 3 i (grouped d)"
    assume v: "\<not> (oc_cbCardType turn = CT_BOMB_CARD \<and> value_of ?b \<le> oc_cbLogicValue turn)"
    have b: "chosen d ?b" "plays rule ?b CT_BOMB_CARD (value_of ?b)" using block_bomb [OF hd that(1)] by blast+
    show "yields (one (out_card ?b CT_BOMB_CARD (value_of ?b))) (good rule d turn)"
      by (rule yields_one [OF out_card_ok [OF chosen_20 [OF d b(1)]]]) (use b v that(2) in \<open>auto simp: good_def\<close>)
  qed
  moreover have "yields (one (out_card [0x42, 0x41] CT_MISSILE_CARD 0x11)) (good rule d turn)"
    if "oc_cbCardType turn \<noteq> CT_MISSILE_CARD" "is_rocket h"
    by (rule yields_one [OF out_card_ok]) (use rocket_play [of d rule] is_rocketD [OF that(2)] that(1) h in \<open>auto simp: good_def\<close>)
  ultimately show ?thesis unfolding answer_bombs_def by (intro yields_append yields_if yields_collect yields_Nil) auto
qed

section \<open>Plays that break a bomb\<close>

lemma without_ok:
  assumes d: "sorted_hand_20 d" and x: "chosen d (oc_cbCardData x)"
  shows "\<exists>e n. without rule d x = Inr (x\<lparr>oc_cbCardData := e\<rparr>, n) \<and> mset e = mset (oc_cbCardData x)"
proof -
  let ?c = "oc_cbCardData x"
  have hd: "hand d" "length d \<le> 20" using d by (simp_all add: sorted_hand_20_def)
  obtain e where e: "SortCardList ?c ST_ORDER = Inr e" "mset e = mset ?c"
    using SortCardList_order [of ?c] chosen_20 [OF d x] by (auto simp: FULL_COUNT_def)
  have ce: "chosen d e" by (rule chosen_mset [OF x e(2)])
  have no0: "0 \<notin> set e" "0 \<notin> set d" using zero_not_hand ce hd(1) by (auto simp: chosen_def)
  have len: "length e \<le> length d" by (rule chosen_length [OF hd(1) ce])
  have "mset e \<subseteq># mset d"
    using ce hd(1) by (simp add: chosen_def hand_def mset_set_set [symmetric] msubset_mset_set_iff)
  then have rm: "RemoveCard e d = (True, fold remove1 e d @ replicate (length e) 0)"
    using RemoveCard_eq [OF no0 len] hd(2) by (simp add: FULL_COUNT_def)
  have f: "fold remove1 e d = filter (\<lambda>c. c \<notin> set e) d" using fold_remove1_distinct [of d e] hd(1) by (simp add: hand_def)
  have "length (filter (\<lambda>c. c \<notin> set e) d) = card (set d - set e)"
    using hd(1) distinct_card [of "filter (\<lambda>c. c \<notin> set e) d"] by (simp add: hand_def set_diff_eq)
  also have "\<dots> = length d - length e" using ce hd(1) by (simp add: card_Diff_subset chosen_def hand_def distinct_card)
  finally have tk: "take (length d - length e) (fold remove1 e d @ replicate (length e) 0) = filter (\<lambda>c. c \<notin> set e) d" unfolding f by simp
  have "hand (filter (\<lambda>c. c \<notin> set e) d)" "length (filter (\<lambda>c. c \<notin> set e) d) \<le> 20"
    using hd by (auto simp: hand_def intro: le_trans [OF length_filter_le])
  then obtain r where "AnalyseOutCard rule (filter (\<lambda>c. c \<notin> set e) d) = Inr r" using AnalyseOutCard_hand by blast
  then have "without rule d x = Inr (x\<lparr>oc_cbCardData := e\<rparr>, length (SearchBombCard r))" unfolding without_def e(1) bindR_Inr rm prod.case tk by simp
  then show ?thesis using e(2) by blast
qed

lemma bomb_filter_ok:
  assumes d: "sorted_hand_20 d" and xs: "\<forall>x \<in> set xs. P x" and P: "\<And>x. P x \<Longrightarrow> chosen d (oc_cbCardData x)"
    "\<And>x e. P x \<Longrightarrow> mset e = mset (oc_cbCardData x) \<Longrightarrow> P (x\<lparr>oc_cbCardData := e\<rparr>)"
  shows "\<exists>pre b post. bomb_filter rule d n bFixedBomb xs = Inr (pre, b, post) \<and> (\<forall>x \<in> set pre \<union> set post. P x)"
  using xs
proof (induction xs)
  case (Cons x xs)
  then obtain pre b post where IH: "bomb_filter rule d n bFixedBomb xs = Inr (pre, b, post)" "\<forall>x \<in> set pre \<union> set post. P x" by auto
  obtain e n2 where e: "without rule d x = Inr (x\<lparr>oc_cbCardData := e\<rparr>, n2)" "mset e = mset (oc_cbCardData x)"
    using without_ok [OF d P(1)] Cons.prems by fastforce
  have "P (x\<lparr>oc_cbCardData := e\<rparr>)" using P(2) Cons.prems e(2) by simp
  then show ?case using IH e Cons.prems by auto
qed auto

lemma add_bombs_ok:
  assumes d: "sorted_hand_20 d" and xs: "\<forall>x \<in> set xs. good rule d turn x" "\<forall>x \<in> set bs. good rule d turn x"
  shows "yields (add_bombs rule d bFixedBomb bs xs) (good rule d turn)"
proof -
  obtain pre b post where f: "bomb_filter rule d (length bs) bFixedBomb xs = Inr (pre, b, post)" "\<forall>x \<in> set pre \<union> set post. good rule d turn x"
    using bomb_filter_ok [OF d xs(1)] good_mset by (metis good_def)
  have "good rule d turn x" if "x \<in> set (concat (map (\<lambda>i. replicate (i + 1) (bs ! i)) [0..<length bs]))" for x
    using that xs(2) by auto
  then show ?thesis using f xs by (auto simp: add_bombs_def yields_def)
qed

section \<open>The search\<close>

lemma sorted_hand_of:
  assumes "hand h" "length h \<le> 20"
  obtains d where "SortCardList h ST_ORDER = Inr d" "sorted_hand_20 d" "mset d = mset h"
proof -
  obtain d where "SortCardList h ST_ORDER = Inr d" "mset d = mset h" "sorted_wrt card_ge d"
    using SortCardList_order [of h] assms(2) by (auto simp: FULL_COUNT_def)
  moreover from this(2) have "hand d" "length d = length h" using hand_mset [OF assms(1)] mset_eq_length by blast+
  ultimately show ?thesis using that assms(2) by (auto simp: sorted_hand_20_def)
qed

text \<open>
  C35. What a player may answer: for every hand and every play of another player
  \<^verbatim>\<open>SimplySearchResult\<close> ends without an error and offers passing and otherwise only sets of
  cards of the hand that are plays of the type given and beat that play.
\<close>

theorem answers_beat:
  assumes "hand h" "length h \<le> 20" "h \<noteq> []" "hand (oc_cbCardData turn)" "length (oc_cbCardData turn) \<le> 20"
    "plays rule (oc_cbCardData turn) (oc_cbCardType turn) (oc_cbLogicValue turn)"
  shows "\<exists>xs. SimplySearchResult sort_value rule h turn bFourTake bFixedBomb = Inr (xs @ [no_play]) \<and>
    (\<forall>x \<in> set xs. distinct (oc_cbCardData x) \<and> set (oc_cbCardData x) \<subseteq> set h \<and>
       plays rule (oc_cbCardData x) (oc_cbCardType x) (oc_cbLogicValue x) \<and> beats rule (oc_cbCardData turn) (oc_cbCardData x))"
proof -
  obtain d where d: "SortCardList h ST_ORDER = Inr d" "sorted_hand_20 d" "mset d = mset h" using sorted_hand_of [OF assms(1,2)] by blast
  have h: "set h = set d" by (rule mset_eq_setD [OF d(3) [symmetric]])
  have t: "played rule turn" using assms by (simp add: played_def)
  have ne: "oc_cbCardType turn \<noteq> CT_ERROR" using plays_type [OF assms(4,6)] by simp
  obtain xs where xs: "answer_kind rule d (grouped d) turn bFourTake = Inr xs" "\<forall>x \<in> set xs. good rule d turn x"
    using answer_kind_good [OF d(2) t, of bFourTake] by (auto simp: yields_def)
  obtain bs where bs: "answer_bombs h d (grouped d) turn = Inr bs" "\<forall>x \<in> set bs. good rule d turn x"
    using answer_bombs_good [OF d(2) h, of turn rule] by (auto simp: yields_def)
  obtain ys where ys: "add_bombs rule d bFixedBomb bs xs = Inr ys" "\<forall>x \<in> set ys. good rule d turn x"
    using add_bombs_ok [OF d(2) xs(2) bs(2), of bFixedBomb] by (auto simp: yields_def)
  have "SimplySearchResult sort_value rule h turn bFourTake bFixedBomb = Inr (ys @ [no_play])"
    using assms(2,3) ne d(1) analysed [OF d(2)] xs(1) bs(1) ys(1) by (simp add: SimplySearchResult_def room_ok answers_def)
  moreover have "distinct (oc_cbCardData x) \<and> set (oc_cbCardData x) \<subseteq> set h \<and> plays rule (oc_cbCardData x) (oc_cbCardType x) (oc_cbLogicValue x) \<and>
      beats rule (oc_cbCardData turn) (oc_cbCardData x)" if "x \<in> set ys" for x
    using good_beats [OF t] ys(2) that h by (auto simp: good_def chosen_def hand_def)
  ultimately show ?thesis by blast
qed

definition sample_turn :: tagOutCard where
  "sample_turn = \<lparr>oc_cbCardData = [0x03], oc_cbCardType = CT_SINGLE, oc_cbLogicValue = 3\<rparr>"

theorem answers_beat_witness:
  "\<exists>xs. SimplySearchResult id 0 [0x42, 0x41, 0x05] sample_turn False False = Inr (xs @ [no_play]) \<and> length xs = 4 \<and>
     (\<forall>x \<in> set xs. beats 0 [0x03] (oc_cbCardData x))"
proof -
  have "list_all (\<lambda>c. c \<in> set m_cbCardData) [0x42, 0x41, 0x05, 0x03]" by code_simp
  then have h: "hand [0x42, 0x41, 0x05]" "hand (oc_cbCardData sample_turn)" by (auto simp: hand_def sample_turn_def)
  have "GetCardLogicValue 0x03 = 3" by code_simp
  then have p: "plays 0 (oc_cbCardData sample_turn) (oc_cbCardType sample_turn) (oc_cbLogicValue sample_turn)"
    by (simp add: sample_turn_def plays_def)
  obtain xs where xs: "SimplySearchResult id 0 [0x42, 0x41, 0x05] sample_turn False False = Inr (xs @ [no_play])"
    "\<forall>x \<in> set xs. beats 0 (oc_cbCardData sample_turn) (oc_cbCardData x)"
    using answers_beat [OF h(1) _ _ h(2) _ p, of id False False] by (auto simp: sample_turn_def)
  have "(case SimplySearchResult id 0 [0x42, 0x41, 0x05] sample_turn False False of Inr xs \<Rightarrow> length xs | Inl _ \<Rightarrow> 0) = 5" by code_simp
  then show ?thesis using xs by (simp add: sample_turn_def)
qed

end
