(* ===== verification/Land_Leads.thy ===== *)
theory Land_Leads
  imports Land_Answers
begin

text \<open>
  What \<^verbatim>\<open>SimplySearchResult\<close> offers the first player of a trick: plays of the game made of cards
  of the hand, and always at least one.
\<close>

definition fair :: "int \<Rightarrow> card list \<Rightarrow> tagOutCard \<Rightarrow> bool" where
  "fair rule d x \<longleftrightarrow> chosen d (oc_cbCardData x) \<and> (\<exists>v. plays rule (oc_cbCardData x) (oc_cbCardType x) v)"

lemma fair_mset: "fair rule d x \<Longrightarrow> mset e = mset (oc_cbCardData x) \<Longrightarrow> fair rule d (x\<lparr>oc_cbCardData := e\<rparr>)"
  using chosen_mset [of d "oc_cbCardData x" e] plays_mset [of e "oc_cbCardData x"] by (auto simp: fair_def)

lemma fair_out:
  assumes "sorted_hand_20 d" "chosen d c" "plays rule c t w"
  shows "yields (one (out_card c t v)) (fair rule d)"
  by (rule yields_one [OF out_card_ok [OF chosen_20 [OF assms(1,2)]]]) (use assms in \<open>auto simp: fair_def\<close>)

lemma fair_sorted_out:
  assumes "sorted_hand_20 d" "chosen d c" "plays rule c t w"
  shows "yields (one (sorted_out c t v)) (fair rule d)"
proof -
  obtain e where e: "sorted_out c t v = Inr \<lparr>oc_cbCardData = e, oc_cbCardType = t, oc_cbLogicValue = v\<rparr>" "mset e = mset c"
    using sorted_out_ok [OF chosen_20 [OF assms(1,2)]] by metis
  show ?thesis by (rule yields_one [OF e(1)]) (use chosen_mset [OF assms(2) e(2)] plays_mset [OF e(2)] assms(3) in \<open>auto simp: fair_def\<close>)
qed

lemma one_out:
  "sorted_hand_20 d \<Longrightarrow> chosen d c \<Longrightarrow> one (out_card c t v) = Inr [\<lparr>oc_cbCardData = c, oc_cbCardType = t, oc_cbLogicValue = v\<rparr>]"
  using chosen_20 [of d c] by (simp add: one_def out_card_ok)

lemma yields_append3:
  "yields m P \<Longrightarrow> yields n P \<Longrightarrow> yields k P \<Longrightarrow>
   yields (bindR m (\<lambda>xs. bindR n (\<lambda>ys. bindR k (\<lambda>zs. Inr (xs @ ys @ zs))))) P"
  by (auto simp: yields_def)

section \<open>Bombs, the whole hand, rows\<close>

lemma lead_bombs_fair:
  assumes d: "sorted_hand_20 d" and h: "set h = set d"
  shows "yields (lead_bombs h (grouped d)) (fair rule d)"
proof -
  have hd: "hand d" using d by (simp add: sorted_hand_20_def)
  have "yields (one (out_card [0x42, 0x41] CT_MISSILE_CARD 0)) (fair rule d)" if "is_rocket h"
    using fair_out [OF d] rocket_play [of d rule] is_rocketD [OF that] h by auto
  moreover have "yields (one (out_card (block 3 i (grouped d)) CT_BOMB_CARD (value_of (block 3 i (grouped d))))) (fair rule d)"
    if "i \<in> set (up 3 (grouped d))" for i
    using fair_out [OF d] block_bomb [OF hd that] by blast
  ultimately show ?thesis unfolding lead_bombs_def by (intro yields_append yields_if yields_collect yields_Nil)
qed

lemma lead_all_fair:
  assumes d: "sorted_hand_20 d"
  shows "yields (lead_all rule d) (fair rule d)"
proof -
  obtain r where r: "AnalyseOutCard rule d = Inr r"
    "\<forall>t v. t \<noteq> CT_ERROR \<longrightarrow> (ar_cbCardType r = t \<and> ar_cbLogicValue r = v \<longleftrightarrow> plays rule d t v)"
    using AnalyseOutCard_hand [of d rule] d by (auto simp: sorted_hand_20_def)
  have "yields (one (out_card d (ar_cbCardType r) (ar_cbLogicValue r))) (fair rule d)" if "ar_cbCardType r \<noteq> CT_ERROR"
    by (rule fair_out [OF d]) (use r(2) that d in \<open>auto simp: chosen_def sorted_hand_20_def\<close>)
  then show ?thesis unfolding lead_all_def r(1) bindR_Inr by (intro yields_if yields_Nil) auto
qed

lemma lead_line_fair:
  assumes d: "sorted_hand_20 d" and k: "k \<in> {1, 2, 3}"
  shows "yields (lead_line d n k (line_type k)) (fair rule d)"
proof -
  obtain ps where ps: "SearchAllLink d k = Inr (map (link d k) ps)"
    "\<And>p. p \<in> set ps \<Longrightarrow> min_link k \<le> fst p \<and> row (\<lambda>r. r < 15 \<and> k \<le> cnt d r) p"
    using links [OF d k] by blast
  have "yields (one (out_card (lk_cbCardData l) (line_type k) (lk_cbLogicValue l))) (fair rule d)" if "l \<in> set (map (link d k) ps)" for l
  proof -
    obtain p where "p \<in> set ps" "l = link d k p" using \<open>l \<in> set (map (link d k) ps)\<close> by auto
    then show ?thesis
      using fair_out [OF d, of "lk_cbCardData l" rule "line_type k" "lk_cbLogicValue l"] plays_link [OF _ k, of d p rule] ps(2) [of p] d
      by (simp add: link_def sorted_hand_20_def)
  qed
  then show ?thesis unfolding lead_line_def ps(1) bindR_Inr by (intro yields_if yields_Nil yields_collect) auto
qed

section \<open>Four cards that carry\<close>

lemma last_groups:
  assumes "\<forall>r \<in> set rs. length (f r) = k" "n \<le> length rs"
  shows "drop (k * (length rs - n)) (concat (map f rs)) = concat (map f (drop (length rs - n) rs))"
  using assms
proof (induction rs)
  case (Cons r rs)
  show ?case
  proof (cases "n = Suc (length rs)")
    case False
    then have "length (r # rs) - n = Suc (length rs - n)" using Cons.prems(2) by simp
    then show ?thesis using Cons False by simp
  qed simp
qed simp

lemma carried_groups:
  assumes "k \<in> {1, 2}" "2 \<le> length (ranks_with k d)"
  defines "rs \<equiv> drop (length (ranks_with k d) - 2) (ranks_with k d)"
  shows "take (2 * k) (drop (k * (cbBlockCount (grouped d) ! (k - 1) - 2)) (ar_cbCardData (grouped d) ! (k - 1))) = pick d (map (\<lambda>r. (r, k)) rs)"
    "distinct rs" "length rs = 2" "\<forall>r \<in> set rs. cnt d r = k"
proof -
  have k: "k - 1 < 4" "k - 1 + 1 = k" using assms(1) by auto
  show rs: "distinct rs" "length rs = 2" using assms(2) by (simp_all add: rs_def)
  show c: "\<forall>r \<in> set rs. cnt d r = k"
  proof
    fix r assume "r \<in> set rs"
    then have "r \<in> set (ranks_with k d)" unfolding rs_def by (rule in_set_dropD)
    then show "cnt d r = k" by (simp add: ranks_with_def)
  qed
  have all: "\<forall>r \<in> set (ranks_with k d). length (grp d r) = k" by (auto simp: ranks_with_def length_grp)
  have eq: "concat (map (grp d) rs) = pick d (map (\<lambda>r. (r, k)) rs)" using c by (induction rs) (simp_all add: length_grp)
  have "length (concat (map (grp d) rs)) = 2 * k" using c rs(2) by (auto simp: length_concat comp_def length_grp sum_list_triv cong: map_cong)
  then show "take (2 * k) (drop (k * (cbBlockCount (grouped d) ! (k - 1) - 2)) (ar_cbCardData (grouped d) ! (k - 1))) = pick d (map (\<lambda>r. (r, k)) rs)"
    using last_groups [OF all assms(2)] eq k by (simp add: rs_def)
qed

lemma four_carry:
  assumes d: "hand d" and k: "k \<in> {1, 2}" "2 \<le> length (ranks_with k d)" and i: "i \<in> set (up 3 (grouped d))"
  defines "c \<equiv> block 3 i (grouped d) @ take (2 * k) (drop (k * (cbBlockCount (grouped d) ! (k - 1) - 2)) (ar_cbCardData (grouped d) ! (k - 1)))"
  shows "chosen d c" "k = 2 \<Longrightarrow> plays rule c CT_FOUR_TAKE_TWO (value_of (block 3 i (grouped d)))"
proof -
  define rs where "rs = drop (length (ranks_with k d) - 2) (ranks_with k d)"
  note rs = carried_groups [OF k, folded rs_def]
  obtain v where v: "block 3 i (grouped d) = grp d v" "cnt d v = 3 + 1" "value_of (block 3 i (grouped d)) = v"
    using block_cases [of 3 i d] i by auto
  let ?ps = "(v, 4) # map (\<lambda>r. (r, k)) rs"
  have out: "v \<notin> set rs" using rs(4) v(2) k(1) by auto
  have p: "pickable d ?ps" using rs out v(2) by (auto simp: pickable_def comp_def)
  have c: "c = pick d ?ps" unfolding c_def rs(1) v(1) using v(2) length_grp [of d v] by simp
  show ch: "chosen d c" unfolding c by (rule chosen_pick [OF d conjunct1 [OF p [unfolded pickable_def]]])
  assume k2: "k = 2"
  have cnt: "cnt c r = (if r = v then 4 else if r \<in> set rs then 2 else 0)" for r
    unfolding c cnt_pick [OF p] using k2 out by (simp add: map_of_map_restrict restrict_map_def)
  have "{r. cnt c r = 2} = set rs" using out by (auto simp: cnt)
  then have "pairs c = 2" using rs(2,3) by (simp add: pairs_def distinct_card)
  moreover have "length c = 8" unfolding c using length_pick [OF p] rs(3) k2 by (simp add: comp_def sum_list_triv)
  moreover have "cnt c 16 = 0" using cnt_jokers(4) [of c] ch cnt [of 16] by (auto simp: chosen_def split: if_splits)
  then have "\<not> (2 < length c \<and> 0x41 \<in> set c \<and> 0x42 \<in> set c)" using no_jokers ch by (simp add: chosen_def)
  ultimately show "plays rule c CT_FOUR_TAKE_TWO (value_of (block 3 i (grouped d)))" using cnt v(3) unfolding plays_def CT_defs by auto
qed

lemma lead_four_one_fair:
  assumes d: "sorted_hand_20 d"
  shows "yields (lead_four_one rule bFourTake d (grouped d)) (fair rule d)"
proof -
  have hd: "hand d" using d by (simp add: sorted_hand_20_def)
  have "yields (bindR (out_card (block 3 i (grouped d) @ take 2 (drop (cbBlockCount (grouped d) ! 0 - 2) (ar_cbCardData (grouped d) ! 0))) CT_FOUR_TAKE_ONE v)
      (\<lambda>x. bindR (GetCardType rule (oc_cbCardData x)) (\<lambda>t. Inr (if t = CT_FOUR_TAKE_ONE then [x] else [])))) (fair rule d)"
    if i: "i \<in> set (up 3 (grouped d))" and two: "2 \<le> cbBlockCount (grouped d) ! 0" for i v
  proof -
    let ?c = "block 3 i (grouped d) @ take 2 (drop (cbBlockCount (grouped d) ! 0 - 2) (ar_cbCardData (grouped d) ! 0))"
    have ch: "chosen d ?c" using four_carry(1) [OF hd, of 1 i] i two by simp
    then have "hand ?c" "length ?c \<le> 20" using chosen_20 [OF d ch] by (simp_all add: chosen_def)
    then obtain r where r: "AnalyseOutCard rule ?c = Inr r"
      "\<forall>t v. t \<noteq> CT_ERROR \<longrightarrow> (ar_cbCardType r = t \<and> ar_cbLogicValue r = v \<longleftrightarrow> plays rule ?c t v)"
      using AnalyseOutCard_hand by blast
    have "CT_FOUR_TAKE_ONE \<noteq> CT_ERROR" by (simp add: CT_defs)
    then have "plays rule ?c CT_FOUR_TAKE_ONE (ar_cbLogicValue r)" if "ar_cbCardType r = CT_FOUR_TAKE_ONE" using r(2) that by blast
    then have "yields (Inr (if ar_cbCardType r = CT_FOUR_TAKE_ONE then [\<lparr>oc_cbCardData = ?c, oc_cbCardType = CT_FOUR_TAKE_ONE, oc_cbLogicValue = v\<rparr>] else [])) (fair rule d)"
      using ch by (auto simp: yields_def fair_def)
    then show ?thesis unfolding out_card_ok [OF chosen_20 [OF d ch]] GetCardType_def bindR_Inr tagOutCard.select_convs r(1) .
  qed
  then show ?thesis unfolding lead_four_one_def by (intro yields_if yields_Nil yields_collect) auto
qed

lemma lead_four_two_fair:
  assumes d: "sorted_hand_20 d"
  shows "yields (lead_four_two rule bFourTake d (grouped d)) (fair rule d)"
proof -
  have hd: "hand d" using d by (simp add: sorted_hand_20_def)
  have "yields (one (out_card (block 3 i (grouped d) @ take 4 (drop (2 * (cbBlockCount (grouped d) ! 1 - 2)) (ar_cbCardData (grouped d) ! 1)))
      CT_FOUR_TAKE_TWO v)) (fair rule d)"
    if i: "i \<in> set (up 3 (grouped d))" and two: "2 \<le> cbBlockCount (grouped d) ! 1" for i v
  proof -
    have "2 \<le> length (ranks_with 2 d)" using two grouped_simps(1) [of 1 d] by (simp add: numeral_2_eq_2)
    note c = four_carry [OF hd _ this i]
    have eq: "(2::nat) - 1 = 1" "2 * (2::nat) = 4" by simp_all
    show ?thesis using fair_out [OF d c(1) c(2) [OF _ refl], of v rule] unfolding eq by simp
  qed
  then show ?thesis unfolding lead_four_two_def by (intro yields_if yields_Nil yields_collect) auto
qed

section \<open>Rows of triplets\<close>

lemma lead_plane_fair:
  assumes d: "sorted_hand_20 d" and rule: "IsValidType rule CT_THREE_TAKE_TWO 0"
    and p: "min_link 3 \<le> fst p" "row (\<lambda>r. r < 15 \<and> 3 \<le> cnt d r) p" "l = link d 3 p"
  shows "yields (lead_plane_twos rule d (grouped d) l) (fair rule d)"
    "\<exists>ones. lead_plane_ones d (grouped d) l = Inr ones \<and> (\<forall>xs. ones = Some xs \<longrightarrow> (\<forall>x \<in> set xs. fair rule d x))"
proof -
  have hd: "hand d" using d by (simp add: sorted_hand_20_def)
  let ?m = "lk_cbCardCount l div 3" and ?v = "lk_cbLogicValue l"
  have mv: "?m = fst p" "?v = snd p" "lk_cbCardData l = pick d (row_picks 3 (?m, ?v))" using p(3) by (simp_all add: link_def)
  have tr: "triplets d ?m ?v" unfolding mv(1,2) by (rule row_triplets [OF p(1,2)])
  have ks: "distinct [1::nat]" "set [1::nat] \<subseteq> {1, 2, 3}" by simp_all
  have room: "room (plane_pairs [1] (grouped d) ?v ?m) = Inr (plane_pairs [1] (grouped d) ?v ?m)"
    by (rule room_ok) (rule chosen_20 [OF d plane_pairs_chosen [OF hd ks]])
  show "yields (lead_plane_twos rule d (grouped d) l) (fair rule d)"
    unfolding lead_plane_twos_def Let_def room bindR_Inr
  proof (intro yields_if yields_Nil)
    assume len: "?m \<le> length (plane_pairs [1] (grouped d) ?v ?m) div 2"
    note play = plane_pairs_play [OF hd tr ks rule len, folded mv(3)]
    show "yields (one (sorted_out (lk_cbCardData l @ drop (length (plane_pairs [1] (grouped d) ?v ?m) - 2 * ?m) (plane_pairs [1] (grouped d) ?v ?m))
        CT_THREE_TAKE_TWO (value_of (lk_cbCardData l)))) (fair rule d)"
      using fair_sorted_out [OF d] play by blast
  qed
  let ?s = "lead_singles (grouped d) ?v ?m"
  have car: "carried d ?m ?v ?s" by (rule lead_singles_carried [OF hd])
  then have s20: "length ?s \<le> 20" using chosen_20 [OF d] by (simp add: carried_def)
  obtain e where e: "SortCardList ?s ST_ORDER = Inr e" "mset e = mset ?s" using SortCardList_order [of ?s] s20 by (auto simp: FULL_COUNT_def)
  let ?t = "drop (length e - ?m) e"
  let ?c = "lk_cbCardData l @ ?t"
  have ct: "carried d ?m ?v ?t" by (rule carried_tail [OF car e(2)])
  have s': "chosen d ?t" "\<forall>c \<in> set ?t. \<not> in_row ?v ?m (GetCardLogicValue c)" "edges ?t ?m ?v"
    using ct carried_edges [OF ct tr] by (simp_all add: carried_def)
  have ch: "chosen d ?c" using wings_carried [OF hd tr s'] mv(3) by simp
  let ?w = "value_of (lk_cbCardData l)"
  obtain f where f: "sorted_out ?c CT_THREE_TAKE_ONE ?w = Inr \<lparr>oc_cbCardData = f, oc_cbCardType = CT_THREE_TAKE_ONE, oc_cbLogicValue = ?w\<rparr>"
    "mset f = mset ?c" "sorted_wrt card_ge f"
    using sorted_out_ok [OF chosen_20 [OF d ch], of CT_THREE_TAKE_ONE] by metis
  have "fair rule d \<lparr>oc_cbCardData = f, oc_cbCardType = CT_THREE_TAKE_ONE, oc_cbLogicValue = ?w\<rparr>"
    if "\<not> is_rocket f" "?m \<le> length ?s"
  proof -
    have hf: "hand f" using chosen_mset [OF ch f(2)] by (simp add: chosen_def)
    have "\<not> {0x41, 0x42} \<subseteq> set ?c"
      using joker_head [OF hf f(3)] that(1) mset_eq_setD [OF f(2)] unfolding is_rocket_def by metis
    then have j: "\<not> (2 < length ?c \<and> 0x41 \<in> set ?c \<and> 0x42 \<in> set ?c)" by blast
    have "length ?t = ?m" using that(2) mset_eq_length [OF e(2)] by simp
    from plane_ones [OF hd tr s' this j] have "plays rule ?c CT_THREE_TAKE_ONE ?v" using mv(3) by simp
    then show ?thesis using chosen_mset [OF ch f(2)] plays_mset [OF f(2)] by (auto simp: fair_def)
  qed
  then show "\<exists>ones. lead_plane_ones d (grouped d) l = Inr ones \<and> (\<forall>xs. ones = Some xs \<longrightarrow> (\<forall>x \<in> set xs. fair rule d x))"
    unfolding lead_plane_ones_def Let_def room_ok [OF s20] bindR_Inr e(1) f(1) by auto
qed

lemma lead_planes_fair:
  assumes d: "sorted_hand_20 d" and rule: "IsValidType rule CT_THREE_TAKE_TWO 0"
  shows "yields (lead_planes rule d (grouped d)) (fair rule d)"
proof -
  have hd: "hand d" using d by (simp add: sorted_hand_20_def)
  obtain ps where ps: "SearchAllLink d 3 = Inr (map (link d 3) ps)"
    "\<And>p. p \<in> set ps \<Longrightarrow> min_link 3 \<le> fst p \<and> row (\<lambda>r. r < 15 \<and> 3 \<le> cnt d r) p"
    using links [OF d, of 3] by auto
  have "yields (lead_plane rule d (grouped d) l) (fair rule d)" if "l \<in> set (map (link d 3) ps)" for l
  proof -
    obtain p where "p \<in> set ps" "l = link d 3 p" using \<open>l \<in> set (map (link d 3) ps)\<close> by auto
    then have p: "min_link 3 \<le> fst p" "row (\<lambda>r. r < 15 \<and> 3 \<le> cnt d r) p" "l = link d 3 p" using ps(2) by auto
    obtain twos where twos: "lead_plane_twos rule d (grouped d) l = Inr twos" "\<forall>x \<in> set twos. fair rule d x"
      using lead_plane_fair(1) [OF d rule p] by (auto simp: yields_def)
    obtain ones where ones: "lead_plane_ones d (grouped d) l = Inr ones" "\<forall>xs. ones = Some xs \<longrightarrow> (\<forall>x \<in> set xs. fair rule d x)"
      using lead_plane_fair(2) [OF d rule p] by blast
    have lk: "chosen d (lk_cbCardData l)" "plays rule (lk_cbCardData l) CT_THREE_LINE (snd p)"
        "take (lk_cbCardCount l div 3 * 3) (lk_cbCardData l) = lk_cbCardData l"
      using plays_link [OF hd _ p(1,2), of rule] by (simp_all add: p(3) link_def line_type_def)
    have "yields (if length d \<ge> lk_cbCardCount l div 3 * 3 \<and> IsValidType rule CT_THREE (length d)
        then one (out_card (take (lk_cbCardCount l div 3 * 3) (lk_cbCardData l)) CT_THREE_LINE (lk_cbLogicValue l)) else Inr []) (fair rule d)"
      unfolding lk(3) by (intro yields_if yields_Nil fair_out [OF d lk(1,2)])
    then obtain line where line: "(if length d \<ge> lk_cbCardCount l div 3 * 3 \<and> IsValidType rule CT_THREE (length d)
        then one (out_card (take (lk_cbCardCount l div 3 * 3) (lk_cbCardData l)) CT_THREE_LINE (lk_cbLogicValue l)) else Inr []) = Inr line"
      "\<forall>x \<in> set line. fair rule d x"
      unfolding yields_def by blast
    show ?thesis unfolding lead_plane_def twos(1) ones(1) Let_def line(1) bindR_Inr
      using twos(2) ones(2) line(2) by (cases ones) (auto simp: yields_def)
  qed
  then show ?thesis unfolding lead_planes_def ps(1) bindR_Inr by (intro yields_if yields_Nil yields_collect) auto
qed

section \<open>Small plays\<close>

lemma lead_three_fair:
  assumes d: "sorted_hand_20 d" and j: "j \<in> set (down 2 (grouped d))"
  shows "yields (lead_three rule d (grouped d) j) (fair rule d)"
proof -
  have hd: "hand d" using d by (simp add: sorted_hand_20_def)
  obtain r where r: "block 2 j (grouped d) = grp d r" "cnt d r = 2 + 1" "value_of (block 2 j (grouped d)) = r"
    using block_cases [of 2 j d] j by auto
  have three: "grp d r = take 3 (grp d r)" using r(2) length_grp [of d r] by simp
  have "yields (one (sorted_out (grp d r @ take 1 (block 0 m (grouped d))) CT_THREE_TAKE_ONE r)) (fair rule d)" if m: "m \<in> set (down 0 (grouped d))" for m
  proof -
    obtain w where w: "block 0 m (grouped d) = grp d w" "cnt d w = 0 + 1" using block_cases [of 0 m d] m by auto
    have "w \<noteq> r" using w(2) r(2) by auto
    from three_one [OF hd _ _ this, folded three] have "chosen d (grp d r @ take 1 (grp d w)) \<and> plays rule (grp d r @ take 1 (grp d w)) CT_THREE_TAKE_ONE r"
      using r(2) w(2) by simp
    then show ?thesis unfolding w(1) using fair_sorted_out [OF d] by blast
  qed
  moreover have "yields (one (sorted_out (grp d r @ block 1 m (grouped d)) CT_THREE_TAKE_TWO r)) (fair rule d)"
    if m: "m \<in> set (down 1 (grouped d))" "IsValidType rule CT_THREE_TAKE_TWO 0" for m
  proof -
    obtain w where w: "block 1 m (grouped d) = grp d w" "cnt d w = 1 + 1" using block_cases [of 1 m d] m by auto
    have "w \<noteq> r" using w(2) r(2) by auto
    from three_two [OF hd _ _ this m(2), folded three]
    have "chosen d (grp d r @ take 2 (grp d w)) \<and> plays rule (grp d r @ take 2 (grp d w)) CT_THREE_TAKE_TWO r"
      using r(2) w(2) by simp
    moreover have "take 2 (grp d w) = grp d w" using w(2) length_grp [of d w] by simp
    ultimately show ?thesis unfolding w(1) using fair_sorted_out [OF d] by metis
  qed
  moreover have "yields (one (out_card (grp d r) CT_THREE r)) (fair rule d)"
    using fair_out [OF d, of "grp d r" rule CT_THREE r r] plays_group [OF hd, of 3 r rule] r(2) three by (simp add: same_type_def)
  ultimately show ?thesis
    unfolding lead_three_def Let_def r(1) value_of_grp
    using r(1,3) by (intro yields_append3 yields_if yields_collect yields_Nil) auto
qed

lemma lead_group_fair:
  assumes d: "sorted_hand_20 d" and n: "n \<in> {1, 2}" "n \<le> i + 1" "i < 4"
  shows "\<exists>xs. lead_group n (same_type n) i (grouped d) = Inr xs \<and> (\<forall>x \<in> set xs. fair rule d x) \<and> length xs = length (ranks_with (i + 1) d)"
proof -
  let ?b = "\<lambda>j. block i j (grouped d)"
  have hd: "hand d" using d by (simp add: sorted_hand_20_def)
  have p: "chosen d (take n (?b j)) \<and> plays rule (take n (?b j)) (same_type n) (value_of (?b j))" if j: "j \<in> set (down i (grouped d))" for j
  proof -
    obtain r where "?b j = grp d r" "cnt d r = i + 1" "value_of (?b j) = r" using block_cases [OF n(3), of j d] j by auto
    then show ?thesis using plays_group [OF hd, of n r rule] n by auto
  qed
  have "lead_group n (same_type n) i (grouped d) =
      Inr (concat (map (\<lambda>j. [\<lparr>oc_cbCardData = take n (?b j), oc_cbCardType = same_type n, oc_cbLogicValue = value_of (?b j)\<rparr>]) (down i (grouped d))))"
    unfolding lead_group_def by (rule collectR_all, rule one_out [OF d]) (use p in blast)
  moreover have "length (down i (grouped d)) = length (ranks_with (i + 1) d)" using n(3) by (simp add: down_def up_def)
  ultimately show ?thesis using p by (auto simp: fair_def)
qed

lemma lead_small_fair:
  assumes d: "sorted_hand_20 d"
  shows "\<exists>xs. lead_small rule d (grouped d) = Inr xs \<and> (\<forall>x \<in> set xs. fair rule d x) \<and> (ranks_with 1 d \<noteq> [] \<longrightarrow> xs \<noteq> [])"
proof -
  obtain singles where s: "lead_group 1 CT_SINGLE 0 (grouped d) = Inr singles" "\<forall>x \<in> set singles. fair rule d x"
      "length singles = length (ranks_with (0 + 1) d)"
    using lead_group_fair [OF d, of 1 0 rule] by (auto simp: same_type_def)
  have "yields (if length d \<ge> 3 then collectR (lead_three rule d (grouped d)) (down 2 (grouped d)) else Inr []) (fair rule d)"
    by (intro yields_if yields_collect yields_Nil lead_three_fair [OF d])
  then obtain ts where t: "(if length d \<ge> 3 then collectR (lead_three rule d (grouped d)) (down 2 (grouped d)) else Inr []) = Inr ts" "\<forall>x \<in> set ts. fair rule d x"
    unfolding yields_def by blast
  have "yields (if length d \<ge> 2 then lead_group 2 CT_DOUBLE 1 (grouped d) else Inr []) (fair rule d)"
    using lead_group_fair [OF d, of 2 1 rule] by (auto simp: same_type_def yields_def)
  then obtain ds where ds: "(if length d \<ge> 2 then lead_group 2 CT_DOUBLE 1 (grouped d) else Inr []) = Inr ds" "\<forall>x \<in> set ds. fair rule d x"
    unfolding yields_def by blast
  show ?thesis unfolding lead_small_def t(1) ds(1) s(1) bindR_Inr using t(2) ds(2) s(2,3) by auto
qed

lemma lead_broken_fair:
  assumes d: "sorted_hand_20 d"
  shows "\<exists>xs. lead_broken d (grouped d) = Inr xs \<and> (\<forall>x \<in> set xs. fair rule d x) \<and> (ranks_with 2 d \<noteq> [] \<or> ranks_with 3 d \<noteq> [] \<longrightarrow> xs \<noteq> [])"
proof -
  obtain ones where o: "lead_group 1 CT_SINGLE 1 (grouped d) = Inr ones" "\<forall>x \<in> set ones. fair rule d x" "length ones = length (ranks_with (1 + 1) d)"
    using lead_group_fair [OF d, of 1 1 rule] by (auto simp: same_type_def)
  obtain twos where t: "lead_group 1 CT_SINGLE 2 (grouped d) = Inr twos" "\<forall>x \<in> set twos. fair rule d x" "length twos = length (ranks_with (2 + 1) d)"
    using lead_group_fair [OF d, of 1 2 rule] by (auto simp: same_type_def)
  have "yields (if length d \<ge> 2 then lead_group 2 CT_DOUBLE 2 (grouped d) else Inr []) (fair rule d)"
    using lead_group_fair [OF d, of 2 2 rule] by (auto simp: same_type_def yields_def)
  then obtain ds where ds: "(if length d \<ge> 2 then lead_group 2 CT_DOUBLE 2 (grouped d) else Inr []) = Inr ds" "\<forall>x \<in> set ds. fair rule d x"
    unfolding yields_def by blast
  have "length ones = length (ranks_with 2 d)" "length twos = length (ranks_with 3 d)"
    using o(3) t(3) by (simp_all add: numeral_2_eq_2 numeral_3_eq_3)
  then show ?thesis unfolding lead_broken_def ds(1) collectR.simps o(1) t(1) bindR_Inr using o(2) t(2) ds(2) by auto
qed

lemma lead_bombs_some:
  assumes d: "sorted_hand_20 d" and h: "set h = set d" "length h = length d" "ranks_with 4 d \<noteq> []" and x: "lead_bombs h (grouped d) = Inr xs"
  shows "xs \<noteq> []"
proof -
  have hd: "hand d" using d by (simp add: sorted_hand_20_def)
  have u: "up 3 (grouped d) \<noteq> []" using h(3) by (simp add: up_def numeral_3_eq_3 eval_nat_numeral)
  have len: "4 \<le> length d" using length_ranks_with [OF hd] h(3) by (cases "ranks_with 4 d") auto
  have "collectR (\<lambda>i. one (out_card (block 3 i (grouped d)) CT_BOMB_CARD (value_of (block 3 i (grouped d))))) (up 3 (grouped d)) =
      Inr (concat (map (\<lambda>i. [\<lparr>oc_cbCardData = block 3 i (grouped d), oc_cbCardType = CT_BOMB_CARD, oc_cbLogicValue = value_of (block 3 i (grouped d))\<rparr>]) (up 3 (grouped d))))"
    by (rule collectR_all, rule one_out [OF d]) (use block_bomb [OF hd] in blast)
  then show ?thesis using x u len h(2) unfolding lead_bombs_def by (auto simp: res_simps)
qed

section \<open>The search for a first play\<close>

lemma some_group:
  assumes "hand d" "d \<noteq> []"
  shows "ranks_with 1 d \<noteq> [] \<or> ranks_with 2 d \<noteq> [] \<or> ranks_with 3 d \<noteq> [] \<or> ranks_with 4 d \<noteq> []"
  using length_ranks_with [OF assms(1)] assms(2) by auto

lemma lead_candidates:
  assumes d: "sorted_hand_20 d" "d \<noteq> []" and h: "set h = set d" "length h = length d"
    and rule: "IsValidType rule CT_THREE_TAKE_TWO 0" and srt: "\<forall>xs. mset (sort_value xs) = mset xs"
  obtains xs where "leads sort_value rule h d (grouped d) bFourTake bFixedBomb =
      (case xs of [] \<Rightarrow> Inr [] | x # _ \<Rightarrow>
         if bFixedBomb \<and> oc_cbCardType x \<ge> CT_BOMB_CARD
         then bindR (bomb_filter rule d (length (SearchBombCard (grouped d))) True xs) (\<lambda>(kept, _, _). Inr kept) else Inr xs)"
    "\<forall>x \<in> set xs. fair rule d x" "xs \<noteq> []"
proof -
  obtain bombs where 1: "lead_bombs h (grouped d) = Inr bombs" "\<forall>x \<in> set bombs. fair rule d x"
    using lead_bombs_fair [OF d(1) h(1)] unfolding yields_def by blast
  obtain whole where 2: "lead_all rule d = Inr whole" "\<forall>x \<in> set whole. fair rule d x"
    using lead_all_fair [OF d(1)] unfolding yields_def by blast
  obtain dl where 3: "lead_line d 6 2 CT_DOUBLE_LINE = Inr dl" "\<forall>x \<in> set dl. fair rule d x"
    using lead_line_fair [OF d(1), of 2 6 rule] unfolding yields_def line_type_def by auto
  obtain sl where 4: "lead_line d 5 1 CT_SINGLE_LINE = Inr sl" "\<forall>x \<in> set sl. fair rule d x"
    using lead_line_fair [OF d(1), of 1 5 rule] unfolding yields_def line_type_def by auto
  obtain f1 where 5: "lead_four_one rule bFourTake d (grouped d) = Inr f1" "\<forall>x \<in> set f1. fair rule d x"
    using lead_four_one_fair [OF d(1)] unfolding yields_def by blast
  obtain f2 where 6: "lead_four_two rule bFourTake d (grouped d) = Inr f2" "\<forall>x \<in> set f2. fair rule d x"
    using lead_four_two_fair [OF d(1)] unfolding yields_def by blast
  obtain pl where 7: "lead_planes rule d (grouped d) = Inr pl" "\<forall>x \<in> set pl. fair rule d x"
    using lead_planes_fair [OF d(1) rule] unfolding yields_def by blast
  obtain small where 8: "lead_small rule d (grouped d) = Inr small" "\<forall>x \<in> set small. fair rule d x" "ranks_with 1 d \<noteq> [] \<longrightarrow> small \<noteq> []"
    using lead_small_fair [OF d(1)] by blast
  obtain broken where 9: "lead_broken d (grouped d) = Inr broken" "\<forall>x \<in> set broken. fair rule d x"
      "ranks_with 2 d \<noteq> [] \<or> ranks_with 3 d \<noteq> [] \<longrightarrow> broken \<noteq> []"
    using lead_broken_fair [OF d(1)] by blast
  have srt': "set (sort_value small) = set small" "sort_value small = [] \<longleftrightarrow> small = []"
    using srt mset_eq_setD [of "sort_value small" small] by (auto simp: mset_eq_length simp flip: mset_zero_iff)
  define xs where "xs = bombs @ whole @ dl @ sl @ f1 @ f2 @ pl @ sort_value small @ broken"
  have "\<forall>x \<in> set xs. fair rule d x" using 1 2 3 4 5 6 7 8 9 srt'(1) by (auto simp: xs_def)
  moreover have "xs \<noteq> []"
    using some_group [of d] d 8(3) 9(3) srt'(2) lead_bombs_some [OF d(1) h _ 1(1)] by (auto simp: xs_def sorted_hand_20_def)
  ultimately show ?thesis
    using that [of xs] unfolding leads_def 1(1) 2(1) 3(1) 4(1) 5(1) 6(1) 7(1) 8(1) 9(1) bindR_Inr Let_def xs_def [symmetric] by blast
qed



text \<open>
  Under rules that do not allow triplets to carry pairs the search offers such a play all
  the same: it asks for the rule of triplets with single cards.  The play it offers is none.
\<close>

theorem leads_offer_forbidden_pairs:
  "\<exists>xs x. SimplySearchResult (sort_key oc_cbLogicValue) 0x200 [0x16, 0x06, 0x15, 0x05, 0x24, 0x14, 0x04, 0x23, 0x13, 0x03] no_play False False = Inr xs \<and>
     x \<in> set xs \<and> oc_cbCardType x = CT_THREE_TAKE_TWO \<and> GetCardType 0x200 (oc_cbCardData x) = Inr CT_ERROR"
proof -
  let ?r = "SimplySearchResult (sort_key oc_cbLogicValue) 0x200 [0x16, 0x06, 0x15, 0x05, 0x24, 0x14, 0x04, 0x23, 0x13, 0x03] no_play False False"
  have run: "case ?r of Inl _ \<Rightarrow> False | Inr xs \<Rightarrow>
      list_ex (\<lambda>x. oc_cbCardType x = CT_THREE_TAKE_TWO \<and> GetCardType 0x200 (oc_cbCardData x) = Inr CT_ERROR) xs"
    by code_simp
  then obtain xs where "?r = Inr xs" by (cases ?r) simp_all
  then show ?thesis using run by (auto simp: list_ex_iff)
qed

end
