(* ===== verification/Land_Smaller.thy ===== *)
theory Land_Smaller
  imports Land_Answers
begin

text \<open>
  The search for a lower play of the same type (\<^verbatim>\<open>SearchSamllerResult\<close> of
  \<^verbatim>\<open>3rd/land/GameLogic.cpp\<close>), with which a player hands the lead to an ally, the distribution of
  cards and the single cards of a sequence of plays.
\<close>

section \<open>Lower plays\<close>

definition smaller_single :: "card list \<Rightarrow> tagOutCard \<Rightarrow> tagOutCard option res" where
  "smaller_single cards stOutCard =
     (case rev cards of
        [] \<Rightarrow> Inr None
      | c # _ \<Rightarrow>
          if GetCardLogicValue c < oc_cbLogicValue stOutCard
          then bindR (out_card [c] CT_SINGLE (GetCardLogicValue c)) (\<lambda>x. Inr (Some x)) else Inr None)"

text \<open>A loop that is left with the first result.\<close>

primrec searchR :: "('a \<Rightarrow> 'b option res) \<Rightarrow> 'a list \<Rightarrow> 'b option res" where
  "searchR f [] = Inr None"
| "searchR f (x # xs) = bindR (f x) (\<lambda>y. case y of None \<Rightarrow> searchR f xs | Some y \<Rightarrow> Inr (Some y))"

text \<open>The groups of size \<open>i + 1\<close> from the lowest on, up to the first that is not lower than the play.\<close>

definition lower :: "nat \<Rightarrow> tagAnalyseResult \<Rightarrow> tagOutCard \<Rightarrow> nat list" where
  "lower i r stOutCard = takeWhile (\<lambda>j. value_of (block i j r) < oc_cbLogicValue stOutCard) (down i r)"

definition smaller_same :: "nat \<Rightarrow> tagAnalyseResult \<Rightarrow> tagOutCard \<Rightarrow> tagOutCard option res" where
  "smaller_same cbSameCount r stOutCard =
     searchR (\<lambda>i. searchR (\<lambda>j.
       bindR (out_card (take cbSameCount (block i j r)) (oc_cbCardType stOutCard) (value_of (block i j r))) (\<lambda>x. Inr (Some x)))
       (lower i r stOutCard)) [cbSameCount - 1..<4]"

text \<open>
  The loop for the single card counts a byte down and tests whether it is negative: when all
  cards have the value of the triplet it goes on with index 255.
\<close>

definition smaller_three_one :: "card list \<Rightarrow> tagAnalyseResult \<Rightarrow> tagOutCard \<Rightarrow> tagOutCard option res" where
  "smaller_three_one cards r stOutCard =
     searchR (\<lambda>i. searchR (\<lambda>j.
       let v = value_of (block i j r) in
       case filter (\<lambda>c. GetCardLogicValue c \<noteq> v) (rev cards) of
         [] \<Rightarrow> Inl Out_of_bounds
       | c # _ \<Rightarrow> bindR (out_card (take 3 (block i j r) @ [c]) CT_THREE_TAKE_ONE v) (\<lambda>x. Inr (Some x)))
       (lower i r stOutCard)) [2, 3]"

definition smaller_three_two :: "card list \<Rightarrow> tagAnalyseResult \<Rightarrow> tagOutCard \<Rightarrow> tagOutCard option res" where
  "smaller_three_two cards r stOutCard =
     searchR (\<lambda>i. searchR (\<lambda>j.
       let v = value_of (block i j r) in
       searchR (\<lambda>k.
         if GetCardLogicValue (cards ! k) \<noteq> v \<and> GetCardLogicValue (cards ! k) = GetCardLogicValue (cards ! (k - 1))
         then bindR (out_card (take 3 (block i j r) @ [cards ! (k - 1), cards ! k]) CT_THREE_TAKE_TWO v) (\<lambda>x. Inr (Some x))
         else Inr None) (rev [1..<length cards]))
       (lower i r stOutCard)) [2, 3]"

definition smaller_line :: "card list \<Rightarrow> tagOutCard \<Rightarrow> tagOutCard option res" where
  "smaller_line cards stOutCard =
     (let cbSameCount = (if oc_cbCardType stOutCard = CT_DOUBLE_LINE then 2 else if oc_cbCardType stOutCard = CT_THREE_LINE then 3 else 1) in
      bindR (SearchAllLink cards cbSameCount) (\<lambda>links.
      searchR (\<lambda>l.
        if lk_cbCardCount l = length (oc_cbCardData stOutCard) \<and> lk_cbLogicValue l < oc_cbLogicValue stOutCard
        then bindR (out_card (lk_cbCardData l) (oc_cbCardType stOutCard) (lk_cbLogicValue l)) (\<lambda>x. Inr (Some x))
        else Inr None) links))"

definition SearchSamllerResult :: "int \<Rightarrow> card list \<Rightarrow> tagOutCard \<Rightarrow> tagOutCard option res" where
  "SearchSamllerResult rule cbCardData stOutCard =
     bindR (AnalyseOutCard rule cbCardData) (\<lambda>r.
     let t = oc_cbCardType stOutCard; n = length (oc_cbCardData stOutCard) in
     if t = CT_SINGLE then smaller_single cbCardData stOutCard
     else if t = CT_DOUBLE \<or> t = CT_THREE then smaller_same (if t = CT_THREE then 3 else 2) r stOutCard
     else if t = CT_THREE_TAKE_ONE then
       if n = 4 \<and> IsValidType rule CT_THREE_TAKE_ONE 0 then smaller_three_one cbCardData r stOutCard else Inr None
     else if t = CT_THREE_TAKE_TWO then
       if n = 5 \<and> IsValidType rule CT_THREE_TAKE_TWO 0 then smaller_three_two cbCardData r stOutCard else Inr None
     else if t = CT_SINGLE_LINE \<or> t = CT_DOUBLE_LINE \<or> t = CT_THREE_LINE then smaller_line cbCardData stOutCard
     else Inr None)"

section \<open>Distribution and single cards\<close>

text \<open>The number of cards, and for each value the number of its cards of each colour and, in column 5, of all.\<close>

record tagDistributing =
  ds_cbCardCount :: nat
  cbDistributing :: "nat list list"

definition count_up :: "nat \<Rightarrow> nat \<Rightarrow> nat list list \<Rightarrow> nat list list res" where
  "count_up i j m =
     (if i < length m \<and> j < length (m ! i) then Inr (m[i := (m ! i)[j := m ! i ! j + 1]]) else Inl Out_of_bounds)"

definition distribute :: "card \<Rightarrow> tagDistributing \<Rightarrow> tagDistributing res" where
  "distribute c s =
     (if c = 0 then Inr s
      else if GetCardValue c = 0 then Inl Out_of_bounds
      else
        let i = nat (GetCardValue c) - 1 in
        bindR (count_up i 5 (cbDistributing s)) (\<lambda>m.
        bindR (count_up i (nat (GetCardColor c div 16)) m) (\<lambda>m.
        Inr (s\<lparr>ds_cbCardCount := ds_cbCardCount s + 1, cbDistributing := m\<rparr>))))"

definition AnalysebDistributing :: "card list \<Rightarrow> tagDistributing res" where
  "AnalysebDistributing cards =
     foldl (\<lambda>s c. bindR s (distribute c)) (Inr \<lparr>ds_cbCardCount = 0, cbDistributing = replicate 15 (replicate 6 0)\<rparr>) cards"

definition draw_single :: "tagOutCard \<Rightarrow> card list \<Rightarrow> card list res" where
  "draw_single x cbSingleCard =
     bindR (AnalysebCardData (oc_cbCardData x)) (\<lambda>r.
     bindR (if oc_cbCardType x = CT_SINGLE then room (cbSingleCard @ take 1 (oc_cbCardData x)) else Inr cbSingleCard) (\<lambda>cbSingleCard.
     if oc_cbCardType x = CT_THREE_TAKE_ONE \<and> cbBlockCount r ! 0 > 0 then room (cbSingleCard @ [ar_cbCardData r ! 0 ! 0])
     else Inr cbSingleCard))"

definition DrawSingleCard :: "tagOutCard list \<Rightarrow> card list res" where
  "DrawSingleCard vecOutCard = foldl (\<lambda>s x. bindR s (draw_single x)) (Inr []) vecOutCard"

section \<open>Lower plays are plays\<close>

definition lower_play :: "int \<Rightarrow> card list \<Rightarrow> tagOutCard \<Rightarrow> tagOutCard \<Rightarrow> bool" where
  "lower_play rule d t x \<longleftrightarrow>
     chosen d (oc_cbCardData x) \<and> plays rule (oc_cbCardData x) (oc_cbCardType x) (oc_cbLogicValue x) \<and>
     oc_cbCardType x = oc_cbCardType t \<and> oc_cbLogicValue x < oc_cbLogicValue t \<and> length (oc_cbCardData x) = length (oc_cbCardData t)"

text \<open>What a search gives: the failure is the one described, and a result is a lower play.\<close>

definition finds :: "'a option res \<Rightarrow> bool \<Rightarrow> ('a \<Rightarrow> bool) \<Rightarrow> bool" where
  "finds m bad P \<longleftrightarrow> (case m of Inl e \<Rightarrow> e = Out_of_bounds \<and> bad | Inr None \<Rightarrow> True | Inr (Some x) \<Rightarrow> P x)"

lemma finds_None [simp]: "finds (Inr None) bad P"
  by (simp add: finds_def)

lemma finds_search: "(\<And>x. x \<in> set xs \<Longrightarrow> finds (f x) bad P) \<Longrightarrow> finds (searchR f xs) bad P"
proof (induction xs)
  case (Cons x xs)
  then have "finds (f x) bad P" "finds (searchR f xs) bad P" by simp_all
  then show ?case by (auto simp: finds_def bindR_def split: sum.splits option.splits)
qed simp

lemma finds_if: "(b \<Longrightarrow> finds m bad P) \<Longrightarrow> (\<not> b \<Longrightarrow> finds n bad P) \<Longrightarrow> finds (if b then m else n) bad P"
  by simp

lemma finds_out:
  assumes "sorted_hand_20 d" "chosen d c" "plays rule c t v" "t = oc_cbCardType x" "v < oc_cbLogicValue x" "length c = length (oc_cbCardData x)"
  shows "finds (bindR (out_card c t v) (\<lambda>y. Inr (Some y))) bad (lower_play rule d x)"
  using out_card_ok [OF chosen_20 [OF assms(1,2)]] assms by (simp add: finds_def lower_play_def)

lemma lower_mem: "j \<in> set (lower i r x) \<Longrightarrow> j \<in> set (up i r) \<and> value_of (block i j r) < oc_cbLogicValue x"
  by (auto simp: lower_def dest: set_takeWhileD)

lemma group_fields [simp]:
  "block i j (r\<lparr>ar_cbCardType := t, ar_cbLogicValue := v\<rparr>) = block i j r"
  "up i (r\<lparr>ar_cbCardType := t, ar_cbLogicValue := v\<rparr>) = up i r"
  "lower i (r\<lparr>ar_cbCardType := t, ar_cbLogicValue := v\<rparr>) x = lower i r x"
  by (simp_all add: block_def up_def down_def lower_def)

lemma AnalyseOutCard_sorted:
  assumes "sorted_hand_20 d"
  shows "\<exists>t v. AnalyseOutCard rule d = Inr ((grouped d)\<lparr>ar_cbCardType := t, ar_cbLogicValue := v\<rparr>)"
  using assms SortCardList_sorted [of d] analysed [OF assms]
  by (auto simp: AnalyseOutCard_def sorted_hand_20_def MAX_COUNT_def split: prod.splits)

lemma smaller_same_ok:
  assumes d: "sorted_hand_20 d" and t: "oc_cbCardType x = same_type k" "k \<in> {2, 3}" "length (oc_cbCardData x) = k"
  shows "finds (smaller_same k (grouped d) x) bad (lower_play rule d x)"
  unfolding smaller_same_def
proof (intro finds_search)
  fix i j assume "i \<in> set [k - 1..<4]" "j \<in> set (lower i (grouped d) x)"
  then have i: "k \<le> i + 1" "i < 4" and j: "j \<in> set (up i (grouped d))" "value_of (block i j (grouped d)) < oc_cbLogicValue x"
    using t(2) lower_mem by auto
  obtain r where r: "block i j (grouped d) = grp d r" "cnt d r = i + 1" "value_of (block i j (grouped d)) = r"
    using block_cases [OF i(2) j(1)] by metis
  have "chosen d (take k (grp d r)) \<and> plays rule (take k (grp d r)) (same_type k) r \<and> length (take k (grp d r)) = k"
    using plays_group [of d k r rule] d t(2) i(1) r(2) by (auto simp: sorted_hand_20_def)
  then show "finds (bindR (out_card (take k (block i j (grouped d))) (oc_cbCardType x) (value_of (block i j (grouped d)))) (\<lambda>x. Inr (Some x))) bad (lower_play rule d x)"
    unfolding t(1) r(3) unfolding r(1) using finds_out [OF d] t j(2) r(3) by metis
qed

lemma smaller_line_ok:
  assumes d: "sorted_hand_20 d" and t: "oc_cbCardType x = line_type k" "k \<in> {1, 2, 3}"
  shows "finds (smaller_line d x) bad (lower_play rule d x)"
proof -
  have hd: "hand d" using d by (simp add: sorted_hand_20_def)
  have k: "(if oc_cbCardType x = CT_DOUBLE_LINE then 2 else if oc_cbCardType x = CT_THREE_LINE then 3 else 1) = k"
    using t by (auto simp: line_type_def CT_defs)
  obtain ps where ps: "SearchAllLink d k = Inr (map (link d k) ps)"
    "\<And>p. p \<in> set ps \<Longrightarrow> min_link k \<le> fst p \<and> row (\<lambda>r. r < 15 \<and> k \<le> cnt d r) p"
    using links [OF d t(2)] by blast
  show ?thesis
    unfolding smaller_line_def k Let_def ps(1) bindR_Inr
  proof (intro finds_search finds_if finds_None)
    fix l assume "l \<in> set (map (link d k) ps)" and c: "lk_cbCardCount l = length (oc_cbCardData x) \<and> lk_cbLogicValue l < oc_cbLogicValue x"
    then obtain p where p: "p \<in> set ps" "l = link d k p" by auto
    have "chosen d (lk_cbCardData l)" "plays rule (lk_cbCardData l) (line_type k) (lk_cbLogicValue l)" "length (lk_cbCardData l) = lk_cbCardCount l"
      using plays_link [OF hd t(2), of p rule] ps(2) [OF p(1)] p(2) by (simp_all add: link_def)
    then show "finds (bindR (out_card (lk_cbCardData l) (oc_cbCardType x) (lk_cbLogicValue l)) (\<lambda>x. Inr (Some x))) bad (lower_play rule d x)"
      unfolding t(1) using finds_out [OF d] t(1) c by metis
  qed
qed

lemma smaller_single_ok:
  assumes d: "sorted_hand_20 d" and t: "oc_cbCardType x = CT_SINGLE" "length (oc_cbCardData x) = 1"
  shows "finds (smaller_single d x) bad (lower_play rule d x)"
proof (cases "rev d")
  case (Cons c cs)
  have "c \<in> set d" using Cons set_rev [of d] by (metis list.set_intros(1))
  then have "chosen d [c]" using d by (auto simp: chosen_def hand_def sorted_hand_20_def)
  moreover have "plays rule [c] CT_SINGLE (GetCardLogicValue c)" by (simp add: plays_def)
  ultimately show ?thesis
    unfolding smaller_single_def Cons list.case using finds_out [OF d, of "[c]" rule CT_SINGLE _ x] t by (intro finds_if finds_None) auto
qed (simp add: smaller_single_def)

lemma lower_three:
  assumes "i \<in> {2, 3}" "j \<in> set (lower i (grouped d) x)"
  obtains r where "block i j (grouped d) = grp d r" "3 \<le> cnt d r" "value_of (block i j (grouped d)) = r" "r < oc_cbLogicValue x"
proof -
  have i: "i < 4" "2 \<le> i" using assms(1) by auto
  have j: "j \<in> set (up i (grouped d))" "value_of (block i j (grouped d)) < oc_cbLogicValue x" using lower_mem [OF assms(2)] by auto
  obtain r where "block i j (grouped d) = grp d r" "cnt d r = i + 1" "value_of (block i j (grouped d)) = r"
    using block_cases [OF i(1) j(1)] by metis
  then show ?thesis using that [of r] i(2) j(2) by simp
qed

lemma smaller_three_one_ok:
  assumes d: "sorted_hand_20 d" and t: "oc_cbCardType x = CT_THREE_TAKE_ONE" "length (oc_cbCardData x) = 4"
  shows "finds (smaller_three_one d (grouped d) x) (3 \<le> length d \<and> (\<exists>v < oc_cbLogicValue x. cnt d v = length d)) (lower_play rule d x)"
  unfolding smaller_three_one_def Let_def
proof (intro finds_search)
  have hd: "hand d" using d by (simp add: sorted_hand_20_def)
  fix i j assume "i \<in> set [2, 3]" "j \<in> set (lower i (grouped d) x)"
  then obtain r where r: "block i j (grouped d) = grp d r" "3 \<le> cnt d r" "value_of (block i j (grouped d)) = r" "r < oc_cbLogicValue x"
    using lower_three [of i j d x] by auto
  show "finds (case filter (\<lambda>c. GetCardLogicValue c \<noteq> value_of (block i j (grouped d))) (rev d) of [] \<Rightarrow> Inl Out_of_bounds
      | c # _ \<Rightarrow> bindR (out_card (take 3 (block i j (grouped d)) @ [c]) CT_THREE_TAKE_ONE (value_of (block i j (grouped d)))) (\<lambda>x. Inr (Some x)))
      (3 \<le> length d \<and> (\<exists>v < oc_cbLogicValue x. cnt d v = length d)) (lower_play rule d x)"
    unfolding r(3) unfolding r(1)
  proof (cases "filter (\<lambda>c. GetCardLogicValue c \<noteq> r) (rev d)")
    case Nil
    then have "cnt d r = length d" unfolding cnt_all by (auto simp: filter_empty_conv)
    then have "3 \<le> length d \<and> (\<exists>v < oc_cbLogicValue x. cnt d v = length d)" using r(2,4) by auto
    then show "finds (case filter (\<lambda>c. GetCardLogicValue c \<noteq> r) (rev d) of [] \<Rightarrow> Inl Out_of_bounds
      | c # _ \<Rightarrow> bindR (out_card (take 3 (grp d r) @ [c]) CT_THREE_TAKE_ONE r) (\<lambda>x. Inr (Some x)))
      (3 \<le> length d \<and> (\<exists>v < oc_cbLogicValue x. cnt d v = length d)) (lower_play rule d x)"
      by (simp add: Nil finds_def)
  next
    case (Cons c cs)
    then have "c \<in> set (filter (\<lambda>c. GetCardLogicValue c \<noteq> r) (rev d))" by simp
    then have "c \<in> set d" "GetCardLogicValue c \<noteq> r" by auto
    note p = three_card [OF hd r(2) this, of rule]
    show "finds (case filter (\<lambda>c. GetCardLogicValue c \<noteq> r) (rev d) of [] \<Rightarrow> Inl Out_of_bounds
      | c # _ \<Rightarrow> bindR (out_card (take 3 (grp d r) @ [c]) CT_THREE_TAKE_ONE r) (\<lambda>x. Inr (Some x)))
      (3 \<le> length d \<and> (\<exists>v < oc_cbLogicValue x. cnt d v = length d)) (lower_play rule d x)"
      unfolding Cons list.case by (rule finds_out [OF d]) (use p t r(4) in auto)
  qed
qed

lemma smaller_three_two_ok:
  assumes d: "sorted_hand_20 d" and t: "oc_cbCardType x = CT_THREE_TAKE_TWO" "length (oc_cbCardData x) = 5" and rule: "IsValidType rule CT_THREE_TAKE_TWO 0"
  shows "finds (smaller_three_two d (grouped d) x) bad (lower_play rule d x)"
  unfolding smaller_three_two_def Let_def
proof (intro finds_search finds_if finds_None)
  have hd: "hand d" using d by (simp add: sorted_hand_20_def)
  fix i j k assume "i \<in> set [2, 3]" "j \<in> set (lower i (grouped d) x)" and k: "k \<in> set (rev [1..<length d])"
    and e: "GetCardLogicValue (d ! k) \<noteq> value_of (block i j (grouped d)) \<and> GetCardLogicValue (d ! k) = GetCardLogicValue (d ! (k - 1))"
  then obtain r where r: "block i j (grouped d) = grp d r" "3 \<le> cnt d r" "value_of (block i j (grouped d)) = r" "r < oc_cbLogicValue x"
    using lower_three [of i j d x] by auto
  have "d ! (k - 1) \<noteq> d ! k" using hd k by (auto simp: hand_def nth_eq_iff_index_eq)
  then have "chosen d (take 3 (grp d r) @ [d ! (k - 1), d ! k]) \<and> plays rule (take 3 (grp d r) @ [d ! (k - 1), d ! k]) CT_THREE_TAKE_TWO r \<and>
      length (take 3 (grp d r) @ [d ! (k - 1), d ! k]) = 5"
    using three_pair [OF hd r(2), of "d ! (k - 1)" "d ! k" "GetCardLogicValue (d ! k)" rule] e k rule r(3) by auto
  then show "finds (bindR (out_card (take 3 (block i j (grouped d)) @ [d ! (k - 1), d ! k]) CT_THREE_TAKE_TWO (value_of (block i j (grouped d)))) (\<lambda>x. Inr (Some x)))
      bad (lower_play rule d x)"
    unfolding r(3) unfolding r(1) using finds_out [OF d, of _ rule CT_THREE_TAKE_TWO r x] t r(4) by metis
qed

text \<open>
  The search for a lower play gives a play of the same type and size made of cards of the hand
  that is lower; it fails only when a card for a triplet is wanted and all cards of the hand are
  equal: then it reads outside the hand.
\<close>

theorem smaller_result:
  assumes "sorted_hand_20 d" "hand (oc_cbCardData x)" "plays rule (oc_cbCardData x) (oc_cbCardType x) (oc_cbLogicValue x)"
  shows "finds (SearchSamllerResult rule d x)
    (oc_cbCardType x = CT_THREE_TAKE_ONE \<and> 3 \<le> length d \<and> (\<exists>v < oc_cbLogicValue x. cnt d v = length d)) (lower_play rule d x)"
proof -
  obtain t v where r: "AnalyseOutCard rule d = Inr ((grouped d)\<lparr>ar_cbCardType := t, ar_cbLogicValue := v\<rparr>)"
    using AnalyseOutCard_sorted [OF assms(1)] by blast
  have len: "oc_cbCardType x = CT_SINGLE \<Longrightarrow> length (oc_cbCardData x) = 1" "oc_cbCardType x = CT_DOUBLE \<Longrightarrow> length (oc_cbCardData x) = 2"
    "oc_cbCardType x = CT_THREE \<Longrightarrow> length (oc_cbCardData x) = 3"
    using assms(3) unfolding plays_def CT_defs by auto
  have eq: "smaller_same k (r\<lparr>ar_cbCardType := t, ar_cbLogicValue := v\<rparr>) x = smaller_same k r x"
    "smaller_three_one d (r\<lparr>ar_cbCardType := t, ar_cbLogicValue := v\<rparr>) x = smaller_three_one d r x"
    "smaller_three_two d (r\<lparr>ar_cbCardType := t, ar_cbLogicValue := v\<rparr>) x = smaller_three_two d r x" for k r
    by (simp_all only: smaller_same_def smaller_three_one_def smaller_three_two_def group_fields)
  note d = assms(1)
  have one: "finds (smaller_three_one d (grouped d) x)
      (oc_cbCardType x = CT_THREE_TAKE_ONE \<and> 3 \<le> length d \<and> (\<exists>v < oc_cbLogicValue x. cnt d v = length d)) (lower_play rule d x)"
    if "oc_cbCardType x = CT_THREE_TAKE_ONE" "length (oc_cbCardData x) = 4"
    using smaller_three_one_ok [OF d that, of rule] that by (simp add: finds_def)
  show ?thesis
    unfolding SearchSamllerResult_def r bindR_Inr Let_def eq
    by (intro finds_if finds_None)
      (use len one smaller_single_ok [OF d, of x] smaller_same_ok [OF d, of x 2] smaller_same_ok [OF d, of x 3] smaller_three_two_ok [OF d, of x rule]
        smaller_line_ok [OF d, of x 1] smaller_line_ok [OF d, of x 2] smaller_line_ok [OF d, of x 3] in \<open>auto simp: same_type_def line_type_def\<close>)
qed

lemma smaller_reads_outside:
  "SearchSamllerResult 0 [0x23, 0x13, 0x03] \<lparr>oc_cbCardData = [0x24, 0x14, 0x04, 0x05], oc_cbCardType = CT_THREE_TAKE_ONE, oc_cbLogicValue = 4\<rparr> = Inl Out_of_bounds"
  by code_simp

section \<open>The distribution counts\<close>

definition distribution_of :: "card list \<Rightarrow> tagDistributing \<Rightarrow> bool" where
  "distribution_of cards s \<longleftrightarrow>
     ds_cbCardCount s = length cards \<and> length (cbDistributing s) = 15 \<and> (\<forall>i < 15. length (cbDistributing s ! i) = 6) \<and>
     (\<forall>i < 15. cbDistributing s ! i ! 5 = length (filter (\<lambda>c. GetCardValue c = int i + 1) cards)) \<and>
     (\<forall>i < 15. \<forall>k < 5. cbDistributing s ! i ! k = length (filter (\<lambda>c. GetCardValue c = int i + 1 \<and> GetCardColor c div 16 = int k) cards))"

lemma deck_places:
  "list_all (\<lambda>c. c \<noteq> 0 \<and> 1 \<le> GetCardValue c \<and> GetCardValue c \<le> 15 \<and> 0 \<le> GetCardColor c div 16 \<and> GetCardColor c div 16 < 5) m_cbCardData"
  by code_simp

lemma count_up_ok:
  assumes "length m = 15" "\<forall>i < 15. length (m ! i) = 6" "i < 15" "j < 6"
  shows "count_up i j m = Inr (m[i := (m ! i)[j := m ! i ! j + 1]])"
  using assms by (simp add: count_up_def)

lemma distribute_card:
  assumes s: "distribution_of cards s" and c: "c \<in> set m_cbCardData"
  shows "\<exists>s'. distribute c s = Inr s' \<and> distribution_of (cards @ [c]) s'"
proof -
  let ?i = "nat (GetCardValue c) - 1" and ?k = "nat (GetCardColor c div 16)" and ?m = "cbDistributing s"
  have v: "c \<noteq> 0" "1 \<le> GetCardValue c" "GetCardValue c \<le> 15" "0 \<le> GetCardColor c div 16" "GetCardColor c div 16 < 5"
    using deck_places c unfolding list_all_iff by auto
  have i: "?i < 15" "GetCardValue c = int ?i + 1" and k: "?k < 5" "GetCardColor c div 16 = int ?k" using v by auto
  have sh: "length ?m = 15" "\<forall>i < 15. length (?m ! i) = 6" using s by (simp_all add: distribution_of_def)
  let ?m1 = "?m[?i := (?m ! ?i)[5 := ?m ! ?i ! 5 + 1]]"
  have 1: "count_up ?i 5 ?m = Inr ?m1" by (rule count_up_ok [OF sh i(1)]) simp
  have sh1: "length ?m1 = 15" "\<forall>i < 15. length (?m1 ! i) = 6" using sh i(1) by (auto simp: nth_list_update)
  let ?m2 = "?m1[?i := (?m1 ! ?i)[?k := ?m1 ! ?i ! ?k + 1]]"
  have 2: "count_up ?i ?k ?m1 = Inr ?m2" by (rule count_up_ok [OF sh1 i(1)]) (use k(1) in simp)
  have run: "distribute c s = Inr (s\<lparr>ds_cbCardCount := ds_cbCardCount s + 1, cbDistributing := ?m2\<rparr>)"
    unfolding distribute_def Let_def 1 bindR_Inr 2 using v(1,2) by simp
  have "distribution_of (cards @ [c]) (s\<lparr>ds_cbCardCount := ds_cbCardCount s + 1, cbDistributing := ?m2\<rparr>)"
    using s sh sh1 i k by (auto simp: distribution_of_def nth_list_update)
  then show ?thesis using run by blast
qed

text \<open>The distribution of a set of cards counts them by value and by value and colour.\<close>

lemma distribution: "set cards \<subseteq> set m_cbCardData \<Longrightarrow> \<exists>s. AnalysebDistributing cards = Inr s \<and> distribution_of cards s"
proof (induction cards rule: rev_induct)
  case Nil
  have "\<forall>i < 15. replicate 15 (replicate 6 (0::nat)) ! i = replicate 6 0" by (simp add: nth_replicate)
  then show ?case by (simp add: AnalysebDistributing_def distribution_of_def)
next
  case (snoc c cs)
  then obtain s where s: "AnalysebDistributing cs = Inr s" "distribution_of cs s" by auto
  then show ?case using distribute_card [OF s(2), of c] snoc.prems by (simp add: AnalysebDistributing_def)
qed

end
