(* ===== verification/Harbor_Queue.thy ===== *)
theory Harbor_Queue
  imports Fifo
begin

text \<open>
  The queues of the harbor service (\<^verbatim>\<open>service-src/service_harbor.c\<close>): a ring that keeps one
  slot free and doubles when only that slot is left.  A queue holds the messages that
  wait for a connection to another node or for the address behind a name.  A slot is
  \<open>None\<close> until it is written; a message is its header and the bytes of its buffer, whose
  length is the field \<^verbatim>\<open>size\<close>.
\<close>

section \<open>Data and operations\<close>

record remote_message_header =
  rh_source :: u32
  rh_destination :: u32
  rh_session :: u32

record harbor_msg =
  hm_header :: remote_message_header
  hm_buffer :: "u8 list"

record harbor_msg_queue =
  hq_size :: nat
  hq_head :: nat
  hq_tail :: nat
  hq_data :: "harbor_msg option list"

definition HARBOR_QUEUE_SIZE :: nat where "HARBOR_QUEUE_SIZE = 1024"

definition expand_harbor_queue :: "harbor_msg_queue \<Rightarrow> harbor_msg_queue res" where
  "expand_harbor_queue q =
     bindR (c_int (hq_size q * 2)) (\<lambda>sz.
     let copied = map (\<lambda>i. hq_data q ! ((i + hq_head q) mod hq_size q)) [0..<hq_size q - 1]
     in Inr (q\<lparr>hq_data := copied @ replicate (sz - (hq_size q - 1)) None,
               hq_head := 0, hq_tail := hq_size q - 1, hq_size := sz\<rparr>))"

definition push_queue_msg :: "harbor_msg \<Rightarrow> harbor_msg_queue \<Rightarrow> harbor_msg_queue res" where
  "push_queue_msg m q =
     bindR (if (hq_tail q + 1) mod hq_size q = hq_head q then expand_harbor_queue q else Inr q) (\<lambda>q.
     bindR (aset (hq_data q) (hq_tail q) (Some m)) (\<lambda>data.
     Inr (q\<lparr>hq_data := data, hq_tail := (hq_tail q + 1) mod hq_size q\<rparr>)))"

definition push_queue :: "u8 list \<Rightarrow> remote_message_header \<Rightarrow> harbor_msg_queue \<Rightarrow> harbor_msg_queue res" where
  "push_queue buffer header q = push_queue_msg \<lparr>hm_header = header, hm_buffer = buffer\<rparr> q"

definition pop_queue :: "harbor_msg_queue \<Rightarrow> (harbor_msg option \<times> harbor_msg_queue) res" where
  "pop_queue q =
     (if hq_head q = hq_tail q then Inr (None, q)
      else
        bindR (aget (hq_data q) (hq_head q)) (\<lambda>slot.
        bindR (init slot) (\<lambda>m.
        Inr (Some m, q\<lparr>hq_head := (hq_head q + 1) mod hq_size q\<rparr>))))"

definition new_queue :: harbor_msg_queue where
  "new_queue =
     \<lparr>hq_size = HARBOR_QUEUE_SIZE, hq_head = 0, hq_tail = 0, hq_data = replicate HARBOR_QUEUE_SIZE None\<rparr>"

section \<open>The ring is a first-in first-out queue\<close>

definition hq_sizes :: "nat list" where
  "hq_sizes = map (\<lambda>k. 1024 * 2 ^ k) [0..<21]"

definition hq_len :: "harbor_msg_queue \<Rightarrow> nat" where
  "hq_len q = ring_len (hq_size q) (hq_head q) (hq_tail q)"

definition hq_valid :: "harbor_msg_queue \<Rightarrow> bool" where
  "hq_valid q \<longleftrightarrow>
     hq_size q \<in> set hq_sizes \<and> length (hq_data q) = hq_size q \<and>
     hq_head q < hq_size q \<and> hq_tail q < hq_size q \<and>
     None \<notin> set (ring_seg (hq_data q) (hq_head q) (hq_len q))"

definition hq_list :: "harbor_msg_queue \<Rightarrow> harbor_msg list" where
  "hq_list q = map the (ring_seg (hq_data q) (hq_head q) (hq_len q))"

definition hq_limit :: nat where
  "hq_limit = 2 ^ 30 - 1"

lemma hq_sizes_bounds: "c \<in> set hq_sizes \<Longrightarrow> 1024 \<le> c \<and> c \<le> 2 ^ 30"
  by (auto simp: hq_sizes_def upt_rec)

lemma hq_sizes_double:
  assumes "c \<in> set hq_sizes" "c < 2 ^ 30"
  shows "c * 2 \<in> set hq_sizes"
proof -
  from assms obtain k where k: "c = 1024 * 2 ^ k" "k < 21" by (auto simp: hq_sizes_def)
  have "k \<noteq> 20" using assms(2) k by auto
  with k have "c * 2 = 1024 * 2 ^ Suc k" "Suc k < 21" by simp_all
  then show ?thesis unfolding hq_sizes_def set_map by (intro image_eqI [of _ _ "Suc k"]) auto
qed

lemma length_hq_list [simp]: "length (hq_list q) = hq_len q"
  by (simp add: hq_list_def)

lemma new_queue_valid [simp]: "hq_valid new_queue" "hq_list new_queue = []"
proof -
  have "HARBOR_QUEUE_SIZE = 1024 * 2 ^ 0" "0 \<in> set [0..<21::nat]" by (simp_all add: HARBOR_QUEUE_SIZE_def)
  then have "HARBOR_QUEUE_SIZE \<in> set hq_sizes" unfolding hq_sizes_def set_map by (rule image_eqI)
  then show "hq_valid new_queue"
    by (simp add: hq_valid_def new_queue_def hq_len_def HARBOR_QUEUE_SIZE_def)
qed (simp add: hq_list_def hq_len_def new_queue_def)

text \<open>Where the next slot is free a message is appended; a full ring is copied to one twice as long first.\<close>

lemma push_free:
  assumes v: "hq_valid q" and f: "ring_next (hq_size q) (hq_tail q) \<noteq> hq_head q"
  shows "\<exists>q'. push_queue_msg m q = Inr q' \<and> hq_valid q' \<and> hq_list q' = hq_list q @ [m]"
proof -
  note V = v [unfolded hq_valid_def]
  let ?t = "ring_next (hq_size q) (hq_tail q)"
  define q' where "q' = q\<lparr>hq_data := (hq_data q)[hq_tail q := Some m], hq_tail := ?t\<rparr>"
  have t: "Suc (hq_tail q) mod hq_size q = ?t" using V by (simp add: ring_next_mod)
  have len: "hq_len q' = Suc (hq_len q)"
    using ring_len_push [of "hq_head q" "hq_size q" "hq_tail q"] V f by (simp add: hq_len_def q'_def)
  have seg: "ring_seg (hq_data q') (hq_head q') (hq_len q') = ring_seg (hq_data q) (hq_head q) (hq_len q) @ [Some m]"
    unfolding len using ring_seg_push [of "hq_head q" "hq_data q" "hq_tail q" "Some m"] V by (simp add: hq_len_def q'_def)
  have "push_queue_msg m q = Inr q'"
    using V f by (simp add: push_queue_msg_def t q'_def)
  moreover have "hq_valid q'"
    using V hq_sizes_bounds [of "hq_size q"] unfolding hq_valid_def seg by (auto simp: q'_def ring_next_less)
  moreover have "hq_list q' = hq_list q @ [m]"
    unfolding hq_list_def seg by simp
  ultimately show ?thesis by blast
qed

lemma expand_harbor_queue_ok:
  assumes v: "hq_valid q" and f: "ring_next (hq_size q) (hq_tail q) = hq_head q" and s: "hq_size q < 2 ^ 30"
  shows "\<exists>q'. expand_harbor_queue q = Inr q' \<and> hq_valid q' \<and> hq_list q' = hq_list q \<and>
    ring_next (hq_size q') (hq_tail q') \<noteq> hq_head q'"
proof -
  note V = v [unfolded hq_valid_def]
  let ?n = "hq_size q"
  define seg where "seg = ring_seg (hq_data q) (hq_head q) (hq_len q)"
  have n: "1024 \<le> ?n" using V hq_sizes_bounds by blast
  have len: "hq_len q = ?n - 1"
    using ring_len_full [of "hq_head q" ?n "hq_tail q"] V f by (simp add: hq_len_def)
  define q' where "q' = q\<lparr>hq_data := seg @ replicate (?n * 2 - (?n - 1)) None,
      hq_head := 0, hq_tail := ?n - 1, hq_size := ?n * 2\<rparr>"
  have seg_eq: "map (\<lambda>i. hq_data q ! ((i + hq_head q) mod ?n)) [0..<?n - 1] = seg"
    using V by (simp add: seg_def ring_seg_def len add.commute)
  have lseg: "length seg = ?n - 1" by (simp add: seg_def len)
  have "expand_harbor_queue q = Inr q'"
    using s unfolding expand_harbor_queue_def Let_def seg_eq q'_def by (simp add: INT_MAX_def)
  moreover have l': "hq_len q' = ?n - 1" by (simp add: hq_len_def q'_def ring_len_def)
  have s': "ring_seg (hq_data q') (hq_head q') (hq_len q') = seg"
    unfolding l' using n lseg by (simp add: q'_def ring_seg_linear)
  have "hq_valid q'"
    using V n lseg hq_sizes_double [of ?n] s unfolding hq_valid_def s' by (auto simp: q'_def seg_def)
  moreover have "hq_list q' = hq_list q"
    unfolding hq_list_def s' by (simp add: seg_def)
  moreover have "ring_next (hq_size q') (hq_tail q') \<noteq> hq_head q'"
    using n by (simp add: q'_def ring_next_def)
  ultimately show ?thesis by blast
qed

lemma push_queue_msg_ok:
  assumes v: "hq_valid q" and room: "length (hq_list q) < hq_limit"
  shows "\<exists>q'. push_queue_msg m q = Inr q' \<and> hq_valid q' \<and> hq_list q' = hq_list q @ [m]"
proof (cases "ring_next (hq_size q) (hq_tail q) = hq_head q")
  case False
  then show ?thesis using push_free v by blast
next
  case True
  note V = v [unfolded hq_valid_def]
  have "Suc (hq_len q) = hq_size q"
    using ring_len_full [of "hq_head q" "hq_size q" "hq_tail q"] V True by (simp add: hq_len_def)
  with room have "hq_size q < 2 ^ 30" by (simp add: hq_limit_def)
  then obtain q1 where q1: "expand_harbor_queue q = Inr q1" "hq_valid q1" "hq_list q1 = hq_list q"
      "ring_next (hq_size q1) (hq_tail q1) \<noteq> hq_head q1"
    using expand_harbor_queue_ok [OF v True] by blast
  have t: "(hq_tail q + 1) mod hq_size q = hq_head q" using V True by (simp add: ring_next_mod)
  have t1: "(hq_tail q1 + 1) mod hq_size q1 \<noteq> hq_head q1"
    using q1(2,4) unfolding hq_valid_def by (simp add: ring_next_mod)
  have "push_queue_msg m q = push_queue_msg m q1"
    unfolding push_queue_msg_def if_P [OF t] if_not_P [OF t1] q1(1) by simp
  with push_free [OF q1(2,4), of m] q1(3) show ?thesis by simp
qed

lemma pop_queue_empty:
  assumes "hq_valid q" "hq_list q = []"
  shows "pop_queue q = Inr (None, q)"
proof -
  from assms(2) have "hq_len q = 0" by (metis length_hq_list list.size(3))
  with assms(1) have "hq_head q = hq_tail q" by (simp add: hq_len_def hq_valid_def ring_len_0_iff)
  then show ?thesis by (simp add: pop_queue_def)
qed

lemma pop_queue_cons:
  assumes v: "hq_valid q" and ne: "hq_list q = m # ms"
  shows "\<exists>q'. pop_queue q = Inr (Some m, q') \<and> hq_valid q' \<and> hq_list q' = ms"
proof -
  note V = v [unfolded hq_valid_def]
  let ?c = "hq_size q" and ?h = "hq_head q"
  have ht: "?h \<noteq> hq_tail q" using ne by (auto simp: hq_list_def hq_len_def)
  define q' where "q' = q\<lparr>hq_head := ring_next ?c ?h\<rparr>"
  have "hq_len q = Suc (hq_len q')"
    using ht V by (simp add: hq_len_def q'_def ring_len_pop)
  then have seg: "ring_seg (hq_data q) ?h (hq_len q)
      = hq_data q ! ?h # ring_seg (hq_data q') (hq_head q') (hq_len q')"
    using V by (simp add: ring_seg_Suc q'_def)
  from V seg ne have m: "hq_data q ! ?h = Some m" and ms: "hq_list q' = ms"
    by (auto simp: hq_list_def)
  have "pop_queue q = Inr (Some m, q')"
    using V ht m by (simp add: pop_queue_def q'_def ring_next_mod)
  moreover have "hq_valid q'"
    using V seg hq_sizes_bounds [of ?c] by (auto simp: hq_valid_def q'_def ring_next_less)
  ultimately show ?thesis using ms by blast
qed

interpretation hq: bounded_fifo hq_valid hq_list hq_limit push_queue_msg pop_queue
  by unfold_locales (use push_queue_msg_ok pop_queue_empty pop_queue_cons in auto)

end
