(* ===== verification/Harbor.thy ===== *)
theory Harbor
  imports Harbor_Queue Gate Handle
begin

text \<open>
  The harbor service (\<^verbatim>\<open>service-src/service_harbor.c\<close>): it carries the messages for
  services of other nodes.  A connection to another node is a byte stream of frames; a
  message for a node without a connection, or for a name without an address, waits in a
  queue.

  A handler maps the state to the new state and the calls it makes, in order
  (\<open>harbor_act\<close>).  The result of \<^verbatim>\<open>skynet_send\<close>, where the code looks at it, is a function \<open>R\<close>
  of the calls the handler has made before and of the call.
\<close>

section \<open>Data\<close>

definition HASH_SIZE :: nat where "HASH_SIZE = 4096"
definition HEADER_COOKIE_LENGTH :: nat where "HEADER_COOKIE_LENGTH = 12"
definition REMOTE_MAX :: nat where "REMOTE_MAX = 256"

definition P_SOCKET :: int where "P_SOCKET = 6"
definition P_ERROR :: int where "P_ERROR = 7"

datatype slave_status = STATUS_WAIT | STATUS_HANDSHAKE | STATUS_HEADER | STATUS_CONTENT | STATUS_DOWN

text \<open>The block \<^verbatim>\<open>recv_buffer\<close> comes from \<^verbatim>\<open>malloc\<close>: a byte of it is \<open>None\<close> until it is written.\<close>

record slave =
  sl_fd :: int
  sl_queue :: "harbor_msg_queue option"
  sl_status :: slave_status
  sl_length :: nat
  sl_read :: nat
  sl_size :: "u8 list"
  sl_recv_buffer :: "u8 option list option"

record keyvalue =
  kv_key :: "u8 list"
  kv_hash :: u32
  kv_value :: u32
  kv_queue :: "harbor_msg_queue option"

text \<open>An entry of the table of names is the chain of its nodes; both arrays are indexed in range by the code.\<close>

type_synonym hashmap = "nat \<Rightarrow> keyvalue list"

record harbor =
  hb_id :: int
  hb_slave :: u32
  hb_map :: hashmap
  hb_s :: "nat \<Rightarrow> slave"

datatype harbor_act =
    Sends u32 u32 int int "u8 list"     \<comment> \<open>\<^verbatim>\<open>skynet_send\<close>: source, destination, type, session, data\<close>
  | Writes int "u8 list"                \<comment> \<open>\<^verbatim>\<open>skynet_socket_send\<close>\<close>
  | Closes int                          \<comment> \<open>\<^verbatim>\<open>skynet_socket_close\<close>\<close>
  | Starts int                          \<comment> \<open>\<^verbatim>\<open>skynet_socket_start\<close>\<close>
  | Logs cstring                        \<comment> \<open>\<^verbatim>\<open>skynet_error\<close>\<close>
  | Frees "u8 list"                     \<comment> \<open>\<^verbatim>\<open>skynet_free\<close> of message data\<close>
  | Registers                           \<comment> \<open>\<^verbatim>\<open>skynet_callback\<close> and \<^verbatim>\<open>skynet_harbor_start\<close>\<close>

type_synonym send_result = "harbor_act list \<Rightarrow> harbor_act \<Rightarrow> int"

definition empty_slave :: slave where
  "empty_slave = \<lparr>sl_fd = 0, sl_queue = None, sl_status = STATUS_WAIT, sl_length = 0, sl_read = 0,
     sl_size = [0, 0, 0, 0], sl_recv_buffer = None\<rparr>"

definition release_queue :: "harbor_msg_queue option \<Rightarrow> harbor_act list res" where
  "release_queue queue =
     (case queue of
        None \<Rightarrow> Inr []
      | Some q \<Rightarrow>
          bindR (run_loop (pop_loop pop_queue (\<lambda>m acts. Inr (acts @ [Frees (hm_buffer m)])) q [])) (\<lambda>(acts, _).
          Inr acts))"

section \<open>The table of names\<close>

text \<open>The words of the name are read in the byte order of the machine, the lowest byte first.\<close>

definition little_word :: "u8 list \<Rightarrow> nat \<Rightarrow> u32" where
  "little_word b i =
     ucast (b ! i) OR push_bit 8 (ucast (b ! (i + 1))) OR push_bit 16 (ucast (b ! (i + 2))) OR
     push_bit 24 (ucast (b ! (i + 3)))"

definition name_hash :: "u8 list \<Rightarrow> u32" where
  "name_hash name = little_word name 0 XOR little_word name 4 XOR little_word name 8 XOR little_word name 12"

text \<open>\<^verbatim>\<open>strncmp(a, b, GLOBALNAME_LENGTH) == 0\<close>\<close>

definition same_name :: "u8 list \<Rightarrow> u8 list \<Rightarrow> bool" where
  "same_name a b \<longleftrightarrow>
     takeWhile (\<lambda>c. c \<noteq> 0) (take GLOBALNAME_LENGTH a) = takeWhile (\<lambda>c. c \<noteq> 0) (take GLOBALNAME_LENGTH b)"

definition is_node :: "u8 list \<Rightarrow> keyvalue \<Rightarrow> bool" where
  "is_node name node \<longleftrightarrow> kv_hash node = name_hash name \<and> same_name (kv_key node) name"

definition bucket :: "u8 list \<Rightarrow> nat" where
  "bucket name = unat (name_hash name) mod HASH_SIZE"

definition hash_search :: "u8 list \<Rightarrow> hashmap \<Rightarrow> keyvalue option" where
  "hash_search name hash = find (is_node name) (hash (bucket name))"

definition hash_insert :: "u8 list \<Rightarrow> hashmap \<Rightarrow> keyvalue \<times> hashmap" where
  "hash_insert name hash =
     (let node = \<lparr>kv_key = take GLOBALNAME_LENGTH name, kv_hash = name_hash name, kv_value = 0, kv_queue = None\<rparr>
      in (node, hash(bucket name := node # hash (bucket name))))"

text \<open>A write through the pointer that the search or the insertion returned: to the first node of the name.\<close>

fun put_first :: "u8 list \<Rightarrow> keyvalue \<Rightarrow> keyvalue list \<Rightarrow> keyvalue list" where
  "put_first name node [] = []"
| "put_first name node (x # xs) = (if is_node name x then node # xs else x # put_first name node xs)"

definition node_put :: "u8 list \<Rightarrow> keyvalue \<Rightarrow> hashmap \<Rightarrow> hashmap" where
  "node_put name node hash = hash(bucket name := put_first name node (hash (bucket name)))"

definition hash_new :: hashmap where
  "hash_new = (\<lambda>_. [])"

definition hash_delete :: "hashmap \<Rightarrow> harbor_act list res" where
  "hash_delete hash =
     foldR (\<lambda>node acts. bindR (release_queue (kv_queue node)) (\<lambda>fr. Inr (acts @ fr)))
       (concat (map hash [0..<HASH_SIZE])) []"

section \<open>Connections\<close>

definition close_slave :: "slave \<Rightarrow> (slave \<times> harbor_act list) res" where
  "close_slave s =
     (let s = s\<lparr>sl_status := STATUS_DOWN\<rparr>; acts = (if sl_fd s \<noteq> 0 then [Closes (sl_fd s)] else []) in
      bindR (release_queue (sl_queue s)) (\<lambda>fr.
      Inr (s\<lparr>sl_queue := None\<rparr>, acts @ fr)))"

definition close_harbor :: "nat \<Rightarrow> harbor \<Rightarrow> (harbor \<times> harbor_act list) res" where
  "close_harbor i h =
     bindR (close_slave (hb_s h i)) (\<lambda>(s, acts). Inr (h\<lparr>hb_s := (hb_s h)(i := s)\<rparr>, acts))"

definition report_harbor_down :: "nat \<Rightarrow> harbor \<Rightarrow> harbor_act list" where
  "report_harbor_down i h = [Sends 0 (hb_slave h) P_TEXT 0 (cstr ''D '' @ print_d (int i))]"

definition harbor_create :: harbor where
  "harbor_create = \<lparr>hb_id = 0, hb_slave = 0, hb_map = hash_new, hb_s = (\<lambda>_. empty_slave)\<rparr>"

definition harbor_release :: "harbor \<Rightarrow> harbor_act list res" where
  "harbor_release h =
     bindR (foldR (\<lambda>i (h, acts).
         if sl_fd (hb_s h i) \<noteq> 0 \<and> sl_status (hb_s h i) \<noteq> STATUS_DOWN
         then bindR (close_harbor i h) (\<lambda>(h, a). Inr (h, acts @ a))
         else Inr (h, acts)) [1..<REMOTE_MAX] (h, [])) (\<lambda>(h, acts).
     bindR (hash_delete (hb_map h)) (\<lambda>fr. Inr (acts @ fr)))"

section \<open>Frames\<close>

definition to_bigendian :: "u32 \<Rightarrow> u8 list" where
  "to_bigendian n = [ucast (drop_bit 24 n), ucast (drop_bit 16 n), ucast (drop_bit 8 n), ucast n]"

definition header_to_message :: "remote_message_header \<Rightarrow> u8 list" where
  "header_to_message header =
     to_bigendian (rh_source header) @ to_bigendian (rh_destination header) @ to_bigendian (rh_session header)"

definition from_bigendian :: "u8 list \<Rightarrow> u32" where
  "from_bigendian b =
     push_bit 24 (ucast (b ! 0)) OR push_bit 16 (ucast (b ! 1)) OR push_bit 8 (ucast (b ! 2)) OR ucast (b ! 3)"

definition message_to_header :: "u8 list \<Rightarrow> remote_message_header" where
  "message_to_header msg =
     \<lparr>rh_source = from_bigendian msg, rh_destination = from_bigendian (drop 4 msg),
      rh_session = from_bigendian (drop 8 msg)\<rparr>"

definition init_all :: "'a option list \<Rightarrow> 'a list res" where
  "init_all xs = (case those xs of None \<Rightarrow> Inl Uninitialised | Some ys \<Rightarrow> Inr ys)"

text \<open>The message is delivered to the service of this node; \<open>hid\<close> is \<^verbatim>\<open>h->id\<close>.\<close>

definition forward_local_messsage :: "send_result \<Rightarrow> int \<Rightarrow> u8 option list \<Rightarrow> harbor_act list \<Rightarrow> harbor_act list res" where
  "forward_local_messsage R hid msg acts =
     (if length msg < HEADER_COOKIE_LENGTH then Inl Out_of_bounds
      else
        bindR (init_all msg) (\<lambda>bytes.
        let sz = length msg - HEADER_COOKIE_LENGTH;
            header = message_to_header (drop sz bytes);
            type = uint (drop_bit HANDLE_REMOTE_SHIFT (rh_destination header));
            destination = (rh_destination header AND HANDLE_MASK) OR push_bit HANDLE_REMOTE_SHIFT (word_of_int hid);
            session = sint (rh_session header);
            call = Sends (rh_source header) destination (type OR P_TAG_DONTCOPY) session (take sz bytes)
        in Inr (acts @ [call] @
             (if R acts call < 0 then
                (if type \<noteq> P_ERROR then [Sends destination (rh_source header) P_ERROR session []] else []) @
                [Logs (cstr ''Unknown destination :'' @ print_x destination @ cstr '' from :'' @
                       print_x (rh_source header) @ cstr '' type('' @ print_d type @ cstr '')'')]
              else []))))"

definition send_remote :: "int \<Rightarrow> u8 list \<Rightarrow> remote_message_header \<Rightarrow> harbor_act list" where
  "send_remote fd buffer cookie =
     (let sz_header = int (length buffer) + int HEADER_COOKIE_LENGTH in
      if sz_header > 0xffffffff then
        [Logs (cstr ''remote message from :'' @ print_08x (rh_source cookie) @ cstr '' to :'' @
               print_08x (rh_destination cookie) @ cstr '' is too large.'')]
      else [Writes fd (to_bigendian (word_of_int sz_header) @ buffer @ header_to_message cookie)])"

section \<open>Queues\<close>

text \<open>The caller has checked that the node has a queue.\<close>

definition dispatch_name_queue :: "harbor \<Rightarrow> keyvalue \<Rightarrow> (harbor \<times> keyvalue \<times> harbor_act list) res" where
  "dispatch_name_queue h node =
     (case kv_queue node of
        None \<Rightarrow> Inl Bad_pointer
      | Some queue \<Rightarrow>
          let handle = kv_value node;
              hid = unat (drop_bit HANDLE_REMOTE_SHIFT handle);
              s = hb_s h hid
          in
          if sl_fd s = 0 then
            if sl_status s = STATUS_DOWN then
              Inr (h, node, [Logs (cstr ''Drop message to '' @ takeWhile (\<lambda>c. c \<noteq> 0) (kv_key node) @
                                   cstr '' (in harbor '' @ print_d (int hid) @ cstr '')'')])
            else
              bindR (case sl_queue s of
                       None \<Rightarrow> Inr (queue, node\<lparr>kv_queue := None\<rparr>)
                     | Some sq \<Rightarrow>
                         bindR (run_loop (pop_loop pop_queue push_queue_msg queue sq)) (\<lambda>(sq, queue).
                         Inr (sq, node\<lparr>kv_queue := Some queue\<rparr>))) (\<lambda>(sq, node).
              if hid = unat (drop_bit HANDLE_REMOTE_SHIFT (hb_slave h)) then
                bindR (run_loop (pop_loop pop_queue (\<lambda>m acts.
                    Inr (acts @ [Sends (rh_source (hm_header m)) handle
                      (uint (drop_bit HANDLE_REMOTE_SHIFT (rh_destination (hm_header m))) OR P_TAG_DONTCOPY)
                      (sint (rh_session (hm_header m))) (hm_buffer m)])) sq [])) (\<lambda>(acts, sq).
                bindR (release_queue (Some sq)) (\<lambda>fr.
                Inr (h\<lparr>hb_s := (hb_s h)(hid := s\<lparr>sl_queue := None\<rparr>)\<rparr>, node, acts @ fr)))
              else Inr (h\<lparr>hb_s := (hb_s h)(hid := s\<lparr>sl_queue := Some sq\<rparr>)\<rparr>, node, []))
          else
            bindR (run_loop (pop_loop pop_queue (\<lambda>m acts.
                let header = hm_header m;
                    header = header\<lparr>rh_destination := rh_destination header OR (handle AND HANDLE_MASK)\<rparr>
                in Inr (acts @ send_remote (sl_fd s) (hm_buffer m) header @ [Frees (hm_buffer m)])) queue [])) (\<lambda>(acts, queue).
            Inr (h, node\<lparr>kv_queue := Some queue\<rparr>, acts)))"

definition slave_dispatch :: "slave \<Rightarrow> (slave \<times> harbor_act list) res" where
  "slave_dispatch s =
     bindR (c_assert (sl_fd s \<noteq> 0)) (\<lambda>_.
     case sl_queue s of
       None \<Rightarrow> Inr (s, [])
     | Some queue \<Rightarrow>
         bindR (run_loop (pop_loop pop_queue (\<lambda>m acts.
             Inr (acts @ send_remote (sl_fd s) (hm_buffer m) (hm_header m) @ [Frees (hm_buffer m)])) queue [])) (\<lambda>(acts, queue).
         bindR (release_queue (Some queue)) (\<lambda>fr.
         Inr (s\<lparr>sl_queue := None\<rparr>, acts @ fr))))"

definition harbor_dispatch_queue :: "nat \<Rightarrow> harbor \<Rightarrow> (harbor \<times> harbor_act list) res" where
  "harbor_dispatch_queue i h =
     bindR (slave_dispatch (hb_s h i)) (\<lambda>(s, acts). Inr (h\<lparr>hb_s := (hb_s h)(i := s)\<rparr>, acts))"

section \<open>Data from a connection\<close>

text \<open>
  The cases of the switch.  Each gives the connection, the calls so far and, unless the
  function returns, the bytes that are left.
\<close>

definition recv_handshake :: "nat \<Rightarrow> slave \<Rightarrow> u8 list \<Rightarrow> harbor_act list \<Rightarrow> (slave \<times> harbor_act list \<times> u8 list option) res" where
  "recv_handshake i s buffer acts =
     (case buffer of
        [] \<Rightarrow> Inl Out_of_bounds
      | remote_id # buffer \<Rightarrow>
          if unat remote_id \<noteq> i then
            bindR (close_slave s) (\<lambda>(s', a).
            Inr (s', acts @ [Logs (cstr ''Invalid shakehand id ('' @ print_d (int i) @ cstr '') from fd = '' @
                   print_d (sl_fd s) @ cstr '' , harbor = '' @ print_d (uint remote_id))] @ a, None))
          else
            bindR (slave_dispatch (s\<lparr>sl_status := STATUS_HEADER\<rparr>)) (\<lambda>(s, a).
            Inr (s, acts @ a, Some buffer)))"

definition recv_header :: "nat \<Rightarrow> slave \<Rightarrow> u8 list \<Rightarrow> harbor_act list \<Rightarrow> (slave \<times> harbor_act list \<times> u8 list option) res" where
  "recv_header i s buffer acts =
     (let need = 4 - sl_read s in
      if length buffer < need then
        bindR (memcpy_at (sl_size s) (sl_read s) buffer) (\<lambda>sz.
        Inr (s\<lparr>sl_size := sz, sl_read := sl_read s + length buffer\<rparr>, acts, None))
      else
        bindR (memcpy_at (sl_size s) (sl_read s) (take need buffer)) (\<lambda>sz.
        let s = s\<lparr>sl_size := sz\<rparr>; buffer = drop need buffer in
        if sz ! 0 \<noteq> 0 then
          bindR (close_slave s) (\<lambda>(s, a).
          Inr (s, acts @ [Logs (cstr ''Message is too long from harbor '' @ print_d (int i))] @ a, None))
        else
          let len = unat (from_bigendian [0, sz ! 1, sz ! 2, sz ! 3]);
              s = s\<lparr>sl_length := len, sl_read := 0, sl_recv_buffer := Some (replicate len None),
                    sl_status := STATUS_CONTENT\<rparr>
          in Inr (s, acts, if buffer = [] then None else Some buffer)))"

definition recv_content :: "send_result \<Rightarrow> int \<Rightarrow> slave \<Rightarrow> u8 list \<Rightarrow> harbor_act list \<Rightarrow>
    (slave \<times> harbor_act list \<times> u8 list option) res" where
  "recv_content R hid s buffer acts =
     (case sl_recv_buffer s of
        None \<Rightarrow> Inl Bad_pointer
      | Some recv \<Rightarrow>
          let need = sl_length s - sl_read s in
          if length buffer < need then
            bindR (memcpy_at recv (sl_read s) (map Some buffer)) (\<lambda>recv.
            Inr (s\<lparr>sl_recv_buffer := Some recv, sl_read := sl_read s + length buffer\<rparr>, acts, None))
          else
            bindR (memcpy_at recv (sl_read s) (map Some (take need buffer))) (\<lambda>recv.
            bindR (forward_local_messsage R hid recv acts) (\<lambda>acts.
            let s = s\<lparr>sl_length := 0, sl_read := 0, sl_recv_buffer := None, sl_status := STATUS_HEADER\<rparr>;
                buffer = drop need buffer
            in Inr (s, acts, if buffer = [] then None else Some buffer))))"

lemma recv_handshake_shorter:
  "recv_handshake i s buffer acts = Inr (s', acts', Some rest) \<Longrightarrow> length rest < length buffer"
  by (auto simp: recv_handshake_def res_simps split: list.splits if_splits)

lemma recv_content_shorter:
  assumes "recv_content R hid s buffer acts = Inr (s', acts', Some rest)"
  shows "length rest \<le> length buffer \<and> sl_status s' = STATUS_HEADER"
  using assms by (auto simp: recv_content_def Let_def res_simps split: option.splits if_splits)

text \<open>The header is read to the start of the content, and an empty frame is never forwarded.\<close>

lemma recv_header_content:
  assumes h: "recv_header i s buffer acts = Inr (s1, acts1, Some rest1)"
    and c: "recv_content R hid s1 rest1 acts1 = Inr (s', acts', Some rest)"
  shows "length rest < length buffer \<and> sl_status s' = STATUS_HEADER"
proof -
  from h have s1: "sl_read s1 = 0" "sl_recv_buffer s1 = Some (replicate (sl_length s1) None)" "length rest1 \<le> length buffer"
    by (auto simp: recv_header_def Let_def res_simps split: if_splits)
  from c s1 obtain d acts2 where d: "memcpy_at (replicate (sl_length s1) None) 0 (map Some (take (sl_length s1) rest1)) = Inr d"
      "forward_local_messsage R hid d acts1 = Inr acts2" "rest = drop (sl_length s1) rest1" "rest \<noteq> []"
    by (auto simp: recv_content_def Let_def res_simps split: if_splits)
  from d(2) have "12 \<le> length d"
    by (auto simp: forward_local_messsage_def HEADER_COOKIE_LENGTH_def split: if_splits)
  with memcpy_at_length [OF d(1)] have "12 \<le> sl_length s1" by simp
  with d(3,4) s1(3) recv_content_shorter [OF c] show ?thesis by auto
qed

function push_loop :: "send_result \<Rightarrow> int \<Rightarrow> nat \<Rightarrow> slave \<Rightarrow> u8 list \<Rightarrow> harbor_act list \<Rightarrow> (slave \<times> harbor_act list) res" where
  "push_loop R hid i s buffer acts =
     (case sl_status s of
        STATUS_HANDSHAKE \<Rightarrow>
          bindR (recv_handshake i s buffer acts) (\<lambda>(s, acts, go).
          case go of None \<Rightarrow> Inr (s, acts) | Some buffer \<Rightarrow> push_loop R hid i s buffer acts)
      | STATUS_HEADER \<Rightarrow>
          bindR (recv_header i s buffer acts) (\<lambda>(s, acts, go).
          case go of
            None \<Rightarrow> Inr (s, acts)
          | Some buffer \<Rightarrow>
              bindR (recv_content R hid s buffer acts) (\<lambda>(s, acts, go).
              case go of None \<Rightarrow> Inr (s, acts) | Some buffer \<Rightarrow> push_loop R hid i s buffer acts))
      | STATUS_CONTENT \<Rightarrow>
          bindR (recv_content R hid s buffer acts) (\<lambda>(s, acts, go).
          case go of None \<Rightarrow> Inr (s, acts) | Some buffer \<Rightarrow> push_loop R hid i s buffer acts)
      | _ \<Rightarrow> Inr (s, acts))"
  by pat_completeness auto
termination
  by (relation "measures [\<lambda>(R, hid, i, s, buffer, acts). length buffer,
        \<lambda>(R, hid, i, s, buffer, acts). if sl_status s = STATUS_CONTENT then 1 else 0]")
     (auto dest: recv_handshake_shorter recv_content_shorter recv_header_content)

declare push_loop.simps [simp del]

definition slave_of_fd :: "int \<Rightarrow> harbor \<Rightarrow> nat option" where
  "slave_of_fd fd h = find (\<lambda>i. sl_fd (hb_s h i) = fd) [1..<REMOTE_MAX]"

definition push_socket_data :: "send_result \<Rightarrow> skynet_socket_message \<Rightarrow> harbor \<Rightarrow> (harbor \<times> harbor_act list) res" where
  "push_socket_data R m h =
     bindR (c_assert (sk_type m = SKYNET_SOCKET_TYPE_DATA)) (\<lambda>_.
     case slave_of_fd (sk_id m) h of
       None \<Rightarrow> Inr (h, [Logs (cstr ''Invalid socket fd ('' @ print_d (sk_id m) @ cstr '') data'')])
     | Some i \<Rightarrow>
         bindR (push_loop R (hb_id h) i (hb_s h i) (sk_buffer m) []) (\<lambda>(s, acts).
         Inr (h\<lparr>hb_s := (hb_s h)(i := s)\<rparr>, acts)))"

section \<open>Messages to other nodes\<close>

text \<open>The node of a name, new if there was none.\<close>

definition name_node :: "u8 list \<Rightarrow> hashmap \<Rightarrow> keyvalue \<times> hashmap" where
  "name_node name hash = (case hash_search name hash of Some node \<Rightarrow> (node, hash) | None \<Rightarrow> hash_insert name hash)"

definition update_name :: "u8 list \<Rightarrow> u32 \<Rightarrow> harbor \<Rightarrow> (harbor \<times> harbor_act list) res" where
  "update_name name handle h =
     (case name_node name (hb_map h) of
        (node, hash) \<Rightarrow>
          let node = node\<lparr>kv_value := handle\<rparr>; h = h\<lparr>hb_map := node_put name node hash\<rparr> in
          if kv_queue node = None then Inr (h, [])
          else
            bindR (dispatch_name_queue h node) (\<lambda>(h, node, acts).
            bindR (release_queue (kv_queue node)) (\<lambda>fr.
            Inr (h\<lparr>hb_map := node_put name (node\<lparr>kv_queue := None\<rparr>) (hb_map h)\<rparr>, acts @ fr))))"

text \<open>The result says whether the message is kept: the caller frees it otherwise.\<close>

definition remote_send_handle :: "u32 \<Rightarrow> u32 \<Rightarrow> int \<Rightarrow> int \<Rightarrow> u8 list \<Rightarrow> harbor \<Rightarrow> (bool \<times> harbor \<times> harbor_act list) res" where
  "remote_send_handle source destination type session msg h =
     (let hid = unat (drop_bit HANDLE_REMOTE_SHIFT destination) in
      if int hid = hb_id h then
        Inr (True, h, [Sends source destination (type OR P_TAG_DONTCOPY) session msg])
      else
        let s = hb_s h hid;
            header = \<lparr>rh_source = source,
                      rh_destination = push_bit HANDLE_REMOTE_SHIFT (word_of_int type) OR (destination AND HANDLE_MASK),
                      rh_session = word_of_int session\<rparr>
        in
        if sl_fd s = 0 \<or> sl_status s = STATUS_HANDSHAKE then
          if sl_status s = STATUS_DOWN then
            Inr (False, h, [Sends destination source P_ERROR 0 [],
              Logs (cstr ''Drop message to harbor '' @ print_d (int hid) @ cstr '' from '' @ print_x source @
                    cstr '' to '' @ print_x destination @ cstr '' (session = '' @ print_d session @
                    cstr '', msgsz = '' @ print_d (to_int (int (length msg))) @ cstr '')'')])
          else
            let q = (case sl_queue s of None \<Rightarrow> new_queue | Some q \<Rightarrow> q) in
            bindR (push_queue msg header q) (\<lambda>q.
            Inr (True, h\<lparr>hb_s := (hb_s h)(hid := s\<lparr>sl_queue := Some q\<rparr>)\<rparr>, []))
        else Inr (False, h, send_remote (sl_fd s) msg header))"

definition remote_send_name :: "u32 \<Rightarrow> u8 list \<Rightarrow> int \<Rightarrow> int \<Rightarrow> u8 list \<Rightarrow> harbor \<Rightarrow> (bool \<times> harbor \<times> harbor_act list) res" where
  "remote_send_name source name type session msg h =
     (case name_node name (hb_map h) of
        (node, hash) \<Rightarrow>
          let h = h\<lparr>hb_map := hash\<rparr> in
          if kv_value node = 0 then
            let q = (case kv_queue node of None \<Rightarrow> new_queue | Some q \<Rightarrow> q);
                header = \<lparr>rh_source = source, rh_destination = push_bit HANDLE_REMOTE_SHIFT (word_of_int type),
                          rh_session = word_of_int session\<rparr>
            in
            bindR (push_queue msg header q) (\<lambda>q.
            Inr (True, h\<lparr>hb_map := node_put name (node\<lparr>kv_queue := Some q\<rparr>) (hb_map h)\<rparr>,
                 [Sends 0 (hb_slave h) P_TEXT 0
                    (cstr ''Q '' @ takeWhile (\<lambda>c. c \<noteq> 0) (take GLOBALNAME_LENGTH name))]))
          else remote_send_handle source (kv_value node) type session msg h)"

section \<open>Commands\<close>

definition handshake :: "nat \<Rightarrow> harbor \<Rightarrow> harbor_act list" where
  "handshake i h = [Writes (sl_fd (hb_s h i)) [word_of_int (hb_id h)]]"

text \<open>\<^verbatim>\<open>sscanf(buffer, "%d %d", &fd, &id)\<close> with both variables 0 before.\<close>

definition scan_two :: "cstring \<Rightarrow> int \<times> int" where
  "scan_two s =
     (case scan_d s of
        None \<Rightarrow> (0, 0)
      | Some (fd, s) \<Rightarrow> (case scan_d s of None \<Rightarrow> (fd, 0) | Some (i, _) \<Rightarrow> (fd, i)))"

definition harbor_connect :: "u8 \<Rightarrow> cstring \<Rightarrow> harbor \<Rightarrow> (harbor \<times> harbor_act list) res" where
  "harbor_connect c buffer h =
     (case scan_two buffer of
        (fd, i) \<Rightarrow>
          if fd = 0 \<or> i \<le> 0 \<or> i \<ge> int REMOTE_MAX then
            Inr (h, [Logs (cstr ''Invalid command '' @ [c, 32] @ buffer)])
          else
            let i = nat i; slave = hb_s h i in
            if sl_fd slave \<noteq> 0 then Inr (h, [Logs (cstr ''Harbor '' @ print_d (int i) @ cstr '' alreay exist'')])
            else
              let h = h\<lparr>hb_s := (hb_s h)(i := slave\<lparr>sl_fd := fd\<rparr>)\<rparr>; acts = Starts fd # handshake i h in
              if c = 83 then
                Inr (h\<lparr>hb_s := (hb_s h)(i := (hb_s h i)\<lparr>sl_status := STATUS_HANDSHAKE\<rparr>)\<rparr>, acts)
              else
                bindR (harbor_dispatch_queue i
                  (h\<lparr>hb_s := (hb_s h)(i := (hb_s h i)\<lparr>sl_status := STATUS_HEADER\<rparr>)\<rparr>)) (\<lambda>(h, a).
                Inr (h, acts @ a)))"

text \<open>
  A message has a zero behind its last byte where it is printed.  The command \<^verbatim>\<open>S\<close> or \<^verbatim>\<open>A\<close> of one
  byte would copy -1 bytes into an array of length 0.
\<close>

definition harbor_command :: "u8 list \<Rightarrow> u32 \<Rightarrow> harbor \<Rightarrow> (harbor \<times> harbor_act list) res" where
  "harbor_command msg source h =
     (case msg of
        [] \<Rightarrow> Inl Out_of_bounds
      | c # _ \<Rightarrow>
          let name = drop 2 msg in
          if c = 78 then
            if length msg \<le> 2 \<or> length name \<ge> GLOBALNAME_LENGTH then
              Inr (h, [Logs (cstr ''Invalid global name '' @ takeWhile (\<lambda>c. c \<noteq> 0) name)])
            else update_name (name @ replicate (GLOBALNAME_LENGTH - length name) 0) source h
          else if c = 83 \<or> c = 65 then
            if length msg < 2 then Inl Out_of_bounds
            else harbor_connect c (takeWhile (\<lambda>c. c \<noteq> 0) name) h
          else Inr (h, [Logs (cstr ''Unknown command '' @ takeWhile (\<lambda>c. c \<noteq> 0) msg)]))"

definition harbor_id :: "int \<Rightarrow> harbor \<Rightarrow> nat" where
  "harbor_id fd h = (case slave_of_fd fd h of None \<Rightarrow> 0 | Some i \<Rightarrow> i)"

section \<open>The callback\<close>

text \<open>A message to another node, with the name and the handle of its destination.\<close>

record remote_out =
  ro_name :: "u8 list"
  ro_handle :: u32
  ro_message :: "u8 list"
  ro_type :: int

datatype harbor_in = Socket_in skynet_socket_message | Command_in "u8 list" | System_in remote_out | Other_in int

definition harbor_socket :: "send_result \<Rightarrow> skynet_socket_message \<Rightarrow> harbor \<Rightarrow> (harbor \<times> harbor_act list) res" where
  "harbor_socket R m h =
     (case sk_type m of
        SKYNET_SOCKET_TYPE_DATA \<Rightarrow>
          bindR (push_socket_data R m h) (\<lambda>(h, acts). Inr (h, acts @ [Frees (sk_buffer m)]))
      | SKYNET_SOCKET_TYPE_CONNECT \<Rightarrow> Inr (h, [])
      | SKYNET_SOCKET_TYPE_WARNING \<Rightarrow>
          let i = harbor_id (sk_id m) h in
          Inr (h, if i \<noteq> 0 then [Logs (cstr ''message havn't send to Harbor ('' @ print_d (int i) @ cstr '') reach '' @
                                         print_d (sk_ud m) @ cstr '' K'')] else [])
      | t \<Rightarrow>
          if t = SKYNET_SOCKET_TYPE_ERROR \<or> t = SKYNET_SOCKET_TYPE_CLOSE then
            let i = harbor_id (sk_id m) h in
            Inr (h, if i \<noteq> 0 then report_harbor_down i h
                    else [Logs (cstr ''Unkown fd ('' @ print_d (sk_id m) @ cstr '') closed'')])
          else Inr (h, [Logs (cstr ''recv invalid socket message type '' @ print_d P_SOCKET)]))"

definition mainloop :: "send_result \<Rightarrow> harbor_in \<Rightarrow> int \<Rightarrow> u32 \<Rightarrow> harbor \<Rightarrow> (harbor \<times> harbor_act list) res" where
  "mainloop R input session source h =
     (case input of
        Socket_in m \<Rightarrow> harbor_socket R m h
      | Command_in msg \<Rightarrow> harbor_command msg source h
      | System_in r \<Rightarrow>
          bindR (if ro_handle r = 0 then remote_send_name source (ro_name r) (ro_type r) session (ro_message r) h
                 else remote_send_handle source (ro_handle r) (ro_type r) session (ro_message r) h) (\<lambda>(kept, h, acts).
          Inr (h, if kept then acts else acts @ [Frees (ro_message r)]))
      | Other_in type \<Rightarrow>
          Inr (h, Logs (cstr ''recv invalid message from '' @ print_x source @ cstr '',  type = '' @ print_d type) #
                  (if session \<noteq> 0 \<and> type \<noteq> P_ERROR then [Sends 0 source P_ERROR session []] else [])))"

definition scan_u :: "cstring \<Rightarrow> (u32 \<times> cstring) option" where
  "scan_u s =
     (let s = dropWhile is_space s;
          r = (if s \<noteq> [] \<and> (hd s = 45 \<or> hd s = 43) then tl s else s);
          d = takeWhile (is_digit 10) r in
      if d = [] then None else Some (ucast (strtoul 10 s), drop (length d) r))"

definition harbor_init :: "cstring \<Rightarrow> harbor \<Rightarrow> nat \<times> harbor \<times> harbor_act list" where
  "harbor_init args h =
     (case scan_d args of
        None \<Rightarrow> (1, h, [])
      | Some (i, s) \<Rightarrow>
          (case scan_u s of
             None \<Rightarrow> (1, h, [])
           | Some (sl, _) \<Rightarrow>
               if sl = 0 then (1, h, []) else (0, h\<lparr>hb_id := i, hb_slave := sl\<rparr>, [Registers])))"

end
