(* ===== verification/Harbor_Link.thy ===== *)
theory Harbor_Link
  imports Harbor
begin

text \<open>
  What one node sends over the connection another node delivers: the frames of the
  harbor service survive the cutting of the byte stream into packets.
\<close>

section \<open>Numbers and headers as bytes\<close>

lemma from_to_bigendian [simp]: "from_bigendian (to_bigendian n) = n"
proof (rule bit_word_eqI)
  fix k assume "k < LENGTH(32)"
  then show "bit (from_bigendian (to_bigendian n)) k = bit n k"
    by (cases "k < 8"; cases "k < 16"; cases "k < 24")
       (auto simp: from_bigendian_def to_bigendian_def bit_simps)
qed

lemma length_to_bigendian [simp]: "length (to_bigendian n) = 4"
  by (simp add: to_bigendian_def)

lemma from_bigendian_take: "4 \<le> length b \<Longrightarrow> from_bigendian (take 4 b) = from_bigendian b"
  by (simp add: from_bigendian_def)

lemma from_bigendian_append [simp]: "from_bigendian (to_bigendian n @ b) = n"
  using from_bigendian_take [of "to_bigendian n @ b"] by simp

lemma message_header_roundtrip: "message_to_header (header_to_message header) = header"
  using from_to_bigendian [of "rh_session header"]
  by (simp add: message_to_header_def header_to_message_def)

lemma length_header_to_message [simp]: "length (header_to_message header) = HEADER_COOKIE_LENGTH"
  by (simp add: header_to_message_def HEADER_COOKIE_LENGTH_def)

lemma those_map_Some [simp]: "those (map Some xs) = Some xs"
  by (induction xs) simp_all

text \<open>The first byte of a length below \<open>2\<^sup>2\<^sup>4\<close> is 0, and the other three give it back.\<close>

lemma unat_u32_of_nat: "n < 2 ^ 32 \<Longrightarrow> unat (word_of_nat n :: u32) = n"
  by (simp add: unsigned_of_nat take_bit_nat_eq_self)

lemma to_bigendian_small:
  assumes "n < 2 ^ 24"
  shows "to_bigendian (word_of_nat n) ! 0 = 0"
proof -
  have "unat (word_of_nat n :: u32) = n" using assms by (intro unat_u32_of_nat) simp
  with assms have "drop_bit 24 (word_of_nat n :: u32) = 0"
    by (simp add: unat_eq_zero [symmetric] unat_drop_bit_div del: unat_eq_zero)
  then show ?thesis by (simp add: to_bigendian_def)
qed

lemma from_bigendian_small:
  assumes "n < 2 ^ 24" "sz = to_bigendian (word_of_nat n)"
  shows "unat (from_bigendian [0, sz ! 1, sz ! 2, sz ! 3]) = n"
proof -
  have "[0, sz ! 1, sz ! 2, sz ! 3] = to_bigendian (word_of_nat n)"
    using to_bigendian_small [OF assms(1)] assms(2) by (simp add: to_bigendian_def)
  moreover have "unat (word_of_nat n :: u32) = n" using assms by (intro unat_u32_of_nat) simp
  ultimately show ?thesis by simp
qed

section \<open>Reading a frame piece by piece\<close>

definition frame :: "u8 list \<Rightarrow> u8 list" where
  "frame body = to_bigendian (word_of_nat (length body)) @ body"

text \<open>
  The connection has read \<open>p\<close> of the length of a frame, or \<open>p\<close> of the content of a frame of
  \<open>n\<close> bytes.
\<close>

definition in_header :: "slave \<Rightarrow> u8 list \<Rightarrow> bool" where
  "in_header s p \<longleftrightarrow>
     sl_status s = STATUS_HEADER \<and> length (sl_size s) = 4 \<and> sl_read s = length p \<and> length p < 4 \<and>
     take (length p) (sl_size s) = p"

definition in_content :: "slave \<Rightarrow> nat \<Rightarrow> u8 list \<Rightarrow> bool" where
  "in_content s n p \<longleftrightarrow>
     sl_status s = STATUS_CONTENT \<and> length (sl_size s) = 4 \<and> sl_length s = n \<and> sl_read s = length p \<and> length p \<le> n \<and>
     sl_recv_buffer s = Some (map Some p @ replicate (n - length p) None)"

definition same_link :: "slave \<Rightarrow> slave \<Rightarrow> bool" where
  "same_link s s' \<longleftrightarrow> sl_fd s' = sl_fd s \<and> sl_queue s' = sl_queue s"

lemma same_link_refl [simp]: "same_link s s"
  by (simp add: same_link_def)

lemma same_link_trans: "same_link a b \<Longrightarrow> same_link b c \<Longrightarrow> same_link a c"
  by (simp add: same_link_def)

lemma recv_header_part:
  assumes "in_header s p" "length p + length buf < 4"
  shows "\<exists>s'. recv_header i s buf acts = Inr (s', acts, None) \<and> in_header s' (p @ buf) \<and> same_link s s'"
  using assms by (auto simp: recv_header_def in_header_def memcpy_at_def same_link_def Let_def)

lemma recv_header_full:
  assumes "in_header s p" and b: "p @ buf = to_bigendian (word_of_nat n) @ rest" and n: "n < 2 ^ 24"
  shows "\<exists>s'. recv_header i s buf acts = Inr (s', acts, if rest = [] then None else Some rest) \<and>
    in_content s' n [] \<and> same_link s s'"
proof -
  let ?k = "4 - length p"
  note I = assms(1) [unfolded in_header_def]
  have len: "\<not> length buf < ?k" using arg_cong [OF b, of length] by simp
  have sz: "p @ take ?k buf = to_bigendian (word_of_nat n)"
    using arg_cong [OF b, of "take 4"] I by simp
  have rest: "drop ?k buf = rest"
    using arg_cong [OF b, of "drop 4"] I by simp
  have cpy: "memcpy_at (sl_size s) (sl_read s) (take ?k buf) = Inr (to_bigendian (word_of_nat n))"
    using I len sz by (simp add: memcpy_at_def)
  show ?thesis
    using I len cpy from_bigendian_small [OF n refl] to_bigendian_small [OF n]
    by (simp add: recv_header_def Let_def rest in_content_def same_link_def)
qed

lemma recv_content_part:
  assumes "in_content s n p" "length p + length buf < n"
  shows "\<exists>s'. recv_content R hid s buf acts = Inr (s', acts, None) \<and> in_content s' n (p @ buf) \<and> same_link s s'"
  using assms
  by (auto simp: recv_content_def in_content_def memcpy_at_def same_link_def Let_def)

lemma recv_content_full:
  assumes "in_content s n p" and b: "p @ buf = body @ rest" and n: "length body = n"
  shows "\<exists>s'. recv_content R hid s buf acts =
      bindR (forward_local_messsage R hid (map Some body) acts) (\<lambda>acts. Inr (s', acts, if rest = [] then None else Some rest)) \<and>
    in_header s' [] \<and> same_link s s'"
proof -
  let ?k = "n - length p"
  note I = assms(1) [unfolded in_content_def]
  have len: "\<not> length buf < ?k" using arg_cong [OF b, of length] n by simp
  have body: "p @ take ?k buf = body"
    using arg_cong [OF b, of "take n"] I n by simp
  have rest: "drop ?k buf = rest"
    using arg_cong [OF b, of "drop n"] I n by simp
  have cpy: "memcpy_at (map Some p @ replicate ?k None) (length p) (map Some (take ?k buf)) = Inr (map Some body)"
    using I len n body [symmetric] by (simp add: memcpy_at_def)
  show ?thesis
    using I len cpy
    by (intro exI [of _ "s\<lparr>sl_length := 0, sl_read := 0, sl_recv_buffer := None, sl_status := STATUS_HEADER\<rparr>"])
       (simp add: recv_content_def Let_def rest in_header_def same_link_def)
qed

text \<open>The connection has read \<open>p\<close>, the start of a frame.\<close>

definition reading :: "slave \<Rightarrow> u8 list \<Rightarrow> bool" where
  "reading s p \<longleftrightarrow> in_header s p \<or>
     (\<exists>n q. in_content s n q \<and> length q < n \<and> n < 2 ^ 24 \<and> p = to_bigendian (word_of_nat n) @ q)"

lemma push_loop_nothing:
  assumes "in_header s []"
  shows "push_loop R hid i s [] acts = Inr (s, acts)"
proof -
  have "s\<lparr>sl_size := sl_size s, sl_read := 0\<rparr> = s" using assms by (simp add: in_header_def)
  then show ?thesis
    using assms by (simp add: push_loop.simps in_header_def recv_header_def Let_def memcpy_at_def)
qed

lemma frame_determined:
  assumes "to_bigendian (word_of_nat n) @ q @ r = frame body @ rest" "n < 2 ^ 24" "length body < 2 ^ 24"
  shows "length body = n \<and> q @ r = body @ rest"
proof -
  from assms(1) have "to_bigendian (word_of_nat n) = to_bigendian (word_of_nat (length body))" and qr: "q @ r = body @ rest"
    by (simp_all add: frame_def)
  then have "from_bigendian (to_bigendian (word_of_nat n)) = from_bigendian (to_bigendian (word_of_nat (length body)))"
    by simp
  then have "(word_of_nat n :: u32) = word_of_nat (length body)" by simp
  then have "unat (word_of_nat n :: u32) = unat (word_of_nat (length body) :: u32)" by simp
  then show ?thesis using assms(2,3) qr by (simp add: unat_u32_of_nat)
qed


lemma push_header:
  assumes "sl_status s = STATUS_HEADER" "recv_header i s buf acts = Inr (s', acts', None)"
  shows "push_loop R hid i s buf acts = Inr (s', acts')"
  using assms by (simp add: push_loop.simps)

text \<open>After a packet that ends inside the frame more of it has been read.\<close>

lemma push_part:
  assumes r: "reading s p" and b: "p @ buf @ after = frame body" and ne: "after \<noteq> []" and n: "length body < 2 ^ 24"
  shows "\<exists>s'. push_loop R hid i s buf acts = Inr (s', acts) \<and> reading s' (p @ buf) \<and> same_link s s'"
  using r [unfolded reading_def]
proof (elim disjE exE conjE)
  assume h: "in_header s p"
  then have st: "sl_status s = STATUS_HEADER" by (simp add: in_header_def)
  show ?thesis
  proof (cases "length p + length buf < 4")
    case True
    with recv_header_part [OF h True, of i acts] push_header [OF st] show ?thesis
      unfolding reading_def by blast
  next
    case False
    let ?n = "length body" and ?rest = "drop (4 - length p) buf"
    from h have p4: "length p < 4" by (simp add: in_header_def)
    have pb: "p @ buf = to_bigendian (word_of_nat ?n) @ ?rest"
      using arg_cong [OF b, of "take 4"] p4 False by (simp add: frame_def append_eq_append_conv2)
        (metis append_take_drop_id)
    then have body: "?rest @ after = body"
      using b unfolding frame_def by (metis append.assoc same_append_eq)
    from recv_header_full [OF h pb n, of i acts] obtain s1 where
      s1: "recv_header i s buf acts = Inr (s1, acts, if ?rest = [] then None else Some ?rest)"
        "in_content s1 ?n []" "same_link s s1" by blast
    show ?thesis
    proof (cases "?rest = []")
      case True
      then have "after = body" using body by simp
      with ne pb True s1 n have "reading s1 (p @ buf)"
        unfolding reading_def by (intro disjI2 exI [of _ ?n] exI [of _ "[]"]) simp
      then show ?thesis using push_header [OF st] s1 True by auto
    next
      case False
      have "length [] + length ?rest < ?n" using arg_cong [OF body, of length] ne by (cases after) auto
      from recv_content_part [OF s1(2) this, of R hid acts] obtain s2 where
        s2: "recv_content R hid s1 ?rest acts = Inr (s2, acts, None)" "in_content s2 ?n ?rest" "same_link s1 s2"
        by auto
      have "reading s2 (p @ buf)"
        unfolding reading_def pb using s2(2) n \<open>length [] + length ?rest < ?n\<close> by auto
      moreover have "push_loop R hid i s buf acts = Inr (s2, acts)"
        using st s1(1) s2(1) False by (simp add: push_loop.simps)
      ultimately show ?thesis using same_link_trans s1(3) s2(3) by blast
    qed
  qed
next
  fix k q
  assume c: "in_content s k q" and q: "length q < k" "k < 2 ^ 24" "p = to_bigendian (word_of_nat k) @ q"
  have "length body = k \<and> q @ buf @ after = body @ []"
    using frame_determined [of k q "buf @ after" body "[]"] b q n by simp
  then have len: "length q + length buf < k" using ne
    by (metis append_Nil2 append_eq_append_conv_if length_append length_greater_0_conv nat_add_left_cancel_less add.assoc less_add_same_cancel1)
  from recv_content_part [OF c this, of R hid acts] obtain s' where
    "recv_content R hid s buf acts = Inr (s', acts, None)" "in_content s' k (q @ buf)" "same_link s s'" by blast
  moreover have "sl_status s = STATUS_CONTENT" using c by (simp add: in_content_def)
  ultimately show ?thesis using q len
    by (intro exI [of _ s']) (auto simp: push_loop.simps reading_def)
qed

text \<open>A packet that completes the frame forwards it and is read on behind it.\<close>

lemma push_frame:
  assumes r: "reading s p" and b: "p @ buf = frame body @ rest" and n: "0 < length body" "length body < 2 ^ 24"
  shows "\<exists>s'. push_loop R hid i s buf acts =
      bindR (forward_local_messsage R hid (map Some body) acts) (\<lambda>acts. push_loop R hid i s' rest acts) \<and>
    reading s' [] \<and> same_link s s'"
proof -
  have content: "\<exists>s'. (bindR (recv_content R hid s1 buf1 acts) (\<lambda>(s, acts, go).
        case go of None \<Rightarrow> Inr (s, acts) | Some buffer \<Rightarrow> push_loop R hid i s buffer acts)) =
      bindR (forward_local_messsage R hid (map Some body) acts) (\<lambda>acts. push_loop R hid i s' rest acts) \<and>
    reading s' [] \<and> same_link s1 s'"
    if c: "in_content s1 (length body) q" "q @ buf1 = body @ rest" for s1 q buf1
  proof -
    from recv_content_full [OF c refl, of R hid acts] obtain s' where
      s': "recv_content R hid s1 buf1 acts =
          bindR (forward_local_messsage R hid (map Some body) acts) (\<lambda>acts. Inr (s', acts, if rest = [] then None else Some rest))"
        "in_header s' []" "same_link s1 s'" by blast
    then show ?thesis
      by (intro exI [of _ s']) (simp add: bindR_assoc reading_def push_loop_nothing split: if_splits cong: bindR_cong)
  qed
  from r [unfolded reading_def] show ?thesis
  proof (elim disjE exE conjE)
    assume h: "in_header s p"
    have pb: "p @ buf = to_bigendian (word_of_nat (length body)) @ body @ rest" using b by (simp add: frame_def)
    from recv_header_full [OF h pb n(2), of i acts] n(1) obtain s1 where
      s1: "recv_header i s buf acts = Inr (s1, acts, Some (body @ rest))" "in_content s1 (length body) []" "same_link s s1"
      by auto
    from content [OF s1(2), of "body @ rest"] obtain s' where s':
      "(bindR (recv_content R hid s1 (body @ rest) acts) (\<lambda>(s, acts, go).
        case go of None \<Rightarrow> Inr (s, acts) | Some buffer \<Rightarrow> push_loop R hid i s buffer acts)) =
      bindR (forward_local_messsage R hid (map Some body) acts) (\<lambda>acts. push_loop R hid i s' rest acts)"
      "reading s' []" "same_link s1 s'" by auto
    have "sl_status s = STATUS_HEADER" using h by (simp add: in_header_def)
    then have "push_loop R hid i s buf acts = bindR (recv_content R hid s1 (body @ rest) acts) (\<lambda>(s, acts, go).
        case go of None \<Rightarrow> Inr (s, acts) | Some buffer \<Rightarrow> push_loop R hid i s buffer acts)"
      by (subst push_loop.simps) (simp add: s1(1))
    with s' same_link_trans [OF s1(3) s'(3)] show ?thesis by auto
  next
    fix k q
    assume c: "in_content s k q" and q: "length q < k" "k < 2 ^ 24" "p = to_bigendian (word_of_nat k) @ q"
    have k: "length body = k" "q @ buf = body @ rest"
      using frame_determined [of k q buf body rest] b q n by auto
    have "sl_status s = STATUS_CONTENT" using c by (simp add: in_content_def)
    then have "push_loop R hid i s buf acts = bindR (recv_content R hid s buf acts) (\<lambda>(s, acts, go).
        case go of None \<Rightarrow> Inr (s, acts) | Some buffer \<Rightarrow> push_loop R hid i s buffer acts)"
      by (subst push_loop.simps) simp
    with content [of s q buf] c k show ?thesis by simp
  qed
qed


section \<open>Messages on the link\<close>

text \<open>A message with its source and session, as \<^verbatim>\<open>mainloop\<close> gets it for another node.\<close>

type_synonym outgoing = "u32 \<times> int \<times> remote_out"

fun out_header :: "outgoing \<Rightarrow> remote_message_header" where
  "out_header (source, session, r) =
     \<lparr>rh_source = source,
      rh_destination = push_bit HANDLE_REMOTE_SHIFT (word_of_int (ro_type r)) OR (ro_handle r AND HANDLE_MASK),
      rh_session = word_of_int session\<rparr>"

fun out_body :: "outgoing \<Rightarrow> u8 list" where
  "out_body (source, session, r) = ro_message r @ header_to_message (out_header (source, session, r))"

text \<open>The bytes of a sequence of messages on the connection.\<close>

fun wire :: "outgoing list \<Rightarrow> u8 list" where
  "wire [] = []"
| "wire (m # ms) = frame (out_body m) @ wire ms"

lemma wire_append [simp]: "wire (ms @ ms') = wire ms @ wire ms'"
  by (induction ms) simp_all

fun delivery :: "outgoing \<Rightarrow> harbor_act" where
  "delivery (source, session, r) = Sends source (ro_handle r) (ro_type r OR P_TAG_DONTCOPY) session (ro_message r)"

text \<open>A message for node \<open>k\<close>: the type fits a byte, the session an \<^verbatim>\<open>int\<close>, the frame the receiver's limit.\<close>

fun for_node :: "nat \<Rightarrow> outgoing \<Rightarrow> bool" where
  "for_node k (source, session, r) \<longleftrightarrow>
     unat (drop_bit HANDLE_REMOTE_SHIFT (ro_handle r)) = k \<and> 0 \<le> ro_type r \<and> ro_type r < 256 \<and>
     - (2 ^ 31) \<le> session \<and> session < 2 ^ 31 \<and> length (ro_message r) + HEADER_COOKIE_LENGTH < 2 ^ 24"

lemma HANDLE_MASK_bit: "bit HANDLE_MASK n \<longleftrightarrow> n < 24"
  unfolding mask24 by (auto simp: bit_mask_iff)

lemma byte_bits:
  assumes "0 \<le> t" "t < 256" "bit (word_of_int t :: u32) n"
  shows "n < 8"
proof -
  have "take_bit 8 t = t" using assms(1,2) by (simp add: take_bit_int_eq_self_iff)
  then have "bit t n \<longleftrightarrow> n < 8 \<and> bit t n" by (metis bit_take_bit_iff)
  with assms(3) show ?thesis by (simp add: bit_simps)
qed

lemma uint_byte: "0 \<le> t \<Longrightarrow> t < 256 \<Longrightarrow> uint (word_of_int t :: u32) = t"
  by (simp add: unsigned_of_int take_bit_int_eq_self_iff)

lemma destination_type:
  assumes "0 \<le> t" "t < 256"
  shows "drop_bit 24 (push_bit 24 (word_of_int t) OR (h AND HANDLE_MASK) :: u32) = word_of_int t"
proof (rule bit_word_eqI)
  fix n assume "n < LENGTH(32)"
  then show "bit (drop_bit 24 (push_bit 24 (word_of_int t) OR (h AND HANDLE_MASK) :: u32)) n = bit (word_of_int t :: u32) n"
    using byte_bits [OF assms, of n] by (auto simp: bit_or_iff bit_and_iff bit_drop_bit_eq bit_push_bit_iff HANDLE_MASK_bit)
qed

lemma destination_handle:
  assumes "unat (drop_bit 24 h) = k"
  shows "((push_bit 24 x OR (h AND HANDLE_MASK)) AND HANDLE_MASK) OR push_bit 24 (word_of_int (int k)) = (h :: u32)"
proof -
  have k: "word_of_int (int k) = drop_bit 24 h" by (simp flip: assms)
  show ?thesis
  proof (rule bit_word_eqI)
    fix n assume "n < LENGTH(32)"
    then show "bit (((push_bit 24 x OR (h AND HANDLE_MASK)) AND HANDLE_MASK) OR push_bit 24 (word_of_int (int k))) n = bit h n"
      unfolding k by (cases "n < 24") (auto simp: bit_or_iff bit_and_iff bit_drop_bit_eq bit_push_bit_iff HANDLE_MASK_bit)
  qed
qed

lemma sint_session:
  assumes "- (2 ^ 31) \<le> session" "session < 2 ^ 31"
  shows "sint (word_of_int session :: u32) = session"
  using assms by (simp add: signed_of_int signed_take_bit_int_eq_self_iff)

lemma forward_delivers:
  assumes "for_node k m" "\<forall>acts call. 0 \<le> R acts call"
  shows "forward_local_messsage R (int k) (map Some (out_body m)) acts = Inr (acts @ [delivery m])"
proof -
  obtain source session r where m: "m = (source, session, r)" by (cases m)
  let ?h = "out_header m"
  have h: "message_to_header (drop (length (ro_message r)) (out_body m)) = ?h"
    by (simp add: m message_header_roundtrip del: out_header.simps)
  have len: "length (out_body m) = length (ro_message r) + HEADER_COOKIE_LENGTH" by (simp add: m)
  have R: "\<not> R acts call < 0" for call using assms(2) by (simp add: not_less)
  have "rh_source ?h = source" "sint (rh_session ?h) = session"
    "uint (drop_bit HANDLE_REMOTE_SHIFT (rh_destination ?h)) = ro_type r"
    "(rh_destination ?h AND HANDLE_MASK) OR push_bit HANDLE_REMOTE_SHIFT (word_of_int (int k)) = ro_handle r"
    using assms(1) by (simp_all add: m HANDLE_REMOTE_SHIFT_def destination_type destination_handle uint_byte sint_session
        del: of_int_of_nat_eq drop_bit_or drop_bit_and)
  then show ?thesis
    unfolding forward_local_messsage_def init_all_def
    by (simp add: len h R Let_def del: of_int_of_nat_eq) (simp add: m)
qed

text \<open>
  A packet of a stream of frames: the messages whose frames end in it are delivered in
  order, and the rest of the stream starts with what has been read of the next frame.
\<close>

lemma push_stream:
  assumes "reading s p" "p @ buf @ after = wire ms"
    and "\<forall>m \<in> set ms. for_node k m" "\<forall>acts call. 0 \<le> R acts call"
  shows "\<exists>s' p' ms1 ms2. push_loop R (int k) i s buf acts = Inr (s', acts @ map delivery ms1) \<and>
    ms = ms1 @ ms2 \<and> reading s' p' \<and> p' @ after = wire ms2 \<and> same_link s s'"
  using assms(1-3)
proof (induction ms arbitrary: s p buf acts)
  case Nil
  then have "in_header s []" by (auto simp: reading_def to_bigendian_def)
  with Nil show ?case by (auto simp: push_loop_nothing)
next
  case (Cons m ms)
  let ?b = "out_body m"
  have fm: "for_node k m" using Cons.prems by simp
  then have n: "0 < length ?b" "length ?b < 2 ^ 24"
    by (cases m; simp add: HEADER_COOKIE_LENGTH_def)+
  have stream: "p @ buf @ after = frame ?b @ wire ms" using Cons.prems by simp
  show ?case
  proof (cases "length (frame ?b) \<le> length (p @ buf)")
    case True
    let ?rest = "drop (length (frame ?b)) (p @ buf)"
    have pb: "p @ buf = frame ?b @ ?rest"
      using stream True by (metis append.assoc append_eq_append_conv_if append_take_drop_id)
    have r: "?rest @ after = wire ms"
      using stream pb by (metis append.assoc same_append_eq)
    obtain s1 where s1: "push_loop R (int k) i s buf acts =
        bindR (forward_local_messsage R (int k) (map Some ?b) acts) (\<lambda>acts. push_loop R (int k) i s1 ?rest acts)"
        "reading s1 []" "same_link s s1"
      using push_frame [OF Cons.prems(1) pb n, of R "int k" i acts] by blast
    obtain s' p' ms1 ms2 where IH: "push_loop R (int k) i s1 ?rest (acts @ [delivery m]) = Inr (s', (acts @ [delivery m]) @ map delivery ms1)"
        "ms = ms1 @ ms2" "reading s' p'" "p' @ after = wire ms2" "same_link s1 s'"
      using Cons.IH [OF s1(2), of ?rest "acts @ [delivery m]"] r Cons.prems(3) by auto
    have "push_loop R (int k) i s buf acts = Inr (s', acts @ map delivery (m # ms1))"
      using s1(1) IH(1) forward_delivers [OF fm assms(4), of acts] by simp
    then show ?thesis using IH same_link_trans [OF s1(3) IH(5)]
      by (intro exI [of _ s'] exI [of _ p'] exI [of _ "m # ms1"] exI [of _ ms2]) simp
  next
    case False
    define c where "c = drop (length (p @ buf)) (frame ?b)"
    have "take (length (p @ buf)) (frame ?b) = p @ buf"
      using arg_cong [OF stream, of "take (length (p @ buf))"] False by simp
    then have c: "p @ buf @ c = frame ?b" "c \<noteq> []"
      using append_take_drop_id [of "length (p @ buf)" "frame ?b"] False by (simp_all add: c_def)
    obtain s' where "push_loop R (int k) i s buf acts = Inr (s', acts)" "reading s' (p @ buf)" "same_link s s'"
      using push_part [OF Cons.prems(1) c n(2), of R "int k" i acts] by blast
    then show ?thesis using Cons.prems(2)
      by (intro exI [of _ s'] exI [of _ "p @ buf"] exI [of _ "[]"] exI [of _ "m # ms"]) simp
  qed
qed

end
