(* ===== verification/Harbor_Nodes.thy ===== *)
theory Harbor_Nodes
  imports Harbor_Link
begin

text \<open>
  Two nodes: the messages one harbor gets for the other node, before and after the
  connection is there, are delivered by the other harbor, once each and in order.
\<close>

section \<open>Runs of the callback\<close>

type_synonym harbor_event = "harbor_in \<times> int \<times> u32"

fun harbor_run :: "send_result \<Rightarrow> harbor_event list \<Rightarrow> harbor \<Rightarrow> (harbor \<times> harbor_act list) res" where
  "harbor_run R [] h = Inr (h, [])"
| "harbor_run R ((input, session, source) # es) h =
     bindR (mainloop R input session source h) (\<lambda>(h, a).
     bindR (harbor_run R es h) (\<lambda>(h, b). Inr (h, a @ b)))"

lemma harbor_run_append:
  "harbor_run R (es @ es') h = bindR (harbor_run R es h) (\<lambda>(h, a). bindR (harbor_run R es' h) (\<lambda>(h, b). Inr (h, a @ b)))"
proof (induction es arbitrary: h)
  case Nil
  then show ?case by (cases "harbor_run R es' h") auto
next
  case (Cons e es)
  obtain input session source where e: "e = (input, session, source)" by (cases e)
  show ?case
  proof (cases "mainloop R input session source h")
    case (Inr r)
    then show ?thesis
      by (cases r, cases "harbor_run R es (fst r)"; cases "harbor_run R es' (fst (projr (harbor_run R es (fst r))))")
         (auto simp: e Cons.IH)
  qed (simp add: e)
qed

text \<open>What a run sends to services of its own node, and what it writes to a connection.\<close>

fun sends :: "harbor_act list \<Rightarrow> harbor_act list" where
  "sends [] = []"
| "sends (Sends a b c d e # acts) = Sends a b c d e # sends acts"
| "sends (_ # acts) = sends acts"

fun written :: "int \<Rightarrow> harbor_act list \<Rightarrow> u8 list" where
  "written fd [] = []"
| "written fd (Writes f bytes # acts) = (if f = fd then bytes else []) @ written fd acts"
| "written fd (_ # acts) = written fd acts"

lemma sends_append [simp]: "sends (xs @ ys) = sends xs @ sends ys"
  by (induction xs rule: sends.induct) simp_all

lemma written_append [simp]: "written fd (xs @ ys) = written fd xs @ written fd ys"
  by (induction xs rule: sends.induct) simp_all

lemma sends_deliveries [simp]: "sends (map delivery ms) = map delivery ms"
proof (induction ms)
  case (Cons m ms)
  then show ?case by (cases m) simp
qed simp

section \<open>Queues\<close>

lemma fold_append: "fold (\<lambda>m a. a @ f m) ms a = a @ concat (map f ms)"
  by (induction ms arbitrary: a) simp_all

text \<open>A loop over a queue that appends to the calls.\<close>

lemma pop_loop_acts:
  assumes "hq_valid q"
  shows "\<exists>q'. run_loop (pop_loop pop_queue (\<lambda>m acts. Inr (acts @ f m)) q []) = Inr (concat (map f (hq_list q)), q') \<and>
    hq_valid q' \<and> hq_list q' = []"
  using hq.pop_loop_ok [OF assms, of "\<lambda>m acts. Inr (acts @ f m)" "[]"]
  by (auto simp: foldR_pure fold_append)

lemma release_queue_ok:
  assumes "\<forall>q. queue = Some q \<longrightarrow> hq_valid q"
  shows "release_queue queue =
    Inr (case queue of None \<Rightarrow> [] | Some q \<Rightarrow> map (\<lambda>m. Frees (hm_buffer m)) (hq_list q))"
proof (cases queue)
  case (Some q)
  with assms pop_loop_acts [of q "\<lambda>m. [Frees (hm_buffer m)]"] show ?thesis
    by (auto simp: release_queue_def concat_map_singleton)
qed (simp add: release_queue_def)

definition queue_list :: "harbor_msg_queue option \<Rightarrow> harbor_msg list" where
  "queue_list queue = (case queue of None \<Rightarrow> [] | Some q \<Rightarrow> hq_list q)"

definition queue_ok :: "harbor_msg_queue option \<Rightarrow> bool" where
  "queue_ok queue \<longleftrightarrow> (\<forall>q. queue = Some q \<longrightarrow> hq_valid q)"

definition sent_acts :: "int \<Rightarrow> harbor_msg \<Rightarrow> harbor_act list" where
  "sent_acts fd m = send_remote fd (hm_buffer m) (hm_header m) @ [Frees (hm_buffer m)]"

lemma sends_sent_acts [simp]: "sends (concat (map (sent_acts fd) ms)) = []"
  by (induction ms) (simp_all add: sent_acts_def send_remote_def Let_def)

text \<open>The queue of a connection is written to it, in order, and is gone.\<close>

lemma slave_dispatch_ok:
  assumes "queue_ok (sl_queue s)" "sl_fd s \<noteq> 0"
  shows "slave_dispatch s = Inr (s\<lparr>sl_queue := None\<rparr>, concat (map (sent_acts (sl_fd s)) (queue_list (sl_queue s))))"
proof (cases "sl_queue s")
  case None
  then have "s\<lparr>sl_queue := None\<rparr> = s" by simp
  with None assms(2) show ?thesis by (simp add: slave_dispatch_def queue_list_def)
next
  case (Some q)
  then obtain q' where q': "run_loop (pop_loop pop_queue (\<lambda>m acts. Inr (acts @ sent_acts (sl_fd s) m)) q []) =
      Inr (concat (map (sent_acts (sl_fd s)) (hq_list q)), q')" "hq_valid q'" "hq_list q' = []"
    using pop_loop_acts [of q "sent_acts (sl_fd s)"] assms(1) by (auto simp: queue_ok_def)
  with Some assms(2) release_queue_ok [of "Some q'"] show ?thesis
    by (simp add: slave_dispatch_def queue_list_def sent_acts_def)
qed

section \<open>The receiving node\<close>

definition packet :: "int \<Rightarrow> u8 list \<Rightarrow> harbor_event" where
  "packet fd c =
     (Socket_in \<lparr>sk_type = SKYNET_SOCKET_TYPE_DATA, sk_id = fd, sk_ud = int (length c), sk_buffer = c, sk_tail = []\<rparr>, 0, 0)"

lemma slave_of_fd_upd:
  "same_link (hb_s h i) s \<Longrightarrow> slave_of_fd fd (h\<lparr>hb_s := (hb_s h)(i := s)\<rparr>) = slave_of_fd fd h"
  unfolding slave_of_fd_def same_link_def by (rule arg_cong [of _ _ "\<lambda>f. find f _"]) auto

lemma packet_step:
  assumes "slave_of_fd fd h = Some i" "push_loop R (hb_id h) i (hb_s h i) c [] = Inr (s, acts)"
  shows "harbor_run R (packet fd c # es) h =
    bindR (harbor_run R es (h\<lparr>hb_s := (hb_s h)(i := s)\<rparr>)) (\<lambda>(h, b). Inr (h, acts @ Frees c # b))"
  using assms by (simp add: packet_def mainloop_def harbor_socket_def push_socket_data_def)

text \<open>The link \<open>i\<close> of harbor \<open>h\<close>, node \<open>k\<close>, has read \<open>p\<close> of a frame.\<close>

definition link_reads :: "nat \<Rightarrow> int \<Rightarrow> nat \<Rightarrow> harbor \<Rightarrow> u8 list \<Rightarrow> bool" where
  "link_reads k fd i h p \<longleftrightarrow> hb_id h = int k \<and> slave_of_fd fd h = Some i \<and> reading (hb_s h i) p"

lemma packets_deliver:
  assumes "link_reads k fd i h p" "p @ concat chunks @ after = wire ms" "\<forall>m \<in> set ms. for_node k m"
    and R: "\<forall>acts call. 0 \<le> R acts call"
  shows "\<exists>h' acts p' ms1 ms2. harbor_run R (map (packet fd) chunks) h = Inr (h', acts) \<and>
    sends acts = map delivery ms1 \<and> ms = ms1 @ ms2 \<and> link_reads k fd i h' p' \<and> p' @ after = wire ms2"
  using assms(1-3)
proof (induction chunks arbitrary: h p ms)
  case Nil
  then show ?case by (intro exI [of _ h] exI [of _ "[]"] exI [of _ p] exI [of _ ms]) simp
next
  case (Cons c cs)
  note L = Cons.prems(1) [unfolded link_reads_def]
  obtain s p1 ms1 ms2 where s: "push_loop R (int k) i (hb_s h i) c [] = Inr (s, map delivery ms1)"
      "ms = ms1 @ ms2" "reading s p1" "p1 @ concat cs @ after = wire ms2" "same_link (hb_s h i) s"
    using push_stream [of "hb_s h i" p c "concat cs @ after" ms k R i "[]"] L Cons.prems R by auto
  let ?h = "h\<lparr>hb_s := (hb_s h)(i := s)\<rparr>"
  have "link_reads k fd i ?h p1"
    using L s(3) slave_of_fd_upd [OF s(5), of fd] by (simp add: link_reads_def)
  from Cons.IH [OF this, of ms2] s Cons.prems(3) obtain h' acts p' ms3 ms4 where
    IH: "harbor_run R (map (packet fd) cs) ?h = Inr (h', acts)" "sends acts = map delivery ms3" "ms2 = ms3 @ ms4"
      "link_reads k fd i h' p'" "p' @ after = wire ms4" by auto
  have "harbor_run R (map (packet fd) (c # cs)) h = Inr (h', map delivery ms1 @ Frees c # acts)"
    using packet_step [of fd h i R c s] L s(1) IH(1) by simp
  with IH s(2) show ?case
    by (intro exI [of _ h'] exI [of _ "map delivery ms1 @ Frees c # acts"] exI [of _ p'] exI [of _ "ms1 @ ms3"] exI [of _ ms4]) simp
qed

text \<open>Between two frames nothing has been read.\<close>

lemma reading_wire:
  assumes r: "reading s (wire ms)" and m: "\<forall>m \<in> set ms. for_node k m"
  shows "ms = []"
proof (rule ccontr)
  assume "ms \<noteq> []"
  then obtain m ms' where ms: "ms = m # ms'" by (cases ms) auto
  let ?b = "out_body m"
  have n: "length ?b < 2 ^ 24" using m ms by (cases m) (simp add: HEADER_COOKIE_LENGTH_def)
  have w: "wire ms = frame ?b @ wire ms'" by (simp add: ms)
  from r [unfolded reading_def] show False
  proof (elim disjE exE conjE)
    assume "in_header s (wire ms)"
    then show False by (simp add: in_header_def w frame_def)
  next
    fix j q assume c: "length q < j" "j < 2 ^ 24" "wire ms = to_bigendian (word_of_nat j) @ q"
    then have "length ?b = j \<and> q @ [] = ?b @ wire ms'"
      using frame_determined [of j q "[]" ?b "wire ms'"] w n by simp
    with c(1) show False by (metis append_Nil2 length_append linorder_not_le trans_less_add1 le_add1)
  qed
qed

text \<open>A connection that waits for the id of the other node, with its own messages in the queue.\<close>

definition awaits_id :: "slave \<Rightarrow> bool" where
  "awaits_id s \<longleftrightarrow> sl_status s = STATUS_HANDSHAKE \<and> sl_fd s \<noteq> 0 \<and> queue_ok (sl_queue s) \<and>
     length (sl_size s) = 4 \<and> sl_read s = 0"

lemma push_id:
  assumes "awaits_id s" "unat b = i"
  shows "\<exists>s'. push_loop R hid i s (b # buf) acts =
      push_loop R hid i s' buf (acts @ concat (map (sent_acts (sl_fd s)) (queue_list (sl_queue s)))) \<and>
    reading s' [] \<and> sl_fd s' = sl_fd s"
proof -
  let ?s = "s\<lparr>sl_status := STATUS_HEADER, sl_queue := None\<rparr>"
  note A = assms(1) [unfolded awaits_id_def]
  have "slave_dispatch (s\<lparr>sl_status := STATUS_HEADER\<rparr>) =
      Inr (?s, concat (map (sent_acts (sl_fd s)) (queue_list (sl_queue s))))"
    using slave_dispatch_ok [of "s\<lparr>sl_status := STATUS_HEADER\<rparr>"] A by simp
  with A assms(2) have "push_loop R hid i s (b # buf) acts =
      push_loop R hid i ?s buf (acts @ concat (map (sent_acts (sl_fd s)) (queue_list (sl_queue s))))"
    by (subst push_loop.simps) (simp add: recv_handshake_def)
  moreover have "reading ?s []" using A by (simp add: reading_def in_header_def)
  ultimately show ?thesis by (intro exI [of _ ?s]) simp
qed


text \<open>The id of the other node and its frames, in packets that are not empty.\<close>

lemma link_received:
  assumes h: "hb_id h = int k" "slave_of_fd fd h = Some i" "awaits_id (hb_s h i)"
    and c: "concat chunks = b # wire ms" "[] \<notin> set chunks" "unat b = i"
    and ms: "\<forall>m \<in> set ms. for_node k m" and R: "\<forall>acts call. 0 \<le> R acts call"
  shows "\<exists>h' acts. harbor_run R (map (packet fd) chunks) h = Inr (h', acts) \<and> sends acts = map delivery ms \<and>
    link_reads k fd i h' []"
proof -
  obtain c0 cs where cs: "chunks = (b # c0) # cs" "c0 @ concat cs = wire ms"
  proof (cases chunks)
    case (Cons x xs)
    with c(1,2) that [of "tl x" xs] show ?thesis by (cases x) auto
  qed (use c(1) in simp)
  let ?a = "concat (map (sent_acts (sl_fd (hb_s h i))) (queue_list (sl_queue (hb_s h i))))"
  obtain s0 where s0: "push_loop R (int k) i (hb_s h i) (b # c0) [] = push_loop R (int k) i s0 c0 ?a"
      "reading s0 []" "sl_fd s0 = sl_fd (hb_s h i)"
    using push_id [OF h(3) c(3), of R "int k" c0 "[]"] by auto
  obtain s p ms1 ms2 where s: "push_loop R (int k) i s0 c0 ?a = Inr (s, ?a @ map delivery ms1)"
      "ms = ms1 @ ms2" "reading s p" "p @ concat cs = wire ms2" "same_link s0 s"
    using push_stream [OF s0(2), of c0 "concat cs" ms k R i ?a] cs(2) ms R by auto
  let ?h = "h\<lparr>hb_s := (hb_s h)(i := s)\<rparr>"
  have "slave_of_fd fd ?h = slave_of_fd fd h"
    unfolding slave_of_fd_def using s0(3) s(5) by (intro arg_cong [of _ _ "\<lambda>f. find f _"]) (auto simp: same_link_def)
  then have "link_reads k fd i ?h p" using h s(3) by (simp add: link_reads_def)
  from packets_deliver [OF this, of cs "[]" ms2 R] s ms R obtain h' acts p' ms3 ms4 where
    d: "harbor_run R (map (packet fd) cs) ?h = Inr (h', acts)" "sends acts = map delivery ms3" "ms2 = ms3 @ ms4"
      "link_reads k fd i h' p'" "p' = wire ms4" by auto
  have "ms4 = []"
    using d s(2) ms by (intro reading_wire [of "hb_s h' i" ms4 k]) (auto simp: link_reads_def)
  moreover have "harbor_run R (map (packet fd) chunks) h = Inr (h', (?a @ map delivery ms1) @ Frees (b # c0) # acts)"
    using packet_step [of fd h i R "b # c0" s "?a @ map delivery ms1" "map (packet fd) cs"] h s0(1) s(1) d(1)
    by (simp add: cs(1))
  ultimately show ?thesis
    using d s(2) by (intro exI [of _ h'] exI [of _ "(?a @ map delivery ms1) @ Frees (b # c0) # acts"]) simp
qed

section \<open>The sending node\<close>

fun out_event :: "outgoing \<Rightarrow> harbor_event" where
  "out_event (source, session, r) = (System_in r, session, source)"

fun out_msg :: "outgoing \<Rightarrow> harbor_msg" where
  "out_msg (source, session, r) = \<lparr>hm_header = out_header (source, session, r), hm_buffer = ro_message r\<rparr>"

lemma send_remote_frame:
  assumes "for_node k m"
  shows "send_remote fd (hm_buffer (out_msg m)) (hm_header (out_msg m)) = [Writes fd (frame (out_body m))]"
proof -
  obtain source session r where m: "m = (source, session, r)" by (cases m)
  have "length (ro_message r) + HEADER_COOKIE_LENGTH < 2 ^ 24" using assms by (simp add: m)
  then show ?thesis by (simp add: m send_remote_def frame_def Let_def del: out_header.simps)
qed

lemma written_queue:
  assumes "\<forall>m \<in> set ms. for_node k m"
  shows "written fd (concat (map (sent_acts fd) (map out_msg ms))) = wire ms"
  using assms by (induction ms) (auto simp: sent_acts_def send_remote_frame simp del: out_msg.simps)

text \<open>The node \<open>k\<close> is another one; there is a connection to it, or its messages \<open>ms\<close> wait.\<close>

definition connected :: "nat \<Rightarrow> int \<Rightarrow> harbor \<Rightarrow> bool" where
  "connected k fd h \<longleftrightarrow> 0 < k \<and> int k \<noteq> hb_id h \<and> sl_fd (hb_s h k) = fd \<and> fd \<noteq> 0 \<and> sl_status (hb_s h k) \<noteq> STATUS_HANDSHAKE"

definition waiting :: "nat \<Rightarrow> harbor_msg list \<Rightarrow> harbor \<Rightarrow> bool" where
  "waiting k ms h \<longleftrightarrow> 0 < k \<and> int k \<noteq> hb_id h \<and> sl_fd (hb_s h k) = 0 \<and> sl_status (hb_s h k) = STATUS_WAIT \<and>
     queue_ok (sl_queue (hb_s h k)) \<and> queue_list (sl_queue (hb_s h k)) = ms"

lemma handle_nonzero: "for_node k (source, session, r) \<Longrightarrow> 0 < k \<Longrightarrow> ro_handle r \<noteq> 0"
  by auto

lemma send_connected:
  assumes c: "connected k fd h" and m: "for_node k m"
  shows "harbor_run R (out_event m # es) h =
    bindR (harbor_run R es h) (\<lambda>(h', b). Inr (h', Writes fd (frame (out_body m)) # Frees (hm_buffer (out_msg m)) # b))"
proof -
  obtain source session r where mm: "m = (source, session, r)" by (cases m)
  have k: "unat (drop_bit HANDLE_REMOTE_SHIFT (ro_handle r)) = k" using m by (simp add: mm)
  show ?thesis
    using c handle_nonzero [of k source session r] m send_remote_frame [OF m, of fd]
    unfolding mm by (simp add: mainloop_def remote_send_handle_def Let_def connected_def k)
qed

lemma run_connected:
  assumes "connected k fd h" "\<forall>m \<in> set ms. for_node k m"
  shows "\<exists>acts. harbor_run R (map out_event ms) h = Inr (h, acts) \<and> written fd acts = wire ms"
  using assms(2)
proof (induction ms)
  case (Cons m ms)
  then obtain acts where "harbor_run R (map out_event ms) h = Inr (h, acts)" "written fd acts = wire ms" by auto
  with send_connected [OF assms(1), of m R "map out_event ms"] Cons.prems show ?case by simp
qed simp

text \<open>Without a connection the message joins the queue.\<close>

lemma send_waiting:
  assumes w: "waiting k ms h" and m: "for_node k m" and room: "length ms < hq_limit"
  shows "\<exists>h'. harbor_run R (out_event m # es) h = harbor_run R es h' \<and> waiting k (ms @ [out_msg m]) h' \<and> hb_id h' = hb_id h"
proof -
  obtain source session r where mm: "m = (source, session, r)" by (cases m)
  have k: "unat (drop_bit HANDLE_REMOTE_SHIFT (ro_handle r)) = k" using m by (simp add: mm)
  note W = w [unfolded waiting_def]
  let ?s = "hb_s h k"
  define q where "q = (case sl_queue ?s of None \<Rightarrow> new_queue | Some q \<Rightarrow> q)"
  have q: "hq_valid q" "hq_list q = ms"
    using W by (auto simp: q_def queue_ok_def queue_list_def split: option.splits)
  obtain q' where q': "push_queue_msg (out_msg m) q = Inr q'" "hq_valid q'" "hq_list q' = ms @ [out_msg m]"
    using hq.enq_ok [OF q(1), of "out_msg m"] room q(2) by auto
  let ?h = "h\<lparr>hb_s := (hb_s h)(k := ?s\<lparr>sl_queue := Some q'\<rparr>)\<rparr>"
  have "mainloop R (System_in r) session source h = Inr (?h, [])"
    using W handle_nonzero [of k source session r] m q'(1)
    unfolding mm by (simp add: mainloop_def remote_send_handle_def Let_def k push_queue_def flip: q_def)
  then have "harbor_run R (out_event m # es) h = harbor_run R es ?h"
    by (cases "harbor_run R es ?h") (auto simp: mm)
  moreover have "waiting k (ms @ [out_msg m]) ?h"
    using W q' by (simp add: waiting_def queue_ok_def queue_list_def)
  ultimately show ?thesis by (intro exI [of _ ?h]) simp
qed

lemma run_waiting:
  assumes "waiting k ms0 h" "\<forall>m \<in> set ms. for_node k m" "length ms0 + length ms \<le> hq_limit"
  shows "\<exists>h'. harbor_run R (map out_event ms @ es) h = harbor_run R es h' \<and> waiting k (ms0 @ map out_msg ms) h' \<and> hb_id h' = hb_id h"
  using assms
proof (induction ms arbitrary: ms0 h)
  case (Cons m ms)
  then obtain h1 where h1: "harbor_run R (out_event m # map out_event ms @ es) h = harbor_run R (map out_event ms @ es) h1"
      "waiting k (ms0 @ [out_msg m]) h1" "hb_id h1 = hb_id h"
    using send_waiting [OF Cons.prems(1), of m R "map out_event ms @ es"] by auto
  from Cons.IH [OF h1(2)] Cons.prems h1 show ?case by auto
qed auto

text \<open>The command \<^verbatim>\<open>A fd k\<close>: the id of the node and then the queue are written to the connection.\<close>

lemma connect_accepts:
  assumes w: "waiting k (map out_msg ms) h" and ms: "\<forall>m \<in> set ms. for_node k m" and k: "k < REMOTE_MAX"
    and args: "0 \<notin> set args" "scan_two args = (fd, int k)" "fd \<noteq> 0"
  shows "\<exists>h' acts. mainloop R (Command_in (65 # 32 # args)) session source h = Inr (h', acts) \<and>
    written fd acts = word_of_int (hb_id h) # wire ms \<and> connected k fd h' \<and> hb_id h' = hb_id h"
proof -
  note W = w [unfolded waiting_def]
  let ?s = "(hb_s h k)\<lparr>sl_fd := fd, sl_status := STATUS_HEADER\<rparr>"
  let ?a = "concat (map (sent_acts fd) (map out_msg ms))"
  have "slave_dispatch ?s = Inr (?s\<lparr>sl_queue := None\<rparr>, ?a)"
    using slave_dispatch_ok [of ?s] W args(3) by simp
  moreover have tw: "takeWhile (\<lambda>c. c \<noteq> 0) args = args" using args(1) by (auto simp: takeWhile_eq_all_conv)
  ultimately have "mainloop R (Command_in (65 # 32 # args)) session source h =
      Inr (h\<lparr>hb_s := (hb_s h)(k := ?s\<lparr>sl_queue := None\<rparr>)\<rparr>, Starts fd # Writes fd [word_of_int (hb_id h)] # ?a)"
    using W args k
    by (simp add: mainloop_def harbor_command_def harbor_connect_def harbor_dispatch_queue_def handshake_def Let_def tw)
  moreover have "written fd ?a = wire ms" using ms by (rule written_queue)
  ultimately show ?thesis
    using W args(3) by (intro exI [of _ "h\<lparr>hb_s := (hb_s h)(k := ?s\<lparr>sl_queue := None\<rparr>)\<rparr>"]
      exI [of _ "Starts fd # Writes fd [word_of_int (hb_id h)] # ?a"]) (simp add: connected_def)
qed


section \<open>From node to node\<close>

text \<open>
  C37. Node \<open>j\<close> has no connection to node \<open>k\<close> and gets messages for services of node \<open>k\<close>;
  then the connection arrives (command \<^verbatim>\<open>A fd k\<close>), and more messages.  Node \<open>k\<close> has opened
  the other end and waits for the id.  However the bytes that node \<open>j\<close> writes are cut
  into packets, node \<open>k\<close> accepts the id and sends each message to its service, once and
  in order, with the source, type, session and data it had, and then waits for the next
  frame.
\<close>

theorem link_delivers:
  assumes "waiting k [] a" "hb_id a = int j" "j < REMOTE_MAX" "k < REMOTE_MAX"
    and "\<forall>m \<in> set (before @ later). for_node k m" "length before \<le> hq_limit"
    and "0 \<notin> set args" "scan_two args = (fd, int k)" "fd \<noteq> 0"
    and "hb_id b = int k" "slave_of_fd fd' b = Some j" "awaits_id (hb_s b j)"
    and "\<forall>acts call. 0 \<le> R' acts call"
  shows "\<exists>a' acts. harbor_run R (map out_event before @ (Command_in (65 # 32 # args), session, source) # map out_event later) a
      = Inr (a', acts) \<and>
    (\<forall>chunks. concat chunks = written fd acts \<and> [] \<notin> set chunks \<longrightarrow>
      (\<exists>b' acts'. harbor_run R' (map (packet fd') chunks) b = Inr (b', acts') \<and>
        sends acts' = map delivery (before @ later) \<and> link_reads k fd' j b' []))"
proof -
  let ?es = "(Command_in (65 # 32 # args), session, source) # map out_event later"
  obtain a1 where a1: "harbor_run R (map out_event before @ ?es) a = harbor_run R ?es a1"
      "waiting k (map out_msg before) a1" "hb_id a1 = hb_id a"
    using run_waiting [of k "[]" a before R ?es] assms(1,5,6) by auto
  obtain a2 acts2 where a2: "mainloop R (Command_in (65 # 32 # args)) session source a1 = Inr (a2, acts2)"
      "written fd acts2 = word_of_int (hb_id a1) # wire before" "connected k fd a2"
    using connect_accepts [OF a1(2) _ assms(4,7,8,9), of R session source] assms(5) by auto
  obtain acts3 where a3: "harbor_run R (map out_event later) a2 = Inr (a2, acts3)" "written fd acts3 = wire later"
    using run_connected [OF a2(3), of later R] assms(5) by auto
  have run: "harbor_run R (map out_event before @ ?es) a = Inr (a2, acts2 @ acts3)"
    using a1(1) a2(1) a3(1) by simp
  have "unat (word_of_int (hb_id a) :: u8) = j"
    using assms(2,3) by (simp add: REMOTE_MAX_def unsigned_of_nat take_bit_nat_eq_self)
  then have "\<exists>b' acts'. harbor_run R' (map (packet fd') chunks) b = Inr (b', acts') \<and>
      sends acts' = map delivery (before @ later) \<and> link_reads k fd' j b' []"
    if "concat chunks = written fd (acts2 @ acts3)" "[] \<notin> set chunks" for chunks
    using link_received [OF assms(10-12) _ that(2) _ assms(5,13)] that(1) a1(3) a2(2) a3(2) by simp
  with run show ?thesis by blast
qed

text \<open>Nodes 1 and 2 with one message before and one after the connection.\<close>

definition node1 :: harbor where
  "node1 = harbor_create\<lparr>hb_id := 1, hb_slave := 0x1000005\<rparr>"

definition node2 :: harbor where
  "node2 = harbor_create\<lparr>hb_id := 2, hb_slave := 0x2000005,
     hb_s := (\<lambda>_. empty_slave)(1 := empty_slave\<lparr>sl_fd := 9, sl_status := STATUS_HANDSHAKE\<rparr>)\<rparr>"

definition msg_to :: "u32 \<Rightarrow> u8 list \<Rightarrow> outgoing" where
  "msg_to handle data = (0x100000a, 3, \<lparr>ro_name = [], ro_handle = handle, ro_message = data, ro_type = 10\<rparr>)"

lemma link_delivers_witness:
  "\<exists>a' acts. harbor_run (\<lambda>_ _. 0) (map out_event [msg_to 0x200000b [104, 105]] @
        (Command_in (65 # 32 # cstr ''7 2''), 0, 0) # map out_event [msg_to 0x200000c []]) node1 = Inr (a', acts) \<and>
    (\<forall>chunks. concat chunks = written 7 acts \<and> [] \<notin> set chunks \<longrightarrow>
      (\<exists>b' acts'. harbor_run (\<lambda>_ _. 0) (map (packet 9) chunks) node2 = Inr (b', acts') \<and>
        sends acts' = map delivery ([msg_to 0x200000b [104, 105]] @ [msg_to 0x200000c []]) \<and>
        link_reads 2 9 1 b' []))"
proof (rule link_delivers)
  show "waiting 2 [] node1"
    by (simp add: waiting_def node1_def harbor_create_def empty_slave_def queue_ok_def queue_list_def)
  have "[1..<256] = 1 # [2..<256::nat]" by (simp add: upt_conv_Cons)
  then show "slave_of_fd 9 node2 = Some 1"
    by (simp add: slave_of_fd_def REMOTE_MAX_def node2_def)
  show "awaits_id (hb_s node2 1)"
    by (simp add: awaits_id_def node2_def empty_slave_def queue_ok_def)
  show "scan_two (cstr ''7 2'') = (7, int 2)" by code_simp
  show "0 \<notin> set (cstr ''7 2'')" by code_simp
  show "\<forall>m \<in> set ([msg_to 0x200000b [104, 105]] @ [msg_to 0x200000c []]). for_node 2 m"
    by (simp add: msg_to_def HANDLE_REMOTE_SHIFT_def HEADER_COOKIE_LENGTH_def)
qed (simp_all add: node1_def node2_def REMOTE_MAX_def hq_limit_def)

end
