(* ===== verification/Harbor_Names.thy ===== *)
theory Harbor_Names
  imports Harbor_Nodes
begin

text \<open>
  Names of services across nodes: the table of names behaves like a map, and messages to
  a name wait until the name has an address.
\<close>

section \<open>The table as a map\<close>

locale name_table =
  fixes invar :: "'t \<Rightarrow> bool"
    and key_ok :: "'k \<Rightarrow> bool"
    and entry_ok :: "'k \<Rightarrow> 'v \<Rightarrow> bool"
    and lookup :: "'k \<Rightarrow> 't \<Rightarrow> 'v option"
    and put :: "'k \<Rightarrow> 'v \<Rightarrow> 't \<Rightarrow> 't"
  assumes invar_put: "invar t \<Longrightarrow> key_ok k \<Longrightarrow> entry_ok k v \<Longrightarrow> invar (put k v t)"
    and lookup_put: "invar t \<Longrightarrow> key_ok k \<Longrightarrow> key_ok k' \<Longrightarrow> entry_ok k v \<Longrightarrow>
      lookup k' (put k v t) = (if k' = k then Some v else lookup k' t)"
begin

text \<open>After a sequence of updates a name has what the last update of it wrote.\<close>

lemma lookup_puts:
  assumes "invar t" "key_ok k'" "\<forall>(k, v) \<in> set kvs. key_ok k \<and> entry_ok k v"
  shows "lookup k' (fold (\<lambda>(k, v). put k v) kvs t) =
    (case map_of (rev kvs) k' of None \<Rightarrow> lookup k' t | Some v \<Rightarrow> Some v)"
  using assms
proof (induction kvs arbitrary: t)
  case (Cons kv kvs)
  obtain k v where kv: "kv = (k, v)" by (cases kv)
  with Cons.prems have "invar (put k v t)" "lookup k' (put k v t) = (if k' = k then Some v else lookup k' t)"
    by (auto simp: invar_put lookup_put)
  with Cons.IH [of "put k v t"] Cons.prems show ?case
    by (auto simp: kv map_add_def split: option.splits)
qed simp

end

text \<open>A name of at most 15 bytes, filled up with zeros.\<close>

definition name_ok :: "u8 list \<Rightarrow> bool" where
  "name_ok name \<longleftrightarrow> length name = GLOBALNAME_LENGTH \<and>
     name = takeWhile (\<lambda>c. c \<noteq> 0) name @ replicate (GLOBALNAME_LENGTH - length (takeWhile (\<lambda>c. c \<noteq> 0) name)) 0"

definition node_ok :: "u8 list \<Rightarrow> keyvalue \<Rightarrow> bool" where
  "node_ok name node \<longleftrightarrow> kv_key node = name \<and> kv_hash node = name_hash name"

definition table_ok :: "hashmap \<Rightarrow> bool" where
  "table_ok hash \<longleftrightarrow> (\<forall>i. \<forall>node \<in> set (hash i). name_ok (kv_key node) \<and> node_ok (kv_key node) node)"

definition table_put :: "u8 list \<Rightarrow> keyvalue \<Rightarrow> hashmap \<Rightarrow> hashmap" where
  "table_put name node hash = node_put name node (snd (name_node name hash))"

lemma same_name_eq: "name_ok a \<Longrightarrow> name_ok b \<Longrightarrow> same_name a b \<longleftrightarrow> a = b"
  unfolding name_ok_def same_name_def by (metis order_refl take_all)

lemma is_node_eq:
  assumes "name_ok (kv_key node)" "node_ok (kv_key node) node" "name_ok name"
  shows "is_node name node \<longleftrightarrow> kv_key node = name"
  using assms same_name_eq [OF assms(1,3)] by (auto simp: is_node_def node_ok_def)

lemma find_put_first:
  assumes "\<forall>x \<in> set xs. is_node name x \<longleftrightarrow> kv_key x = name"
    and "\<forall>x \<in> set xs. is_node name' x \<longleftrightarrow> kv_key x = name'"
    and "is_node name node \<longleftrightarrow> kv_key node = name" "is_node name' node \<longleftrightarrow> kv_key node = name'" "kv_key node = name"
  shows "find (is_node name') (put_first name node xs) =
    (if name' = name \<and> find (is_node name) xs \<noteq> None then Some node else find (is_node name') xs)"
  using assms by (induction xs) auto

lemma set_put_first: "set (put_first name node xs) \<subseteq> insert node (set xs)"
  by (induction xs) auto

lemma name_node_lookup: "hash_search name (snd (name_node name hash)) = Some (fst (name_node name hash))"
proof (cases "hash_search name hash")
  case None
  then show ?thesis
    by (simp add: name_node_def hash_insert_def Let_def hash_search_def is_node_def same_name_def)
qed (simp add: name_node_def)

lemma name_node_other:
  assumes "name_ok name" "name_ok name'" "name' \<noteq> name"
  shows "hash_search name' (snd (name_node name hash)) = hash_search name' hash"
proof (cases "hash_search name hash")
  case None
  have "take GLOBALNAME_LENGTH name = name" using assms by (simp add: name_ok_def)
  then show ?thesis
    using None assms same_name_eq [of name name']
    by (simp add: name_node_def hash_insert_def Let_def hash_search_def is_node_def)
qed (simp add: name_node_def)

lemma name_node_ok:
  assumes "table_ok hash" "name_ok name"
  shows "table_ok (snd (name_node name hash)) \<and> node_ok name (fst (name_node name hash))"
proof (cases "hash_search name hash")
  case None
  have "take GLOBALNAME_LENGTH name = name" using assms by (simp add: name_ok_def)
  with None assms show ?thesis
    by (auto simp: name_node_def hash_insert_def Let_def table_ok_def node_ok_def)
next
  case (Some node)
  then have "node \<in> set (hash (bucket name))" "is_node name node"
    by (auto simp: hash_search_def find_Some_iff)
  with Some assms is_node_eq [of node name] show ?thesis by (auto simp: name_node_def table_ok_def)
qed

lemma node_put_ok:
  assumes "table_ok hash" "name_ok name" "node_ok name node"
  shows "table_ok (node_put name node hash)"
  using assms set_put_first [of name node "hash (bucket name)"]
  by (auto simp: table_ok_def node_put_def node_ok_def)

lemma node_put_lookup:
  assumes "table_ok hash" "name_ok name" "name_ok name'" "node_ok name node" "hash_search name hash \<noteq> None"
  shows "hash_search name' (node_put name node hash) = (if name' = name then Some node else hash_search name' hash)"
proof -
  have key: "is_node n x \<longleftrightarrow> kv_key x = n" if "x \<in> set (hash (bucket name))" "name_ok n" for x n
    using assms(1) that is_node_eq [of x n] by (auto simp: table_ok_def)
  have node: "is_node n node \<longleftrightarrow> kv_key node = n" if "name_ok n" for n
    using assms(2,4) that is_node_eq [of node n] by (auto simp: node_ok_def)
  have "find (is_node name') (put_first name node (hash (bucket name))) =
      (if name' = name \<and> find (is_node name) (hash (bucket name)) \<noteq> None then Some node
       else find (is_node name') (hash (bucket name)))"
    using key node assms(2,3,4) by (intro find_put_first) (auto simp: node_ok_def)
  then show ?thesis using assms(5) by (auto simp: hash_search_def node_put_def)
qed

interpretation nt: name_table table_ok name_ok node_ok hash_search table_put
proof
  fix t k v assume "table_ok t" "name_ok k" "node_ok k v"
  then show "table_ok (table_put k v t)"
    unfolding table_put_def by (intro node_put_ok) (simp_all add: name_node_ok)
next
  fix t k k' v assume "table_ok t" "name_ok k" "name_ok k'" "node_ok k v"
  then show "hash_search k' (table_put k v t) = (if k' = k then Some v else hash_search k' t)"
    using name_node_ok [of t k] name_node_lookup [of k t] node_put_lookup [of "snd (name_node k t)" k k' v]
      name_node_other [of k k' t]
    by (auto simp: table_put_def)
qed


section \<open>Registering names\<close>

definition padded :: "u8 list \<Rightarrow> u8 list" where
  "padded t = t @ replicate (GLOBALNAME_LENGTH - length t) 0"

definition short_name :: "u8 list \<Rightarrow> bool" where
  "short_name t \<longleftrightarrow> t \<noteq> [] \<and> length t < GLOBALNAME_LENGTH \<and> 0 \<notin> set t"

definition reg_event :: "u8 list \<times> u32 \<Rightarrow> harbor_event" where
  "reg_event tv = (Command_in (78 # 32 # fst tv), 0, snd tv)"

definition name_value :: "u8 list \<Rightarrow> harbor \<Rightarrow> u32" where
  "name_value name h = (case hash_search name (hb_map h) of None \<Rightarrow> 0 | Some node \<Rightarrow> kv_value node)"

lemma takeWhile_padded: "0 \<notin> set t \<Longrightarrow> takeWhile (\<lambda>c. c \<noteq> 0) (padded t) = t"
  unfolding padded_def by (subst takeWhile_append2) (auto simp: takeWhile_eq_Nil_iff hd_replicate)

lemma padded_ok: "short_name t \<Longrightarrow> name_ok (padded t)"
  by (simp add: name_ok_def takeWhile_padded short_name_def) (simp add: padded_def)

lemma padded_inj: "short_name t \<Longrightarrow> short_name t' \<Longrightarrow> padded t = padded t' \<longleftrightarrow> t = t'"
  using takeWhile_padded unfolding short_name_def by metis

lemma reg_step:
  assumes "short_name t"
  shows "mainloop R (Command_in (78 # 32 # t)) session handle h = update_name (padded t) handle h"
  using assms by (cases t) (simp_all add: mainloop_def harbor_command_def padded_def short_name_def)

text \<open>A table without waiting messages, and the node of a name in it.\<close>

definition quiet :: "hashmap \<Rightarrow> bool" where
  "quiet hash \<longleftrightarrow> table_ok hash \<and> (\<forall>i. \<forall>node \<in> set (hash i). kv_queue node = None)"

definition node_of :: "u8 list \<Rightarrow> u32 \<Rightarrow> keyvalue" where
  "node_of name handle = \<lparr>kv_key = name, kv_hash = name_hash name, kv_value = handle, kv_queue = None\<rparr>"

lemma name_node_queue:
  assumes "quiet hash"
  shows "kv_queue (fst (name_node name hash)) = None \<and> (\<forall>i. \<forall>node \<in> set (snd (name_node name hash) i). kv_queue node = None)"
proof (cases "hash_search name hash")
  case None
  with assms show ?thesis by (auto simp: name_node_def hash_insert_def Let_def quiet_def)
next
  case (Some node)
  then have "node \<in> set (hash (bucket name))" by (auto simp: hash_search_def find_Some_iff)
  with Some assms show ?thesis by (auto simp: name_node_def quiet_def)
qed

lemma update_quiet:
  assumes "quiet (hb_map h)" "name_ok name"
  shows "update_name name handle h = Inr (h\<lparr>hb_map := table_put name (node_of name handle) (hb_map h)\<rparr>, []) \<and>
    quiet (table_put name (node_of name handle) (hb_map h))"
proof -
  obtain node hash where nn: "name_node name (hb_map h) = (node, hash)" by fastforce
  have t: "table_ok (hb_map h)" using assms(1) by (simp add: quiet_def)
  have ok: "node_ok name node" "kv_queue node = None" "\<forall>i. \<forall>node \<in> set (hash i). kv_queue node = None"
    using name_node_ok [OF t assms(2)] name_node_queue [OF assms(1), of name] nn by simp_all
  then have "node\<lparr>kv_value := handle\<rparr> = node_of name handle" by (simp add: node_of_def node_ok_def)
  moreover have "node_ok name (node_of name handle)" by (simp add: node_ok_def node_of_def)
  moreover have "\<forall>i. \<forall>x \<in> set (table_put name (node_of name handle) (hb_map h) i). kv_queue x = None"
    using ok(3) set_put_first [of name "node_of name handle" "hash (bucket name)"]
    by (auto simp: table_put_def nn node_put_def node_of_def)
  ultimately show ?thesis
    using ok(2) nt.invar_put [OF t assms(2), of "node_of name handle"]
    by (simp add: update_name_def nn table_put_def Let_def quiet_def)
qed

lemma run_registrations:
  assumes "quiet (hb_map h)" "\<forall>(t, v) \<in> set regs. short_name t"
  shows "harbor_run R (map reg_event regs) h =
    Inr (h\<lparr>hb_map := fold (\<lambda>(k, node). table_put k node) (map (\<lambda>(t, v). (padded t, node_of (padded t) v)) regs) (hb_map h)\<rparr>, [])"
  using assms
proof (induction regs arbitrary: h)
  case (Cons tv regs)
  obtain t v where tv: "tv = (t, v)" by (cases tv)
  with Cons.prems have t: "short_name t" by simp
  from update_quiet [OF Cons.prems(1) padded_ok [OF t], of v] Cons show ?case
    by (simp add: tv reg_event_def reg_step [OF t])
qed simp

lemma map_of_padded:
  assumes "short_name t" "\<forall>(t, v) \<in> set regs. short_name t"
  shows "map_of (map (\<lambda>(t, v). (padded t, node_of (padded t) v)) regs) (padded t) =
    map_option (node_of (padded t)) (map_of regs t)"
  using assms padded_inj by (induction regs) auto

text \<open>
  C39. The table of global names is a map: after any sequence of registrations (command
  \<^verbatim>\<open>N name\<close>) from services of any node, each name has the handle of the service that
  registered it last, and a name that nobody registered has no address; nothing is sent.
\<close>

theorem names_registered:
  assumes "quiet (hb_map h)" "\<forall>(t, v) \<in> set regs. short_name t"
  shows "\<exists>h'. harbor_run R (map reg_event regs) h = Inr (h', []) \<and>
    (\<forall>t. short_name t \<longrightarrow> name_value (padded t) h' =
      (case map_of (rev regs) t of None \<Rightarrow> name_value (padded t) h | Some v \<Rightarrow> v))"
proof -
  let ?kvs = "map (\<lambda>(t, v). (padded t, node_of (padded t) v)) regs"
  let ?t = "fold (\<lambda>(k, node). table_put k node) ?kvs (hb_map h)"
  have "\<forall>(k, node) \<in> set ?kvs. name_ok k \<and> node_ok k node"
    using assms(2) by (auto simp: padded_ok node_ok_def node_of_def)
  then have "hash_search (padded t) ?t = (case map_of (rev ?kvs) (padded t) of None \<Rightarrow> hash_search (padded t) (hb_map h) | Some v \<Rightarrow> Some v)"
    if "short_name t" for t
    using nt.lookup_puts [of "hb_map h" "padded t" ?kvs] assms(1) padded_ok [OF that] by (simp add: quiet_def)
  moreover have "map_of (rev ?kvs) (padded t) = map_option (node_of (padded t)) (map_of (rev regs) t)"
    if "short_name t" for t
    using map_of_padded [OF that, of "rev regs"] assms(2) by (simp add: rev_map)
  ultimately have "name_value (padded t) (h\<lparr>hb_map := ?t\<rparr>) =
      (case map_of (rev regs) t of None \<Rightarrow> name_value (padded t) h | Some v \<Rightarrow> v)" if "short_name t" for t
    using that by (simp add: name_value_def node_of_def split: option.splits)
  then show ?thesis using run_registrations [OF assms, of R] by (intro exI [of _ "h\<lparr>hb_map := ?t\<rparr>"]) simp
qed

lemma names_registered_witness:
  "\<exists>h'. harbor_run (\<lambda>_ _. 0) (map reg_event [(cstr ''GATE'', 0x100000a), (cstr ''DB'', 0x200000b), (cstr ''GATE'', 0x200000c)]) node1
      = Inr (h', []) \<and>
    name_value (padded (cstr ''GATE'')) h' = 0x200000c \<and> name_value (padded (cstr ''LOG'')) h' = 0"
proof -
  have short: "short_name (cstr ''GATE'')" "short_name (cstr ''DB'')" "short_name (cstr ''LOG'')"
    by (code_simp)+
  have ne: "cstr ''GATE'' \<noteq> cstr ''LOG''" "cstr ''GATE'' \<noteq> cstr ''DB''" "cstr ''DB'' \<noteq> cstr ''LOG''"
    by (simp_all add: cstr_def)
  have "quiet (hb_map node1)" by (simp add: quiet_def table_ok_def node1_def harbor_create_def hash_new_def)
  then obtain h' where "harbor_run (\<lambda>_ _. 0) (map reg_event [(cstr ''GATE'', 0x100000a), (cstr ''DB'', 0x200000b), (cstr ''GATE'', 0x200000c)]) node1
      = Inr (h', [])"
    "\<forall>t. short_name t \<longrightarrow> name_value (padded t) h' =
      (case map_of (rev [(cstr ''GATE'', 0x100000a), (cstr ''DB'', 0x200000b), (cstr ''GATE'', 0x200000c)]) t of
         None \<Rightarrow> name_value (padded t) node1 | Some v \<Rightarrow> v)"
    using names_registered [of node1 "[(cstr ''GATE'', 0x100000a), (cstr ''DB'', 0x200000b), (cstr ''GATE'', 0x200000c)]" "\<lambda>_ _. 0"] short
    by auto
  moreover have "name_value (padded (cstr ''LOG'')) node1 = 0"
    by (simp add: name_value_def hash_search_def node1_def harbor_create_def hash_new_def)
  ultimately show ?thesis using short ne by (intro exI [of _ h']) simp
qed


section \<open>Messages to a name\<close>

definition to_name :: "u8 list \<Rightarrow> outgoing \<Rightarrow> bool" where
  "to_name name m \<longleftrightarrow> ro_handle (snd (snd m)) = 0 \<and> ro_name (snd (snd m)) = name"

fun addressed :: "u32 \<Rightarrow> outgoing \<Rightarrow> outgoing" where
  "addressed handle (source, session, r) = (source, session, r\<lparr>ro_handle := handle\<rparr>)"

text \<open>The message as it waits: its type is in the destination, the handle is not known.\<close>

fun named_msg :: "outgoing \<Rightarrow> harbor_msg" where
  "named_msg (source, session, r) =
     \<lparr>hm_header = \<lparr>rh_source = source, rh_destination = push_bit HANDLE_REMOTE_SHIFT (word_of_int (ro_type r)),
                   rh_session = word_of_int session\<rparr>,
      hm_buffer = ro_message r\<rparr>"

definition name_waits :: "u8 list \<Rightarrow> harbor_msg list \<Rightarrow> harbor \<Rightarrow> bool" where
  "name_waits name ms h \<longleftrightarrow> table_ok (hb_map h) \<and> name_ok name \<and>
     (let node = fst (name_node name (hb_map h)) in
      kv_value node = 0 \<and> queue_ok (kv_queue node) \<and> queue_list (kv_queue node) = ms)"

definition query :: "u8 list \<Rightarrow> harbor \<Rightarrow> harbor_act" where
  "query name h = Sends 0 (hb_slave h) P_TEXT 0 (cstr ''Q '' @ takeWhile (\<lambda>c. c \<noteq> 0) name)"

text \<open>Writing the node of a name back gives it as the node of the name.\<close>

lemma name_node_put:
  assumes "table_ok hash" "name_ok name" "node_ok name node"
  shows "name_node name (table_put name node hash) = (node, table_put name node hash)"
  using nt.lookup_put [OF assms(1,2,2,3)] by (simp add: name_node_def)

lemma name_node_idem:
  assumes "name_node name hash = (node, hash')"
  shows "name_node name hash' = (node, hash')"
  using name_node_lookup [of name hash] assms by (simp add: name_node_def)

lemma send_name_waits:
  assumes w: "name_waits name ms h" and m: "to_name name m" and room: "length ms < hq_limit"
  shows "\<exists>h'. harbor_run R (out_event m # es) h = bindR (harbor_run R es h') (\<lambda>(h'', b). Inr (h'', query name h # b)) \<and>
    name_waits name (ms @ [named_msg m]) h' \<and> (\<exists>t. h' = h\<lparr>hb_map := t\<rparr>)"
proof -
  obtain source session r where mm: "m = (source, session, r)" by (cases m)
  obtain node hash where nn: "name_node name (hb_map h) = (node, hash)" by fastforce
  have W: "table_ok (hb_map h)" "name_ok name" "kv_value node = 0" "queue_ok (kv_queue node)" "queue_list (kv_queue node) = ms"
    using w by (simp_all add: name_waits_def nn)
  have nok: "node_ok name node" using name_node_ok [OF W(1,2)] nn by simp
  have take: "take GLOBALNAME_LENGTH name = name" using W(2) by (simp add: name_ok_def)
  define q where "q = (case kv_queue node of None \<Rightarrow> new_queue | Some q \<Rightarrow> q)"
  have q: "hq_valid q" "hq_list q = ms"
    using W by (auto simp: q_def queue_ok_def queue_list_def split: option.splits)
  obtain q' where q': "push_queue_msg (named_msg m) q = Inr q'" "hq_valid q'" "hq_list q' = ms @ [named_msg m]"
    using hq.enq_ok [OF q(1), of "named_msg m"] room q(2) by auto
  let ?node = "node\<lparr>kv_queue := Some q'\<rparr>"
  let ?h = "h\<lparr>hb_map := table_put name ?node (hb_map h)\<rparr>"
  have "mainloop R (System_in r) session source h = Inr (?h, [query name h])"
    using W(3) m q'(1)
    by (simp add: mainloop_def remote_send_name_def Let_def nn push_queue_def mm to_name_def query_def take table_put_def
        flip: q_def)
  moreover have "node_ok name ?node" using nok by (simp add: node_ok_def)
  then have "name_waits name (ms @ [named_msg m]) ?h"
    using W q' nt.invar_put [OF W(1,2)] name_node_put [OF W(1,2)]
    by (simp add: name_waits_def queue_ok_def queue_list_def)
  ultimately show ?thesis by (intro exI [of _ ?h]) (auto simp: mm)
qed

lemma run_name_waits:
  assumes "name_waits name ms0 h" "\<forall>m \<in> set ms. to_name name m" "length ms0 + length ms \<le> hq_limit"
  shows "\<exists>h'. harbor_run R (map out_event ms @ es) h =
      bindR (harbor_run R es h') (\<lambda>(h'', b). Inr (h'', replicate (length ms) (query name h) @ b)) \<and>
    name_waits name (ms0 @ map named_msg ms) h' \<and> (\<exists>t. h' = h\<lparr>hb_map := t\<rparr>)"
  using assms
proof (induction ms arbitrary: ms0 h)
  case Nil
  then show ?case by (intro exI [of _ h] conjI exI [of _ "hb_map h"]) (cases "harbor_run R es h", auto)
next
  case (Cons m ms)
  then obtain h1 t where h1: "harbor_run R (out_event m # map out_event ms @ es) h =
        bindR (harbor_run R (map out_event ms @ es) h1) (\<lambda>(h'', b). Inr (h'', query name h # b))"
      "name_waits name (ms0 @ [named_msg m]) h1" "h1 = h\<lparr>hb_map := t\<rparr>"
    using send_name_waits [OF Cons.prems(1), of m R "map out_event ms @ es"] by auto
  from Cons.IH [OF h1(2)] Cons.prems obtain h2 t2 where
    h2: "harbor_run R (map out_event ms @ es) h1 =
        bindR (harbor_run R es h2) (\<lambda>(h'', b). Inr (h'', replicate (length ms) (query name h1) @ b))"
      "name_waits name ((ms0 @ [named_msg m]) @ map named_msg ms) h2" "h2 = h1\<lparr>hb_map := t2\<rparr>" by auto
  have "query name h1 = query name h" by (simp add: query_def h1(3))
  with h1 h2 show ?case
    by (intro exI [of _ h2] conjI exI [of _ t2]) (cases "harbor_run R es h2", auto)
qed

text \<open>The name gets its address: what waits is written to the connection of the node.\<close>

definition name_known :: "u8 list \<Rightarrow> u32 \<Rightarrow> harbor \<Rightarrow> bool" where
  "name_known name handle h \<longleftrightarrow> (\<exists>node. name_node name (hb_map h) = (node, hb_map h) \<and> kv_value node = handle)"

lemma sent_named:
  "send_remote fd (hm_buffer (named_msg m)) ((hm_header (named_msg m))\<lparr>rh_destination :=
      rh_destination (hm_header (named_msg m)) OR (handle AND HANDLE_MASK)\<rparr>) @ [Frees (hm_buffer (named_msg m))]
   = sent_acts fd (out_msg (addressed handle m))"
  by (cases m) (simp add: sent_acts_def)

lemma name_resolves:
  assumes w: "name_waits name (map named_msg ms) h" and c: "connected k fd h"
    and k: "unat (drop_bit HANDLE_REMOTE_SHIFT handle) = k" and ms: "\<forall>m \<in> set ms. for_node k (addressed handle m)"
  shows "\<exists>h' acts. update_name name handle h = Inr (h', acts) \<and> written fd acts = wire (map (addressed handle) ms) \<and>
    sends acts = [] \<and> name_known name handle h' \<and> connected k fd h'"
proof -
  obtain node hash where nn: "name_node name (hb_map h) = (node, hash)" by fastforce
  have W: "table_ok (hb_map h)" "name_ok name" "queue_ok (kv_queue node)" "queue_list (kv_queue node) = map named_msg ms"
    using w by (simp_all add: name_waits_def nn)
  have nok: "node_ok name node" "table_ok hash" using name_node_ok [OF W(1,2)] nn by simp_all
  let ?node = "node\<lparr>kv_value := handle\<rparr>" and ?done = "node\<lparr>kv_value := handle, kv_queue := None\<rparr>"
  let ?acts = "concat (map (sent_acts fd) (map out_msg (map (addressed handle) ms)))"
  let ?t = "node_put name ?node hash"
  have t: "table_ok ?t" "name_node name ?t = (?node, ?t)"
    using name_node_put [OF W(1,2), of ?node] nt.invar_put [OF W(1,2), of ?node] nok
    by (simp_all add: table_put_def nn node_ok_def)
  have known: "name_known name handle (h\<lparr>hb_map := x\<rparr>)" if "name_node name x = (y, x)" "kv_value y = handle" for x y
    using that by (simp add: name_known_def)
  show ?thesis
  proof (cases "kv_queue node")
    case None
    then have "ms = []" using W(4) by (simp add: queue_list_def)
    with None nn t known [OF t(2)] c show ?thesis
      by (intro exI [of _ "h\<lparr>hb_map := ?t\<rparr>"] exI [of _ "[]"]) (simp add: update_name_def Let_def connected_def)
  next
    case (Some q)
    have q: "hq_valid q" "hq_list q = map named_msg ms" using Some W(3,4) by (simp_all add: queue_ok_def queue_list_def)
    let ?f = "\<lambda>m. send_remote fd (hm_buffer m) ((hm_header m)\<lparr>rh_destination := rh_destination (hm_header m) OR (handle AND HANDLE_MASK)\<rparr>) @
        [Frees (hm_buffer m)]"
    have f: "concat (map ?f (hq_list q)) = ?acts"
      unfolding q(2) map_map by (intro arg_cong [of _ _ concat] map_cong refl) (simp add: sent_named del: named_msg.simps)
    obtain q' where q': "run_loop (pop_loop pop_queue (\<lambda>m acts. Inr (acts @ ?f m)) q []) = Inr (?acts, q')"
        "hq_valid q'" "hq_list q' = []"
      using pop_loop_acts [OF q(1), of ?f] f by auto
    have "dispatch_name_queue (h\<lparr>hb_map := ?t\<rparr>) ?node = Inr (h\<lparr>hb_map := ?t\<rparr>, ?node\<lparr>kv_queue := Some q'\<rparr>, ?acts)"
      using Some c q'(1) by (simp add: dispatch_name_queue_def Let_def k connected_def)
    moreover have "release_queue (Some q') = Inr []" using release_queue_ok [of "Some q'"] q'(2,3) by simp
    ultimately have up: "update_name name handle h = Inr (h\<lparr>hb_map := node_put name ?done ?t\<rparr>, ?acts)"
      using Some by (simp add: update_name_def nn Let_def)
    have "node_put name ?done ?t = table_put name ?done ?t" by (simp add: table_put_def t(2))
    then have "name_node name (node_put name ?done ?t) = (?done, node_put name ?done ?t)"
      using name_node_put [OF t(1) W(2), of ?done] nok(1) by (simp add: node_ok_def)
    moreover have "written fd ?acts = wire (map (addressed handle) ms)" using ms by (intro written_queue) auto
    ultimately show ?thesis using known [of "node_put name ?done ?t" ?done] up c
      by (intro exI [of _ "h\<lparr>hb_map := node_put name ?done ?t\<rparr>"] exI [of _ ?acts] conjI)
         (simp_all only: sends_sent_acts, simp_all add: connected_def)
  qed
qed


lemma run_name_known:
  assumes n: "name_known name handle h" and c: "connected k fd h" and k: "unat (drop_bit HANDLE_REMOTE_SHIFT handle) = k"
    and "\<forall>m \<in> set ms. to_name name m \<and> for_node k (addressed handle m)"
  shows "\<exists>acts. harbor_run R (map out_event ms) h = Inr (h, acts) \<and> written fd acts = wire (map (addressed handle) ms) \<and> sends acts = []"
  using assms(4)
proof (induction ms)
  case (Cons m ms)
  obtain source session r where mm: "m = (source, session, r)" by (cases m)
  obtain node where node: "name_node name (hb_map h) = (node, hb_map h)" "kv_value node = handle"
    using n by (auto simp: name_known_def)
  have m: "to_name name m" "for_node k (addressed handle m)" using Cons.prems by simp_all
  have "handle \<noteq> 0" using k c by (auto simp: connected_def)
  then have "mainloop R (System_in r) session source h =
      Inr (h, [Writes fd (frame (out_body (addressed handle m))), Frees (ro_message r)])"
    using m(1) c node send_remote_frame [OF m(2), of fd]
    by (simp add: mainloop_def remote_send_name_def remote_send_handle_def Let_def connected_def k mm to_name_def)
  with Cons show ?case by (auto simp: mm)
qed simp


definition node1_connected :: harbor where
  "node1_connected = node1\<lparr>hb_s := (\<lambda>_. empty_slave)(2 := empty_slave\<lparr>sl_fd := 7, sl_status := STATUS_HEADER\<rparr>)\<rparr>"

definition msg_by_name :: "u8 list \<Rightarrow> u8 list \<Rightarrow> outgoing" where
  "msg_by_name t data = (0x100000a, 3, \<lparr>ro_name = padded t, ro_handle = 0, ro_message = data, ro_type = 10\<rparr>)"


end
