(* ===== verification/Harbor_Safety.thy ===== *)
theory Harbor_Safety
  imports Harbor_Names
begin

text \<open>
  The callback of the harbor service keeps its state well-formed, whatever arrives; and
  behaviours of the service that its comments do not promise.
\<close>

section \<open>Well-formed states\<close>

definition slave_ok :: "slave \<Rightarrow> bool" where
  "slave_ok s \<longleftrightarrow> queue_ok (sl_queue s) \<and> length (sl_size s) = 4 \<and> (sl_fd s = 0 \<longleftrightarrow> sl_status s = STATUS_WAIT) \<and>
     (case sl_status s of
        STATUS_WAIT \<Rightarrow> sl_read s = 0
      | STATUS_HANDSHAKE \<Rightarrow> sl_read s = 0
      | STATUS_HEADER \<Rightarrow> sl_read s < 4
      | STATUS_CONTENT \<Rightarrow> (\<exists>n p. in_content s n p)
      | STATUS_DOWN \<Rightarrow> True)"

definition harbor_ok :: "harbor \<Rightarrow> bool" where
  "harbor_ok h \<longleftrightarrow> (\<forall>i. slave_ok (hb_s h i)) \<and> (\<forall>i. \<forall>node \<in> set (hb_map h i). queue_ok (kv_queue node))"

text \<open>The queues are short enough to take one more message, also when two of them are joined.\<close>

definition roomy :: "harbor \<Rightarrow> bool" where
  "roomy h \<longleftrightarrow> (\<forall>i. length (queue_list (sl_queue (hb_s h i))) < hq_limit) \<and>
     (\<forall>i j. \<forall>node \<in> set (hb_map h j).
        length (queue_list (sl_queue (hb_s h i))) + length (queue_list (kv_queue node)) < hq_limit)"

lemma queue_ok_None [simp]: "queue_ok None" "queue_list None = []"
  by (simp_all add: queue_ok_def queue_list_def)

lemma harbor_create_ok: "harbor_ok harbor_create" "roomy harbor_create"
  by (simp_all add: harbor_ok_def roomy_def harbor_create_def hash_new_def slave_ok_def empty_slave_def hq_limit_def)

section \<open>Data from a connection\<close>

definition safe :: "slave \<Rightarrow> (slave \<times> 'x) res \<Rightarrow> bool" where
  "safe s r \<longleftrightarrow> r = Inl Out_of_bounds \<or> (\<exists>s' x. r = Inr (s', x) \<and> slave_ok s' \<and> sl_fd s' = sl_fd s)"

lemma in_content_queue [simp]: "in_content (s\<lparr>sl_queue := x\<rparr>) n p = in_content s n p"
  by (simp add: in_content_def)

lemma slave_ok_reading:
  shows "in_header s p \<Longrightarrow> queue_ok (sl_queue s) \<Longrightarrow> sl_fd s \<noteq> 0 \<Longrightarrow> slave_ok s"
    and "in_content s n p \<Longrightarrow> queue_ok (sl_queue s) \<Longrightarrow> sl_fd s \<noteq> 0 \<Longrightarrow> slave_ok s"
proof -
  assume c: "in_content s n p" "queue_ok (sl_queue s)" "sl_fd s \<noteq> 0"
  then have "sl_status s = STATUS_CONTENT" "length (sl_size s) = 4" by (simp_all add: in_content_def)
  with c show "slave_ok s" by (auto simp: slave_ok_def)
qed (simp add: slave_ok_def in_header_def)

lemma close_slave_ok:
  assumes "queue_ok (sl_queue s)"
  shows "\<exists>acts. close_slave s = Inr (s\<lparr>sl_status := STATUS_DOWN, sl_queue := None\<rparr>, acts)"
  using assms release_queue_ok [of "sl_queue s"] by (auto simp: close_slave_def queue_ok_def Let_def)

lemma recv_handshake_safe:
  assumes "slave_ok s" "sl_status s = STATUS_HANDSHAKE"
  shows "safe s (recv_handshake i s buffer acts)"
proof (cases buffer)
  case (Cons b rest)
  have s: "queue_ok (sl_queue s)" "length (sl_size s) = 4" "sl_read s = 0" "sl_fd s \<noteq> 0"
    using assms by (simp_all add: slave_ok_def)
  from close_slave_ok [OF s(1)] s Cons slave_dispatch_ok [of "s\<lparr>sl_status := STATUS_HEADER\<rparr>"] show ?thesis
    by (auto simp: recv_handshake_def safe_def slave_ok_def)
qed (simp add: recv_handshake_def safe_def)

lemma recv_header_safe:
  assumes "slave_ok s" "sl_status s = STATUS_HEADER"
  shows "\<exists>s' acts' go. recv_header i s buffer acts = Inr (s', acts', go) \<and> slave_ok s' \<and> sl_fd s' = sl_fd s \<and>
    (go \<noteq> None \<longrightarrow> sl_status s' = STATUS_CONTENT)"
proof -
  let ?p = "take (sl_read s) (sl_size s)" and ?k = "4 - sl_read s"
  have s: "queue_ok (sl_queue s)" "length (sl_size s) = 4" "sl_read s < 4" "sl_fd s \<noteq> 0"
    using assms by (simp_all add: slave_ok_def)
  have h: "in_header s ?p" using s assms(2) by (simp add: in_header_def)
  show ?thesis
  proof (cases "length buffer < ?k")
    case True
    then obtain s' where "recv_header i s buffer acts = Inr (s', acts, None)" "in_header s' (?p @ buffer)" "same_link s s'"
      using recv_header_part [OF h, of buffer i acts] s(2,3) True
      by (metis add_less_cancel_left le_add_diff_inverse length_take less_imp_le min.absorb2)
    with slave_ok_reading(1) [of s'] s(1,4) show ?thesis by (auto simp: same_link_def)
  next
    case False
    let ?sz = "?p @ take ?k buffer"
    have cpy: "memcpy_at (sl_size s) (sl_read s) (take ?k buffer) = Inr ?sz"
      using s False by (simp add: memcpy_at_def)
    have "length ?sz = 4" using s False by simp
    moreover obtain a where "close_slave (s\<lparr>sl_size := ?sz\<rparr>) = Inr (s\<lparr>sl_size := ?sz, sl_status := STATUS_DOWN, sl_queue := None\<rparr>, a)"
      using close_slave_ok [of "s\<lparr>sl_size := ?sz\<rparr>"] s(1) by auto
    moreover have "in_content (s\<lparr>sl_size := ?sz, sl_length := n, sl_read := 0, sl_recv_buffer := Some (replicate n None),
        sl_status := STATUS_CONTENT\<rparr>) n []" for n
      using calculation(1) by (simp add: in_content_def)
    ultimately show ?thesis
      using cpy False s(1,4) unfolding recv_header_def Let_def slave_ok_def by (cases "?sz ! 0 = 0") (simp, blast, simp)
  qed
qed

lemma recv_content_safe:
  assumes "slave_ok s" "sl_status s = STATUS_CONTENT"
  shows "safe s (recv_content R hid s buffer acts)"
proof -
  obtain n p where c: "in_content s n p" and q: "queue_ok (sl_queue s)" "sl_fd s \<noteq> 0"
    using assms by (auto simp: slave_ok_def)
  show ?thesis
  proof (cases "length p + length buffer < n")
    case True
    with recv_content_part [OF c, of buffer R hid acts] q slave_ok_reading(2) show ?thesis
      unfolding safe_def same_link_def by metis
  next
    case False
    let ?body = "p @ take (n - length p) buffer" and ?rest = "drop (n - length p) buffer"
    have n: "length ?body = n" using False c by (simp add: in_content_def)
    obtain s' where s': "recv_content R hid s buffer acts =
        bindR (forward_local_messsage R hid (map Some ?body) acts) (\<lambda>acts. Inr (s', acts, if ?rest = [] then None else Some ?rest))"
        "in_header s' []" "same_link s s'"
      using recv_content_full [OF c, of buffer ?body ?rest R hid acts] n by auto
    have "forward_local_messsage R hid (map Some ?body) acts = Inl Out_of_bounds \<or>
        (\<exists>acts'. forward_local_messsage R hid (map Some ?body) acts = Inr acts')"
      by (simp add: forward_local_messsage_def init_all_def Let_def del: map_append)
    then show ?thesis
      using s' q slave_ok_reading(1) [OF s'(2)] by (auto simp: safe_def same_link_def simp del: map_append)
  qed
qed

text \<open>A step of the loop that goes on with the rest of the packet.\<close>

lemma safe_loop:
  assumes "safe s r" "\<And>s2 acts2 buf2. r = Inr (s2, acts2, Some buf2) \<Longrightarrow> slave_ok s2 \<Longrightarrow> safe s2 (f s2 buf2 acts2)"
  shows "safe s (bindR r (\<lambda>(s, acts, go). case go of None \<Rightarrow> Inr (s, acts) | Some buffer \<Rightarrow> f s buffer acts))"
proof -
  from assms(1) consider "r = Inl Out_of_bounds"
    | s2 acts2 go where "r = Inr (s2, acts2, go)" "slave_ok s2" "sl_fd s2 = sl_fd s"
    unfolding safe_def by (metis prod.exhaust)
  then show ?thesis
  proof cases
    case 2
    show ?thesis
    proof (cases go)
      case (Some buf2)
      with 2 assms(2) [of s2 acts2 buf2] show ?thesis by (simp add: safe_def)
    qed (use 2 in \<open>simp add: safe_def\<close>)
  qed (simp add: safe_def)
qed

lemma push_loop_safe: "slave_ok s \<Longrightarrow> safe s (push_loop R hid i s buffer acts)"
proof (induction R hid i s buffer acts rule: push_loop.induct)
  case (1 R hid i s buffer acts)
  show ?case
  proof (cases "sl_status s")
    case STATUS_WAIT
    with "1.prems" show ?thesis by (subst push_loop.simps) (simp add: safe_def)
  next
    case STATUS_HANDSHAKE
    have "safe s (bindR (recv_handshake i s buffer acts) (\<lambda>(s, acts, go).
          case go of None \<Rightarrow> Inr (s, acts) | Some buffer \<Rightarrow> push_loop R hid i s buffer acts))"
      using "1.IH"(1) [OF STATUS_HANDSHAKE _ refl refl]
      by (intro safe_loop recv_handshake_safe "1.prems" STATUS_HANDSHAKE) auto
    with STATUS_HANDSHAKE show ?thesis by (subst push_loop.simps) simp
  next
    case STATUS_HEADER
    obtain s1 acts1 go where s1: "recv_header i s buffer acts = Inr (s1, acts1, go)" "slave_ok s1" "sl_fd s1 = sl_fd s"
        "go \<noteq> None \<longrightarrow> sl_status s1 = STATUS_CONTENT"
      using recv_header_safe [OF "1.prems" STATUS_HEADER, of i buffer acts] by auto
    show ?thesis
    proof (cases go)
      case None
      with STATUS_HEADER s1 show ?thesis by (subst push_loop.simps) (simp add: safe_def)
    next
      case (Some buf1)
      have "safe s1 (bindR (recv_content R hid s1 buf1 acts1) (\<lambda>(s, acts, go).
          case go of None \<Rightarrow> Inr (s, acts) | Some buffer \<Rightarrow> push_loop R hid i s buffer acts))"
        using s1(1,4) Some "1.IH"(2) [OF STATUS_HEADER s1(1) refl refl]
        by (intro safe_loop recv_content_safe s1(2)) auto
      with STATUS_HEADER s1 Some show ?thesis by (subst push_loop.simps) (simp add: safe_def)
    qed
  next
    case STATUS_CONTENT
    have "safe s (bindR (recv_content R hid s buffer acts) (\<lambda>(s, acts, go).
          case go of None \<Rightarrow> Inr (s, acts) | Some buffer \<Rightarrow> push_loop R hid i s buffer acts))"
      using "1.IH"(3) [OF STATUS_CONTENT _ refl refl]
      by (intro safe_loop recv_content_safe "1.prems" STATUS_CONTENT) auto
    with STATUS_CONTENT show ?thesis by (subst push_loop.simps) simp
  next
    case STATUS_DOWN
    with "1.prems" show ?thesis by (subst push_loop.simps) (simp add: safe_def)
  qed
qed


section \<open>The callback\<close>

lemma update_slave_ok: "harbor_ok h \<Longrightarrow> slave_ok s \<Longrightarrow> harbor_ok (h\<lparr>hb_s := (hb_s h)(i := s)\<rparr>)"
  by (simp add: harbor_ok_def)

lemma node_put_harbor_ok:
  assumes "harbor_ok (h\<lparr>hb_map := t\<rparr>)" "queue_ok (kv_queue node)"
  shows "harbor_ok (h\<lparr>hb_map := node_put name node t\<rparr>)"
  using assms set_put_first [of name node "t (bucket name)"] by (auto simp: harbor_ok_def node_put_def)

lemma name_node_harbor_ok:
  assumes "harbor_ok h" "name_node name (hb_map h) = (node, t)"
  shows "harbor_ok (h\<lparr>hb_map := t\<rparr>) \<and> queue_ok (kv_queue node) \<and> (node \<in> set (hb_map h (bucket name)) \<or> kv_queue node = None)"
proof (cases "hash_search name (hb_map h)")
  case None
  with assms show ?thesis by (auto simp: name_node_def hash_insert_def Let_def harbor_ok_def split: if_splits)
next
  case (Some n)
  then have "n \<in> set (hb_map h (bucket name))" by (auto simp: hash_search_def find_Some_iff)
  with Some assms show ?thesis by (auto simp: name_node_def harbor_ok_def)
qed

lemma hq_len_new [simp]: "hq_len new_queue = 0"
  by (simp add: hq_len_def new_queue_def)

lemma push_some_ok:
  assumes "queue_ok queue" "length (queue_list queue) < hq_limit"
  shows "\<exists>q'. push_queue_msg m (case queue of None \<Rightarrow> new_queue | Some q \<Rightarrow> q) = Inr q' \<and> queue_ok (Some q')"
  using assms hq.enq_ok [of new_queue m] hq.enq_ok [of "the queue" m]
  by (cases queue) (auto simp: queue_ok_def queue_list_def hq_limit_def)

text \<open>Joining two queues.\<close>

lemma join_queues_ok:
  assumes "hq_valid q" "hq_valid sq" "length (hq_list q) + length (hq_list sq) \<le> hq_limit"
  shows "\<exists>sq' q'. run_loop (pop_loop pop_queue push_queue_msg q sq) = Inr (sq', q') \<and> hq_valid sq' \<and> hq_valid q' \<and>
    hq_list sq' = hq_list sq @ hq_list q \<and> hq_list q' = []"
proof -
  have "\<exists>sq'. foldR push_queue_msg ms sq = Inr sq' \<and> hq_valid sq' \<and> hq_list sq' = hq_list sq @ ms"
    if "hq_valid sq" "length ms + length (hq_list sq) \<le> hq_limit" for ms sq
    using that
  proof (induction ms arbitrary: sq)
    case (Cons m ms)
    then obtain sq1 where "push_queue_msg m sq = Inr sq1" "hq_valid sq1" "hq_list sq1 = hq_list sq @ [m]"
      using hq.enq_ok [of sq m] by auto
    with Cons.IH [of sq1] Cons.prems show ?case by auto
  qed simp
  from this [OF assms(2), of "hq_list q"] assms(3) hq.pop_loop_ok [OF assms(1), of push_queue_msg sq] show ?thesis by auto
qed

lemma dispatch_name_safe:
  assumes h: "harbor_ok h" and q: "kv_queue node = Some q" "hq_valid q"
    and room: "\<forall>i. length (queue_list (sl_queue (hb_s h i))) + length (hq_list q) < hq_limit"
  shows "\<exists>h' node' acts. dispatch_name_queue h node = Inr (h', node', acts) \<and> harbor_ok h' \<and> queue_ok (kv_queue node') \<and>
    hb_map h' = hb_map h"
proof -
  let ?i = "unat (drop_bit HANDLE_REMOTE_SHIFT (kv_value node))"
  let ?s = "hb_s h ?i"
  have sok: "slave_ok ?s" using h by (simp add: harbor_ok_def)
  then have sq_ok: "queue_ok (sl_queue ?s)" by (simp add: slave_ok_def)
  have upd: "slave_ok (?s\<lparr>sl_queue := x\<rparr>)" if "queue_ok x" for x
    using sok that by (simp add: slave_ok_def cong: slave_status.case_cong)
  consider "sl_fd ?s = 0" "sl_status ?s = STATUS_DOWN" | "sl_fd ?s = 0" "sl_status ?s \<noteq> STATUS_DOWN" | "sl_fd ?s \<noteq> 0" by blast
  then show ?thesis
  proof cases
    case 1
    with h q show ?thesis by (simp add: dispatch_name_queue_def Let_def queue_ok_def)
  next
    case 2
    obtain sq node' where join: "(case sl_queue ?s of
           None \<Rightarrow> Inr (q, node\<lparr>kv_queue := None\<rparr>)
         | Some sq \<Rightarrow> bindR (run_loop (pop_loop pop_queue push_queue_msg q sq)) (\<lambda>(sq, queue).
             Inr (sq, node\<lparr>kv_queue := Some queue\<rparr>))) = Inr (sq, node')" "hq_valid sq" "queue_ok (kv_queue node')"
    proof (cases "sl_queue ?s")
      case (Some sq0)
      with sq_ok room [rule_format, of ?i] join_queues_ok [OF q(2), of sq0] that show ?thesis
        by (fastforce simp: queue_ok_def queue_list_def)
    qed (use q that in auto)
    obtain sq' acts where pop: "run_loop (pop_loop pop_queue (\<lambda>m acts.
          Inr (acts @ [Sends (rh_source (hm_header m)) (kv_value node)
            (uint (drop_bit HANDLE_REMOTE_SHIFT (rh_destination (hm_header m))) OR P_TAG_DONTCOPY)
            (sint (rh_session (hm_header m))) (hm_buffer m)])) sq []) = Inr (acts, sq')" "hq_valid sq'" "hq_list sq' = []"
      using pop_loop_acts [OF join(2), of "\<lambda>m. [Sends (rh_source (hm_header m)) (kv_value node)
            (uint (drop_bit HANDLE_REMOTE_SHIFT (rh_destination (hm_header m))) OR P_TAG_DONTCOPY)
            (sint (rh_session (hm_header m))) (hm_buffer m)]"] by auto
    have "release_queue (Some sq') = Inr []" using release_queue_ok [of "Some sq'"] pop by simp
    with 2 q join pop update_slave_ok [OF h upd [of None], of ?i] update_slave_ok [OF h upd [of "Some sq"], of ?i] show ?thesis
      by (cases "?i = unat (drop_bit HANDLE_REMOTE_SHIFT (hb_slave h))") (simp_all add: dispatch_name_queue_def Let_def queue_ok_def)
  next
    case 3
    let ?f = "\<lambda>m. send_remote (sl_fd ?s) (hm_buffer m) ((hm_header m)\<lparr>rh_destination := rh_destination (hm_header m) OR
        (kv_value node AND HANDLE_MASK)\<rparr>) @ [Frees (hm_buffer m)]"
    obtain q' where "run_loop (pop_loop pop_queue (\<lambda>m acts. Inr (acts @ ?f m)) q []) = Inr (concat (map ?f (hq_list q)), q')" "hq_valid q'"
      using pop_loop_acts [OF q(2), of ?f] by auto
    with 3 q h show ?thesis by (simp add: dispatch_name_queue_def Let_def queue_ok_def)
  qed
qed


lemma update_name_safe:
  assumes h: "harbor_ok h" "roomy h"
  shows "\<exists>h' acts. update_name name handle h = Inr (h', acts) \<and> harbor_ok h'"
proof -
  obtain node t where nn: "name_node name (hb_map h) = (node, t)" by fastforce
  let ?node = "node\<lparr>kv_value := handle\<rparr>" and ?h = "h\<lparr>hb_map := node_put name (node\<lparr>kv_value := handle\<rparr>) t\<rparr>"
  have ok: "harbor_ok ?h" "queue_ok (kv_queue node)"
    using name_node_harbor_ok [OF h(1) nn] node_put_harbor_ok [of t h ?node name] by auto
  show ?thesis
  proof (cases "kv_queue node")
    case None
    with ok nn show ?thesis by (simp add: update_name_def Let_def)
  next
    case (Some q)
    then have "node \<in> set (hb_map h (bucket name))" using name_node_harbor_ok [OF h(1) nn] by auto
    then have "\<forall>i. length (queue_list (sl_queue (hb_s h i))) + length (queue_list (kv_queue node)) < hq_limit"
      using h(2) unfolding roomy_def by blast
    then have "\<forall>i. length (queue_list (sl_queue (hb_s ?h i))) + length (hq_list q) < hq_limit"
      using Some by (simp add: queue_list_def [of "Some q"])
    then obtain h1 nd acts where d: "dispatch_name_queue ?h ?node = Inr (h1, nd, acts)" "harbor_ok h1" "queue_ok (kv_queue nd)"
      using dispatch_name_safe [OF ok(1), of ?node q] Some ok(2) by (auto simp: queue_ok_def)
    then obtain fr where "release_queue (kv_queue nd) = Inr fr" using release_queue_ok by (auto simp: queue_ok_def)
    with Some d nn node_put_harbor_ok [of "harbor.hb_map h1" h1 "nd\<lparr>kv_queue := None\<rparr>" name] show ?thesis
      by (simp add: update_name_def Let_def)
  qed
qed

lemma remote_send_handle_safe:
  assumes h: "harbor_ok h" "\<forall>i. length (queue_list (sl_queue (hb_s h i))) < hq_limit"
  shows "\<exists>kept h' acts. remote_send_handle source destination type session msg h = Inr (kept, h', acts) \<and> harbor_ok h'"
proof -
  let ?i = "unat (drop_bit HANDLE_REMOTE_SHIFT destination)"
  have sok: "slave_ok (hb_s h ?i)" using h(1) by (simp add: harbor_ok_def)
  have upd: "slave_ok ((hb_s h ?i)\<lparr>sl_queue := Some q\<rparr>)" if "queue_ok (Some q)" for q
    using sok that by (simp add: slave_ok_def cong: slave_status.case_cong)
  have "\<exists>q'. push_queue msg header (case sl_queue (hb_s h ?i) of None \<Rightarrow> new_queue | Some q \<Rightarrow> q) = Inr q' \<and> queue_ok (Some q')" for header
    unfolding push_queue_def using sok h(2) by (intro push_some_ok) (simp_all add: slave_ok_def)
  then obtain q' where "push_queue msg \<lparr>rh_source = source,
        rh_destination = push_bit HANDLE_REMOTE_SHIFT (word_of_int type) OR (destination AND HANDLE_MASK),
        rh_session = word_of_int session\<rparr> (case sl_queue (hb_s h ?i) of None \<Rightarrow> new_queue | Some q \<Rightarrow> q) = Inr q'"
      "queue_ok (Some q')"
    by blast
  then show ?thesis
    using h(1) update_slave_ok [OF h(1) upd [of q'], of ?i] unfolding remote_send_handle_def Let_def
    by (simp only: split: if_split) (simp, blast)
qed

lemma remote_send_name_safe:
  assumes h: "harbor_ok h" "roomy h"
  shows "\<exists>kept h' acts. remote_send_name source name type session msg h = Inr (kept, h', acts) \<and> harbor_ok h'"
proof -
  obtain node t where nn: "name_node name (hb_map h) = (node, t)" by fastforce
  have ok: "harbor_ok (h\<lparr>hb_map := t\<rparr>)" "queue_ok (kv_queue node)"
      "node \<in> set (hb_map h (bucket name)) \<or> kv_queue node = None"
    using name_node_harbor_ok [OF h(1) nn] by auto
  show ?thesis
  proof (cases "kv_value node = 0")
    case True
    have "length (queue_list (kv_queue node)) < hq_limit"
      using ok(3) h(2) unfolding roomy_def
      by (metis add_lessD1 add.commute hq_limit_def list.size(3) queue_ok_None(2) not_gr_zero not_less_zero)
    then obtain q' where q': "push_queue msg \<lparr>rh_source = source, rh_destination = push_bit HANDLE_REMOTE_SHIFT (word_of_int type),
          rh_session = word_of_int session\<rparr> (case kv_queue node of None \<Rightarrow> new_queue | Some q \<Rightarrow> q) = Inr q'" "queue_ok (Some q')"
      using push_some_ok [OF ok(2)] unfolding push_queue_def by blast
    with True nn node_put_harbor_ok [OF ok(1), of "node\<lparr>kv_queue := Some q'\<rparr>" name] show ?thesis
      by (simp add: remote_send_name_def Let_def) blast
  next
    case False
    with nn remote_send_handle_safe [OF ok(1)] h(2) show ?thesis
      by (simp add: remote_send_name_def Let_def roomy_def)
  qed
qed

lemma harbor_connect_safe:
  assumes h: "harbor_ok h"
  shows "\<exists>h' acts. harbor_connect c buffer h = Inr (h', acts) \<and> harbor_ok h'"
proof -
  obtain fd i where sc: "scan_two buffer = (fd, i)" by fastforce
  let ?s = "hb_s h (nat i)"
  show ?thesis
  proof (cases "fd = 0 \<or> i \<le> 0 \<or> i \<ge> int REMOTE_MAX \<or> sl_fd ?s \<noteq> 0")
    case True
    with h sc show ?thesis by (auto simp: harbor_connect_def Let_def)
  next
    case False
    have s: "slave_ok ?s" using h by (simp add: harbor_ok_def)
    then have q: "queue_ok (sl_queue ?s)" "length (sl_size ?s) = 4" by (simp_all add: slave_ok_def)
    have "slave_dispatch (?s\<lparr>sl_fd := fd, sl_status := STATUS_HEADER\<rparr>) =
        Inr (?s\<lparr>sl_fd := fd, sl_status := STATUS_HEADER, sl_queue := None\<rparr>, concat (map (sent_acts fd) (queue_list (sl_queue ?s))))"
      using slave_dispatch_ok [of "?s\<lparr>sl_fd := fd, sl_status := STATUS_HEADER\<rparr>"] q False by simp
    moreover have "sl_status ?s = STATUS_WAIT" "sl_read ?s = 0" using s False by (auto simp: slave_ok_def)
    ultimately show ?thesis
      using False sc q update_slave_ok [OF h, of "?s\<lparr>sl_fd := fd, sl_status := STATUS_HANDSHAKE\<rparr>" "nat i"]
        update_slave_ok [OF h, of "?s\<lparr>sl_fd := fd, sl_status := STATUS_HEADER, sl_queue := None\<rparr>" "nat i"]
      by (simp add: harbor_connect_def harbor_dispatch_queue_def Let_def slave_ok_def)
  qed
qed


text \<open>Inputs on which the callback may read or copy outside a buffer: packets, and commands of less than two bytes.\<close>

fun hostile :: "harbor_in \<Rightarrow> bool" where
  "hostile (Socket_in m) \<longleftrightarrow> sk_type m = SKYNET_SOCKET_TYPE_DATA"
| "hostile (Command_in msg) \<longleftrightarrow> length msg < 2"
| "hostile _ \<longleftrightarrow> False"

lemma push_socket_data_safe:
  assumes h: "harbor_ok h" and m: "sk_type m = SKYNET_SOCKET_TYPE_DATA"
  shows "push_socket_data R m h = Inl Out_of_bounds \<or> (\<exists>h' acts. push_socket_data R m h = Inr (h', acts) \<and> harbor_ok h')"
proof (cases "slave_of_fd (sk_id m) h")
  case None
  with h m show ?thesis by (simp add: push_socket_data_def)
next
  case (Some i)
  have "safe (hb_s h i) (push_loop R (hb_id h) i (hb_s h i) (sk_buffer m) [])"
    using h by (intro push_loop_safe) (simp add: harbor_ok_def)
  with Some h m show ?thesis
    by (auto simp: push_socket_data_def safe_def update_slave_ok)
qed

lemma harbor_command_safe:
  assumes "harbor_ok h" "roomy h"
  shows "harbor_command msg source h = Inl Out_of_bounds \<and> length msg < 2 \<or>
    (\<exists>h' acts. harbor_command msg source h = Inr (h', acts) \<and> harbor_ok h')"
proof (cases msg)
  case (Cons c rest)
  with assms update_name_safe [OF assms] harbor_connect_safe [OF assms(1)] show ?thesis
    by (auto simp: harbor_command_def Let_def)
qed (simp add: harbor_command_def)



section \<open>Behaviours the comments do not promise\<close>

text \<open>
  A frame whose length is less than that of the header: the header is read in front of
  the buffer.
\<close>

lemma short_frame_out_of_bounds:
  assumes "in_header s []" "length body < HEADER_COOKIE_LENGTH" "body \<noteq> []"
  shows "push_loop R hid i s (frame body) acts = Inl Out_of_bounds"
proof -
  have "reading s []" using assms(1) by (simp add: reading_def)
  then obtain s' where "push_loop R hid i s (frame body) acts =
      bindR (forward_local_messsage R hid (map Some body) acts) (\<lambda>acts. push_loop R hid i s' [] acts)"
    using push_frame [of s "[]" "frame body" body "[]" R hid i acts] assms(2,3) by (auto simp: HEADER_COOKIE_LENGTH_def)
  with assms(2) show ?thesis by (simp add: forward_local_messsage_def)
qed

text \<open>
  A connection that was closed for a protocol error keeps its descriptor: a message for
  the node is written to the closed descriptor, its source gets no error, and the node
  cannot connect again.
\<close>

lemma closed_link_not_reported:
  assumes "harbor_ok h" "sl_status (hb_s h k) = STATUS_DOWN" "int k \<noteq> hb_id h" "0 < k" "for_node k (source, session, r)"
  shows "\<exists>acts. mainloop R (System_in r) session source h = Inr (h, acts) \<and> sends acts = [] \<and>
      written (sl_fd (hb_s h k)) acts = frame (out_body (source, session, r))"
    and "scan_two args = (fd, int k) \<Longrightarrow> k < REMOTE_MAX \<Longrightarrow> fd \<noteq> 0 \<Longrightarrow>
      \<exists>t. harbor_connect c args h = Inr (h, [Logs t])"
proof -
  have fd: "sl_fd (hb_s h k) \<noteq> 0" using assms(1,2) by (auto simp: harbor_ok_def slave_ok_def)
  then have "connected k (sl_fd (hb_s h k)) h" using assms by (simp add: connected_def)
  from send_connected [OF this assms(5), of R "[]"]
  have "harbor_run R [out_event (source, session, r)] h =
      Inr (h, [Writes (sl_fd (hb_s h k)) (frame (out_body (source, session, r))), Frees (hm_buffer (out_msg (source, session, r)))])"
    by simp
  then have "mainloop R (System_in r) session source h =
      Inr (h, [Writes (sl_fd (hb_s h k)) (frame (out_body (source, session, r))), Frees (ro_message r)])"
    by (auto simp: res_simps split: prod.splits)
  then show "\<exists>acts. mainloop R (System_in r) session source h = Inr (h, acts) \<and> sends acts = [] \<and>
      written (sl_fd (hb_s h k)) acts = frame (out_body (source, session, r))" by simp
  show "scan_two args = (fd, int k) \<Longrightarrow> k < REMOTE_MAX \<Longrightarrow> fd \<noteq> 0 \<Longrightarrow> \<exists>t. harbor_connect c args h = Inr (h, [Logs t])"
    using fd assms(4) by (simp add: harbor_connect_def Let_def)
qed

text \<open>
  A name whose node has no connection yet: the messages that wait for the name move to
  the queue of the node as they are, without the handle of the service.
\<close>

lemma name_queue_loses_handle:
  assumes "kv_queue node = Some q" "k = unat (drop_bit HANDLE_REMOTE_SHIFT (kv_value node))"
    and "sl_fd (hb_s h k) = 0" "sl_status (hb_s h k) = STATUS_WAIT" "sl_queue (hb_s h k) = None"
    and "k \<noteq> unat (drop_bit HANDLE_REMOTE_SHIFT (hb_slave h))"
  shows "dispatch_name_queue h node =
    Inr (h\<lparr>hb_s := (hb_s h)(k := (hb_s h k)\<lparr>sl_queue := Some q\<rparr>)\<rparr>, node\<lparr>kv_queue := None\<rparr>, [])"
  using assms by (simp add: dispatch_name_queue_def Let_def)

end
