(* ===== verification/Spec2Isabelle.thy ===== *)
theory Spec2Isabelle
  imports Timer_Wheel Locks Messaging Refcount Command Gate_Safety Majiang_Rules Mj_Table Land_Deal Land_Table Land_Leads Land_Smaller
    Harbor_Safety
begin

text \<open>
  Verification of a game server: the kernel it runs on and the rules of its mahjong and card games.

  \<^bold>\<open>The program.\<close>  The server runs services that exchange messages.  Every service has a
  context with a reference count and a queue of messages; the queues with messages are
  linked in one global queue, from which worker threads take a queue, hand some of its
  messages to the callback of the service and put the queue back.  A table finds contexts
  by their number (handle) or name, a timing wheel sends a message when a time has come,
  modules are the shared objects whose functions are the callbacks, and services talk to
  the kernel in text commands.  The gate is the service that cuts the byte streams of
  clients into frames.  The harbor is the service that carries messages to other nodes over
  a connection to each of them.  The games are Lua services; the rules of mahjong and of the card game
  (three players, one of them against the other two) are in C++.

  \<^bold>\<open>The model.\<close>  Every theory models the C or C++ functions of the same names: a structure
  is a record, an operation is a function from the state to the new state.  What C leaves
  undefined or what ends the process (an assertion, a null or freed pointer, an index out
  of bounds, a signed overflow, a loop that does not end) is a value of \<open>c_error\<close>, so that
  a theorem that an operation gives \<open>Inr\<close> says that none of this happens.  Integers are
  words where they wrap around and integers with the range written out where they are signed.

  \<^item> \<open>Prelude\<close>: failures, checked access to arrays, conversions and remainders of C integers,
    loops with a bound.
  \<^item> \<open>Fifo\<close>, \<open>Message_Queue\<close> (\<^verbatim>\<open>skynet_mq.c\<close>): the ring buffer of a service with its growth,
    the overload warning, marking and releasing, and the global queue as a linked list.
    The locale \<open>bounded_fifo\<close> says what a queue promises; the ring buffer interprets it, and
    so does the ring of the harbor service.
  \<^item> \<open>Scheduler\<close> (\<^verbatim>\<open>skynet_mq.c\<close>, \<^verbatim>\<open>skynet_server.c\<close>): the operations on the queues as the
    steps of any number of threads, one step for each section under a lock.  No message is
    lost, a queue is in the hands of at most one worker, and no operation fails.
  \<^item> \<open>Timer\<close>, \<open>Timer_Wheel\<close> (\<^verbatim>\<open>skynet_timer.c\<close>): the wheel of one near array and four levels.
    It implements the specification that a timer fires at the tick at which it is due,
    also when the 32-bit time wraps around; the clock drives it tick by tick.
  \<^item> \<open>Locks\<close> (\<^verbatim>\<open>spinlock.h\<close>, \<^verbatim>\<open>rwlock.h\<close>): the locks as programs of atomic steps of any
    number of threads; mutual exclusion.
  \<^item> \<open>Cstring\<close>, \<open>Handle\<close> (\<^verbatim>\<open>skynet_handle.c\<close>): strings of bytes and printing and reading of
    numbers; the table of contexts with its rehashing and the sorted array of names.
    The locale \<open>first_wins\<close> is the contract of the names: the first binding stays.
  \<^item> \<open>Module\<close> (\<^verbatim>\<open>skynet_module.c\<close>): the search path and the table of modules.
  \<^item> \<open>Server\<close>, \<open>Messaging\<close>, \<open>Refcount\<close>, \<open>Command\<close> (\<^verbatim>\<open>skynet_server.c\<close>, \<^verbatim>\<open>skynet_harbor.c\<close>,
    \<^verbatim>\<open>skynet_monitor.c\<close>, \<^verbatim>\<open>skynet_env.c\<close>, \<^verbatim>\<open>skynet_error.c\<close>, \<^verbatim>\<open>skynet_log.c\<close>): the node as one
    state; sending, launching, retiring and dispatching; who holds references to a context;
    the text commands.
  \<^item> \<open>Hashid\<close>, \<open>Databuffer\<close>, \<open>Gate\<close>, \<open>Gate_Stream\<close>, \<open>Gate_Safety\<close> (\<^verbatim>\<open>hashid.h\<close>,
    \<^verbatim>\<open>databuffer.h\<close>, \<^verbatim>\<open>service_gate.c\<close>): the table of socket numbers, which the locale
    \<open>slot_table\<close> specifies, the buffers of connections, and all callbacks of the gate.
    The frames a client writes are forwarded as they are however the network cuts the
    stream, and no sequence of events makes the gate fail.
  \<^item> \<open>Harbor_Queue\<close>, \<open>Harbor\<close>, \<open>Harbor_Link\<close>, \<open>Harbor_Nodes\<close>, \<open>Harbor_Names\<close>, \<open>Harbor_Safety\<close>
    (\<^verbatim>\<open>service_harbor.c\<close>): the ring of waiting messages, all callbacks of the service, the
    frames between nodes.  What one node gets for another one, before or after the connection is
    there, the other node delivers once each and in order; messages to a name wait for its
    address; the table of names interprets the locale \<open>name_table\<close>; no event leaves the
    well-formed states, and which inputs make the code leave a buffer.
  \<^item> This theory: a message from a service of one node to a service of another, from
    \<^verbatim>\<open>skynet_send\<close> through both harbors.
  \<^item> \<open>Stdmap\<close>, \<open>Majiang\<close>, \<open>Majiang_Hands\<close>, \<open>Majiang_Rules\<close> (\<^verbatim>\<open>majiang.cpp\<close>): ordered maps;
    taking hands of tiles apart, the kinds of hands and their value.  The search finds
    exactly the ways to take a hand apart, and the best kind is the one that counts.
  \<^item> \<open>Mj_Table\<close> (\<^verbatim>\<open>mj_hupai_typ_compute.cpp\<close>): the enumeration of all winning combinations of
    a suit and the tables of combinations that lack some tiles.

  \<^item> \<open>Land_Cards\<close>, \<open>Land_Groups\<close>, \<open>Land_Deal\<close> (\<^verbatim>\<open>land/GameLogic.cpp\<close>): cards, sorting a hand in
    both orders, grouping it by value, removing cards, and the three ways of dealing.  Sorting
    keeps the cards and gives the order; every deal comes from one sequence of random choices.
  \<^item> \<open>Land_Types\<close>, \<open>Land_Plays\<close>: \<^verbatim>\<open>AnalyseOutCard\<close> and \<^verbatim>\<open>CompareCard\<close>.  The rules of the game are
    stated by how many cards of each value there are (\<open>plays\<close>, \<open>beats\<close>); the code decides them.
  \<^item> \<open>Land_Table\<close>: the state of the table.  The locale \<open>card_seats\<close> says that seats hold sets of
    cards; the arrays of \<^verbatim>\<open>CGameLogic\<close> interpret it.  Also the bombs of a hand and the duty to bid.
  \<^item> \<open>Land_Search\<close>, \<open>Land_Rows\<close>, \<open>Land_Carry\<close>, \<open>Land_Answers\<close>, \<open>Land_Leads\<close>, \<open>Land_Smaller\<close>: the
    plays offered to a player (\<^verbatim>\<open>SimplySearchResult\<close>, \<^verbatim>\<open>SearchAllLink\<close>, \<^verbatim>\<open>SearchSameCard\<close>,
    \<^verbatim>\<open>SearchSamllerResult\<close>).  Every answer beats the play it answers, every lead is a play, and
    there is always something to lead.

  \<^bold>\<open>Loops and bounds.\<close>  Loops over arrays and lists are structural recursions or functions
  with a termination proof.  A loop that may not end in C (a cyclic chain, a spinning
  lock, a search without a measure on its arguments) is a \<open>partial_function\<close> or a loop that
  gives \<open>Diverges\<close> after as many rounds as there are nodes; the theorems say that it returns.

  \<^bold>\<open>Parameters.\<close>  The code of services behind function pointers, the functions of shared
  objects, the clock, random numbers, the order \<^verbatim>\<open>std::sort\<close> gives to equal elements and the
  results of system calls are arguments of the definitions.
  Allocation is assumed to succeed.

  \<^bold>\<open>Not modelled.\<close>  The socket server and the start of the process (system calls), memory
  accounting, the Lua service and the logger, the libraries for Lua (bindings to the API of
  Lua), the computer players (floating-point weights and random choices;
  of the card game only the search for plays is modelled), generated tables, the game code in Lua and third-party code.
\<close>

section \<open>A message between two nodes\<close>

text \<open>
  The message of the kernel as the callback of the harbor service gets it: a pointer to
  a \<^verbatim>\<open>remote_message\<close>, whose \<^verbatim>\<open>message\<close> points to the data.
\<close>

definition system_message :: "server \<Rightarrow> skynet_message \<Rightarrow> remote_out res" where
  "system_message w m =
     bindR (deref (mem w) (msg_data m)) (\<lambda>d.
     case d of
       Bytes _ \<Rightarrow> Inl Bad_pointer
     | Remote r \<Rightarrow>
         bindR (if rm_message r = 0 then Inr [] else read_bytes (rm_message r) (rm_sz r) w) (\<lambda>bs.
         Inr \<lparr>ro_name = rm_name r, ro_handle = rm_handle r, ro_message = bs, ro_type = uint (rm_type r)\<rparr>))"

lemma uint_type_byte: "uint (t AND 0xff :: u64) < 256"
  using AND_upper2 [of 255 "uint t"] by (simp add: unsigned_and_eq)

text \<open>
  C15. A service of one node sends a message to a service of another node.  The kernel
  puts it into the queue of the harbor service; the harbor writes it to the connection;
  and, however its bytes are cut into packets, the harbor of the other node sends it to
  the service, with the source, type, session and data that the first service gave.
\<close>

theorem remote_message_arrives:
  assumes "srv_ok w xs B" "REMOTE w = Some c" "ctxs w c = Some ctx" "mqs w (c_queue ctx) = Some q"
    and "length (mq_list q) < mq_limit" "dest \<noteq> 0" "\<not> is_local w dest" "source \<noteq> 0" "sz AND MESSAGE_TYPE_MASK = sz"
    and "plain_type type" "type AND 0xff \<noteq> PTYPE_SYSTEM" "type AND 0xff \<noteq> PTYPE_HARBOR"
    and "mem w data = Some (Bytes bs)" "unat sz \<le> length bs"
    and "unat sz + HEADER_COOKIE_LENGTH < 2 ^ 24" "- (2 ^ 31) \<le> session" "session < 2 ^ 31"
    and "unat (drop_bit HANDLE_REMOTE_SHIFT dest) = k" "connected k fd a" "link_reads k fd' i b []"
    and "\<forall>acts call. 0 \<le> R' acts call"
  shows "\<exists>w' q' m r acts. skynet_send V sender source dest type session data sz w = Inr (session, w') \<and>
    mqs w' (c_queue ctx) = Some q' \<and> mq_list q' = mq_list q @ [m] \<and>
    drop_bit MESSAGE_TYPE_SHIFT (msg_sz m) = PTYPE_SYSTEM \<and> system_message w' m = Inr r \<and>
    mainloop R (System_in r) (msg_session m) (msg_source m) a = Inr (a, acts) \<and>
    (\<forall>chunks. concat chunks = written fd acts \<longrightarrow>
      (\<exists>b' acts'. harbor_run R' (map (packet fd') chunks) b = Inr (b', acts') \<and>
        sends acts' = [Sends source dest (uint (type AND 0xff) OR P_TAG_DONTCOPY) session (take (unat sz) bs)] \<and>
        link_reads k fd' i b' []))"
proof -
  obtain w' ys p r q' where s: "skynet_send V sender source dest type session data sz w = Inr (session, w')"
      "srv_ok w' ys B" "mqs w' (c_queue ctx) = Some q'"
      "mq_list q' = mq_list q @ [\<lparr>msg_source = source, msg_session = session, msg_data = r,
                                 msg_sz = sizeof_remote_message OR push_bit MESSAGE_TYPE_SHIFT PTYPE_SYSTEM\<rparr>]"
      "mem w' p = Some (Bytes (take (unat sz) bs @ [0]))"
      "mem w' r = Some (Remote \<lparr>rm_name = [], rm_handle = dest, rm_message = p, rm_sz = sz, rm_type = type AND 0xff\<rparr>)"
    using Messaging.send_remote [OF assms(1-14), of V sender session] by blast
  let ?m = "\<lparr>msg_source = source, msg_session = session, msg_data = r,
      msg_sz = sizeof_remote_message OR push_bit MESSAGE_TYPE_SHIFT PTYPE_SYSTEM\<rparr>"
  let ?r = "\<lparr>ro_name = [], ro_handle = dest, ro_message = take (unat sz) bs, ro_type = uint (type AND 0xff)\<rparr>"
  let ?o = "(source, session, ?r)"
  have "p \<noteq> 0" using s(2,5) unfolding srv_ok_def by (metis domI less_irrefl)
  then have r: "system_message w' ?m = Inr ?r"
    using s(5,6) assms(14) by (simp add: system_message_def read_bytes_def)
  have t: "drop_bit MESSAGE_TYPE_SHIFT (msg_sz ?m) = PTYPE_SYSTEM"
    by (simp add: MESSAGE_TYPE_SHIFT_def sizeof_remote_message_def PTYPE_SYSTEM_def)
  have fn: "for_node k ?o" using assms(14-18) uint_type_byte [of type] by simp
  let ?acts = "[Writes fd (frame (out_body ?o)), Frees (ro_message ?r)]"
  have a: "mainloop R (System_in ?r) session source a = Inr (a, ?acts)"
    using send_connected [OF assms(19) fn, of R "[]"] by (auto simp: res_simps simp del: out_body.simps)
  have "\<exists>b' acts'. harbor_run R' (map (packet fd') chunks) b = Inr (b', acts') \<and> sends acts' = [delivery ?o] \<and>
      link_reads k fd' i b' []" if c: "concat chunks = written fd ?acts" for chunks
  proof -
    obtain b' acts' p' ms1 ms2 where d: "harbor_run R' (map (packet fd') chunks) b = Inr (b', acts')"
        "sends acts' = map delivery ms1" "[?o] = ms1 @ ms2" "link_reads k fd' i b' p'" "p' = wire ms2"
      using packets_deliver [OF assms(20), of chunks "[]" "[?o]" R'] c fn assms(21) by auto
    have "ms2 = []"
      using d fn by (intro reading_wire [of "hb_s b' i" ms2 k]) (auto simp: link_reads_def append_eq_Cons_conv Cons_eq_append_conv)
    with d show ?thesis by (intro exI [of _ b'] exI [of _ acts']) auto
  qed
  with s(1,3,4) r t a show ?thesis
    by (intro exI [of _ w'] exI [of _ q'] exI [of _ ?m] exI [of _ ?r] exI [of _ ?acts]) simp
qed

text \<open>The harbors of the two nodes, connected.\<close>

definition harbor1 :: harbor where
  "harbor1 = harbor_create\<lparr>hb_id := 1, hb_slave := 0x1000002,
     hb_s := (\<lambda>_. empty_slave)(5 := empty_slave\<lparr>sl_fd := 7, sl_status := STATUS_HEADER\<rparr>)\<rparr>"

definition harbor5 :: harbor where
  "harbor5 = harbor_create\<lparr>hb_id := 5, hb_slave := 0x5000002,
     hb_s := (\<lambda>_. empty_slave)(1 := empty_slave\<lparr>sl_fd := 9, sl_status := STATUS_HEADER\<rparr>)\<rparr>"

lemma harbor5_reads: "link_reads 5 9 1 harbor5 []"
proof -
  have "[1..<256] = 1 # [2..<256::nat]" by (simp add: upt_conv_Cons)
  then show ?thesis
    by (simp add: link_reads_def slave_of_fd_def REMOTE_MAX_def harbor5_def reading_def in_header_def empty_slave_def)
qed

theorem remote_message_arrives_witness:
  "\<exists>w' q' m r acts. skynet_send idle_services None 9 0x5000007 10 77 1 2 one_service = Inr (77, w') \<and>
    mqs w' 0 = Some q' \<and> mq_list q' = [m] \<and>
    drop_bit MESSAGE_TYPE_SHIFT (msg_sz m) = PTYPE_SYSTEM \<and> system_message w' m = Inr r \<and>
    mainloop (\<lambda>_ _. 0) (System_in r) (msg_session m) (msg_source m) harbor1 = Inr (harbor1, acts) \<and>
    (\<forall>chunks. concat chunks = written 7 acts \<longrightarrow>
      (\<exists>b' acts'. harbor_run (\<lambda>_ _. 0) (map (packet 9) chunks) harbor5 = Inr (b', acts') \<and>
        sends acts' = [Sends 9 0x5000007 (uint (10 AND 0xff :: u64) OR P_TAG_DONTCOPY) 77 (take (unat (2 :: u64)) [1, 2, 3])] \<and>
        link_reads 5 9 1 b' []))"
proof -
  obtain ctx where c: "ctxs one_service 5 = Some ctx" "c_queue ctx = 0" by (simp add: one_service_def)
  have q: "mqs one_service (c_queue ctx) = Some (skynet_mq_new 2)" using c by (simp add: one_service_def)
  have fresh: "mq_list (skynet_mq_new 2) = []"
    by (simp add: mq_list_def skynet_mq_length_def skynet_mq_new_def)
  have "connected 5 7 harbor1" by (simp add: connected_def harbor1_def)
  note arrives = remote_message_arrives [OF one_service_ok _ c(1) q, where dest = "0x5000007" and source = 9 and type = 10 and
      session = 77 and data = 1 and sz = 2 and bs = "[1, 2, 3]" and k = 5 and R = "\<lambda>_ _. 0" and R' = "\<lambda>_ _. 0" and
      V = idle_services and sender = None, OF _ _ _ _ _ _ _ _ _ _ _ _ _ _ _ this harbor5_reads, unfolded fresh c(2) append_Nil]
  show ?thesis
    by (rule arrives)
      (simp_all add: mq_limit_def is_local_def one_service_def HANDLE_MASK_def HANDLE_REMOTE_SHIFT_def
        MESSAGE_TYPE_MASK_def mask_eq_exp_minus_1 plain_type_def HEADER_COOKIE_LENGTH_def
        PTYPE_TAG_DONTCOPY_def PTYPE_TAG_ALLOCSESSION_def PTYPE_SYSTEM_def PTYPE_HARBOR_def)
qed

end
